(* ===== verification/Prelude.thy ===== *)
theory Prelude
  imports Main "HOL-Library.Word" "HOL-Library.Multiset" "HOL-Library.Char_ord" "HOL-Library.List_Lexorder"
begin

text \<open>
  Shared vocabulary of the development: the model's types for Go bytes, strings and 64-bit
  integers, sequencing of fallible steps, and two generic pieces of theory that several
  components use through locales: a linear scan that keeps the best element seen so far
  (record selection, claim selection, eviction, cache eviction) and a transition system with
  an inductive invariant (the content index and its writers).
\<close>

unbundle bit_operations_syntax

section \<open>Types\<close>

type_synonym byte = "8 word"
type_synonym bytes = "8 word list"

text \<open>A Go string is a sequence of bytes; \<open>char\<close> is an 8-bit character, so \<open>string\<close> is one too.\<close>

definition bytes_of_string :: "string \<Rightarrow> bytes" where
  "bytes_of_string s = map of_char s"

definition string_of_bytes :: "bytes \<Rightarrow> string" where
  "string_of_bytes b = map (\<lambda>w. char_of (unat w)) b"

lemma length_bytes_of_string [simp]: "length (bytes_of_string s) = length s"
  by (simp add: bytes_of_string_def)

lemma length_string_of_bytes [simp]: "length (string_of_bytes b) = length b"
  by (simp add: string_of_bytes_def)

lemma bytes_of_string_append [simp]:
  "bytes_of_string (s @ t) = bytes_of_string s @ bytes_of_string t"
  by (simp add: bytes_of_string_def)

lemma of_char_less_256: "(of_char c :: nat) < 256"
  by (cases c) simp

lemma byte_card: "(2::nat) ^ LENGTH(8) = 256"
  by simp

lemma unat_of_char [simp]: "unat (of_char c :: byte) = of_char c"
proof -
  have "unat (of_nat (of_char c) :: byte) = of_char c"
    using of_char_less_256 [of c] by (simp only: unat_of_nat byte_card mod_less)
  then show ?thesis by (simp only: of_nat_of_char)
qed

lemma string_of_bytes_of_string [simp]: "string_of_bytes (bytes_of_string s) = s"
  by (induction s) (simp_all add: bytes_of_string_def string_of_bytes_def)

lemma bytes_of_string_inj [simp]: "bytes_of_string s = bytes_of_string t \<longleftrightarrow> s = t"
  by (metis string_of_bytes_of_string)

section \<open>Signed 64-bit arithmetic\<close>

text \<open>Go's \<open>int\<close> and \<open>int64\<close> wrap around: the value of a sum is its representative in
  \<open>[-2^63, 2^63)\<close>.\<close>

definition int64 :: "int \<Rightarrow> int" where
  "int64 x = (x + 2 ^ 63) mod 2 ^ 64 - 2 ^ 63"

lemma int64_id: "- (2 ^ 63) \<le> x \<Longrightarrow> x < 2 ^ 63 \<Longrightarrow> int64 x = x"
  by (simp add: int64_def)

lemma int64_range: "- (2 ^ 63) \<le> int64 x \<and> int64 x < 2 ^ 63"
  by (simp add: int64_def)

lemma int64_overflow: "2 ^ 63 \<le> x \<Longrightarrow> x < 2 ^ 63 + 2 ^ 64 \<Longrightarrow> int64 x = x - 2 ^ 64"
proof -
  assume a: "2 ^ 63 \<le> x" "x < 2 ^ 63 + 2 ^ 64"
  have "(x + 2 ^ 63) mod 2 ^ 64 = (x + 2 ^ 63 - 2 ^ 64) mod 2 ^ 64"
    by (rule minus_mod_self2 [symmetric])
  also have "\<dots> = x + 2 ^ 63 - 2 ^ 64"
    using a by (intro mod_pos_pos_trivial) simp_all
  finally show ?thesis by (simp add: int64_def)
qed

section \<open>Sequencing of fallible steps\<close>

text \<open>\<open>Inl e\<close> is an early return with error \<open>e\<close>; \<open>bindR\<close> continues with the result otherwise.\<close>

definition bindR :: "'e + 'a \<Rightarrow> ('a \<Rightarrow> 'e + 'b) \<Rightarrow> 'e + 'b" where
  "bindR m f = (case m of Inl e \<Rightarrow> Inl e | Inr x \<Rightarrow> f x)"

lemma bindR_simps [simp]: "bindR (Inl e) f = Inl e" "bindR (Inr x) f = f x"
  by (simp_all add: bindR_def)

lemma bindR_Inr_iff: "bindR m f = Inr y \<longleftrightarrow> (\<exists>x. m = Inr x \<and> f x = Inr y)"
  by (cases m) auto

lemma bindR_Inl_iff: "bindR m f = Inl e \<longleftrightarrow> m = Inl e \<or> (\<exists>x. m = Inr x \<and> f x = Inl e)"
  by (cases m) auto

text \<open>Wrapping the error of a step leaves its successful results alone.\<close>

lemma wrapErr_Inr [simp]: "(case m of Inl e \<Rightarrow> Inl (f e) | Inr x \<Rightarrow> Inr x) = Inr y \<longleftrightarrow> m = Inr y"
  by (cases m) auto

definition isOk :: "'e + 'a \<Rightarrow> bool" where
  "isOk m = (case m of Inl _ \<Rightarrow> False | Inr _ \<Rightarrow> True)"

lemma isOk_simps [simp]: "isOk (Inl e) = False" "isOk (Inr x) = True"
  by (simp_all add: isOk_def)

section \<open>Best-so-far scan\<close>

text \<open>
  The loop shape \<open>for x in xs { if best == none || better(x, best) { best = x } }\<close>, which the
  code uses to select a record, a claim, an eviction victim and a cache victim.
\<close>

fun scanBest :: "('a \<Rightarrow> 'a \<Rightarrow> bool) \<Rightarrow> 'a option \<Rightarrow> 'a list \<Rightarrow> 'a option" where
  "scanBest better best [] = best"
| "scanBest better best (x # xs) =
     scanBest better
       (case best of None \<Rightarrow> Some x | Some b \<Rightarrow> if better x b then Some x else Some b) xs"

lemma scanBest_None_iff [simp]: "scanBest better b xs = None \<longleftrightarrow> b = None \<and> xs = []"
  by (induction xs arbitrary: b) (auto split: option.splits)

lemma scanBest_mem: "scanBest better b xs = Some r \<Longrightarrow> b = Some r \<or> r \<in> set xs"
  by (induction xs arbitrary: b) (fastforce split: option.splits if_splits)+

lemma scanBest_append:
  "scanBest better b (xs @ ys) = scanBest better (scanBest better b xs) ys"
  by (induction xs arbitrary: b) auto

locale best_scan =
  fixes better :: "'a \<Rightarrow> 'a \<Rightarrow> bool"
  assumes asym: "better x y \<Longrightarrow> \<not> better y x"
    and neg_trans: "\<not> better x y \<Longrightarrow> \<not> better y z \<Longrightarrow> \<not> better x z"
begin

lemma irrefl: "\<not> better x x"
  using asym by blast

lemma scan_maximal_acc:
  "scanBest better (Some b) xs = Some r \<Longrightarrow> \<not> better b r \<and> (\<forall>x \<in> set xs. \<not> better x r)"
proof (induction xs arbitrary: b)
  case Nil
  then show ?case by (simp add: irrefl)
next
  case (Cons x xs)
  show ?case
  proof (cases "better x b")
    case True
    with Cons.prems have "scanBest better (Some x) xs = Some r" by simp
    from Cons.IH [OF this] have r: "\<not> better x r" "\<forall>y \<in> set xs. \<not> better y r" by auto
    from True have "\<not> better b x" by (rule asym)
    with r(1) have "\<not> better b r" using neg_trans by blast
    with r show ?thesis by simp
  next
    case False
    with Cons.prems have "scanBest better (Some b) xs = Some r" by simp
    from Cons.IH [OF this] have r: "\<not> better b r" "\<forall>y \<in> set xs. \<not> better y r" by auto
    from False r(1) have "\<not> better x r" using neg_trans by blast
    with r show ?thesis by simp
  qed
qed

text \<open>Whatever the order of the input, the scan ends on an element nothing in it beats.\<close>

lemma scan_maximal:
  "scanBest better None xs = Some r \<Longrightarrow> r \<in> set xs \<and> (\<forall>x \<in> set xs. \<not> better x r)"
proof (cases xs)
  case (Cons y ys)
  moreover assume r: "scanBest better None xs = Some r"
  ultimately have "scanBest better (Some y) ys = Some r" by simp
  from scan_maximal_acc [OF this] Cons show ?thesis
    using scanBest_mem [OF r] by auto
qed simp

text \<open>With a total order the result does not depend on the order of the input.\<close>

lemma scan_set_unique:
  assumes tot: "\<And>x y. x \<in> set xs \<Longrightarrow> y \<in> set xs \<Longrightarrow> \<not> better x y \<Longrightarrow> \<not> better y x \<Longrightarrow> x = y"
    and eq: "set xs = set ys"
  shows "scanBest better None xs = scanBest better None ys"
proof (cases "scanBest better None xs")
  case None
  with eq show ?thesis by simp
next
  case (Some r)
  then have "ys \<noteq> []" using eq by (cases xs) auto
  then obtain s where s: "scanBest better None ys = Some s"
    by (cases "scanBest better None ys") auto
  from scan_maximal [OF Some] scan_maximal [OF s] tot eq have "r = s" by blast
  with Some s show ?thesis by simp
qed

end

section \<open>Transition systems\<close>

inductive reach :: "('s \<Rightarrow> 'l \<Rightarrow> 's \<Rightarrow> bool) \<Rightarrow> 's \<Rightarrow> 's \<Rightarrow> bool" for step where
  reach_refl: "reach step s s"
| reach_step: "reach step s t \<Longrightarrow> step t l u \<Longrightarrow> reach step s u"

locale transition_system =
  fixes step :: "'s \<Rightarrow> 'l \<Rightarrow> 's \<Rightarrow> bool" and inv :: "'s \<Rightarrow> bool"
  assumes preserve: "inv s \<Longrightarrow> step s l t \<Longrightarrow> inv t"
begin

lemma reach_inv: "reach step s t \<Longrightarrow> inv s \<Longrightarrow> inv t"
  by (induction rule: reach.induct) (auto intro: preserve)

text \<open>A fact about one step, proved under the invariant, transfers along every run.\<close>

lemma reach_induct_inv:
  assumes r: "reach step s t" and i: "inv s" and P: "P s"
    and st: "\<And>u l v. inv u \<Longrightarrow> P u \<Longrightarrow> step u l v \<Longrightarrow> P v"
  shows "P t"
  using r i P by (induction rule: reach.induct) (auto intro: st reach_inv)

end

section \<open>Generic lemmas\<close>

named_theorems codec_simps \<open>equations that run a decoder over an encoding\<close>

lemma take_append_exact [simp]: "n = length xs \<Longrightarrow> take n (xs @ ys) = xs"
  by simp

lemma drop_append_exact [simp]: "n = length xs \<Longrightarrow> drop n (xs @ ys) = ys"
  by simp

end
