(* ===== verification/GoStrings.thy ===== *)
theory GoStrings
  imports Prelude
begin

text \<open>
  The functions of Go's \<open>strings\<close> package that the program uses, on byte strings, with the
  equations relating them (splitting and joining, suffixes, case mapping).
\<close>

definition hasPrefix :: "'a list \<Rightarrow> 'a list \<Rightarrow> bool" where
  "hasPrefix s p \<longleftrightarrow> take (length p) s = p"

definition hasSuffix :: "'a list \<Rightarrow> 'a list \<Rightarrow> bool" where
  "hasSuffix s suf \<longleftrightarrow> length suf \<le> length s \<and> drop (length s - length suf) s = suf"

definition trimSuffix :: "'a list \<Rightarrow> 'a list \<Rightarrow> 'a list" where
  "trimSuffix s suf = (if hasSuffix s suf then take (length s - length suf) s else s)"

definition trimPrefix :: "'a list \<Rightarrow> 'a list \<Rightarrow> 'a list" where
  "trimPrefix s p = (if hasPrefix s p then drop (length p) s else s)"

fun containsStr :: "'a list \<Rightarrow> 'a list \<Rightarrow> bool" where
  "containsStr [] p \<longleftrightarrow> p = []"
| "containsStr (x # xs) p \<longleftrightarrow> hasPrefix (x # xs) p \<or> containsStr xs p"

text \<open>\<open>strings.Split(s, sep)\<close> and \<open>strings.Join\<close> for a one-byte separator.\<close>

fun splitOn :: "'a \<Rightarrow> 'a list \<Rightarrow> 'a list list" where
  "splitOn c [] = [[]]"
| "splitOn c (x # xs) =
     (if x = c then [] # splitOn c xs
      else (case splitOn c xs of [] \<Rightarrow> [[x]] | p # ps \<Rightarrow> (x # p) # ps))"

fun joinWith :: "'a \<Rightarrow> 'a list list \<Rightarrow> 'a list" where
  "joinWith c [] = []"
| "joinWith c [p] = p"
| "joinWith c (p # q # ps) = p @ c # joinWith c (q # ps)"

text \<open>\<open>strings.ToLower\<close> maps ASCII strings byte by byte; any other string goes through the Unicode
  tables, which are the parameter \<open>uni\<close>.\<close>

definition isASCII :: "string \<Rightarrow> bool" where
  "isASCII s \<longleftrightarrow> (\<forall>c \<in> set s. of_char c < (128 :: nat))"

definition lowerChar :: "char \<Rightarrow> char" where
  "lowerChar c = (if CHR ''A'' \<le> c \<and> c \<le> CHR ''Z'' then char_of (of_char c + 32 :: nat) else c)"

definition toLower :: "(string \<Rightarrow> string) \<Rightarrow> string \<Rightarrow> string" where
  "toLower uni s = (if isASCII s then map lowerChar s else uni s)"

section \<open>Splitting and joining\<close>

text \<open>Up to the first occurrence of a character.\<close>

lemma takeWhile_upto: "c \<notin> set t \<Longrightarrow> takeWhile (\<lambda>d. d \<noteq> c) (t @ c # s) = t"
  by (induction t) auto

lemma dropWhile_upto: "c \<notin> set t \<Longrightarrow> dropWhile (\<lambda>d. d \<noteq> c) (t @ c # s) = c # s"
  by (induction t) auto

lemma splitOn_nonempty [simp]: "splitOn c s \<noteq> []"
  by (induction s) (auto split: list.splits)

lemma joinWith_Cons_nonempty: "ps \<noteq> [] \<Longrightarrow> joinWith c (p # ps) = p @ c # joinWith c ps"
  by (cases ps) auto

lemma joinWith_splitOn [simp]: "joinWith c (splitOn c s) = s"
proof (induction s)
  case (Cons x xs)
  then show ?case
    by (cases "splitOn c xs"; cases "tl (splitOn c xs)")
      (auto simp: joinWith_Cons_nonempty split: list.splits)
qed simp

lemma splitOn_no_sep: "p \<in> set (splitOn c s) \<Longrightarrow> c \<notin> set p"
  by (induction s arbitrary: p) (auto split: if_splits list.splits)

lemma splitOn_append_sep: "splitOn c (s @ c # t) = splitOn c s @ splitOn c t"
  by (induction s) (auto split: list.splits)

lemma splitOn_single: "c \<notin> set s \<Longrightarrow> splitOn c s = [s]"
  by (induction s) auto

lemma splitOn_joinWith: "ps \<noteq> [] \<Longrightarrow> \<forall>p \<in> set ps. c \<notin> set p \<Longrightarrow> splitOn c (joinWith c ps) = ps"
proof (induction ps rule: joinWith.induct)
  case (3 c p q ps)
  then show ?case by (simp add: splitOn_append_sep splitOn_single)
qed (auto simp: splitOn_single)

lemma set_splitOn: "p \<in> set (splitOn c s) \<Longrightarrow> set p \<subseteq> set s"
proof (induction s arbitrary: p)
  case (Cons x xs)
  then show ?case
  proof (cases "x = c")
    case False
    obtain q qs where q: "splitOn c xs = q # qs" by (cases "splitOn c xs") auto
    with Cons.prems False have "p = x # q \<or> p \<in> set qs" by auto
    moreover have "set q \<subseteq> set xs" and "\<And>r. r \<in> set qs \<Longrightarrow> set r \<subseteq> set xs"
      using Cons.IH q by auto
    ultimately show ?thesis by fastforce
  qed (use Cons in fastforce)
qed simp

section \<open>Prefixes and suffixes\<close>

lemma hasSuffix_append [simp]: "hasSuffix (s @ suf) suf"
  by (simp add: hasSuffix_def)

lemma hasSuffix_iff: "hasSuffix s suf \<longleftrightarrow> (\<exists>p. s = p @ suf)"
  by (auto simp: hasSuffix_def) (metis append_take_drop_id)

lemma hasSuffix_single: "hasSuffix s [c] \<longleftrightarrow> s \<noteq> [] \<and> last s = c"
  by (auto simp: hasSuffix_iff) (metis append_butlast_last_id)

lemma trimSuffix_append [simp]: "trimSuffix (s @ suf) suf = s"
  by (simp add: trimSuffix_def)

lemma hasPrefix_iff: "hasPrefix s p \<longleftrightarrow> (\<exists>t. s = p @ t)"
  by (auto simp: hasPrefix_def) (metis append_take_drop_id)

lemma hasPrefix_append [simp]: "hasPrefix (p @ t) p"
  by (simp add: hasPrefix_def)

lemma trimPrefix_append [simp]: "trimPrefix (p @ t) p = t"
  by (simp add: trimPrefix_def)

lemma containsStr_single: "containsStr s [c] \<longleftrightarrow> c \<in> set s"
  by (induction s) (auto simp: hasPrefix_def)

lemma containsStr_iff: "containsStr s p \<longleftrightarrow> (\<exists>a b. s = a @ p @ b)"
proof (induction s)
  case (Cons x xs)
  show ?case
  proof
    assume "containsStr (x # xs) p"
    then consider "hasPrefix (x # xs) p" | "containsStr xs p" by auto
    then show "\<exists>a b. x # xs = a @ p @ b"
    proof cases
      case 1
      then show ?thesis by (metis append_Nil hasPrefix_iff)
    next
      case 2
      with Cons show ?thesis by (metis append_Cons)
    qed
  next
    assume "\<exists>a b. x # xs = a @ p @ b"
    then obtain a b where ab: "x # xs = a @ p @ b" by blast
    show "containsStr (x # xs) p"
    proof (cases a)
      case Nil
      with ab have "hasPrefix (x # xs) p" by (simp only: append_Nil hasPrefix_append)
      then show ?thesis by (simp only: containsStr.simps simp_thms)
    next
      case (Cons y ys)
      with ab Cons.IH show ?thesis by auto
    qed
  qed
qed auto

section \<open>Case mapping\<close>

lemma lowerChar_lower: "\<not> (CHR ''A'' \<le> c \<and> c \<le> CHR ''Z'') \<Longrightarrow> lowerChar c = c"
  by (auto simp: lowerChar_def)

lemma toLower_id:
  "isASCII s \<Longrightarrow> \<forall>c \<in> set s. \<not> (CHR ''A'' \<le> c \<and> c \<le> CHR ''Z'') \<Longrightarrow> toLower uni s = s"
  by (simp add: toLower_def lowerChar_lower map_idI)

definition alnumLower :: "char \<Rightarrow> bool" where
  "alnumLower c \<longleftrightarrow> CHR ''a'' \<le> c \<and> c \<le> CHR ''z'' \<or> CHR ''0'' \<le> c \<and> c \<le> CHR ''9''"

text \<open>Characters that case mapping, splitting and name parsing leave alone.\<close>

definition nameChar :: "char \<Rightarrow> bool" where
  "nameChar c \<longleftrightarrow> alnumLower c \<or> c = CHR ''-'' \<or> c = CHR ''.'' \<or> c = CHR ''_''"

lemma nameChar_facts:
  assumes "nameChar c"
  shows "of_char c < (128 :: nat)" and "\<not> (CHR ''A'' \<le> c \<and> c \<le> CHR ''Z'')"
  using assms by (auto simp: nameChar_def alnumLower_def less_eq_char_def)

lemma toLower_nameChars: "\<forall>c \<in> set s. nameChar c \<Longrightarrow> toLower uni s = s"
  by (rule toLower_id) (auto simp: isASCII_def nameChar_facts)

end
