(* ===== verification/Content.thy ===== *)
theory Content
  imports GoStrings
begin

text \<open>
  \<open>internal/content/content.go\<close>: content addresses, the content-addressed blob store and chunk
  manifests. SHA-256, multihash and base36 are other packages' functions (the record
  \<open>hashlib\<close>); \<open>encoding/json\<close> of a manifest is the pair of functions \<open>manifestJson\<close>. The store is
  the map from file names to contents of its directory, with a flag that says whether the file
  system accepts writes.
\<close>

section \<open>Content addresses\<close>

record hashlib =
  hSha256 :: "bytes \<Rightarrow> bytes"
  mhEncode :: "bytes \<Rightarrow> nat \<Rightarrow> bytes option"
  mhSum :: "bytes \<Rightarrow> nat \<Rightarrow> bytes option"
  mhDecode :: "bytes \<Rightarrow> (nat \<times> bytes) option"
  b36Encode :: "bytes \<Rightarrow> string"
  b36Decode :: "string \<Rightarrow> bytes option"

text \<open>The documented behaviour of those packages: a SHA-256 digest has 32 bytes, multihash and
  base36 encodings decode to what was encoded, \<open>Sum\<close> is the multihash of the digest, and base36 writes digits and lower-case letters.\<close>

definition hashlib_ok :: "hashlib \<Rightarrow> bool" where
  "hashlib_ok H \<longleftrightarrow>
     (\<forall>d. length (hSha256 H d) = 32) \<and>
     (\<forall>dig. length dig = 32 \<longrightarrow> (\<exists>h. mhEncode H dig 0x12 = Some h \<and> h \<noteq> [] \<and> mhDecode H h = Some (0x12, dig))) \<and>
     (\<forall>d. mhSum H d 0x12 = mhEncode H (hSha256 H d) 0x12) \<and>
     (\<forall>b. b36Decode H (b36Encode H b) = Some b) \<and>
     (\<forall>b. list_all alnumLower (b36Encode H b)) \<and>
     (\<forall>b. b \<noteq> [] \<longrightarrow> b36Encode H b \<noteq> [])"

datatype contentErr =
    ErrBlobTooLarge | ErrContentTooLarge | ErrBlobNotFound | ErrInvalidHash string | ErrIO | ErrMultihash | ErrManifest

definition SHA2_256 :: nat where "SHA2_256 = 0x12"

definition ContentHash :: "hashlib \<Rightarrow> bytes \<Rightarrow> contentErr + string" where
  "ContentHash H data =
     (case mhEncode H (hSha256 H data) SHA2_256 of
        None \<Rightarrow> Inl ErrMultihash
      | Some h \<Rightarrow> Inr (b36Encode H h))"

definition IsContentHash :: "hashlib \<Rightarrow> string \<Rightarrow> bool" where
  "IsContentHash H s =
     (case b36Decode H s of None \<Rightarrow> False
      | Some raw \<Rightarrow> (case mhDecode H raw of None \<Rightarrow> False
         | Some (code, digest) \<Rightarrow> code = SHA2_256 \<and> length digest = 32))"

lemma ContentHash_ok: "hashlib_ok H \<Longrightarrow> \<exists>h. ContentHash H d = Inr h \<and> IsContentHash H h"
  by (auto simp: hashlib_ok_def ContentHash_def IsContentHash_def SHA2_256_def split: option.splits)
    (metis option.distinct(1) option.sel prod.sel fst_conv snd_conv)+

section \<open>The blob store\<close>

definition MaxBlobSize :: nat where "MaxBlobSize = 32 * 2 ^ 20"
definition ChunkSizeC :: nat where "ChunkSizeC = 8 * 2 ^ 20"
definition MaxContentSize :: nat where "MaxContentSize = 2 ^ 30"
definition MaxManifestChunks :: nat where "MaxManifestChunks = MaxContentSize div ChunkSizeC"

record blobStore =
  files :: "string \<rightharpoonup> bytes"
  writable :: bool

definition storeHas :: "hashlib \<Rightarrow> blobStore \<Rightarrow> string \<Rightarrow> bool" where
  "storeHas H st hash \<longleftrightarrow> IsContentHash H hash \<and> files st hash \<noteq> None"

definition storePut :: "hashlib \<Rightarrow> blobStore \<Rightarrow> bytes \<Rightarrow> (contentErr + string) \<times> blobStore" where
  "storePut H st data =
     (if length data > MaxBlobSize then (Inl ErrBlobTooLarge, st)
      else case ContentHash H data of
        Inl e \<Rightarrow> (Inl e, st)
      | Inr hash \<Rightarrow>
          if storeHas H st hash then (Inr hash, st)
          else if \<not> writable st then (Inl ErrIO, st)
          else (Inr hash, st\<lparr>files := (files st)(hash \<mapsto> data)\<rparr>))"

definition storeGet :: "hashlib \<Rightarrow> blobStore \<Rightarrow> string \<Rightarrow> contentErr + bytes" where
  "storeGet H st hash =
     (if \<not> IsContentHash H hash then Inl (ErrInvalidHash hash)
      else case files st hash of None \<Rightarrow> Inl ErrBlobNotFound | Some data \<Rightarrow> Inr data)"

definition storeDelete :: "hashlib \<Rightarrow> blobStore \<Rightarrow> string \<Rightarrow> (contentErr + unit) \<times> blobStore" where
  "storeDelete H st hash =
     (if \<not> IsContentHash H hash then (Inl (ErrInvalidHash hash), st)
      else if files st hash = None then (Inr (), st)
      else if \<not> writable st then (Inl ErrIO, st)
      else (Inr (), st\<lparr>files := (files st)(hash := None)\<rparr>))"

definition storeOpen :: "hashlib \<Rightarrow> blobStore \<Rightarrow> string \<Rightarrow> contentErr + bytes \<times> int" where
  "storeOpen H st hash =
     (if \<not> IsContentHash H hash then Inl (ErrInvalidHash hash)
      else case files st hash of None \<Rightarrow> Inl ErrBlobNotFound
           | Some data \<Rightarrow> Inr (data, int (length data)))"

text \<open>\<open>os.ReadDir\<close> lists the directory sorted by file name.\<close>

definition storeList :: "hashlib \<Rightarrow> blobStore \<Rightarrow> string list" where
  "storeList H st = filter (IsContentHash H) (sorted_list_of_set (dom (files st)))"

section \<open>Chunk manifests\<close>

record chunkManifest =
  TotalSize :: int
  ChunkSize :: int
  mChunks :: "string list"

record manifestJson =
  jsonEncode :: "chunkManifest \<Rightarrow> bytes option"
  jsonDecode :: "bytes \<Rightarrow> chunkManifest option"

definition manifestMagic :: bytes where
  "manifestMagic = bytes_of_string ''freedom-names/manifest@1'' @ [10]"

definition ChunkLen :: "chunkManifest \<Rightarrow> nat \<Rightarrow> int" where
  "ChunkLen m i =
     (if int i = int (length (mChunks m)) - 1
      then TotalSize m - (int (length (mChunks m)) - 1) * ChunkSize m
      else ChunkSize m)"

definition EncodeManifest :: "manifestJson \<Rightarrow> chunkManifest \<Rightarrow> contentErr + bytes" where
  "EncodeManifest J m =
     (case jsonEncode J m of None \<Rightarrow> Inl ErrManifest | Some body \<Rightarrow> Inr (manifestMagic @ body))"

definition DecodeManifest :: "hashlib \<Rightarrow> manifestJson \<Rightarrow> bytes \<Rightarrow> chunkManifest option" where
  "DecodeManifest H J data =
     (if \<not> hasPrefix data manifestMagic then None
      else case jsonDecode J (drop (length manifestMagic) data) of None \<Rightarrow> None
      | Some m \<Rightarrow>
         (let n = int (length (mChunks m)) in
          if ChunkSize m < 1 \<or> ChunkSize m > int MaxBlobSize then None
          else if n < 2 \<or> n > int MaxManifestChunks then None
          else if TotalSize m > int MaxContentSize \<or> TotalSize m \<le> (n - 1) * ChunkSize m
                  \<or> TotalSize m > n * ChunkSize m then None
          else if list_all (IsContentHash H) (mChunks m) then Some m else None))"

section \<open>A concrete hash library\<close>

text \<open>A library with the documented behaviour, small enough to evaluate: the digest is the input
  cut or padded to 32 bytes, the multihash header is the code and the length, and the text form
  writes each byte as two letters.\<close>

definition nibble :: "nat \<Rightarrow> char" where
  "nibble n = char_of (97 + n)"

definition unnibble :: "char \<Rightarrow> nat" where
  "unnibble c = of_char c - 97"

fun letters :: "bytes \<Rightarrow> string" where
  "letters [] = []"
| "letters (b # bs) = nibble (unat b div 16) # nibble (unat b mod 16) # letters bs"

fun unletters :: "string \<Rightarrow> bytes option" where
  "unletters [] = Some []"
| "unletters [c] = None"
| "unletters (c # d # cs) =
     map_option (\<lambda>bs. of_nat (16 * unnibble c + unnibble d) # bs) (unletters cs)"

definition demoHashlib :: hashlib where
  "demoHashlib =
     \<lparr>hSha256 = (\<lambda>d. take 32 (d @ replicate 32 0)),
      mhEncode = (\<lambda>dig code. Some (of_nat code # of_nat (length dig) # dig)),
      mhSum = (\<lambda>d code. Some (of_nat code # 32 # take 32 (d @ replicate 32 0))),
      mhDecode = (\<lambda>h. case h of
           c # n # dig \<Rightarrow> (if unat n = length dig then Some (unat c, dig) else None)
         | _ \<Rightarrow> None),
      b36Encode = letters,
      b36Decode = unletters\<rparr>"

lemma unnibble_nibble: "n < 16 \<Longrightarrow> unnibble (nibble n) = n"
  by (simp add: nibble_def unnibble_def)

lemma alnumLower_nibble: "n < 16 \<Longrightarrow> alnumLower (nibble n)"
  by (auto simp: nibble_def alnumLower_def less_eq_char_def)

lemma unletters_letters: "unletters (letters b) = Some b"
proof (induction b)
  case (Cons x xs)
  have "unat x div 16 < 16" using unsigned_less [of x, where ?'a = nat] by simp
  then have "16 * unnibble (nibble (unat x div 16)) + unnibble (nibble (unat x mod 16)) = unat x"
    by (simp add: unnibble_nibble)
  then have "word_of_nat (16 * unnibble (nibble (unat x div 16)) + unnibble (nibble (unat x mod 16))) = x"
    by (simp only: of_nat_unat) simp
  with Cons show ?case by simp
qed simp

lemma letters_alnum: "list_all alnumLower (letters b)"
proof (induction b)
  case (Cons x xs)
  have "unat x div 16 < 16" using unsigned_less [of x, where ?'a = nat] by simp
  with Cons show ?case by (simp add: alnumLower_nibble)
qed simp

lemma demoHashlib_ok: "hashlib_ok demoHashlib"
proof -
  have "b \<noteq> [] \<Longrightarrow> letters b \<noteq> []" for b by (cases b) simp_all
  moreover have "min (length d) 32 + (32 - length d) = 32" for d :: bytes by simp
  ultimately show ?thesis
    by (simp add: hashlib_ok_def demoHashlib_def unletters_letters letters_alnum)
qed

section \<open>A content-addressed store\<close>

text \<open>
  What the content layer's clients rely on: whatever is read under an address hashes to that
  address, a successful \<open>Put\<close> leaves its bytes readable, and \<open>Put\<close> never disturbs another blob.
\<close>

locale content_store =
  fixes ok :: "'s \<Rightarrow> bool" and addr :: "bytes \<Rightarrow> 'h \<Rightarrow> bool"
    and get :: "'s \<Rightarrow> 'h \<Rightarrow> bytes option" and put :: "'s \<Rightarrow> bytes \<Rightarrow> 'h option \<times> 's"
  assumes get_addr: "ok s \<Longrightarrow> get s h = Some d \<Longrightarrow> addr d h"
    and put_ok: "ok s \<Longrightarrow> put s d = (r, s') \<Longrightarrow> ok s'"
    and put_get: "ok s \<Longrightarrow> put s d = (Some h, s') \<Longrightarrow> addr d h \<and> get s' h \<noteq> None"
    and put_mono: "ok s \<Longrightarrow> put s d = (r, s') \<Longrightarrow> get s h = Some e \<Longrightarrow> get s' h = Some e"
begin

text \<open>Storing a list of pieces, stopping at the first failure.\<close>

fun putAll :: "'s \<Rightarrow> bytes list \<Rightarrow> 'h list option \<times> 's" where
  "putAll s [] = (Some [], s)"
| "putAll s (d # ds) =
     (case put s d of
        (None, s') \<Rightarrow> (None, s')
      | (Some h, s') \<Rightarrow>
          (case putAll s' ds of (r, s'') \<Rightarrow> (map_option ((#) h) r, s'')))"

lemma putAll_keeps:
  "ok s \<Longrightarrow> putAll s ds = (r, s') \<Longrightarrow> ok s' \<and> (\<forall>h e. get s h = Some e \<longrightarrow> get s' h = Some e)"
proof (induction ds arbitrary: s r s')
  case (Cons d ds)
  obtain p t where p: "put s d = (p, t)" by fastforce
  note t = put_ok [OF Cons.prems(1) p] put_mono [OF Cons.prems(1) p]
  show ?case
  proof (cases p)
    case None
    with p Cons.prems(2) t show ?thesis by auto
  next
    case (Some h)
    obtain q u where q: "putAll t ds = (q, u)" by fastforce
    with p Some Cons.prems(2) have "s' = u" by simp
    with Cons.IH [OF t(1) q] t show ?thesis by blast
  qed
qed simp

lemma putAll_reads_back:
  "ok s \<Longrightarrow> putAll s ds = (Some hs, s') \<Longrightarrow>
     list_all2 (\<lambda>d h. addr d h \<and> (\<exists>e. get s' h = Some e \<and> addr e h)) ds hs"
proof (induction ds arbitrary: s hs s')
  case (Cons d ds)
  obtain p t where p: "put s d = (p, t)" by fastforce
  then obtain h where h: "p = Some h" using Cons.prems(2) by (cases p) auto
  obtain q u where q: "putAll t ds = (q, u)" by fastforce
  with p h Cons.prems(2) obtain hs' where hs: "q = Some hs'" "hs = h # hs'" "s' = u" by auto
  have t: "ok t" using put_ok [OF Cons.prems(1) p] .
  from put_get [OF Cons.prems(1) p [unfolded h]] obtain e where e: "addr d h" "get t h = Some e"
    by auto
  with putAll_keeps [OF t q] have "get u h = Some e" by blast
  moreover have "ok u" using putAll_keeps [OF t q] by blast
  ultimately have "get u h = Some e \<and> addr e h" using get_addr by blast
  with Cons.IH [OF t q [unfolded hs(1)]] hs e show ?case by auto
qed simp

text \<open>Where no two different pieces share an address, what comes back is what went in.\<close>

lemma putAll_exact:
  assumes "ok s" and "putAll s ds = (Some hs, s')"
    and inj: "\<And>d e h. addr d h \<Longrightarrow> addr e h \<Longrightarrow> d = e"
  shows "map (get s') hs = map Some ds"
  using putAll_reads_back [OF assms(1,2)]
proof (rule list_all2_induct)
  fix d h ds hs
  assume "addr d h \<and> (\<exists>e. get s' h = Some e \<and> addr e h)" "map (get s') hs = map Some ds"
  then show "map (get s') (h # hs) = map Some (d # ds)" using inj by auto
qed simp

end

text \<open>The store of the code: every file named by a content hash hashes to its name.\<close>

definition storeOk :: "hashlib \<Rightarrow> blobStore \<Rightarrow> bool" where
  "storeOk H st \<longleftrightarrow>
     hashlib_ok H \<and>
     (\<forall>h d. files st h = Some d \<longrightarrow> IsContentHash H h \<longrightarrow> ContentHash H d = Inr h)"

definition okOption :: "'e + 'a \<Rightarrow> 'a option" where
  "okOption r = (case r of Inl _ \<Rightarrow> None | Inr x \<Rightarrow> Some x)"

lemma okOption_simps [simp]: "okOption (Inl e) = None" "okOption (Inr x) = Some x"
  by (simp_all add: okOption_def)

lemma okOption_Some [simp]: "okOption r = Some x \<longleftrightarrow> r = Inr x"
  by (cases r) auto

lemma okOption_None [simp]: "okOption r = None \<longleftrightarrow> (\<exists>e. r = Inl e)"
  by (cases r) auto

lemma IsContentHash_ContentHash: "hashlib_ok H \<Longrightarrow> ContentHash H d = Inr h \<Longrightarrow> IsContentHash H h"
  using ContentHash_ok [of H d] by auto

lemma storeGet_Inr:
  "storeGet H st h = Inr d \<longleftrightarrow> IsContentHash H h \<and> files st h = Some d"
  by (auto simp: storeGet_def split: option.splits)

lemma storePut_cases:
  assumes "storePut H st d = (r, st')"
  obtains (err) e where "r = Inl e" "st' = st"
  | (old) h where "r = Inr h" "st' = st" "ContentHash H d = Inr h" "storeHas H st h"
  | (new) h where "r = Inr h" "st' = st\<lparr>files := (files st)(h \<mapsto> d)\<rparr>" "ContentHash H d = Inr h"
      "\<not> storeHas H st h" "length d \<le> MaxBlobSize"
proof (cases "length d > MaxBlobSize")
  case True
  with assms have "r = Inl ErrBlobTooLarge" "st' = st" by (auto simp: storePut_def)
  then show thesis by (rule err)
next
  case small: False
  show thesis
  proof (cases "ContentHash H d")
    case (Inl e)
    with assms small have "r = Inl e" "st' = st" by (auto simp: storePut_def)
    then show thesis by (rule err)
  next
    case (Inr h)
    with assms small have put: "(r, st') =
        (if storeHas H st h then (Inr h, st) else if \<not> writable st then (Inl ErrIO, st)
         else (Inr h, st\<lparr>files := (files st)(h \<mapsto> d)\<rparr>))"
      by (simp add: storePut_def)
    consider "storeHas H st h" | "\<not> storeHas H st h" "writable st" | "\<not> storeHas H st h" "\<not> writable st"
      by blast
    then show thesis
    proof cases
      case 1
      with put have "r = Inr h" "st' = st" by auto
      then show thesis using Inr 1 by (rule old)
    next
      case 2
      with put have "r = Inr h" "st' = st\<lparr>files := (files st)(h \<mapsto> d)\<rparr>" by auto
      then show thesis using Inr 2(1) small by (intro new) auto
    next
      case 3
      with put have "r = Inl ErrIO" "st' = st" by auto
      then show thesis by (rule err)
    qed
  qed
qed

lemma storePut_ok: "storeOk H st \<Longrightarrow> storePut H st d = (r, st') \<Longrightarrow> storeOk H st'"
  by (erule storePut_cases) (auto simp: storeOk_def)

lemma storePut_keeps:
  "storeOk H st \<Longrightarrow> storePut H st d = (r, st') \<Longrightarrow> storeGet H st h = Inr e \<Longrightarrow> storeGet H st' h = Inr e"
  by (erule storePut_cases) (auto simp: storeGet_Inr storeHas_def)

lemma storePut_reads:
  assumes ok: "storeOk H st" and p: "storePut H st d = (Inr h, st')"
  shows "ContentHash H d = Inr h \<and> (\<exists>e. storeGet H st' h = Inr e)"
proof -
  from p have hd: "ContentHash H d = Inr h" by (rule storePut_cases) auto
  then have "IsContentHash H h" using ok IsContentHash_ContentHash by (auto simp: storeOk_def)
  with p hd show ?thesis
    by (elim storePut_cases) (auto simp: storeGet_Inr storeHas_def)
qed

lemma storeGet_addr: "storeOk H st \<Longrightarrow> storeGet H st h = Inr d \<Longrightarrow> ContentHash H d = Inr h"
  by (auto simp: storeGet_Inr storeOk_def)

lemma storeDelete_ok: "storeOk H st \<Longrightarrow> storeOk H (snd (storeDelete H st h))"
  by (auto simp: storeOk_def storeDelete_def)

interpretation blobs: content_store
  "storeOk H" "\<lambda>d h. ContentHash H d = Inr h" "\<lambda>st h. okOption (storeGet H st h)"
  "\<lambda>st d. case storePut H st d of (r, st') \<Rightarrow> (okOption r, st')" for H
  by unfold_locales
    (auto split: prod.splits dest: storePut_ok storePut_keeps storePut_reads storeGet_addr)

section \<open>Properties of manifests\<close>

lemma DecodeManifest_Some:
  assumes "DecodeManifest H J data = Some m"
  shows "\<exists>body. data = manifestMagic @ body \<and> jsonDecode J body = Some m"
    and "1 \<le> ChunkSize m" "ChunkSize m \<le> int MaxBlobSize"
    and "2 \<le> length (mChunks m)" "length (mChunks m) \<le> MaxManifestChunks"
    and "(int (length (mChunks m)) - 1) * ChunkSize m < TotalSize m"
    and "TotalSize m \<le> int (length (mChunks m)) * ChunkSize m"
    and "TotalSize m \<le> int MaxContentSize"
    and "list_all (IsContentHash H) (mChunks m)"
proof -
  from assms obtain body where d: "data = manifestMagic @ body"
    by (auto simp: DecodeManifest_def hasPrefix_iff split: if_splits)
  with assms have "jsonDecode J body = Some m"
    by (auto simp: DecodeManifest_def Let_def split: option.splits if_splits)
  with d show "\<exists>body. data = manifestMagic @ body \<and> jsonDecode J body = Some m" by blast
qed (use assms in \<open>auto simp: DecodeManifest_def Let_def split: option.splits if_splits\<close>)

lemma sum_ChunkLen:
  assumes "mChunks m \<noteq> []"
  shows "(\<Sum>i < length (mChunks m). ChunkLen m i) = TotalSize m"
proof -
  obtain n where n: "length (mChunks m) = Suc n" using assms by (cases "mChunks m") auto
  then have "(\<Sum>i < n. ChunkLen m i) = int n * ChunkSize m" by (simp add: ChunkLen_def)
  moreover have "ChunkLen m n = TotalSize m - int n * ChunkSize m" using n by (simp add: ChunkLen_def)
  ultimately show ?thesis using n by simp
qed

text \<open>A manifest that \<open>DecodeManifest\<close> accepts describes its content exactly: the expected
  chunk lengths are all between 1 and the chunk size, fit in one blob, and add up to the total
  size, which is within the content cap.\<close>

theorem manifest_lengths:
  assumes "DecodeManifest H J data = Some m"
  shows "(\<Sum>i < length (mChunks m). ChunkLen m i) = TotalSize m
       \<and> TotalSize m \<le> int MaxContentSize
       \<and> (\<forall>i < length (mChunks m). 1 \<le> ChunkLen m i \<and> ChunkLen m i \<le> ChunkSize m
             \<and> ChunkLen m i \<le> int MaxBlobSize)"
proof -
  note m = DecodeManifest_Some [OF assms]
  have "1 \<le> ChunkLen m i \<and> ChunkLen m i \<le> ChunkSize m" for i
    using m(2,6,7) by (simp add: ChunkLen_def algebra_simps)
  moreover have "mChunks m \<noteq> []" using m(4) by auto
  ultimately show ?thesis using m(3,8) sum_ChunkLen [of m] by (smt (verit))
qed

theorem manifest_lengths_witness:
  "\<exists>J m. DecodeManifest demoHashlib J manifestMagic = Some m \<and> TotalSize m = 5
     \<and> (\<Sum>i < length (mChunks m). ChunkLen m i) = 5"
proof -
  let ?root = "letters (0x12 # 32 # replicate 32 0)"
  let ?m = "\<lparr>TotalSize = 5, ChunkSize = 3, mChunks = [?root, ?root]\<rparr>"
  have h: "IsContentHash demoHashlib ?root"
    by (simp add: IsContentHash_def demoHashlib_def unletters_letters SHA2_256_def del: letters.simps)
  have "DecodeManifest demoHashlib \<lparr>jsonEncode = (\<lambda>_. Some []), jsonDecode = (\<lambda>_. Some ?m)\<rparr> manifestMagic = Some ?m"
    using h by (simp add: DecodeManifest_def Let_def hasPrefix_def MaxBlobSize_def MaxManifestChunks_def
        MaxContentSize_def ChunkSizeC_def)
  moreover from manifest_lengths [OF this] have "(\<Sum>i < length (mChunks ?m). ChunkLen ?m i) = 5"
    by (elim conjE) (simp only: chunkManifest.select_convs)
  moreover have "TotalSize ?m = 5" by simp
  ultimately show ?thesis by blast
qed

lemma DecodeManifest_Encode:
  assumes "jsonEncode J m = Some body" and "jsonDecode J body = Some m"
    and "1 \<le> ChunkSize m" "ChunkSize m \<le> int MaxBlobSize"
    and "2 \<le> length (mChunks m)" "length (mChunks m) \<le> MaxManifestChunks"
    and "(int (length (mChunks m)) - 1) * ChunkSize m < TotalSize m"
    and "TotalSize m \<le> int (length (mChunks m)) * ChunkSize m"
    and "TotalSize m \<le> int MaxContentSize"
    and "list_all (IsContentHash H) (mChunks m)"
  shows "EncodeManifest J m = Inr (manifestMagic @ body)
       \<and> DecodeManifest H J (manifestMagic @ body) = Some m"
  using assms by (simp add: EncodeManifest_def DecodeManifest_def Let_def)

end
