(* ===== verification/Wire.thy ===== *)
theory Wire
  imports Content
begin

text \<open>
  The wire formats of \<open>internal/node/contentnet.go\<close> and the offer of \<open>replicate.go\<close>: length-prefixed
  requests and blobs. A stream's input is the list of bytes still to arrive; its end stands for
  whatever ends it (the peer closing it, a reset or the deadline), which the code does not tell
  apart. \<open>PutUvarint\<close> and \<open>ReadUvarint\<close> are those of \<open>encoding/binary\<close>.
\<close>

datatype netErr =
    ErrEOF | ErrVarintOverflow | ErrRequestLen | ErrContent contentErr | ErrOpenStream
  | ErrWrongContent string | ErrBadHash | ErrChunk nat netErr | ErrChunkLen nat nat | ErrSource
  | ErrOfferRoot | ErrOfferSize "64 word" | ErrOfferCount "64 word"

definition maxHashRequestLen :: nat where "maxHashRequestLen = 128"

section \<open>Varints\<close>

function putUvarint :: "64 word \<Rightarrow> bytes" where
  "putUvarint x = (if x < 0x80 then [ucast x] else (ucast x OR 0x80) # putUvarint (drop_bit 7 x))"
  by auto
termination
proof (relation "measure unat", simp)
  fix x :: "64 word" assume "\<not> x < 0x80"
  then have "128 \<le> unat x" by (simp add: not_less word_le_nat_alt)
  then have "unat x div 2 ^ 7 < unat x" by (intro div_less_dividend) simp_all
  then show "(drop_bit 7 x, x) \<in> measure unat" by (simp add: drop_bit_eq_div unat_div_distrib)
qed

declare putUvarint.simps [simp del]

text \<open>The loop of \<open>ReadUvarint\<close>: \<open>k\<close> rounds are left of \<open>MaxVarintLen64 = 10\<close>.\<close>

fun readUvarintLoop :: "nat \<Rightarrow> 64 word \<Rightarrow> nat \<Rightarrow> bytes \<Rightarrow> netErr + 64 word \<times> bytes" where
  "readUvarintLoop 0 x s inp = Inl ErrVarintOverflow"
| "readUvarintLoop (Suc k) x s [] = Inl ErrEOF"
| "readUvarintLoop (Suc k) x s (b # inp) =
     (if b < 0x80
      then if k = 0 \<and> b > 1 then Inl ErrVarintOverflow else Inr (x OR push_bit s (ucast b), inp)
      else readUvarintLoop k (x OR push_bit s (ucast (b AND 0x7f))) (s + 7) inp)"

definition readUvarint :: "bytes \<Rightarrow> netErr + 64 word \<times> bytes" where
  "readUvarint inp = readUvarintLoop 10 0 0 inp"

definition readFull :: "nat \<Rightarrow> bytes \<Rightarrow> netErr + bytes \<times> bytes" where
  "readFull n inp = (if length inp < n then Inl ErrEOF else Inr (take n inp, drop n inp))"

section \<open>Requests, blobs, offers\<close>

definition writeRequest :: "string \<Rightarrow> bytes" where
  "writeRequest hash = putUvarint (of_nat (length hash)) @ bytes_of_string hash"

definition readRequest :: "bytes \<Rightarrow> netErr + string \<times> bytes" where
  "readRequest inp =
     bindR (readUvarint inp) (\<lambda>(n, inp).
       if n = 0 \<or> n > of_nat maxHashRequestLen then Inl ErrRequestLen
       else bindR (readFull (unat n) inp) (\<lambda>(buf, inp). Inr (string_of_bytes buf, inp)))"

definition writeBlobHeader :: "64 word \<Rightarrow> bytes" where
  "writeBlobHeader sz = putUvarint sz"

definition readBlobMax :: "64 word \<Rightarrow> bytes \<Rightarrow> netErr + bytes \<times> bytes" where
  "readBlobMax mx inp =
     (let mx = (if mx > of_nat MaxBlobSize then of_nat MaxBlobSize else mx) in
      bindR (readUvarint inp) (\<lambda>(sz, inp).
        if sz = 0 then Inl (ErrContent ErrBlobNotFound)
        else if sz > mx then Inl (ErrContent ErrBlobTooLarge)
        else readFull (unat sz) inp))"

definition readBlob :: "bytes \<Rightarrow> netErr + bytes \<times> bytes" where
  "readBlob inp = readBlobMax (of_nat MaxBlobSize) inp"

definition writePushOffer :: "string \<Rightarrow> 64 word \<Rightarrow> 64 word \<Rightarrow> bytes" where
  "writePushOffer root sz nblobs = writeRequest root @ writeBlobHeader sz @ writeBlobHeader nblobs"

definition readPushOffer :: "hashlib \<Rightarrow> bytes \<Rightarrow> netErr + (string \<times> 64 word \<times> 64 word) \<times> bytes" where
  "readPushOffer H inp =
     bindR (readRequest inp) (\<lambda>(root, inp).
       if \<not> IsContentHash H root then Inl ErrOfferRoot
       else bindR (readUvarint inp) (\<lambda>(sz, inp).
         if sz = 0 \<or> sz > of_nat MaxContentSize then Inl (ErrOfferSize sz)
         else bindR (readUvarint inp) (\<lambda>(nblobs, inp).
           if nblobs = 0 \<or> nblobs > of_nat (1 + MaxManifestChunks) then Inl (ErrOfferCount nblobs)
           else Inr ((root, sz, nblobs), inp))))"

section \<open>Stream codecs\<close>

text \<open>
  The contract of a length-delimited format: what is written is read back whatever follows it,
  and reading only consumes input.
\<close>

locale stream_codec =
  fixes enc :: "'a \<Rightarrow> bytes" and rd :: "bytes \<Rightarrow> netErr + 'a \<times> bytes" and ok :: "'a \<Rightarrow> bool"
  assumes rd_enc: "ok x \<Longrightarrow> rd (enc x @ rest) = Inr (x, rest)"
    and rd_suffix: "rd inp = Inr (x, rest) \<Longrightarrow> \<exists>used. inp = used @ rest"
begin

lemma enc_inj: "ok x \<Longrightarrow> ok y \<Longrightarrow> enc x = enc y \<Longrightarrow> x = y"
  by (metis Inr_inject prod.inject rd_enc)

lemma enc_prefix_free: "ok x \<Longrightarrow> ok y \<Longrightarrow> enc x @ s = enc y @ t \<Longrightarrow> x = y \<and> s = t"
  by (metis Inr_inject prod.inject rd_enc)

lemma rd_shrinks: "rd inp = Inr (x, rest) \<Longrightarrow> length rest \<le> length inp"
  using rd_suffix by fastforce

end

section \<open>Facts\<close>

lemma readFull_append [simp]: "length a = n \<Longrightarrow> readFull n (a @ b) = Inr (a, b)"
  by (simp add: readFull_def)

lemma readFull_Inr: "readFull n inp = Inr (a, b) \<longleftrightarrow> inp = a @ b \<and> length a = n"
  by (auto simp: readFull_def min_def)

lemma unat_less_128: "x < 0x80 \<Longrightarrow> unat x < 128" for x :: "64 word"
  by (simp add: word_less_nat_alt)

lemma ucast_small_byte: "x < 0x80 \<Longrightarrow> ucast (ucast x :: byte) = x" for x :: "64 word"
proof -
  assume "x < 0x80"
  then have u: "unat x < 128" by (rule unat_less_128)
  then show ?thesis by (simp add: word_unat_eq_iff unsigned_ucast_eq unsigned_take_bit_eq take_bit_nat_eq_self)
qed

lemma byte_bits: "bit (0x80 :: byte) n \<longleftrightarrow> n = 7" "bit (0x80 :: 64 word) n \<longleftrightarrow> n = 7"
proof -
  have "bit ((2 :: byte) ^ 7) n \<longleftrightarrow> n = 7" "bit ((2 :: 64 word) ^ 7) n \<longleftrightarrow> n = 7"
    by (simp_all only: bit_exp_iff) auto
  then show "bit (0x80 :: byte) n \<longleftrightarrow> n = 7" "bit (0x80 :: 64 word) n \<longleftrightarrow> n = 7" by simp_all
qed

lemma low_bits: "ucast ((ucast x OR 0x80 :: byte) AND 0x7f) = x AND 0x7f" for x :: "64 word"
proof -
  have 1: "(0x7f :: byte) = mask 7" and 2: "(0x7f :: 64 word) = mask 7"
    by (simp_all add: mask_eq_exp_minus_1)
  show ?thesis
    unfolding 1 2
    by (rule bit_word_eqI)
      (auto simp only: bit_unsigned_iff bit_and_iff bit_or_iff byte_bits bit_mask_iff possible_bit_word, simp_all)
qed

lemma high_byte: "\<not> (ucast x OR 0x80 :: byte) < 0x80" for x :: "64 word"
  using le_word_or2 [of "0x80 :: byte" "ucast x"] by (simp add: not_less or.commute)

text \<open>The bits of a value split into the low seven and the rest.\<close>

lemma or_split: "push_bit s x = push_bit s (x AND 0x7f) OR push_bit (s + 7) (drop_bit 7 x)" for x :: "64 word"
proof (rule bit_word_eqI)
  have 2: "(0x7f :: 64 word) = mask 7" by (simp add: mask_eq_exp_minus_1)
  fix n assume "n < LENGTH(64)"
  moreover have "s + 7 \<le> n \<Longrightarrow> 7 + (n - (s + 7)) = n - s" by simp
  ultimately show "bit (push_bit s x) n = bit (push_bit s (x AND 0x7f) OR push_bit (s + 7) (drop_bit 7 x)) n"
    unfolding 2 by (cases "s + 7 \<le> n") (auto simp: bit_simps)
qed

lemma readUvarintLoop_put:
  "unat v < 2 ^ (64 - s) \<Longrightarrow> s = 7 * (10 - k) \<Longrightarrow> 0 < k \<Longrightarrow> k \<le> 10 \<Longrightarrow>
     readUvarintLoop k x s (putUvarint v @ rest) = Inr (x OR push_bit s v, rest)"
proof (induction v arbitrary: k x s rule: putUvarint.induct)
  case (1 v)
  obtain j where j: "k = Suc j" using 1(4) by (cases k) auto
  show ?case
  proof (cases "v < 0x80")
    case True
    then have small: "(ucast v :: byte) < 0x80" and u: "ucast (ucast v :: byte) = v"
      using unat_less_128 [OF True] ucast_small_byte [OF True]
      by (simp_all add: word_less_nat_alt unsigned_ucast_eq take_bit_nat_eq_self)
    have "\<not> (j = 0 \<and> (ucast v :: byte) > 1)"
    proof
      assume a: "j = 0 \<and> (ucast v :: byte) > 1"
      with 1(2,3) j have "unat v < 2" by simp
      with a show False by (simp add: word_less_nat_alt unsigned_ucast_eq take_bit_nat_eq_self)
    qed
    with True small u j show ?thesis by (subst putUvarint.simps) simp
  next
    case False
    have "j \<noteq> 0"
    proof
      assume "j = 0"
      with 1(2,3) j have "unat v < 2" by simp
      with False show False by (simp add: word_less_nat_alt)
    qed
    have "unat (drop_bit 7 v) < 2 ^ (64 - (s + 7))"
    proof -
      have "64 - s = 7 + (64 - (s + 7))" using 1(3,5) j \<open>j \<noteq> 0\<close> by simp
      with 1(2) have "unat v < 2 ^ 7 * 2 ^ (64 - (s + 7))" by (metis power_add)
      then show ?thesis by (simp add: drop_bit_eq_div unat_div_distrib less_mult_imp_div_less mult.commute)
    qed
    moreover have "s + 7 = 7 * (10 - j)" using 1(3,5) j \<open>j \<noteq> 0\<close> by simp
    ultimately have "readUvarintLoop j y (s + 7) (putUvarint (drop_bit 7 v) @ rest) =
        Inr (y OR push_bit (s + 7) (drop_bit 7 v), rest)" for y
      using 1(1) [OF False, of "s + 7" j] 1(5) j \<open>j \<noteq> 0\<close> by simp
    then show ?thesis
      using False high_byte [of v] j or_split [of s v] low_bits [of v]
      by (subst putUvarint.simps) (simp add: or.assoc)
  qed
qed

lemma readUvarintLoop_suffix: "readUvarintLoop k x s inp = Inr (v, rest) \<Longrightarrow> \<exists>used. inp = used @ rest \<and> used \<noteq> []"
proof (induction k x s inp rule: readUvarintLoop.induct)
  case (3 k x s b inp)
  then show ?case by (auto split: if_splits)
qed auto

interpretation varint: stream_codec putUvarint readUvarint "\<lambda>_. True"
proof unfold_locales
  show "readUvarint (putUvarint x @ rest) = Inr (x, rest)" for x rest
    using readUvarintLoop_put [of x 0 10 0 rest] unsigned_less [of x, where ?'a = nat] by (simp add: readUvarint_def)
  show "\<exists>used. inp = used @ rest" if "readUvarint inp = Inr (x, rest)" for inp x rest
    using readUvarintLoop_suffix that unfolding readUvarint_def by blast
qed

lemma unat_of_small: "n < 2 ^ 64 \<Longrightarrow> unat (of_nat n :: 64 word) = n"
  by (simp add: unat_of_nat)

definition requestOk :: "string \<Rightarrow> bool" where
  "requestOk hash \<longleftrightarrow> hash \<noteq> [] \<and> length hash \<le> maxHashRequestLen"

interpretation request: stream_codec writeRequest readRequest requestOk
proof unfold_locales
  fix hash rest assume ok: "requestOk hash"
  then have n: "unat (of_nat (length hash) :: 64 word) = length hash" "0 < length hash" "length hash \<le> 128"
    by (simp_all add: requestOk_def maxHashRequestLen_def unat_of_nat)
  then have "(of_nat (length hash) :: 64 word) \<noteq> 0" by (metis less_numeral_extra(3) unat_0)
  moreover have "\<not> (of_nat (length hash) :: 64 word) > of_nat maxHashRequestLen"
    using n by (simp add: word_less_nat_alt maxHashRequestLen_def)
  ultimately show "readRequest (writeRequest hash @ rest) = Inr (hash, rest)"
    using varint.rd_enc [of "of_nat (length hash)" "bytes_of_string hash @ rest"] n(1)
    by (simp add: readRequest_def writeRequest_def)
next
  fix inp x rest assume r: "readRequest inp = Inr (x, rest)"
  then obtain n mid where "readUvarint inp = Inr (n, mid)" "\<exists>buf. readFull (unat n) mid = Inr (buf, rest)"
    by (auto simp: readRequest_def bindR_Inr_iff split: if_splits)
  with varint.rd_suffix show "\<exists>used. inp = used @ rest" by (force simp: readFull_Inr)
qed

text \<open>A blob on the wire: its length and its bytes, up to a ceiling.\<close>

definition writeBlob :: "bytes \<Rightarrow> bytes" where
  "writeBlob data = writeBlobHeader (of_nat (length data)) @ data"

definition blobOk :: "64 word \<Rightarrow> bytes \<Rightarrow> bool" where
  "blobOk mx data \<longleftrightarrow> data \<noteq> [] \<and> length data \<le> unat mx \<and> length data \<le> MaxBlobSize"

lemma MaxBlobSize_word: "unat (of_nat MaxBlobSize :: 64 word) = MaxBlobSize"
  by (simp add: MaxBlobSize_def unat_of_nat)

lemma readBlobMax_Inr:
  assumes "readBlobMax mx inp = Inr (data, rest)"
  shows "data \<noteq> [] \<and> length data \<le> unat mx \<and> length data \<le> MaxBlobSize \<and> (\<exists>h. inp = h @ data @ rest)"
proof -
  let ?m = "if mx > of_nat MaxBlobSize then of_nat MaxBlobSize else mx"
  from assms obtain n mid where u: "readUvarint inp = Inr (n, mid)" and n: "n \<noteq> 0" "\<not> n > ?m"
    and f: "readFull (unat n) mid = Inr (data, rest)"
    by (auto simp: readBlobMax_def Let_def bindR_Inr_iff split: if_splits)
  have "unat n \<le> unat mx" "unat n \<le> MaxBlobSize"
    using n(2) MaxBlobSize_word by (auto simp: word_less_nat_alt split: if_splits)
  moreover have "0 < unat n" using n(1) by (simp add: unat_gt_0)
  ultimately show ?thesis using f varint.rd_suffix [OF u] by (auto simp: readFull_Inr)
qed

interpretation blob: stream_codec writeBlob "readBlobMax mx" "blobOk mx" for mx
proof unfold_locales
  fix data rest assume ok: "blobOk mx data"
  let ?m = "if mx > of_nat MaxBlobSize then of_nat MaxBlobSize else mx"
  from ok have n: "unat (of_nat (length data) :: 64 word) = length data" "0 < length data"
    by (simp_all add: blobOk_def MaxBlobSize_def unat_of_nat)
  then have "(of_nat (length data) :: 64 word) \<noteq> 0" by (metis less_numeral_extra(3) unat_0)
  moreover have "\<not> (of_nat (length data) :: 64 word) > ?m"
    using n(1) ok MaxBlobSize_word by (auto simp: word_less_nat_alt blobOk_def)
  ultimately show "readBlobMax mx (writeBlob data @ rest) = Inr (data, rest)"
    using varint.rd_enc [of "of_nat (length data)" "data @ rest"] n(1)
    by (simp add: readBlobMax_def writeBlob_def writeBlobHeader_def Let_def)
qed (use readBlobMax_Inr in fastforce)

definition offerOk :: "hashlib \<Rightarrow> string \<times> 64 word \<times> 64 word \<Rightarrow> bool" where
  "offerOk H = (\<lambda>(root, sz, nblobs).
     requestOk root \<and> IsContentHash H root \<and> 0 < unat sz \<and> unat sz \<le> MaxContentSize
     \<and> 0 < unat nblobs \<and> unat nblobs \<le> 1 + MaxManifestChunks)"

lemma MaxContentSize_word: "unat (of_nat MaxContentSize :: 64 word) = MaxContentSize"
  "unat (of_nat (1 + MaxManifestChunks) :: 64 word) = 1 + MaxManifestChunks"
  by (simp_all add: MaxContentSize_def MaxManifestChunks_def ChunkSizeC_def unat_of_nat)

lemma readPushOffer_Inr:
  assumes "readPushOffer H inp = Inr ((root, sz, nblobs), rest)"
  shows "IsContentHash H root \<and> 0 < unat sz \<and> unat sz \<le> MaxContentSize \<and> 0 < unat nblobs
     \<and> unat nblobs \<le> 1 + MaxManifestChunks \<and> (\<exists>used. inp = used @ rest)"
proof -
  from assms obtain m1 m2 where 1: "readRequest inp = Inr (root, m1)" and root: "IsContentHash H root"
    and 2: "readUvarint m1 = Inr (sz, m2)" and sz: "sz \<noteq> 0" "\<not> sz > of_nat MaxContentSize"
    and 3: "readUvarint m2 = Inr (nblobs, rest)" and n: "nblobs \<noteq> 0" "\<not> nblobs > of_nat (1 + MaxManifestChunks)"
    by (auto simp: readPushOffer_def bindR_Inr_iff split: if_splits simp del: of_nat_add of_nat_Suc)
  have "unat sz \<le> MaxContentSize" "unat nblobs \<le> 1 + MaxManifestChunks"
    using sz(2) n(2) MaxContentSize_word by (simp_all only: word_less_nat_alt not_less)
  moreover have "0 < unat sz" "0 < unat nblobs" using sz(1) n(1) by (simp_all add: unat_gt_0)
  moreover have "\<exists>used. inp = used @ rest"
    using request.rd_suffix [OF 1] varint.rd_suffix [OF 2] varint.rd_suffix [OF 3] by (metis append.assoc)
  ultimately show ?thesis using root by blast
qed

interpretation offer: stream_codec "\<lambda>(root, sz, nblobs). writePushOffer root sz nblobs" "readPushOffer H" "offerOk H" for H
proof unfold_locales
  fix x rest assume ok: "offerOk H x"
  obtain root sz nblobs where x: "x = (root, sz, nblobs)" by (cases x)
  have "sz \<noteq> 0" "nblobs \<noteq> 0" using ok x by (auto simp: offerOk_def)
  moreover have "\<not> sz > of_nat MaxContentSize" "\<not> nblobs > of_nat (1 + MaxManifestChunks)"
    using ok x MaxContentSize_word by (simp_all only: word_less_nat_alt not_less offerOk_def prod.case)
  ultimately show "readPushOffer H ((case x of (root, sz, nblobs) \<Rightarrow> writePushOffer root sz nblobs) @ rest) = Inr (x, rest)"
    using ok x request.rd_enc [of root] varint.rd_enc
    by (simp add: readPushOffer_def writePushOffer_def writeBlobHeader_def offerOk_def del: of_nat_add of_nat_Suc)
next
  show "\<exists>used. inp = used @ rest" if "readPushOffer H inp = Inr (x, rest)" for inp x rest
    using that readPushOffer_Inr by (cases x) blast
qed

end
