(* ===== verification/ContentIndex.thy ===== *)
theory ContentIndex
  imports Content
begin

text \<open>
  \<open>internal/content/contentindex.go\<close>: which content sets the store holds and why, the claims of
  transfers in flight, the hosting budget and eviction. The Go map \<open>sets\<close> is an association list
  in iteration order, \<open>blobs\<close> and \<open>pending\<close> are functions with the empty set and zero for absent
  keys; the sidecar file is the field \<open>saved\<close>. Times are Unix seconds; the duration \<open>ttl\<close> is in
  nanoseconds.
  The sizes involved are sums of content sizes, far from \<open>2 ^ 63\<close>, and are integers.
\<close>

section \<open>State\<close>

record contentMeta =
  Owned :: bool
  Size :: int
  Chunks :: "string list"
  StoredAt :: int
  LastAccess :: int
  From :: string

type_synonym contentSets = "(string \<times> contentMeta) list"

record contentIndex =
  sets :: contentSets
  blobRefs :: "string \<Rightarrow> string set"
  pending :: "string \<Rightarrow> int"
  reserved :: int
  dirty :: bool
  saved :: "contentSets option"
  store :: blobStore

definition evictionProtection :: int where "evictionProtection = 3600"
definition manifestProbeLimit :: int where "manifestProbeLimit = 2 ^ 20"

definition saveIndex :: "contentIndex \<Rightarrow> contentIndex" where
  "saveIndex ix = (if writable (store ix) then ix\<lparr>saved := Some (sets ix), dirty := False\<rparr> else ix)"

definition deleteBlob :: "hashlib \<Rightarrow> string \<Rightarrow> contentIndex \<Rightarrow> contentIndex" where
  "deleteBlob H h ix = ix\<lparr>store := snd (storeDelete H (store ix) h)\<rparr>"

definition reference :: "string \<Rightarrow> contentMeta \<Rightarrow> contentIndex \<Rightarrow> contentIndex" where
  "reference root m ix =
     ix\<lparr>blobRefs := (\<lambda>h. if h = root \<or> h \<in> set (Chunks m) then insert root (blobRefs ix h) else blobRefs ix h)\<rparr>"

section \<open>Claims\<close>

text \<open>A writer's handle is the list of the hashes it has claimed.\<close>

type_synonym blobClaims = "string list"

definition BeginWrite :: blobClaims where "BeginWrite = []"

definition Claim :: "string \<Rightarrow> blobClaims \<Rightarrow> contentIndex \<Rightarrow> blobClaims \<times> contentIndex" where
  "Claim hash c ix = (c @ [hash], ix\<lparr>pending := (pending ix)(hash := pending ix hash + 1)\<rparr>)"

definition releaseOne :: "hashlib \<Rightarrow> bool \<Rightarrow> string \<Rightarrow> contentIndex \<Rightarrow> contentIndex" where
  "releaseOne H discard h ix =
     (let remaining = pending ix h - 1;
          ix1 = ix\<lparr>pending := (pending ix)(h := if remaining > 0 then remaining else 0)\<rparr>
      in if discard \<and> remaining \<le> 0 \<and> blobRefs ix1 h = {} then deleteBlob H h ix1 else ix1)"

fun releaseClaims :: "hashlib \<Rightarrow> bool \<Rightarrow> blobClaims \<Rightarrow> contentIndex \<Rightarrow> contentIndex" where
  "releaseClaims H discard [] ix = ix"
| "releaseClaims H discard (h # hs) ix = releaseClaims H discard hs (releaseOne H discard h ix)"

text \<open>The handle is emptied by every release.\<close>

definition releaseClaimsLocked :: "hashlib \<Rightarrow> bool \<Rightarrow> blobClaims \<Rightarrow> contentIndex \<Rightarrow> blobClaims \<times> contentIndex" where
  "releaseClaimsLocked H discard c ix = ([], releaseClaims H discard c ix)"

definition Discard :: "hashlib \<Rightarrow> blobClaims \<Rightarrow> contentIndex \<Rightarrow> blobClaims \<times> contentIndex" where
  "Discard H c ix = releaseClaimsLocked H True c ix"

section \<open>Recording sets\<close>

definition touchLocked :: "int \<Rightarrow> string \<Rightarrow> contentIndex \<Rightarrow> contentIndex" where
  "touchLocked now root ix =
     (if map_of (sets ix) root = None then ix
      else ix\<lparr>sets := map (\<lambda>(r, m). (r, if r = root then m\<lparr>LastAccess := now\<rparr> else m)) (sets ix), dirty := True\<rparr>)"

definition Touch :: "int \<Rightarrow> string \<Rightarrow> contentIndex \<Rightarrow> contentIndex" where
  "Touch now root ix = touchLocked now root ix"

definition TouchBlob :: "int \<Rightarrow> string \<Rightarrow> contentIndex \<Rightarrow> contentIndex" where
  "TouchBlob now hash ix =
     (let hit = (\<lambda>r. r \<in> blobRefs ix hash) in
      ix\<lparr>sets := map (\<lambda>(r, m). (r, if hit r then m\<lparr>LastAccess := now\<rparr> else m)) (sets ix),
         dirty := dirty ix \<or> (\<exists>r \<in> set (map fst (sets ix)). hit r)\<rparr>)"

definition putSet :: "string \<Rightarrow> contentMeta \<Rightarrow> contentSets \<Rightarrow> contentSets" where
  "putSet root m ss = (if map_of ss root = None then ss @ [(root, m)] else map (\<lambda>(r, x). (r, if r = root then m else x)) ss)"

definition MarkOwned ::
    "hashlib \<Rightarrow> int \<Rightarrow> string \<Rightarrow> int \<Rightarrow> string list \<Rightarrow> blobClaims \<Rightarrow> contentIndex \<Rightarrow> blobClaims \<times> contentIndex" where
  "MarkOwned H now root sz chunks claims ix =
     (let m0 = (case map_of (sets ix) root of
                  None \<Rightarrow> \<lparr>Owned = False, Size = 0, Chunks = [], StoredAt = now, LastAccess = 0, From = []\<rparr>
                | Some m \<Rightarrow> m);
          m = m0\<lparr>Owned := True, Size := sz, Chunks := chunks, LastAccess := now\<rparr>;
          ix1 = reference root m (ix\<lparr>sets := putSet root m (sets ix)\<rparr>);
          (c, ix2) = releaseClaimsLocked H False claims ix1
      in (c, saveIndex ix2))"

definition addHostedLocked :: "int \<Rightarrow> string \<Rightarrow> int \<Rightarrow> string list \<Rightarrow> string \<Rightarrow> contentIndex \<Rightarrow> contentIndex" where
  "addHostedLocked now root sz chunks fromPeer ix =
     (if map_of (sets ix) root \<noteq> None then touchLocked now root ix
      else let m = \<lparr>Owned = False, Size = sz, Chunks = chunks, StoredAt = now, LastAccess = now, From = fromPeer\<rparr>
        in saveIndex (reference root m (ix\<lparr>sets := putSet root m (sets ix)\<rparr>)))"

definition AddHosted ::
    "hashlib \<Rightarrow> int \<Rightarrow> string \<Rightarrow> int \<Rightarrow> string list \<Rightarrow> string \<Rightarrow> blobClaims \<Rightarrow> contentIndex \<Rightarrow> blobClaims \<times> contentIndex" where
  "AddHosted H now root sz chunks fromPeer claims ix =
     releaseClaimsLocked H False claims (addHostedLocked now root sz chunks fromPeer ix)"

definition hasSet :: "string \<Rightarrow> contentIndex \<Rightarrow> bool" where
  "hasSet root ix \<longleftrightarrow> map_of (sets ix) root \<noteq> None"

definition Roots :: "contentIndex \<Rightarrow> string list" where
  "Roots ix = map fst (sets ix)"

definition Flush :: "contentIndex \<Rightarrow> contentIndex" where
  "Flush ix = (if dirty ix then saveIndex ix else ix)"

section \<open>The budget and eviction\<close>

definition hostedBytes :: "contentIndex \<Rightarrow> int" where
  "hostedBytes ix = reserved ix + sum_list (map (\<lambda>(r, m). if Owned m then 0 else Size m) (sets ix))"

text \<open>\<open>int64(d.Seconds())\<close> of a duration in nanoseconds.\<close>

definition durSeconds :: "int \<Rightarrow> int" where
  "durSeconds d = d div 10 ^ 9"

definition expired :: "int \<Rightarrow> int \<Rightarrow> contentMeta \<Rightarrow> bool" where
  "expired ttl now m \<longleftrightarrow> ttl > 0 \<and> now - LastAccess m > durSeconds ttl"

definition evictable :: "int \<Rightarrow> int \<Rightarrow> string set \<Rightarrow> string \<times> contentMeta \<Rightarrow> bool" where
  "evictable ttl now spared = (\<lambda>(root, m).
     \<not> (Owned m \<or> root \<in> spared)
     \<and> \<not> (\<not> expired ttl now m \<and> now - StoredAt m < evictionProtection))"

definition betterVictim :: "int \<Rightarrow> int \<Rightarrow> string \<times> contentMeta \<Rightarrow> string \<times> contentMeta \<Rightarrow> bool" where
  "betterVictim ttl now x v \<longleftrightarrow>
     expired ttl now (snd x) \<and> \<not> expired ttl now (snd v)
     \<or> expired ttl now (snd x) = expired ttl now (snd v) \<and> LastAccess (snd x) < LastAccess (snd v)"

definition pickVictim :: "int \<Rightarrow> int \<Rightarrow> string set \<Rightarrow> contentSets \<Rightarrow> (string \<times> contentMeta) option" where
  "pickVictim ttl now spared ss = scanBest (betterVictim ttl now) None (filter (evictable ttl now spared) ss)"

text \<open>\<open>release\<close> of \<open>evictLocked\<close>: the set's reference to a blob goes, and the blob with the last one.\<close>

definition releaseRef :: "hashlib \<Rightarrow> string \<Rightarrow> contentIndex \<Rightarrow> string \<Rightarrow> contentIndex" where
  "releaseRef H root ix h =
     (let refs = blobRefs ix h - {root}; ix1 = ix\<lparr>blobRefs := (blobRefs ix)(h := refs)\<rparr> in
      if refs = {} \<and> pending ix h = 0 then deleteBlob H h ix1 else ix1)"

definition evictLocked :: "hashlib \<Rightarrow> string \<Rightarrow> contentIndex \<Rightarrow> contentIndex" where
  "evictLocked H root ix =
     (case map_of (sets ix) root of
        None \<Rightarrow> ix
      | Some m \<Rightarrow>
          foldl (releaseRef H root) (ix\<lparr>sets := filter (\<lambda>(r, _). r \<noteq> root) (sets ix)\<rparr>) (root # Chunks m))"

lemma releaseRef_sets [simp]: "sets (releaseRef H root ix h) = sets ix"
  by (simp add: releaseRef_def Let_def deleteBlob_def)

lemma foldl_releaseRef_sets [simp]: "sets (foldl (releaseRef H root) ix hs) = sets ix"
  by (induction hs arbitrary: ix) simp_all

lemma evictLocked_sets: "sets (evictLocked H root ix) = filter (\<lambda>(r, _). r \<noteq> root) (sets ix)"
proof (cases "map_of (sets ix) root")
  case None
  then have "filter (\<lambda>(r, _). r \<noteq> root) (sets ix) = sets ix"
    by (force simp: filter_id_conv map_of_eq_None_iff)
  with None show ?thesis by (simp add: evictLocked_def)
qed (simp add: evictLocked_def)

lemma pickVictim_Some:
  "pickVictim ttl now spared ss = Some v \<Longrightarrow> v \<in> set ss \<and> evictable ttl now spared v"
  unfolding pickVictim_def by (drule scanBest_mem) auto

text \<open>The loop of \<open>fitLocked\<close>; the result also says whether anything was evicted.\<close>

function fitLoop ::
    "hashlib \<Rightarrow> int \<Rightarrow> int \<Rightarrow> int \<Rightarrow> int \<Rightarrow> bool \<Rightarrow> int \<Rightarrow> string set \<Rightarrow> bool \<Rightarrow> contentIndex
      \<Rightarrow> bool \<times> bool \<times> contentIndex" where
  "fitLoop H sz budget ttl now evicting freed spared evicted ix =
     (if \<not> hostedBytes ix - freed + sz > budget then (True, evicted, ix)
      else case pickVictim ttl now spared (sets ix) of
        None \<Rightarrow> (False, evicted, ix)
      | Some (victim, m) \<Rightarrow>
          if evicting then fitLoop H sz budget ttl now evicting freed spared True (evictLocked H victim ix)
          else fitLoop H sz budget ttl now evicting (freed + Size m) (insert victim spared) evicted ix)"
  by auto
termination
proof (relation "measure (\<lambda>(H, sz, budget, ttl, now, evicting, freed, spared, evicted, ix).
    length (filter (\<lambda>(r, m). r \<notin> spared) (sets ix)))", simp, goal_cases)
  case (1 H sz budget ttl now evicting freed spared evicted ix x victim m)
  then have "(victim, m) \<in> set (sets ix)" "victim \<notin> spared"
    using pickVictim_Some by (fastforce simp: evictable_def)+
  then have "length (filter (\<lambda>(r, _). r \<noteq> victim) (filter (\<lambda>(r, _). r \<notin> spared) (sets ix)))
      < length (filter (\<lambda>(r, _). r \<notin> spared) (sets ix))"
    by (intro length_filter_less [of "(victim, m)"]) auto
  then show ?case by (simp add: evictLocked_sets filter_filter case_prod_unfold conj_commute)
next
  case (2 H sz budget ttl now evicting freed spared evicted ix x victim m)
  then have "(victim, m) \<in> set (sets ix)" "victim \<notin> spared"
    using pickVictim_Some by (fastforce simp: evictable_def)+
  then have "length (filter (\<lambda>(r, _). r \<noteq> victim) (filter (\<lambda>(r, _). r \<notin> spared) (sets ix)))
      < length (filter (\<lambda>(r, _). r \<notin> spared) (sets ix))"
    by (intro length_filter_less [of "(victim, m)"]) auto
  then show ?case by (simp add: filter_filter case_prod_unfold conj_commute)
qed

declare fitLoop.simps [simp del]

definition fitLocked ::
    "hashlib \<Rightarrow> int \<Rightarrow> int \<Rightarrow> int \<Rightarrow> int \<Rightarrow> int \<Rightarrow> bool \<Rightarrow> contentIndex \<Rightarrow> bool \<times> contentIndex" where
  "fitLocked H sz budget maxSize ttl now evicting ix =
     (if sz > maxSize \<or> sz > budget then (False, ix)
      else case fitLoop H sz budget ttl now evicting 0 {} False ix of
        (fits, evicted, ix') \<Rightarrow> (fits, if evicted then saveIndex ix' else ix'))"

definition Admit :: "hashlib \<Rightarrow> int \<Rightarrow> int \<Rightarrow> int \<Rightarrow> int \<Rightarrow> int \<Rightarrow> contentIndex \<Rightarrow> bool \<times> contentIndex" where
  "Admit H sz budget maxSize ttl now ix = fitLocked H sz budget maxSize ttl now True ix"

definition Reserve :: "hashlib \<Rightarrow> int \<Rightarrow> int \<Rightarrow> int \<Rightarrow> int \<Rightarrow> int \<Rightarrow> contentIndex \<Rightarrow> bool \<times> contentIndex" where
  "Reserve H sz budget maxSize ttl now ix =
     (case fitLocked H sz budget maxSize ttl now False ix of
        (fits, ix') \<Rightarrow> if \<not> fits then (False, ix') else (True, ix'\<lparr>reserved := reserved ix' + sz\<rparr>))"

definition Release :: "int \<Rightarrow> contentIndex \<Rightarrow> contentIndex" where
  "Release sz ix = ix\<lparr>reserved := (if reserved ix - sz < 0 then 0 else reserved ix - sz)\<rparr>"

definition CommitHosted ::
    "hashlib \<Rightarrow> int \<Rightarrow> string \<Rightarrow> int \<Rightarrow> string list \<Rightarrow> string \<Rightarrow> int \<Rightarrow> int \<Rightarrow> int \<Rightarrow> int \<Rightarrow> blobClaims \<Rightarrow> contentIndex
      \<Rightarrow> bool \<times> blobClaims \<times> contentIndex" where
  "CommitHosted H clock root sz chunks fromPeer budget maxSize ttl now claims ix =
     (case fitLocked H sz budget maxSize ttl now True (Release sz ix) of
        (fits, ix') \<Rightarrow>
          if \<not> fits then (False, claims, ix')
          else (True, releaseClaimsLocked H False claims (addHostedLocked clock root sz chunks fromPeer ix')))"

section \<open>Loading\<close>

definition adoptSet :: "int \<Rightarrow> string \<Rightarrow> int \<Rightarrow> string list \<Rightarrow> contentIndex \<Rightarrow> contentIndex" where
  "adoptSet now root sz chunks ix =
     (let m = \<lparr>Owned = False, Size = sz, Chunks = chunks, StoredAt = now, LastAccess = now, From = []\<rparr>
      in reference root m (ix\<lparr>sets := putSet root m (sets ix)\<rparr>))"

definition adoptManifest ::
    "hashlib \<Rightarrow> manifestJson \<Rightarrow> int \<Rightarrow> string list \<Rightarrow> contentIndex \<Rightarrow> string \<Rightarrow> contentIndex" where
  "adoptManifest H J now onDisk ix h =
     (if blobRefs ix h \<noteq> {} then ix
      else case storeOpen H (store ix) h of
        Inl _ \<Rightarrow> ix
      | Inr (_, sz) \<Rightarrow>
          if sz > manifestProbeLimit then ix
          else (case storeGet H (store ix) h of
             Inl _ \<Rightarrow> ix
           | Inr data \<Rightarrow>
               (case DecodeManifest H J data of
                  None \<Rightarrow> ix
                | Some m \<Rightarrow>
                    if list_all (\<lambda>ch. ch \<in> set onDisk) (mChunks m) then adoptSet now h (sz + TotalSize m) (mChunks m) ix
                    else ix)))"

definition adoptPlain :: "hashlib \<Rightarrow> int \<Rightarrow> contentIndex \<Rightarrow> string \<Rightarrow> contentIndex" where
  "adoptPlain H now ix h =
     (if blobRefs ix h \<noteq> {} then ix
      else case storeOpen H (store ix) h of
        Inl _ \<Rightarrow> ix
      | Inr (_, sz) \<Rightarrow> adoptSet now h sz [] ix)"

text \<open>\<open>sidecar\<close> is the outcome of reading the index file: an error other than its absence, nothing
  usable, or the sets it lists.\<close>

definition LoadContentIndex ::
    "hashlib \<Rightarrow> manifestJson \<Rightarrow> int \<Rightarrow> contentErr + contentSets option \<Rightarrow> blobStore \<Rightarrow> contentErr + contentIndex" where
  "LoadContentIndex H J now sidecar st =
     bindR sidecar (\<lambda>file.
       let onDisk = storeList H st;
           kept = filter (\<lambda>(root, _). root \<in> set onDisk) (case file of None \<Rightarrow> [] | Some ss \<Rightarrow> ss);
           ix0 = \<lparr>sets = kept, blobRefs = (\<lambda>_. {}), pending = (\<lambda>_. 0), reserved = 0, dirty = False,
                  saved = file, store = st\<rparr>;
           ix1 = foldl (\<lambda>ix (root, m). reference root m ix) ix0 kept;
           ix2 = foldl (adoptManifest H J now onDisk) ix1 onDisk;
           ix3 = foldl (adoptPlain H now) ix2 onDisk
       in if writable st then Inr (saveIndex ix3) else Inl ErrIO)"

section \<open>Facts about the operations\<close>

text \<open>The index knows every blob of every set it records.\<close>

definition refsComplete :: "contentIndex \<Rightarrow> bool" where
  "refsComplete ix \<longleftrightarrow>
     distinct (map fst (sets ix)) \<and>
     (\<forall>(r, m) \<in> set (sets ix). \<forall>h \<in> set (r # Chunks m). r \<in> blobRefs ix h)"

text \<open>A step deletes blobs only, and only blobs that afterwards nobody claims or refers to.\<close>

definition shrinks :: "contentIndex \<Rightarrow> contentIndex \<Rightarrow> bool" where
  "shrinks ix ix' \<longleftrightarrow>
     (\<forall>h. files (store ix') h = files (store ix) h
        \<or> files (store ix') h = None \<and> pending ix' h \<le> 0 \<and> blobRefs ix' h = {})"

lemma shrinks_refl [simp]: "shrinks ix ix"
  by (simp add: shrinks_def)

lemma saveIndex_simps [simp]:
  "sets (saveIndex ix) = sets ix" "blobRefs (saveIndex ix) = blobRefs ix" "pending (saveIndex ix) = pending ix"
  "reserved (saveIndex ix) = reserved ix" "store (saveIndex ix) = store ix"
  by (simp_all add: saveIndex_def)

lemma deleteBlob_simps [simp]:
  "sets (deleteBlob H h ix) = sets ix" "blobRefs (deleteBlob H h ix) = blobRefs ix"
  "pending (deleteBlob H h ix) = pending ix" "reserved (deleteBlob H h ix) = reserved ix"
  by (simp_all add: deleteBlob_def)

lemma deleteBlob_files:
  "files (store (deleteBlob H h ix)) g = files (store ix) g \<or> files (store (deleteBlob H h ix)) g = None \<and> g = h"
  by (simp add: deleteBlob_def storeDelete_def)

lemma releaseOne_simps [simp]:
  "sets (releaseOne H d h ix) = sets ix" "blobRefs (releaseOne H d h ix) = blobRefs ix"
  "reserved (releaseOne H d h ix) = reserved ix" "\<not> d \<Longrightarrow> store (releaseOne H d h ix) = store ix"
  "pending (releaseOne H d h ix) = (pending ix)(h := if pending ix h > 1 then pending ix h - 1 else 0)"
  by (simp_all add: releaseOne_def Let_def)

lemma releaseOne_files:
  "files (store (releaseOne H d h ix)) g = files (store ix) g
   \<or> files (store (releaseOne H d h ix)) g = None \<and> g = h \<and> pending ix h \<le> 1 \<and> blobRefs ix h = {}"
  using deleteBlob_files [of H h "ix\<lparr>pending := (pending ix)(h := if pending ix h - 1 > 0 then pending ix h - 1 else 0)\<rparr>" g]
  by (auto simp: releaseOne_def Let_def)

lemma releaseClaims_frame:
  "sets (releaseClaims H d hs ix) = sets ix \<and> blobRefs (releaseClaims H d hs ix) = blobRefs ix
     \<and> reserved (releaseClaims H d hs ix) = reserved ix
     \<and> (\<not> d \<longrightarrow> store (releaseClaims H d hs ix) = store ix)"
  by (induction hs arbitrary: ix) simp_all

lemma releaseClaims_pending:
  "(\<forall>h. int (count_list hs h) \<le> pending ix h) \<Longrightarrow>
     pending (releaseClaims H d hs ix) g = pending ix g - int (count_list hs g)"
proof (induction hs arbitrary: ix)
  case (Cons x hs)
  have p2: "pending (releaseOne H d x ix) = (pending ix)(x := pending ix x - 1)"
    using Cons.prems [rule_format, of x] by auto
  have "\<forall>h. int (count_list hs h) \<le> pending (releaseOne H d x ix) h"
  proof
    fix h show "int (count_list hs h) \<le> pending (releaseOne H d x ix) h"
      unfolding p2 using Cons.prems [rule_format, of h] by (cases "h = x") auto
  qed
  from Cons.IH [OF this] show ?case unfolding p2 by simp
qed simp

lemma releaseClaims_files:
  "(files (store (releaseClaims H d hs ix)) g = files (store ix) g
      \<or> files (store (releaseClaims H d hs ix)) g = None \<and> pending (releaseClaims H d hs ix) g \<le> 0
          \<and> blobRefs ix g = {})
    \<and> (pending ix g \<le> 0 \<longrightarrow> pending (releaseClaims H d hs ix) g \<le> 0)"
proof (induction hs arbitrary: ix)
  case (Cons x hs)
  let ?i = "releaseOne H d x ix"
  have "pending ix g \<le> 0 \<longrightarrow> pending ?i g \<le> 0" "blobRefs ?i = blobRefs ix" by simp_all
  moreover have "files (store ?i) g = files (store ix) g
        \<or> files (store ?i) g = None \<and> pending ?i g \<le> 0 \<and> blobRefs ix g = {}"
    using releaseOne_files [of H d x ix g] by auto
  ultimately show ?case using Cons.IH [of ?i] unfolding releaseClaims.simps by argo
qed simp

lemma releaseClaims_shrinks: "shrinks ix (releaseClaims H d hs ix)"
  using releaseClaims_files [of H d hs ix] releaseClaims_frame [of H d hs ix] by (simp add: shrinks_def)

text \<open>Eviction of one set.\<close>

lemma releaseRef_frame [simp]:
  "pending (releaseRef H root ix h) = pending ix" "reserved (releaseRef H root ix h) = reserved ix"
  "blobRefs (releaseRef H root ix h) = (blobRefs ix)(h := blobRefs ix h - {root})"
  by (simp_all add: releaseRef_def Let_def)

lemma foldl_releaseRef_frame [simp]:
  "pending (foldl (releaseRef H root) ix hs) = pending ix"
  "reserved (foldl (releaseRef H root) ix hs) = reserved ix"
  by (induction hs arbitrary: ix) simp_all

lemma foldl_releaseRef_refs:
  "blobRefs (foldl (releaseRef H root) ix hs) g = (if g \<in> set hs then blobRefs ix g - {root} else blobRefs ix g)"
  by (induction hs arbitrary: ix) auto

lemma foldl_releaseRef_files:
  "files (store (foldl (releaseRef H root) ix hs)) g = files (store ix) g
   \<or> files (store (foldl (releaseRef H root) ix hs)) g = None \<and> pending ix g = 0 \<and> blobRefs ix g - {root} = {}"
proof (induction hs arbitrary: ix)
  case (Cons x hs)
  let ?i = "releaseRef H root ix x"
  have "files (store ?i) g = files (store ix) g
      \<or> files (store ?i) g = None \<and> pending ix g = 0 \<and> blobRefs ix g - {root} = {}"
    using deleteBlob_files [of H x "ix\<lparr>blobRefs := (blobRefs ix)(x := blobRefs ix x - {root})\<rparr>" g]
    by (auto simp: releaseRef_def Let_def)
  moreover have b: "blobRefs ?i g - {root} = blobRefs ix g - {root}" and p: "pending ?i g = pending ix g"
    by simp_all
  ultimately show ?case using Cons.IH [of ?i] unfolding b p foldl_Cons by argo
qed simp

lemma evictLocked_frame [simp]:
  "pending (evictLocked H root ix) = pending ix" "reserved (evictLocked H root ix) = reserved ix"
  by (simp_all add: evictLocked_def split: option.splits)

lemma evictLocked_refs:
  "blobRefs (evictLocked H root ix) g \<subseteq> blobRefs ix g
   \<and> blobRefs ix g - {root} \<subseteq> blobRefs (evictLocked H root ix) g"
  by (auto simp: evictLocked_def foldl_releaseRef_refs simp del: foldl_Cons split: option.splits if_splits)

lemma evictLocked_files:
  "files (store (evictLocked H root ix)) g = files (store ix) g
   \<or> files (store (evictLocked H root ix)) g = None \<and> pending ix g = 0 \<and> blobRefs (evictLocked H root ix) g \<subseteq> {}"
proof (cases "map_of (sets ix) root")
  case (Some m)
  let ?i = "ix\<lparr>sets := filter (\<lambda>(r, _). r \<noteq> root) (sets ix)\<rparr>"
  have e: "evictLocked H root ix = foldl (releaseRef H root) ?i (root # Chunks m)"
    using Some by (simp add: evictLocked_def)
  have "blobRefs ?i g - {root} = {} \<longrightarrow> g \<notin> set (root # Chunks m) \<longrightarrow>
      files (store (foldl (releaseRef H root) ?i hs)) g = files (store ix) g" if "set hs \<subseteq> set (root # Chunks m)" for hs
    using that
  proof (induction hs rule: rev_induct)
    case (snoc x hs)
    have "files (store (releaseRef H root j x)) g = files (store j) g" if "g \<noteq> x" for j
      using deleteBlob_files [of H x "j\<lparr>blobRefs := (blobRefs j)(x := blobRefs j x - {root})\<rparr>" g] that
      by (auto simp: releaseRef_def Let_def deleteBlob_def storeDelete_def)
    with snoc show ?case by (cases "g = x") auto
  qed simp
  then have out: "g \<notin> set (root # Chunks m) \<Longrightarrow> blobRefs ?i g - {root} = {} \<Longrightarrow>
      files (store (evictLocked H root ix)) g = files (store ix) g"
    unfolding e by blast
  show ?thesis
  proof (cases "g \<in> set (root # Chunks m)")
    case True
    then have "blobRefs (evictLocked H root ix) g = blobRefs ix g - {root}"
      unfolding e by (simp only: foldl_releaseRef_refs if_True) simp
    with foldl_releaseRef_files [of H root ?i "root # Chunks m" g] show ?thesis
      unfolding e by auto
  next
    case False
    with out foldl_releaseRef_files [of H root ?i "root # Chunks m" g] show ?thesis
      unfolding e by auto
  qed
qed (simp add: evictLocked_def)

lemma refsComplete_evict: "refsComplete ix \<Longrightarrow> refsComplete (evictLocked H root ix)"
proof -
  assume a: "refsComplete ix"
  have "r \<in> blobRefs (evictLocked H root ix) h"
    if "(r, m) \<in> set (sets ix)" "r \<noteq> root" "h \<in> set (r # Chunks m)" for r m h
    using a that evictLocked_refs [where ix = ix and g = h and root = root and H = H] unfolding refsComplete_def by blast
  moreover have "distinct (map fst (filter (\<lambda>(r, _). r \<noteq> root) (sets ix)))"
    using a by (simp add: refsComplete_def distinct_map_filter)
  ultimately show ?thesis by (auto simp: refsComplete_def evictLocked_sets)
qed

text \<open>The whole eviction pass.\<close>

lemma fitLoop_props:
  "fitLoop H sz budget ttl now ev freed spared evicted ix = (fits, e', ix') \<Longrightarrow>
     pending ix' = pending ix \<and> reserved ix' = reserved ix \<and> (\<forall>h. blobRefs ix' h \<subseteq> blobRefs ix h)
     \<and> (refsComplete ix \<longrightarrow> refsComplete ix')
     \<and> (\<forall>h. files (store ix') h = files (store ix) h
           \<or> files (store ix') h = None \<and> pending ix h = 0 \<and> blobRefs ix' h = {})
     \<and> (\<not> ev \<longrightarrow> ix' = ix \<and> e' = evicted)
     \<and> (ev \<longrightarrow> fits \<longrightarrow> hostedBytes ix' - freed + sz \<le> budget)
     \<and> (\<exists>S. sets ix' = filter (\<lambda>(r, _). r \<notin> S) (sets ix)
           \<and> (\<forall>(r, m) \<in> set (sets ix). r \<in> S \<longrightarrow> (\<exists>m'. (r, m') \<in> set (sets ix) \<and> evictable ttl now spared (r, m'))))"
proof (induction H sz budget ttl now ev freed spared evicted ix rule: fitLoop.induct)
  case (1 H sz budget ttl now ev freed spared evicted ix)
  note prem = 1(3) [unfolded fitLoop.simps [of H sz budget ttl now ev freed spared evicted ix]]
  have triv: ?case if "ix' = ix" "e' = evicted" "ev \<longrightarrow> fits \<longrightarrow> hostedBytes ix - freed + sz \<le> budget"
    using that by (auto intro!: exI [of _ "{}"])
  show ?case
  proof (cases "hostedBytes ix - freed + sz > budget")
    case False
    with prem show ?thesis by (intro triv) auto
  next
    case over: True
    show ?thesis
    proof (cases "pickVictim ttl now spared (sets ix)")
      case None
      with over prem show ?thesis by (intro triv) auto
    next
      case (Some v)
      obtain victim m where v: "v = (victim, m)" by (cases v)
      note vic = pickVictim_Some [OF Some]
      show ?thesis
      proof (cases ev)
        case False
        with over Some v prem have "fitLoop H sz budget ttl now ev (freed + Size m) (insert victim spared) evicted ix = (fits, e', ix')"
          by simp
        from 1(2) [OF _ Some v [symmetric] False this] over False show ?thesis
          by (intro triv) auto
      next
        case True
        let ?e = "evictLocked H victim ix"
        from True over Some v prem have "fitLoop H sz budget ttl now ev freed spared True ?e = (fits, e', ix')"
          by simp
        note ih = 1(1) [OF _ Some v [symmetric] True this]
        then obtain S where S: "sets ix' = filter (\<lambda>(r, _). r \<notin> S) (sets ?e)"
          "\<forall>(r, m) \<in> set (sets ?e). r \<in> S \<longrightarrow> (\<exists>m'. (r, m') \<in> set (sets ?e) \<and> evictable ttl now spared (r, m'))"
          using over by blast
        have "sets ix' = filter (\<lambda>(r, _). r \<notin> insert victim S) (sets ix)"
          unfolding S(1) evictLocked_sets filter_filter by (rule filter_cong) auto
        moreover have "\<forall>(r, m) \<in> set (sets ix). r \<in> insert victim S \<longrightarrow>
            (\<exists>m'. (r, m') \<in> set (sets ix) \<and> evictable ttl now spared (r, m'))"
          using S(2) vic v by (fastforce simp: evictLocked_sets)
        ultimately have sets: "\<exists>S. sets ix' = filter (\<lambda>(r, _). r \<notin> S) (sets ix)
           \<and> (\<forall>(r, m) \<in> set (sets ix). r \<in> S \<longrightarrow> (\<exists>m'. (r, m') \<in> set (sets ix) \<and> evictable ttl now spared (r, m')))"
          by blast
        have fl: "files (store ix') h = files (store ix) h
           \<or> files (store ix') h = None \<and> pending ix h = 0 \<and> blobRefs ix' h = {}" for h
        proof -
          from ih over have f: "files (store ix') h = files (store ?e) h
              \<or> files (store ix') h = None \<and> pending ?e h = 0 \<and> blobRefs ix' h = {}"
            and r: "blobRefs ix' h \<subseteq> blobRefs ?e h" by blast+
          from evictLocked_files [of H victim ix h] show ?thesis
          proof
            assume "files (store ?e) h = files (store ix) h"
            with f show ?thesis by simp
          next
            assume e: "files (store ?e) h = None \<and> pending ix h = 0 \<and> blobRefs ?e h \<subseteq> {}"
            with f have "files (store ix') h = None" by auto
            with e r show ?thesis by auto
          qed
        qed
        have rf: "blobRefs ix' h \<subseteq> blobRefs ix h" for h
          using ih over evictLocked_refs [where ix = ix and g = h and root = victim and H = H] by blast
        have ih': "pending ix' = pending ix" "reserved ix' = reserved ix" "refsComplete ix \<longrightarrow> refsComplete ix'"
          "ev \<longrightarrow> fits \<longrightarrow> hostedBytes ix' - freed + sz \<le> budget"
          using ih over refsComplete_evict [of ix H victim] by auto
        show ?thesis using sets fl rf ih' True by (intro conjI allI) auto
      qed
    qed
  qed
qed

section \<open>Writers\<close>

text \<open>
  The index with the transfers in flight, interleaved at the index's lock. Each writer has its
  handle and, as a ghost, the blobs it has claimed and since then stored or found in the store;
  \<open>ready\<close> is what the protocol lets it rely on. A writer records only sets made of such blobs,
  with one exception: \<open>FetchStream\<close> records a cached manifest before its chunks have been fetched
  (and even when storing the manifest itself failed), and the chunks are stored later without a
  claim. The roots recorded that way are the ghost field \<open>partial\<close>.
\<close>

record writer =
  held :: blobClaims
  ready :: "string set"

record system =
  index :: contentIndex
  writers :: "writer list"
  partial :: "string set"

datatype label =
    LBegin | LClaim nat string | LPut nat bytes | LRely nat string | LDiscard nat
  | LOwn nat string "string list" | LHost nat string "string list" | LCommit nat string "string list" bool
  | LCache nat string | LChunk bytes | LPolicy | LTouch

inductive ixStep :: "hashlib \<Rightarrow> system \<Rightarrow> label \<Rightarrow> system \<Rightarrow> bool" for H where
  st_begin: "ixStep H s LBegin (s\<lparr>writers := writers s @ [\<lparr>held = BeginWrite, ready = {}\<rparr>]\<rparr>)"
| st_claim: "w < length (writers s) \<Longrightarrow> Claim h (held (writers s ! w)) (index s) = (c, ix') \<Longrightarrow>
    ixStep H s (LClaim w h) (s\<lparr>index := ix', writers := (writers s)[w := (writers s ! w)\<lparr>held := c\<rparr>]\<rparr>)"
| st_put: "w < length (writers s) \<Longrightarrow> storePut H (store (index s)) data = (Inr h, st') \<Longrightarrow>
    h \<in> set (held (writers s ! w)) \<Longrightarrow>
    ixStep H s (LPut w data) (s\<lparr>index := (index s)\<lparr>store := st'\<rparr>,
      writers := (writers s)[w := (writers s ! w)\<lparr>ready := insert h (ready (writers s ! w))\<rparr>]\<rparr>)"
| st_rely: "w < length (writers s) \<Longrightarrow> storeHas H (store (index s)) h \<Longrightarrow> h \<in> set (held (writers s ! w)) \<Longrightarrow>
    ixStep H s (LRely w h) (s\<lparr>index := index s,
      writers := (writers s)[w := (writers s ! w)\<lparr>ready := insert h (ready (writers s ! w))\<rparr>]\<rparr>)"
| st_discard: "w < length (writers s) \<Longrightarrow> Discard H (held (writers s ! w)) (index s) = (c, ix') \<Longrightarrow>
    ixStep H s (LDiscard w) (s\<lparr>index := ix', writers := (writers s)[w := \<lparr>held = c, ready = {}\<rparr>]\<rparr>)"
| st_own: "w < length (writers s) \<Longrightarrow> set (root # chunks) \<subseteq> ready (writers s ! w) \<Longrightarrow>
    MarkOwned H now root sz chunks (held (writers s ! w)) (index s) = (c, ix') \<Longrightarrow>
    ixStep H s (LOwn w root chunks) (s\<lparr>index := ix', writers := (writers s)[w := \<lparr>held = c, ready = {}\<rparr>], partial := partial s - {root}\<rparr>)"
| st_host: "w < length (writers s) \<Longrightarrow> set (root # chunks) \<subseteq> ready (writers s ! w) \<Longrightarrow>
    AddHosted H now root sz chunks from_peer (held (writers s ! w)) (index s) = (c, ix') \<Longrightarrow>
    ixStep H s (LHost w root chunks) (s\<lparr>index := ix', writers := (writers s)[w := \<lparr>held = c, ready = {}\<rparr>],
      partial := (if hasSet root (index s) then partial s else partial s - {root})\<rparr>)"
| st_cache: "w < length (writers s) \<Longrightarrow>
    AddHosted H now root sz chunks from_peer (held (writers s ! w)) (index s) = (c, ix') \<Longrightarrow>
    ixStep H s (LCache w root) (s\<lparr>index := ix', writers := (writers s)[w := \<lparr>held = c, ready = {}\<rparr>],
      partial := (if hasSet root (index s) then partial s else insert root (partial s))\<rparr>)"
| st_cacheChunk: "storePut H (store (index s)) data = (r, st') \<Longrightarrow>
    ixStep H s (LChunk data) (s\<lparr>index := (index s)\<lparr>store := st'\<rparr>\<rparr>)"
| st_commit: "w < length (writers s) \<Longrightarrow> set (root # chunks) \<subseteq> ready (writers s ! w) \<Longrightarrow>
    fitLocked H sz budget maxSize ttl now True (Release sz (index s)) = (True, mid) \<Longrightarrow>
    CommitHosted H clock root sz chunks from_peer budget maxSize ttl now (held (writers s ! w)) (index s) = (True, c, ix') \<Longrightarrow>
    ixStep H s (LCommit w root chunks True) (s\<lparr>index := ix', writers := (writers s)[w := \<lparr>held = c, ready = {}\<rparr>],
      partial := (if hasSet root mid then partial s else partial s - {root})\<rparr>)"
| st_reject: "w < length (writers s) \<Longrightarrow>
    CommitHosted H clock root sz chunks from_peer budget maxSize ttl now (held (writers s ! w)) (index s) = (False, c, ix') \<Longrightarrow>
    ixStep H s (LCommit w root chunks False) (s\<lparr>index := ix'\<rparr>)"
| st_reserve: "Reserve H sz budget maxSize ttl now (index s) = (r, ix') \<Longrightarrow> ixStep H s LPolicy (s\<lparr>index := ix'\<rparr>)"
| st_release: "ixStep H s LPolicy (s\<lparr>index := Release sz (index s)\<rparr>)"
| st_admit: "Admit H sz budget maxSize ttl now (index s) = (r, ix') \<Longrightarrow> ixStep H s LPolicy (s\<lparr>index := ix'\<rparr>)"
| st_touch: "ixStep H s LTouch (s\<lparr>index := Touch now root (index s)\<rparr>)"
| st_touchBlob: "ixStep H s LTouch (s\<lparr>index := TouchBlob now h (index s)\<rparr>)"
| st_flush: "ixStep H s LTouch (s\<lparr>index := Flush (index s)\<rparr>)"

inductive_cases ixStepE: "ixStep H s l s'"

text \<open>The pending counter is the number of claims writers hold, what a writer relies on is claimed
  and stored, and every blob of every recorded set outside \<open>partial\<close> is stored.\<close>

definition heldCount :: "writer list \<Rightarrow> string \<Rightarrow> int" where
  "heldCount ws h = (\<Sum>w \<leftarrow> ws. int (count_list (held w) h))"

definition presentBlob :: "contentIndex \<Rightarrow> string \<Rightarrow> bool" where
  "presentBlob ix h \<longleftrightarrow> files (store ix) h \<noteq> None"

definition setsStored :: "string set \<Rightarrow> contentIndex \<Rightarrow> bool" where
  "setsStored P ix \<longleftrightarrow> (\<forall>(r, m) \<in> set (sets ix). r \<notin> P \<longrightarrow> (\<forall>h \<in> set (r # Chunks m). presentBlob ix h))"

definition sysInv :: "system \<Rightarrow> bool" where
  "sysInv s \<longleftrightarrow>
     refsComplete (index s) \<and> (\<forall>h. pending (index s) h = heldCount (writers s) h)
     \<and> (\<forall>w \<in> set (writers s). ready w \<subseteq> set (held w) \<and> (\<forall>h \<in> ready w. presentBlob (index s) h))
     \<and> setsStored (partial s) (index s)"

lemma heldCount_nonneg: "0 \<le> heldCount ws h"
  unfolding heldCount_def by (rule sum_list_nonneg) auto

lemma heldCount_ge: "w \<in> set ws \<Longrightarrow> int (count_list (held w) h) \<le> heldCount ws h"
  unfolding heldCount_def by (rule member_le_sum_list) auto

lemma heldCount_update:
  "w < length ws \<Longrightarrow>
     heldCount (ws[w := x]) h = heldCount ws h - int (count_list (held (ws ! w)) h) + int (count_list (held x) h)"
  unfolding heldCount_def
proof (induction ws arbitrary: w)
  case (Cons y ys)
  then show ?case by (cases w) auto
qed simp

lemma heldCount_pos: "w \<in> set ws \<Longrightarrow> h \<in> set (held w) \<Longrightarrow> 0 < heldCount ws h"
  using heldCount_ge [of w ws h] count_list_0_iff [of "held w" h] by force

text \<open>A blob somebody holds or some set refers to survives a step that only shrinks the store.\<close>

lemma shrinks_keeps:
  assumes "shrinks ix ix'" and "presentBlob ix h" and "0 < pending ix' h \<or> blobRefs ix' h \<noteq> {}"
  shows "presentBlob ix' h"
proof -
  from assms(1) have "files (store ix') h = files (store ix) h
      \<or> files (store ix') h = None \<and> pending ix' h \<le> 0 \<and> blobRefs ix' h = {}"
    by (simp add: shrinks_def)
  with assms(2,3) show ?thesis by (auto simp: presentBlob_def)
qed

lemma refsComplete_refs:
  "refsComplete ix \<Longrightarrow> (r, m) \<in> set (sets ix) \<Longrightarrow> h \<in> set (r # Chunks m) \<Longrightarrow> blobRefs ix h \<noteq> {}"
  unfolding refsComplete_def by blast

text \<open>The common shape of every step: the new index keeps the old sets or adds one made of blobs that
  are present, and the writers' relied-on blobs only shrink.\<close>

lemma sysInv_step:
  assumes inv: "sysInv s" and sh: "shrinks (index s) (index s')" and ref: "refsComplete (index s')"
    and pend: "\<And>h. pending (index s') h = heldCount (writers s') h"
    and ws: "\<And>w h. w \<in> set (writers s') \<Longrightarrow> h \<in> ready w \<Longrightarrow>
        h \<in> set (held w) \<and> presentBlob (index s) h"
    and st: "\<And>r m h. (r, m) \<in> set (sets (index s')) \<Longrightarrow> r \<notin> partial s' \<Longrightarrow> h \<in> set (r # Chunks m) \<Longrightarrow> presentBlob (index s) h"
  shows "sysInv s'"
proof -
  have "presentBlob (index s') h"
    if "(r, m) \<in> set (sets (index s'))" "r \<notin> partial s'" "h \<in> set (r # Chunks m)" for r m h
    using shrinks_keeps [OF sh st [OF that]] refsComplete_refs [OF ref that(1,3)] by blast
  moreover have "presentBlob (index s') h" if "w \<in> set (writers s')" "h \<in> ready w" for w h
    using shrinks_keeps [OF sh, of h] ws [OF that] heldCount_pos [OF that(1), of h] pend [of h] by simp
  ultimately show ?thesis
    using ref pend ws unfolding sysInv_def setsStored_def by blast
qed

section \<open>Every step preserves the invariant\<close>

lemma sysInv_frame:
  assumes inv: "sysInv s" and "sets ix' = sets (index s)" "blobRefs ix' = blobRefs (index s)"
    "pending ix' = pending (index s)" "store ix' = store (index s)"
  shows "sysInv (s\<lparr>index := ix'\<rparr>)"
  using assms by (simp add: sysInv_def refsComplete_def setsStored_def presentBlob_def)

text \<open>Refreshing access times keeps roots and chunk lists.\<close>

definition sameShape :: "contentSets \<Rightarrow> contentSets \<Rightarrow> bool" where
  "sameShape ss ss' \<longleftrightarrow>
     list_all2 (\<lambda>x y. fst x = fst y \<and> Chunks (snd x) = Chunks (snd y) \<and> Owned (snd x) = Owned (snd y)
       \<and> Size (snd x) = Size (snd y)) ss ss'"

lemma sameShape_touch:
  "sameShape ss (map (\<lambda>(r, m). (r, if f r then m\<lparr>LastAccess := t\<rparr> else m)) ss)"
  by (auto simp: sameShape_def list_all2_conv_all_nth split: prod.splits)

lemma sameShape_keys: "sameShape ss ss' \<Longrightarrow> map fst ss = map fst ss'"
  by (auto simp: sameShape_def list_all2_conv_all_nth intro: nth_equalityI)

lemma sameShape_mem:
  assumes "sameShape ss ss'" and "(r, m) \<in> set ss'"
  shows "\<exists>m0. (r, m0) \<in> set ss \<and> Chunks m0 = Chunks m \<and> Owned m0 = Owned m \<and> Size m0 = Size m"
proof -
  from assms(2) obtain i where i: "i < length ss'" "ss' ! i = (r, m)" by (auto simp: in_set_conv_nth)
  with assms(1) have l: "i < length ss" and e: "fst (ss ! i) = r" "Chunks (snd (ss ! i)) = Chunks m"
    "Owned (snd (ss ! i)) = Owned m" "Size (snd (ss ! i)) = Size m"
    by (auto simp: sameShape_def list_all2_conv_all_nth)
  have "(r, snd (ss ! i)) \<in> set ss" using l e(1) by (metis nth_mem prod.collapse)
  with e show ?thesis by blast
qed

lemma sameShape_refl [simp]: "sameShape ss ss"
  by (simp add: sameShape_def list_all2_conv_all_nth)

lemma sysInv_touch:
  assumes "sysInv s" and sh: "sameShape (sets (index s)) (sets ix')" and "blobRefs ix' = blobRefs (index s)"
    "pending ix' = pending (index s)" "store ix' = store (index s)"
  shows "sysInv (s\<lparr>index := ix'\<rparr>)"
proof (rule sysInv_step [OF assms(1)])
  show "shrinks (index s) (index (s\<lparr>index := ix'\<rparr>))" using assms by (simp add: shrinks_def)
  show "refsComplete (index (s\<lparr>index := ix'\<rparr>))"
    using assms(1,3) sameShape_keys [OF sh] sameShape_mem [OF sh]
    by (fastforce simp: sysInv_def refsComplete_def)
  show "pending (index (s\<lparr>index := ix'\<rparr>)) h = heldCount (writers (s\<lparr>index := ix'\<rparr>)) h" for h
    using assms by (simp add: sysInv_def)
  show "h \<in> set (held w) \<and> presentBlob (index s) h"
    if "w \<in> set (writers (s\<lparr>index := ix'\<rparr>))" "h \<in> ready w" for w h
    using assms(1) that by (auto simp: sysInv_def)
  show "presentBlob (index s) h"
    if "(r, m) \<in> set (sets (index (s\<lparr>index := ix'\<rparr>)))" "r \<notin> partial (s\<lparr>index := ix'\<rparr>)" "h \<in> set (r # Chunks m)" for r m h
    using assms(1) sameShape_mem [OF sh, of r m] that by (fastforce simp: sysInv_def setsStored_def)
qed

lemma touchLocked_frame:
  "sameShape (sets ix) (sets (touchLocked now root ix)) \<and> blobRefs (touchLocked now root ix) = blobRefs ix
   \<and> pending (touchLocked now root ix) = pending ix \<and> store (touchLocked now root ix) = store ix
   \<and> reserved (touchLocked now root ix) = reserved ix"
  using sameShape_touch [of "sets ix" "\<lambda>r. r = root" now] by (simp add: touchLocked_def)

lemma TouchBlob_frame:
  "sameShape (sets ix) (sets (TouchBlob now h ix)) \<and> blobRefs (TouchBlob now h ix) = blobRefs ix
   \<and> pending (TouchBlob now h ix) = pending ix \<and> store (TouchBlob now h ix) = store ix"
  using sameShape_touch [of "sets ix" "\<lambda>r. r \<in> blobRefs ix h" now] by (simp add: TouchBlob_def Let_def)

lemma fitLocked_props:
  assumes "fitLocked H sz budget maxSize ttl now ev ix = (fits, ix')"
  shows "pending ix' = pending ix \<and> reserved ix' = reserved ix
     \<and> (refsComplete ix \<longrightarrow> refsComplete ix')
     \<and> (\<forall>h. files (store ix') h = files (store ix) h
           \<or> files (store ix') h = None \<and> pending ix h = 0 \<and> blobRefs ix' h = {})
     \<and> (\<not> ev \<longrightarrow> ix' = ix)
     \<and> (ev \<longrightarrow> fits \<longrightarrow> hostedBytes ix' + sz \<le> budget)
     \<and> (\<exists>S. sets ix' = filter (\<lambda>(r, _). r \<notin> S) (sets ix)
           \<and> (\<forall>(r, m) \<in> set (sets ix). r \<in> S \<longrightarrow> (\<exists>m'. (r, m') \<in> set (sets ix) \<and> evictable ttl now {} (r, m'))))"
proof (cases "sz > maxSize \<or> sz > budget")
  case True
  with assms have "fits = False" "ix' = ix" by (auto simp: fitLocked_def)
  then show ?thesis by (auto intro!: exI [of _ "{}"])
next
  case False
  obtain f e i where l: "fitLoop H sz budget ttl now ev 0 {} False ix = (f, e, i)" by (metis prod_cases3)
  note p = fitLoop_props [OF l]
  from False assms l have r: "fits = f" "ix' = (if e then saveIndex i else i)"
    by (auto simp: fitLocked_def)
  have same: "sets ix' = sets i" "pending ix' = pending i" "reserved ix' = reserved i" "blobRefs ix' = blobRefs i"
    "store ix' = store i" "refsComplete ix' = refsComplete i" "hostedBytes ix' = hostedBytes i"
    unfolding r by (simp_all add: refsComplete_def hostedBytes_def)
  have ne: "\<not> ev \<longrightarrow> ix' = ix" using p r by auto
  show ?thesis
    unfolding same using p ne r(1) by (intro conjI allI impI) (blast | simp)+
qed

lemma sysInv_fit:
  assumes inv: "sysInv s" and f: "fitLocked H sz budget maxSize ttl now ev (index s) = (fits, ix')"
  shows "sysInv (s\<lparr>index := ix'\<rparr>)"
proof (rule sysInv_step [OF inv])
  note p = fitLocked_props [OF f]
  show "shrinks (index s) (index (s\<lparr>index := ix'\<rparr>))"
  proof -
    have "files (store ix') h = files (store (index s)) h
        \<or> files (store ix') h = None \<and> pending ix' h \<le> 0 \<and> blobRefs ix' h = {}" for h
      using p by (metis order_refl)
    then show ?thesis by (simp add: shrinks_def)
  qed
  show "refsComplete (index (s\<lparr>index := ix'\<rparr>))" using p inv by (simp add: sysInv_def)
  show "pending (index (s\<lparr>index := ix'\<rparr>)) h = heldCount (writers (s\<lparr>index := ix'\<rparr>)) h" for h
    using p inv by (simp add: sysInv_def)
  show "h \<in> set (held w) \<and> presentBlob (index s) h"
    if "w \<in> set (writers (s\<lparr>index := ix'\<rparr>))" "h \<in> ready w" for w h
    using inv that by (auto simp: sysInv_def)
  show "presentBlob (index s) h"
    if "(r, m) \<in> set (sets (index (s\<lparr>index := ix'\<rparr>)))" "r \<notin> partial (s\<lparr>index := ix'\<rparr>)" "h \<in> set (r # Chunks m)" for r m h
  proof -
    from p obtain S where "sets ix' = filter (\<lambda>(r, _). r \<notin> S) (sets (index s))" by blast
    with that have "(r, m) \<in> set (sets (index s))" "r \<notin> partial s" by auto
    with inv that(3) show ?thesis unfolding sysInv_def setsStored_def by blast
  qed
qed

lemma putSet_mem: "(r, x) \<in> set (putSet root m ss) \<Longrightarrow> (r, x) = (root, m) \<or> (r, x) \<in> set ss \<and> r \<noteq> root"
  by (auto simp: putSet_def map_of_eq_None_iff split: if_splits) force

lemma putSet_keys:
  "map fst (putSet root m ss) = (if map_of ss root = None then map fst ss @ [root] else map fst ss)"
  by (auto simp: putSet_def o_def case_prod_unfold)

lemma refsComplete_cong:
  "refsComplete ix \<Longrightarrow> sets ix' = sets ix \<Longrightarrow> blobRefs ix' = blobRefs ix \<Longrightarrow> refsComplete ix'"
  by (simp add: refsComplete_def)

lemma reference_simps [simp]:
  "sets (reference root m ix) = sets ix" "store (reference root m ix) = store ix"
  "pending (reference root m ix) = pending ix" "reserved (reference root m ix) = reserved ix"
  "blobRefs (reference root m (ix\<lparr>sets := ss\<rparr>)) = blobRefs (reference root m ix)"
  by (simp_all add: reference_def cong: if_cong)

lemma refsComplete_record:
  "refsComplete ix \<Longrightarrow> refsComplete (reference root m (ix\<lparr>sets := putSet root m (sets ix)\<rparr>))"
  unfolding refsComplete_def
proof (intro conjI ballI, goal_cases)
  case 1
  then show ?case by (auto simp: reference_def putSet_keys map_of_eq_None_iff)
next
  case (2 p)
  obtain r x where p: "p = (r, x)" by (cases p)
  with 2 putSet_mem [of r x root m "sets ix"] have "(r, x) = (root, m) \<or> (r, x) \<in> set (sets ix)"
    by (auto simp: reference_def)
  with 2 p show ?case by (fastforce simp: reference_def)
qed

lemma release_pending:
  assumes "sysInv s" and "w < length (writers s)" and "pending ix = pending (index s)"
  shows "pending (releaseClaims H d (held (writers s ! w)) ix) h =
     heldCount ((writers s)[w := \<lparr>held = [], ready = {}\<rparr>]) h"
proof -
  have p: "pending (index s) g = heldCount (writers s) g" for g using assms(1) by (simp add: sysInv_def)
  have "\<forall>g. int (count_list (held (writers s ! w)) g) \<le> pending ix g"
    using assms(2,3) p heldCount_ge [of "writers s ! w" "writers s"] by simp
  from releaseClaims_pending [OF this] show ?thesis
    using assms(2,3) p by (simp add: heldCount_update)
qed

lemma writer_ready:
  assumes "sysInv s" "w \<in> set ((writers s)[i := x])" "h \<in> ready w" "i < length (writers s)"
    and "ready x \<subseteq> ready (writers s ! i)" "w = x \<Longrightarrow> h \<in> set (held x)"
  shows "h \<in> set (held w) \<and> presentBlob (index s) h"
proof -
  have inv: "\<And>v. v \<in> set (writers s) \<Longrightarrow> ready v \<subseteq> set (held v) \<and> (\<forall>h \<in> ready v. presentBlob (index s) h)"
    using assms(1) by (simp add: sysInv_def)
  from assms(2) have "w = x \<or> w \<in> set (writers s)" using set_update_subset_insert by fastforce
  then show ?thesis
  proof
    assume "w = x"
    with assms(3-6) inv [OF nth_mem [OF assms(4)]] show ?thesis by auto
  qed (use inv assms(3) in blast)
qed

text \<open>Recording a set of relied-on blobs, or a partial one, and dropping the writer's claims.\<close>

lemma sysInv_record:
  assumes inv: "sysInv s" and w: "w < length (writers s)"
    and prot: "root \<notin> P \<Longrightarrow> set (root # Chunks m) \<subseteq> ready (writers s ! w)"
    and P: "partial s \<subseteq> insert root P"
    and ix': "sets ix' = putSet root m (sets (index s))"
      "blobRefs ix' = blobRefs (reference root m (index s))"
      "store ix' = store (index s)"
      "pending ix' = pending (releaseClaims H d (held (writers s ! w)) ix0)" "pending ix0 = pending (index s)"
  shows "sysInv (s\<lparr>index := ix', writers := (writers s)[w := \<lparr>held = [], ready = {}\<rparr>], partial := P\<rparr>)"
proof (rule sysInv_step [OF inv])
  let ?s = "s\<lparr>index := ix', writers := (writers s)[w := \<lparr>held = [], ready = {}\<rparr>], partial := P\<rparr>"
  show "shrinks (index s) (index ?s)" using ix' by (simp add: shrinks_def)
  have "refsComplete (reference root m ((index s)\<lparr>sets := putSet root m (sets (index s))\<rparr>))"
    using inv by (intro refsComplete_record) (simp add: sysInv_def)
  moreover have "sets (index ?s) = sets (reference root m ((index s)\<lparr>sets := putSet root m (sets (index s))\<rparr>))"
    "blobRefs (index ?s) = blobRefs (reference root m ((index s)\<lparr>sets := putSet root m (sets (index s))\<rparr>))"
    using ix' by simp_all
  ultimately show "refsComplete (index ?s)" using refsComplete_cong by blast
  show "pending (index ?s) h = heldCount (writers ?s) h" for h
    using ix'(4) release_pending [OF inv w ix'(5)] by simp
  show "h \<in> set (held v) \<and> presentBlob (index s) h" if "v \<in> set (writers ?s)" "h \<in> ready v" for v h
    using that by (intro writer_ready [OF inv _ _ w]) auto
  show "presentBlob (index s) h"
    if "(r, x) \<in> set (sets (index ?s))" "r \<notin> partial ?s" "h \<in> set (r # Chunks x)" for r x h
  proof -
    from that(1) have "(r, x) = (root, m) \<or> (r, x) \<in> set (sets (index s)) \<and> r \<noteq> root"
      using putSet_mem [of r x root m "sets (index s)"] ix'(1) by auto
    then show ?thesis
    proof
      assume "(r, x) = (root, m)"
      with that(2,3) prot have "h \<in> ready (writers s ! w)" by auto
      with inv w show ?thesis unfolding sysInv_def by (meson nth_mem)
    next
      assume "(r, x) \<in> set (sets (index s)) \<and> r \<noteq> root"
      moreover with that(2) P have "r \<notin> partial s" by auto
      ultimately show ?thesis using inv that(3) unfolding sysInv_def setsStored_def by blast
    qed
  qed
qed

lemma sysInv_release:
  assumes inv: "sysInv s" and w: "w < length (writers s)"
    and ix': "sameShape (sets (index s)) (sets ix0)" "blobRefs ix0 = blobRefs (index s)" "store ix0 = store (index s)"
      "pending ix0 = pending (index s)"
  shows "sysInv (s\<lparr>index := releaseClaims H d (held (writers s ! w)) ix0,
                 writers := (writers s)[w := \<lparr>held = [], ready = {}\<rparr>]\<rparr>)"
proof (rule sysInv_step)
  let ?i = "releaseClaims H d (held (writers s ! w)) ix0"
  let ?s = "s\<lparr>index := ?i, writers := (writers s)[w := \<lparr>held = [], ready = {}\<rparr>]\<rparr>"
  let ?t = "s\<lparr>index := ix0\<rparr>"
  show t: "sysInv ?t" by (rule sysInv_touch [OF inv ix'(1,2,4,3)])
  note fr = releaseClaims_frame [of H d "held (writers s ! w)" ix0]
  show "shrinks (index ?t) (index ?s)" using releaseClaims_shrinks by simp
  show "refsComplete (index ?s)" using t fr by (simp add: sysInv_def refsComplete_def)
  show "pending (index ?s) h = heldCount (writers ?s) h" for h
    using release_pending [OF inv w ix'(4)] by simp
  show "h \<in> set (held v) \<and> presentBlob (index ?t) h" if "v \<in> set (writers ?s)" "h \<in> ready v" for v h
    using that w by (intro writer_ready [OF t]) auto
  show "presentBlob (index ?t) h" if "(r, x) \<in> set (sets (index ?s))" "r \<notin> partial ?s" "h \<in> set (r # Chunks x)" for r x h
    using t that fr unfolding sysInv_def setsStored_def by fastforce
qed

lemma addHosted_sysInv:
  assumes inv: "sysInv s" and w: "w < length (writers s)"
    and prot: "\<not> hasSet root (index s) \<Longrightarrow> root \<notin> P \<Longrightarrow> set (root # chunks) \<subseteq> ready (writers s ! w)"
    and P: "if hasSet root (index s) then P = partial s else partial s \<subseteq> insert root P"
    and ah: "releaseClaimsLocked H False (held (writers s ! w)) (addHostedLocked now root sz chunks p (index s)) = (c, ix')"
  shows "sysInv (s\<lparr>index := ix', writers := (writers s)[w := \<lparr>held = c, ready = {}\<rparr>], partial := P\<rparr>)"
proof -
  from ah have c: "c = []" and i: "ix' = releaseClaims H False (held (writers s ! w)) (addHostedLocked now root sz chunks p (index s))"
    by (simp_all add: releaseClaimsLocked_def)
  note fr = releaseClaims_frame [of H False "held (writers s ! w)" "addHostedLocked now root sz chunks p (index s)"]
  show ?thesis
  proof (cases "map_of (sets (index s)) root")
    case (Some m)
    then have "addHostedLocked now root sz chunks p (index s) = touchLocked now root (index s)"
      by (simp add: addHostedLocked_def)
    moreover from Some P have "P = partial s" by (simp add: hasSet_def)
    moreover have "sysInv (s\<lparr>index := releaseClaims H False (held (writers s ! w)) (touchLocked now root (index s)),
        writers := (writers s)[w := \<lparr>held = [], ready = {}\<rparr>]\<rparr>)"
      using touchLocked_frame [of "index s" now root] by (intro sysInv_release [OF inv w]) simp_all
    ultimately show ?thesis unfolding c i by simp
  next
    case None
    let ?m = "\<lparr>Owned = False, Size = sz, Chunks = chunks, StoredAt = now, LastAccess = now, From = p\<rparr>"
    have a: "addHostedLocked now root sz chunks p (index s) =
        saveIndex (reference root ?m ((index s)\<lparr>sets := putSet root ?m (sets (index s))\<rparr>))"
      using None by (simp add: addHostedLocked_def Let_def)
    have c2: "Chunks ?m = chunks" by simp
    have sa: "sets (addHostedLocked now root sz chunks p (index s)) = putSet root ?m (sets (index s))"
      "blobRefs (addHostedLocked now root sz chunks p (index s)) = blobRefs (reference root ?m (index s))"
      "store (addHostedLocked now root sz chunks p (index s)) = store (index s)"
      "pending (addHostedLocked now root sz chunks p (index s)) = pending (index s)"
      unfolding a by simp_all
    show ?thesis
      unfolding c
    proof (rule sysInv_record [OF inv w, where root = root and m = ?m and P = P])
      show "pending ix' = pending (releaseClaims H False (held (writers s ! w)) (addHostedLocked now root sz chunks p (index s)))"
        by (simp add: i)
      show "partial s \<subseteq> insert root P" using P None by (simp add: hasSet_def)
      show "set (root # Chunks ?m) \<subseteq> ready (writers s ! w)" if "root \<notin> P"
        using prot that None by (simp add: hasSet_def)
    qed (use prot fr in \<open>simp_all only: i c2 sa simp_thms\<close>)
  qed
qed

lemma MarkOwned_sysInv:
  assumes inv: "sysInv s" and w: "w < length (writers s)"
    and prot: "set (root # chunks) \<subseteq> ready (writers s ! w)"
    and mo: "MarkOwned H now root sz chunks (held (writers s ! w)) (index s) = (c, ix')"
  shows "sysInv (s\<lparr>index := ix', writers := (writers s)[w := \<lparr>held = c, ready = {}\<rparr>], partial := partial s - {root}\<rparr>)"
proof -
  obtain m where m: "Chunks m = chunks"
    "MarkOwned H now root sz chunks (held (writers s ! w)) (index s) =
       ([], saveIndex (releaseClaims H False (held (writers s ! w))
          (reference root m ((index s)\<lparr>sets := putSet root m (sets (index s))\<rparr>))))"
  proof -
    let ?m = "(case map_of (sets (index s)) root of
                  None \<Rightarrow> \<lparr>Owned = False, Size = 0, Chunks = [], StoredAt = now, LastAccess = 0, From = []\<rparr>
                | Some m \<Rightarrow> m)\<lparr>Owned := True, Size := sz, Chunks := chunks, LastAccess := now\<rparr>"
    show thesis by (rule that [of ?m]) (simp_all add: MarkOwned_def Let_def releaseClaimsLocked_def)
  qed
  let ?i = "reference root m ((index s)\<lparr>sets := putSet root m (sets (index s))\<rparr>)"
  from mo m(2) have c: "c = []" and i: "ix' = saveIndex (releaseClaims H False (held (writers s ! w)) ?i)" by auto
  note fr = releaseClaims_frame [of H False "held (writers s ! w)" ?i]
  show ?thesis
    unfolding c
  proof (rule sysInv_record [OF inv w, where root = root and m = m and P = "partial s - {root}"])
    show "pending ix' = pending (releaseClaims H False (held (writers s ! w)) ?i)" by (simp add: i)
    show "partial s \<subseteq> insert root (partial s - {root})" by blast
  qed (use prot fr m(1) in \<open>simp_all add: i\<close>)
qed

lemma sysInv_writer:
  assumes inv: "sysInv s" and w: "w < length (writers s)" and sh: "\<And>h. presentBlob (index s) h \<Longrightarrow> presentBlob ix' h"
    and ix': "sets ix' = sets (index s)" "blobRefs ix' = blobRefs (index s)"
    and pend: "\<And>h. pending ix' h = heldCount ((writers s)[w := x]) h"
    and x: "ready x \<subseteq> set (held x)" "\<And>h. h \<in> ready x \<Longrightarrow> presentBlob ix' h"
  shows "sysInv (s\<lparr>index := ix', writers := (writers s)[w := x]\<rparr>)"
proof -
  have old: "\<And>v. v \<in> set (writers s) \<Longrightarrow> ready v \<subseteq> set (held v) \<and> (\<forall>h \<in> ready v. presentBlob ix' h)"
    using inv sh by (simp add: sysInv_def)
  have "\<forall>v \<in> set ((writers s)[w := x]). ready v \<subseteq> set (held v) \<and> (\<forall>h \<in> ready v. presentBlob ix' h)"
  proof
    fix v assume "v \<in> set ((writers s)[w := x])"
    then have "v = x \<or> v \<in> set (writers s)" using set_update_subset_insert by fastforce
    then show "ready v \<subseteq> set (held v) \<and> (\<forall>h \<in> ready v. presentBlob ix' h)" using old x by blast
  qed
  moreover have "refsComplete ix'" "setsStored (partial s) ix'"
    using inv ix' sh by (auto simp: sysInv_def refsComplete_def setsStored_def)
  ultimately show ?thesis using pend by (simp add: sysInv_def)
qed

lemma sysInv_store:
  assumes inv: "sysInv s" and keep: "\<And>h. files (store (index s)) h \<noteq> None \<Longrightarrow> files st' h \<noteq> None"
  shows "sysInv (s\<lparr>index := (index s)\<lparr>store := st'\<rparr>\<rparr>)"
proof -
  have "setsStored (partial s) ((index s)\<lparr>store := st'\<rparr>)"
    using inv keep unfolding sysInv_def setsStored_def presentBlob_def by fastforce
  moreover have "\<forall>w \<in> set (writers s). \<forall>h \<in> ready w. presentBlob ((index s)\<lparr>store := st'\<rparr>) h"
    using inv keep unfolding sysInv_def presentBlob_def by simp
  ultimately show ?thesis using inv by (simp add: sysInv_def refsComplete_def)
qed

lemma storePut_present:
  "storePut H st d = (Inr h, st') \<Longrightarrow> files st g \<noteq> None \<Longrightarrow> files st' g \<noteq> None"
  by (erule storePut_cases) auto

lemma storePut_stored: "storePut H st d = (Inr h, st') \<Longrightarrow> files st' h \<noteq> None"
  by (erule storePut_cases) (auto simp: storeHas_def)

lemma Release_frame:
  "sets (Release n ix) = sets ix \<and> blobRefs (Release n ix) = blobRefs ix \<and> pending (Release n ix) = pending ix
   \<and> store (Release n ix) = store ix"
  by (simp add: Release_def)

lemma commit_split:
  assumes "CommitHosted H clock root sz chunks p budget maxSize ttl now c0 ix = (ok, c, ix')"
  obtains mid where "fitLocked H sz budget maxSize ttl now True (Release sz ix) = (ok, mid)"
    "ok \<Longrightarrow> releaseClaimsLocked H False c0 (addHostedLocked clock root sz chunks p mid) = (c, ix')"
    "\<not> ok \<Longrightarrow> c = c0 \<and> ix' = mid"
proof -
  obtain f mid where f: "fitLocked H sz budget maxSize ttl now True (Release sz ix) = (f, mid)" by fastforce
  with assms have "f = ok" "ok \<Longrightarrow> releaseClaimsLocked H False c0 (addHostedLocked clock root sz chunks p mid) = (c, ix')"
    "\<not> ok \<Longrightarrow> c = c0 \<and> ix' = mid"
    by (auto simp: CommitHosted_def split: if_splits)
  with f that show thesis by blast
qed

lemma ixStep_preserves: "ixStep H s l s' \<Longrightarrow> sysInv s \<Longrightarrow> sysInv s'"
proof (induction rule: ixStep.induct)
  case (st_begin s)
  then show ?case by (auto simp: sysInv_def heldCount_def BeginWrite_def)
next
  case (st_claim w s h c ix')
  let ?x = "(writers s ! w)\<lparr>held := c\<rparr>"
  from st_claim have c: "c = held (writers s ! w) @ [h]"
    and i: "ix' = (index s)\<lparr>pending := (pending (index s))(h := pending (index s) h + 1)\<rparr>"
    by (auto simp: Claim_def)
  have old: "ready (writers s ! w) \<subseteq> set (held (writers s ! w))" "\<forall>g \<in> ready (writers s ! w). presentBlob (index s) g"
    using st_claim by (auto simp: sysInv_def)
  show ?case
  proof (rule sysInv_writer [OF st_claim(3,1)])
    show "pending ix' g = heldCount ((writers s)[w := ?x]) g" for g
      using st_claim(1,3) by (simp add: i c heldCount_update sysInv_def)
  qed (use old in \<open>auto simp: i c presentBlob_def\<close>)
next
  case (st_put w s data h st')
  let ?x = "(writers s ! w)\<lparr>ready := insert h (ready (writers s ! w))\<rparr>"
  have old: "ready (writers s ! w) \<subseteq> set (held (writers s ! w))" "\<forall>g \<in> ready (writers s ! w). presentBlob (index s) g"
    using st_put by (auto simp: sysInv_def)
  have keep: "presentBlob (index s) g \<Longrightarrow> presentBlob ((index s)\<lparr>store := st'\<rparr>) g" for g
    using storePut_present [OF st_put(2)] by (simp add: presentBlob_def)
  have new: "presentBlob ((index s)\<lparr>store := st'\<rparr>) h"
    using storePut_stored [OF st_put(2)] by (simp add: presentBlob_def)
  show ?case
  proof (rule sysInv_writer [OF st_put(4,1) keep])
    show "pending ((index s)\<lparr>store := st'\<rparr>) g = heldCount ((writers s)[w := ?x]) g" for g
      using st_put(1,4) by (simp add: heldCount_update sysInv_def)
  qed (use old st_put(3) keep new in auto)
next
  case (st_rely w s h)
  let ?x = "(writers s ! w)\<lparr>ready := insert h (ready (writers s ! w))\<rparr>"
  have old: "ready (writers s ! w) \<subseteq> set (held (writers s ! w))" "\<forall>g \<in> ready (writers s ! w). presentBlob (index s) g"
    using st_rely by (auto simp: sysInv_def)
  have new: "presentBlob (index s) h" using st_rely(2) by (simp add: storeHas_def presentBlob_def)
  show ?case
  proof (rule sysInv_writer [OF st_rely(4,1)])
    show "pending (index s) g = heldCount ((writers s)[w := ?x]) g" for g
      using st_rely(1,4) by (simp add: heldCount_update sysInv_def)
  qed (use old st_rely(3) new in auto)
next
  case (st_discard w s c ix')
  then have "c = []" "ix' = releaseClaims H True (held (writers s ! w)) (index s)"
    by (auto simp: Discard_def releaseClaimsLocked_def)
  with sysInv_release [OF st_discard(3,1), of "index s" H True] show ?case by simp
next
  case (st_own w s root chunks now sz c ix')
  then show ?case by (intro MarkOwned_sysInv) auto
next
  case (st_host w s root chunks now sz p c ix')
  then show ?case by (intro addHosted_sysInv) (auto simp: AddHosted_def)
next
  case (st_cache w s now root sz chunks p c ix')
  then show ?case
    by (intro addHosted_sysInv [where root = root and chunks = chunks]) (auto simp: AddHosted_def hasSet_def split: if_splits)
next
  case (st_cacheChunk s data r st')
  then show ?case by (intro sysInv_store) (auto elim!: storePut_cases)
next
  case (st_commit w s root chunks sz budget maxSize ttl now mid clock p c ix')
  have ah: "releaseClaimsLocked H False (held (writers s ! w)) (addHostedLocked clock root sz chunks p mid) = (c, ix')"
    by (rule commit_split [OF st_commit(4)]) (use st_commit(3) in simp)
  let ?r = "s\<lparr>index := Release sz (index s)\<rparr>" let ?m = "?r\<lparr>index := mid\<rparr>"
  let ?P = "if hasSet root mid then partial s else partial s - {root}"
  have "sysInv ?r" using Release_frame by (intro sysInv_frame [OF st_commit(5)]) auto
  then have m: "sysInv ?m" by (rule sysInv_fit) (use st_commit(3) in simp)
  have "sysInv (?m\<lparr>index := ix', writers := (writers ?m)[w := \<lparr>held = c, ready = {}\<rparr>], partial := ?P\<rparr>)"
    by (rule addHosted_sysInv [OF m]) (use st_commit(1,2) ah in auto)
  then show ?case by simp
next
  case (st_reject w s clock root sz chunks p budget maxSize ttl now c ix')
  from st_reject(2) obtain mid where f: "fitLocked H sz budget maxSize ttl now True (Release sz (index s)) = (False, mid)"
    and i: "ix' = mid"
    by (rule commit_split) auto
  let ?r = "s\<lparr>index := Release sz (index s)\<rparr>"
  have "sysInv ?r" using Release_frame by (intro sysInv_frame [OF st_reject(3)]) auto
  then have "sysInv (?r\<lparr>index := mid\<rparr>)" by (rule sysInv_fit) (use f in simp)
  then show ?case by (simp add: i)
next
  case (st_reserve sz budget maxSize ttl now s r ix')
  then obtain f i where f: "fitLocked H sz budget maxSize ttl now False (index s) = (f, i)"
    and ix': "ix' = i \<or> ix' = i\<lparr>reserved := reserved i + sz\<rparr>"
    by (auto simp: Reserve_def split: prod.splits if_splits)
  from fitLocked_props [OF f] have "i = index s" by simp
  with ix' show ?case by (intro sysInv_frame [OF st_reserve(2)]) auto
next
  case (st_release s sz)
  then show ?case using Release_frame by (intro sysInv_frame) auto
next
  case (st_admit sz budget maxSize ttl now s r ix')
  then show ?case by (intro sysInv_fit) (auto simp: Admit_def)
next
  case (st_touch s now root)
  then show ?case using touchLocked_frame [of "index s" now root] by (intro sysInv_touch) (auto simp: Touch_def)
next
  case (st_touchBlob s now h)
  then show ?case using TouchBlob_frame [of "index s" now h] by (intro sysInv_touch) auto
next
  case (st_flush s)
  then show ?case by (intro sysInv_frame) (auto simp: Flush_def)
qed

interpretation ixSystem: transition_system "ixStep H" sysInv for H
  by unfold_locales (rule ixStep_preserves)

end
