(* ===== verification/IndexProps.thy ===== *)
theory IndexProps
  imports ContentIndex
begin

text \<open>
  What the content index promises (\<open>internal/content/contentindex.go\<close>): runs of concurrent writers
  never lose a blob somebody needs, reservations delete nothing and predict the commit, eviction
  takes the right sets, an abandoned transfer leaves nothing behind, and loading accounts for
  every blob on disk.
\<close>

section \<open>Eviction order\<close>

interpretation victim: best_scan "betterVictim ttl now" for ttl now
  by unfold_locales (auto simp: betterVictim_def)

lemma pickVictim_best:
  "pickVictim ttl now spared ss = Some v \<Longrightarrow> y \<in> set ss \<Longrightarrow> evictable ttl now spared y \<Longrightarrow> \<not> betterVictim ttl now y v"
  unfolding pickVictim_def using victim.scan_maximal [of ttl now "filter (evictable ttl now spared) ss" v] by fastforce

lemma distinct_keys_filter: "distinct (map fst ss) \<Longrightarrow> distinct (map fst (filter P ss))"
  by (rule distinct_map_filter)

lemma distinct_keys_unique:
  "distinct (map fst ss) \<Longrightarrow> (k, x) \<in> set ss \<Longrightarrow> (k, y) \<in> set ss \<Longrightarrow> x = y"
  by (metis map_of_is_SomeI option.inject)

lemma fitLoop_evicts_worst:
  "fitLoop H sz budget ttl now True freed spared e ix = (fits, e', ix') \<Longrightarrow> distinct (map fst (sets ix)) \<Longrightarrow>
     x \<in> set (sets ix) \<Longrightarrow> x \<notin> set (sets ix') \<Longrightarrow> y \<in> set (sets ix') \<Longrightarrow> evictable ttl now spared y \<Longrightarrow>
     \<not> betterVictim ttl now y x"
proof (induction H sz budget ttl now "True" freed spared e ix rule: fitLoop.induct)
  case (1 H sz budget ttl now freed spared e ix)
  note prem = 1(3) [unfolded fitLoop.simps [of H sz budget ttl now True freed spared e ix]]
  from 1(5,6) prem have over: "hostedBytes ix - freed + sz > budget" by (auto split: if_splits)
  with 1(5,6) prem obtain victim m where v: "pickVictim ttl now spared (sets ix) = Some (victim, m)"
    by (auto split: option.splits)
  with over prem have l: "fitLoop H sz budget ttl now True freed spared True (evictLocked H victim ix) = (fits, e', ix')"
    by simp
  from fitLoop_props [OF l] have sub: "set (sets ix') \<subseteq> set (sets ix)"
    by (auto simp: evictLocked_sets)
  show ?case
  proof (cases "x \<in> set (sets (evictLocked H victim ix))")
    case True
    have "distinct (map fst (sets (evictLocked H victim ix)))"
      using 1(4) by (simp add: evictLocked_sets distinct_map_filter)
    from 1(1) [OF _ v refl TrueI l this True 1(6-8)] over show ?thesis by simp
  next
    case False
    have "(victim, m) \<in> set (sets ix)" using pickVictim_Some [OF v] by simp
    moreover obtain r n where x: "x = (r, n)" by (cases x)
    moreover have "r = victim" using False 1(5) x by (auto simp: evictLocked_sets)
    ultimately have "x = (victim, m)" using distinct_keys_unique [OF 1(4)] 1(5) by blast
    then show ?thesis using pickVictim_best [OF v _ 1(8)] 1(7) sub by blast
  qed
qed

section \<open>Dry runs\<close>

lemma hostedBytes_evict:
  assumes "distinct (map fst (sets ix))" and "(victim, m) \<in> set (sets ix)" and "\<not> Owned m"
  shows "hostedBytes (evictLocked H victim ix) = hostedBytes ix - Size m"
proof -
  have "(\<Sum>(r, m) \<leftarrow> ss. if Owned m then 0 else Size m) =
      (\<Sum>(r, m) \<leftarrow> filter (\<lambda>(r, _). r \<noteq> victim) ss. if Owned m then 0 else Size m) + Size m"
    if "distinct (map fst ss)" "(victim, m) \<in> set ss" for ss
    using that
  proof (induction ss)
    case (Cons p ss)
    obtain r n where p: "p = (r, n)" by (cases p)
    show ?case
    proof (cases "r = victim")
      case True
      with Cons.prems p have "n = m" by force
      moreover have "filter (\<lambda>(r, _). r \<noteq> victim) ss = ss"
        using Cons.prems p True by (force simp: filter_id_conv)
      ultimately show ?thesis using p True assms(3) by simp
    qed (use Cons p in auto)
  qed simp
  from this [OF assms(1,2)] show ?thesis by (simp add: hostedBytes_def evictLocked_sets)
qed

lemma pickVictim_spared:
  "pickVictim ttl now spared ss = pickVictim ttl now {} (filter (\<lambda>(r, _). r \<notin> spared) ss)"
  unfolding pickVictim_def filter_filter
  by (rule arg_cong [where f = "scanBest (betterVictim ttl now) None"], rule filter_cong) (auto simp: evictable_def)

text \<open>The dry run sees the sizes and candidates the real pass would see.\<close>

lemma fitLoop_dry_run:
  assumes "sets ixe = filter (\<lambda>(r, _). r \<notin> spared) (sets ix)" and "hostedBytes ixe = hostedBytes ix - freed"
    and "distinct (map fst (sets ix))"
  shows "fst (fitLoop H sz budget ttl now False freed spared e ix) = fst (fitLoop H sz budget ttl now True 0 {} e' ixe)"
  using assms
proof (induction H sz budget ttl now "False" freed spared e ix arbitrary: ixe e' rule: fitLoop.induct)
  case (1 H sz budget ttl now freed spared e ix)
  note unf = fitLoop.simps [of H sz budget ttl now False freed spared e ix]
    fitLoop.simps [of H sz budget ttl now True 0 "{}" e' ixe]
  have pick: "pickVictim ttl now {} (sets ixe) = pickVictim ttl now spared (sets ix)"
    using pickVictim_spared [of ttl now spared "sets ix"] 1(3) by simp
  show ?case
  proof (cases "hostedBytes ix - freed + sz > budget")
    case False
    then show ?thesis unfolding unf using 1(4) by simp
  next
    case over: True
    show ?thesis
    proof (cases "pickVictim ttl now spared (sets ix)")
      case None
      then show ?thesis unfolding unf using 1(4) pick over by simp
    next
      case (Some v)
      obtain victim m where v: "v = (victim, m)" by (cases v)
      note vic = pickVictim_Some [OF Some [unfolded v]]
      have "distinct (map fst (sets ixe))" using 1(3,5) by (simp add: distinct_map_filter)
      moreover have "(victim, m) \<in> set (sets ixe)" "\<not> Owned m"
        using vic 1(3) by (auto simp: evictable_def)
      ultimately have hb: "hostedBytes (evictLocked H victim ixe) = hostedBytes ix - (freed + Size m)"
        using hostedBytes_evict [of ixe victim m H] 1(4) by simp
      have "sets (evictLocked H victim ixe) = filter (\<lambda>(r, _). r \<notin> insert victim spared) (sets ix)"
        unfolding evictLocked_sets 1(3) filter_filter by (rule filter_cong) auto
      from 1(2) [OF _ Some v [symmetric] _ this hb 1(5), of True] over
      have "fst (fitLoop H sz budget ttl now False (freed + Size m) (insert victim spared) e ix) =
          fst (fitLoop H sz budget ttl now True 0 {} True (evictLocked H victim ixe))" by simp
      then show ?thesis unfolding unf using 1(4) pick over Some v by simp
    qed
  qed
qed

section \<open>Dropping claims\<close>

lemma deleteBlob_exact:
  "files (store (deleteBlob H h ix)) g =
     (if g = h \<and> IsContentHash H h \<and> writable (store ix) then None else files (store ix) g)"
  "writable (store (deleteBlob H h ix)) = writable (store ix)"
  by (auto simp: deleteBlob_def storeDelete_def)

lemma releaseOne_exact:
  "files (store (releaseOne H True h ix)) g =
     (if g = h \<and> pending ix h \<le> 1 \<and> blobRefs ix h = {} \<and> IsContentHash H h \<and> writable (store ix)
      then None else files (store ix) g)"
  "writable (store (releaseOne H True h ix)) = writable (store ix)"
  by (auto simp: releaseOne_def Let_def deleteBlob_exact)

text \<open>A rollback removes exactly the writer's blobs that no other claim and no set holds.\<close>

lemma releaseClaims_exact:
  "(\<forall>h. int (count_list hs h) \<le> pending ix h) \<Longrightarrow>
     files (store (releaseClaims H True hs ix)) g =
       (if g \<in> set hs \<and> pending ix g = int (count_list hs g) \<and> blobRefs ix g = {} \<and> IsContentHash H g
           \<and> writable (store ix)
        then None else files (store ix) g)"
proof (induction hs arbitrary: ix)
  case (Cons x hs)
  let ?i = "releaseOne H True x ix"
  have x1: "1 \<le> pending ix x" using Cons.prems [rule_format, of x] by simp
  then have p: "pending ?i = (pending ix)(x := pending ix x - 1)" by auto
  have "\<forall>h. int (count_list hs h) \<le> pending ?i h"
  proof
    fix h show "int (count_list hs h) \<le> pending ?i h"
      unfolding p using Cons.prems [rule_format, of h] by (cases "h = x") auto
  qed
  from Cons.IH [OF this] have ih: "files (store (releaseClaims H True (x # hs) ix)) g =
      (if g \<in> set hs \<and> pending ?i g = int (count_list hs g) \<and> blobRefs ix g = {} \<and> IsContentHash H g
           \<and> writable (store ix) then None else files (store ?i) g)"
    by (simp add: releaseOne_exact(2))
  show ?case
  proof (cases "g = x")
    case True
    have "g \<in> set hs \<or> count_list hs g = 0" using count_list_0_iff by metis
    moreover have "pending ix x \<le> 1 \<Longrightarrow> count_list hs x = 0"
      using Cons.prems [rule_format, of x] by simp
    ultimately show ?thesis unfolding ih releaseOne_exact(1) using True x1 by (auto simp: p)
  next
    case False
    then show ?thesis unfolding ih releaseOne_exact(1) by (simp add: p)
  qed
qed simp

section \<open>Loading\<close>

text \<open>The reverse map is exact when it holds the references of the recorded sets and no others.\<close>

definition refsExact :: "contentIndex \<Rightarrow> bool" where
  "refsExact ix \<longleftrightarrow>
     distinct (map fst (sets ix)) \<and>
     (\<forall>h. blobRefs ix h = {r. \<exists>m. (r, m) \<in> set (sets ix) \<and> h \<in> set (r # Chunks m)})"

lemma refsExact_complete: "refsExact ix \<Longrightarrow> refsComplete ix"
  unfolding refsExact_def refsComplete_def by blast

lemma refsExact_root: "refsExact ix \<Longrightarrow> blobRefs ix h = {} \<Longrightarrow> h \<notin> fst ` set (sets ix)"
  unfolding refsExact_def by fastforce

lemma foldl_reference_refs:
  "blobRefs (foldl (\<lambda>ix (root, m). reference root m ix) ix ss) h =
     blobRefs ix h \<union> {r. \<exists>m. (r, m) \<in> set ss \<and> h \<in> set (r # Chunks m)}"
proof (induction ss arbitrary: ix)
  case (Cons p ss)
  obtain root m where p: "p = (root, m)" by (cases p)
  have "blobRefs (reference root m ix) h = blobRefs ix h \<union> (if h \<in> set (root # Chunks m) then {root} else {})"
    by (simp add: reference_def)
  with Cons.IH [of "reference root m ix"] p show ?case by auto
qed simp

lemma foldl_reference_frame:
  "sets (foldl (\<lambda>ix (root, m). reference root m ix) ix ss) = sets ix
   \<and> pending (foldl (\<lambda>ix (root, m). reference root m ix) ix ss) = pending ix
   \<and> reserved (foldl (\<lambda>ix (root, m). reference root m ix) ix ss) = reserved ix
   \<and> store (foldl (\<lambda>ix (root, m). reference root m ix) ix ss) = store ix"
  by (induction ss arbitrary: ix) (auto simp: reference_def)

text \<open>What the two adoption passes keep: \<open>kept\<close> is what the sidecar file contributed.\<close>

definition loading :: "string set \<Rightarrow> contentSets \<Rightarrow> blobStore \<Rightarrow> contentIndex \<Rightarrow> bool" where
  "loading onDisk kept st ix \<longleftrightarrow>
     refsExact ix \<and> pending ix = (\<lambda>_. 0) \<and> reserved ix = 0 \<and> store ix = st
     \<and> fst ` set (sets ix) \<subseteq> onDisk
     \<and> (\<exists>more. sets ix = kept @ more \<and> (\<forall>(r, m) \<in> set more. \<not> Owned m \<and> set (Chunks m) \<subseteq> onDisk))"

lemma adoptSet_loading:
  assumes l: "loading onDisk kept st ix" and r: "blobRefs ix root = {}" "root \<in> onDisk" "set chunks \<subseteq> onDisk"
  shows "loading onDisk kept st (adoptSet now root sz chunks ix) \<and> blobRefs (adoptSet now root sz chunks ix) root \<noteq> {}
       \<and> (\<forall>h. blobRefs ix h \<subseteq> blobRefs (adoptSet now root sz chunks ix) h)"
proof -
  let ?m = "\<lparr>Owned = False, Size = sz, Chunks = chunks, StoredAt = now, LastAccess = now, From = []\<rparr>"
  let ?i = "adoptSet now root sz chunks ix"
  have ex: "refsExact ix" and new: "root \<notin> fst ` set (sets ix)"
    using l refsExact_root [OF _ r(1)] by (auto simp: loading_def)
  then have sets: "sets ?i = sets ix @ [(root, ?m)]"
    by (simp add: adoptSet_def Let_def putSet_def map_of_eq_None_iff)
  have refs: "blobRefs ?i h = (if h = root \<or> h \<in> set chunks then insert root (blobRefs ix h) else blobRefs ix h)" for h
    by (simp add: adoptSet_def Let_def reference_def)
  have "refsExact ?i"
    unfolding refsExact_def sets
  proof (intro conjI allI)
    show "distinct (map fst (sets ix @ [(root, ?m)]))" using ex new by (auto simp: refsExact_def)
    fix h
    have "blobRefs ix h = {r. \<exists>m. (r, m) \<in> set (sets ix) \<and> h \<in> set (r # Chunks m)}"
      using ex by (simp add: refsExact_def)
    then show "blobRefs ?i h = {r. \<exists>m. (r, m) \<in> set (sets ix @ [(root, ?m)]) \<and> h \<in> set (r # Chunks m)}"
      unfolding refs by auto
  qed
  moreover have "\<exists>more. sets ?i = kept @ more \<and> (\<forall>(r, m) \<in> set more. \<not> Owned m \<and> set (Chunks m) \<subseteq> onDisk)"
  proof -
    from l obtain more where "sets ix = kept @ more" "\<forall>(r, m) \<in> set more. \<not> Owned m \<and> set (Chunks m) \<subseteq> onDisk"
      by (auto simp: loading_def)
    then have "sets ?i = kept @ (more @ [(root, ?m)])
        \<and> (\<forall>(r, m) \<in> set (more @ [(root, ?m)]). \<not> Owned m \<and> set (Chunks m) \<subseteq> onDisk)"
      using sets r(3) by auto
    then show ?thesis by blast
  qed
  moreover have "pending ?i = pending ix" "reserved ?i = reserved ix" "store ?i = store ix"
    by (simp_all add: adoptSet_def Let_def)
  ultimately show ?thesis
    using l r sets refs by (auto simp: loading_def)
qed

lemma adoptManifest_loading:
  assumes "loading (set onDisk) kept st ix" and "h \<in> set onDisk"
  shows "loading (set onDisk) kept st (adoptManifest H J now onDisk ix h)
       \<and> (\<forall>g. blobRefs ix g \<subseteq> blobRefs (adoptManifest H J now onDisk ix h) g)"
proof (cases "adoptManifest H J now onDisk ix h = ix")
  case False
  then obtain sz chunks where "adoptManifest H J now onDisk ix h = adoptSet now h sz chunks ix"
    "blobRefs ix h = {}" "set chunks \<subseteq> set onDisk"
    by (auto simp: adoptManifest_def list_all_iff split: if_splits sum.splits option.splits) blast
  with adoptSet_loading [OF assms(1)] assms(2) show ?thesis by simp
qed (use assms in simp)

lemma adoptPlain_loading:
  assumes "loading (set onDisk) kept st ix" and "h \<in> set onDisk"
    and "\<And>h. h \<in> set onDisk \<Longrightarrow> IsContentHash H h \<and> files st h \<noteq> None"
  shows "loading (set onDisk) kept st (adoptPlain H now ix h)
       \<and> (\<forall>g. blobRefs ix g \<subseteq> blobRefs (adoptPlain H now ix h) g) \<and> blobRefs (adoptPlain H now ix h) h \<noteq> {}"
proof (cases "blobRefs ix h = {}")
  case True
  have "store ix = st" using assms(1) by (simp add: loading_def)
  with assms(2,3) obtain d where "storeOpen H (store ix) h = Inr (d, int (length d))"
    by (force simp: storeOpen_def)
  with True have "adoptPlain H now ix h = adoptSet now h (int (length d)) [] ix" by (simp add: adoptPlain_def)
  with adoptSet_loading [OF assms(1) True assms(2)] show ?thesis by simp
qed (use assms in \<open>simp add: adoptPlain_def\<close>)

lemma foldl_adoptManifest:
  "loading (set onDisk) kept st ix \<Longrightarrow> set hs \<subseteq> set onDisk \<Longrightarrow>
     loading (set onDisk) kept st (foldl (adoptManifest H J now onDisk) ix hs)"
  by (induction hs arbitrary: ix) (simp_all add: adoptManifest_loading)

lemma foldl_adoptPlain:
  assumes "\<And>h. h \<in> set onDisk \<Longrightarrow> IsContentHash H h \<and> files st h \<noteq> None"
  shows "loading (set onDisk) kept st ix \<Longrightarrow> set hs \<subseteq> set onDisk \<Longrightarrow>
     loading (set onDisk) kept st (foldl (adoptPlain H now) ix hs)
     \<and> (\<forall>g. blobRefs ix g \<subseteq> blobRefs (foldl (adoptPlain H now) ix hs) g)
     \<and> (\<forall>h \<in> set hs. blobRefs (foldl (adoptPlain H now) ix hs) h \<noteq> {})"
proof (induction hs arbitrary: ix)
  case (Cons h hs)
  have "h \<in> set onDisk" using Cons.prems(2) by simp
  note a = adoptPlain_loading [OF Cons.prems(1) this assms]
  then have "loading (set onDisk) kept st (adoptPlain H now ix h)" by blast
  from Cons.IH [OF this] Cons.prems(2) a show ?case by fastforce
qed simp

lemma storeList_present:
  assumes "finite (dom (files st))"
  shows "h \<in> set (storeList H st) \<longleftrightarrow> IsContentHash H h \<and> files st h \<noteq> None"
  using assms by (auto simp: storeList_def)

lemma LoadContentIndex_loading:
  assumes load: "LoadContentIndex H J now (Inr file) st = Inr ix" and fin: "finite (dom (files st))"
    and dist: "distinct (map fst (case file of None \<Rightarrow> [] | Some ss \<Rightarrow> ss))"
  shows "loading (set (storeList H st))
      (filter (\<lambda>(root, _). root \<in> set (storeList H st)) (case file of None \<Rightarrow> [] | Some ss \<Rightarrow> ss)) st ix
    \<and> (\<forall>h \<in> set (storeList H st). blobRefs ix h \<noteq> {}) \<and> saved ix = Some (sets ix)"
proof -
  let ?D = "storeList H st"
  let ?k = "filter (\<lambda>(root, _). root \<in> set ?D) (case file of None \<Rightarrow> [] | Some ss \<Rightarrow> ss)"
  let ?ix0 = "\<lparr>sets = ?k, blobRefs = (\<lambda>_. {}), pending = (\<lambda>_. 0), reserved = 0, dirty = False,
                saved = file, store = st\<rparr>"
  let ?ix1 = "foldl (\<lambda>ix (root, m). reference root m ix) ?ix0 ?k"
  let ?ix2 = "foldl (adoptManifest H J now ?D) ?ix1 ?D"
  let ?ix3 = "foldl (adoptPlain H now) ?ix2 ?D"
  have w: "writable st" and ix: "ix = saveIndex ?ix3"
    using load by (auto simp: LoadContentIndex_def Let_def split: if_splits)
  have d: "\<And>h. h \<in> set ?D \<Longrightarrow> IsContentHash H h \<and> files st h \<noteq> None"
    using storeList_present [OF fin] by blast
  note fr = foldl_reference_frame [of ?ix0 ?k]
  have "distinct (map fst ?k)" using dist by (rule distinct_map_filter)
  then have "refsExact ?ix1"
    using fr unfolding refsExact_def foldl_reference_refs by simp
  with fr have "loading (set ?D) ?k st ?ix1" by (auto simp: loading_def)
  then have "loading (set ?D) ?k st ?ix2" by (rule foldl_adoptManifest) simp
  from foldl_adoptPlain [where H = H, OF d this subset_refl] have
    l: "loading (set ?D) ?k st ?ix3" "\<forall>h \<in> set ?D. blobRefs ?ix3 h \<noteq> {}" by blast+
  then have "store ?ix3 = st" by (simp add: loading_def)
  with w have "saved ix = Some (sets ix)" unfolding ix by (simp add: saveIndex_def)
  moreover have "loading (set ?D) ?k st ix"
    using l(1) unfolding ix loading_def refsExact_def by simp
  ultimately show ?thesis using l(2) unfolding ix by simp
qed

text \<open>The transfers start from a loaded index: nobody writes yet, and the sets whose chunks are not
  all on disk (the sidecar may list such sets) are the partial ones.\<close>

definition started :: "hashlib \<Rightarrow> contentIndex \<Rightarrow> system" where
  "started H ix = \<lparr>index = ix, writers = [],
     partial = {r. \<exists>m. (r, m) \<in> set (sets ix) \<and> \<not> set (Chunks m) \<subseteq> set (storeList H (store ix))}\<rparr>"

lemma loading_sysInv:
  assumes l: "loading (set (storeList H st)) kept st ix" and fin: "finite (dom (files st))"
  shows "sysInv (started H ix)"
proof -
  have "presentBlob ix h"
    if "(r, m) \<in> set (sets ix)" "set (Chunks m) \<subseteq> set (storeList H st)" "h \<in> set (r # Chunks m)" for r m h
  proof -
    have "fst ` set (sets ix) \<subseteq> set (storeList H st)" using l unfolding loading_def by blast
    moreover have "r \<in> fst ` set (sets ix)" using that(1) by force
    ultimately have "r \<in> set (storeList H st)" by blast
    with that(2,3) have "h \<in> set (storeList H st)" by auto
    then have "files st h \<noteq> None" using storeList_present [OF fin] by simp
    moreover have "store ix = st" using l by (simp add: loading_def)
    ultimately show ?thesis by (simp add: presentBlob_def)
  qed
  moreover have "store ix = st" "pending ix = (\<lambda>_. 0)" "refsComplete ix"
    using l refsExact_complete by (auto simp: loading_def)
  moreover have "setsStored (partial (started H ix)) ix" if "store ix = st"
    unfolding setsStored_def
  proof (clarify)
    fix r m h
    assume "(r, m) \<in> set (sets ix)" "r \<notin> partial (started H ix)" "h \<in> set (r # Chunks m)"
    with that calculation(1) show "presentBlob ix h" by (simp add: started_def)
  qed
  ultimately show ?thesis by (simp add: sysInv_def started_def heldCount_def)
qed

section \<open>Steps\<close>

text \<open>What every step leaves alone: a blob goes only when nobody claims it and no set refers to it.\<close>

definition losesUnwanted :: "contentIndex \<Rightarrow> contentIndex \<Rightarrow> bool" where
  "losesUnwanted ix ix' \<longleftrightarrow>
     (\<forall>h. presentBlob ix h \<longrightarrow> presentBlob ix' h \<or> pending ix' h \<le> 0 \<and> blobRefs ix' h = {})"

lemma losesUnwanted_shrinks: "shrinks ix ix' \<Longrightarrow> losesUnwanted ix ix'"
  unfolding losesUnwanted_def shrinks_def presentBlob_def by metis

lemma losesUnwanted_same: "store ix' = store ix \<Longrightarrow> losesUnwanted ix ix'"
  by (simp add: losesUnwanted_def presentBlob_def)

lemma fitLocked_shrinks:
  assumes "fitLocked H sz budget maxSize ttl now ev ix = (fits, ix')"
  shows "shrinks ix ix'"
proof -
  from fitLocked_props [OF assms] have "pending ix' = pending ix"
    "\<forall>h. files (store ix') h = files (store ix) h
         \<or> files (store ix') h = None \<and> pending ix h = 0 \<and> blobRefs ix' h = {}" by blast+
  then show ?thesis unfolding shrinks_def by (metis order_refl)
qed

lemma addHostedLocked_store [simp]: "store (addHostedLocked now root sz chunks p ix) = store ix"
  by (simp add: addHostedLocked_def touchLocked_def Let_def)

lemma AddHosted_store:
  "AddHosted H now root sz chunks p c ix = (c', ix') \<Longrightarrow> store ix' = store ix"
  using releaseClaims_frame [of H False c "addHostedLocked now root sz chunks p ix"]
  by (auto simp: AddHosted_def releaseClaimsLocked_def)

lemma releaseClaims_keep_store: "store (releaseClaims H False hs ix) = store ix"
  using releaseClaims_frame [of H False hs ix] by simp

lemma MarkOwned_store: "MarkOwned H now root sz chunks c ix = (c', ix') \<Longrightarrow> store ix' = store ix"
  by (auto simp: MarkOwned_def Let_def releaseClaimsLocked_def releaseClaims_keep_store)

text \<open>A commit evicts before it records the set. What it evicts has no claim, so it is not among the
  blobs of the new set, which the writer still holds.\<close>

lemma commit_loses_unwanted:
  assumes inv: "sysInv s" and w: "w < length (writers s)" and prot: "set (root # chunks) \<subseteq> ready (writers s ! w)"
    and f: "fitLocked H sz budget maxSize ttl now True (Release sz (index s)) = (True, mid)"
    and ah: "releaseClaimsLocked H False (held (writers s ! w)) (addHostedLocked clock root sz chunks p mid) = (c, ix')"
  shows "losesUnwanted (index s) ix'"
  unfolding losesUnwanted_def
proof (intro allI impI)
  fix h assume h: "presentBlob (index s) h"
  let ?c = "held (writers s ! w)"
  have i: "ix' = releaseClaims H False ?c (addHostedLocked clock root sz chunks p mid)"
    using ah by (simp add: releaseClaimsLocked_def)
  then have st: "store ix' = store mid" by (simp add: releaseClaims_keep_store)
  have pm: "pending mid = pending (index s)" using fitLocked_props [OF f] Release_frame by simp
  show "presentBlob ix' h \<or> pending ix' h \<le> 0 \<and> blobRefs ix' h = {}"
  proof (cases "presentBlob ix' h")
    case False
    have "shrinks (Release sz (index s)) mid" by (rule fitLocked_shrinks [OF f])
    then have "files (store mid) h = files (store (index s)) h \<or> pending mid h \<le> 0 \<and> blobRefs mid h = {}"
      unfolding shrinks_def using Release_frame by metis
    with h False st have lost: "pending mid h \<le> 0" "blobRefs mid h = {}" by (auto simp: presentBlob_def)
    have pend: "pending (addHostedLocked clock root sz chunks p mid) = pending mid"
      by (simp add: addHostedLocked_def touchLocked_def Let_def)
    have "pending ix' h \<le> 0"
      using releaseClaims_files [of H False ?c "addHostedLocked clock root sz chunks p mid" h] lost(1) pend
      unfolding i by simp
    moreover have "h \<notin> set (root # chunks)"
    proof
      assume "h \<in> set (root # chunks)"
      with prot inv w have "h \<in> set ?c" unfolding sysInv_def by (meson nth_mem subsetD)
      with heldCount_pos [of "writers s ! w" "writers s" h] w inv have "0 < pending (index s) h"
        by (simp add: sysInv_def)
      with lost(1) pm show False by simp
    qed
    then have "blobRefs (addHostedLocked clock root sz chunks p mid) h = blobRefs mid h"
      by (simp add: addHostedLocked_def touchLocked_def Let_def reference_def)
    with lost(2) have "blobRefs ix' h = {}" using releaseClaims_frame unfolding i by simp
    ultimately show ?thesis by simp
  qed simp
qed

lemma step_loses_unwanted: "ixStep H s l s' \<Longrightarrow> sysInv s \<Longrightarrow> losesUnwanted (index s) (index s')"
proof (induction rule: ixStep.induct)
  case (st_claim w s h c ix')
  then show ?case by (intro losesUnwanted_same) (auto simp: Claim_def)
next
  case (st_put w s data h st')
  then show ?case using storePut_present [OF st_put(2)] by (simp add: losesUnwanted_def presentBlob_def)
next
  case (st_cacheChunk s data r st')
  then show ?case by (elim storePut_cases) (auto simp: losesUnwanted_def presentBlob_def)
next
  case (st_discard w s c ix')
  then have "ix' = releaseClaims H True (held (writers s ! w)) (index s)"
    by (auto simp: Discard_def releaseClaimsLocked_def)
  then show ?case using releaseClaims_shrinks by (simp add: losesUnwanted_shrinks)
next
  case (st_own w s root chunks now sz c ix')
  then show ?case using MarkOwned_store [OF st_own(3)] by (simp add: losesUnwanted_same)
next
  case (st_host w s root chunks now sz p c ix')
  then show ?case using AddHosted_store [OF st_host(3)] by (simp add: losesUnwanted_same)
next
  case (st_cache w s now root sz chunks p c ix')
  then show ?case using AddHosted_store [OF st_cache(2)] by (simp add: losesUnwanted_same)
next
  case (st_commit w s root chunks sz budget maxSize ttl now mid clock p c ix')
  have "releaseClaimsLocked H False (held (writers s ! w)) (addHostedLocked clock root sz chunks p mid) = (c, ix')"
    by (rule commit_split [OF st_commit(4)]) (use st_commit(3) in simp)
  with commit_loses_unwanted [OF st_commit(5,1,2,3)] show ?case by simp
next
  case (st_reject w s clock root sz chunks p budget maxSize ttl now c ix')
  from st_reject(2) have "fitLocked H sz budget maxSize ttl now True (Release sz (index s)) = (False, ix')"
    by (rule commit_split) auto
  from fitLocked_shrinks [OF this] show ?case
    by (intro losesUnwanted_shrinks) (simp add: shrinks_def Release_frame)
next
  case (st_reserve sz budget maxSize ttl now s r ix')
  then obtain f i where f: "fitLocked H sz budget maxSize ttl now False (index s) = (f, i)"
    and ix': "ix' = i \<or> ix' = i\<lparr>reserved := reserved i + sz\<rparr>"
    by (auto simp: Reserve_def split: prod.splits if_splits)
  from fitLocked_props [OF f] have "i = index s" by simp
  with ix' show ?case by (intro losesUnwanted_same) auto
next
  case (st_admit sz budget maxSize ttl now s r ix')
  then show ?case using fitLocked_shrinks by (auto simp: Admit_def intro!: losesUnwanted_shrinks)
qed (auto intro!: losesUnwanted_same simp: Release_frame Touch_def touchLocked_frame TouchBlob_frame Flush_def)

section \<open>Properties\<close>

text \<open>A store with one plain blob, for the witnesses.\<close>

definition demoHash :: string where
  "demoHash = letters (0x12 # 32 # replicate 32 0)"

definition demoStore :: blobStore where
  "demoStore = \<lparr>files = [demoHash \<mapsto> []], writable = True\<rparr>"

definition demoMeta :: contentMeta where
  "demoMeta = \<lparr>Owned = False, Size = 40, Chunks = [], StoredAt = 0, LastAccess = 0, From = []\<rparr>"

definition demoIndex :: contentIndex where
  "demoIndex = \<lparr>sets = [(demoHash, demoMeta)], blobRefs = (\<lambda>h. if h = demoHash then {demoHash} else {}),
     pending = (\<lambda>_. 0), reserved = 0, dirty = False, saved = None, store = demoStore\<rparr>"

lemma demoHash_content: "IsContentHash demoHashlib demoHash"
  by (simp add: demoHash_def IsContentHash_def demoHashlib_def unletters_letters SHA2_256_def del: letters.simps)

lemma demoStore_simps [simp]:
  "finite (dom (files demoStore))" "writable demoStore" "files demoStore demoHash = Some []"
  by (simp_all add: demoStore_def)

lemma demoList: "storeList demoHashlib demoStore = [demoHash]"
  by (simp add: storeList_def demoStore_def demoHash_content)

lemma demo_loads: "\<exists>ix. LoadContentIndex demoHashlib J 0 (Inr None) demoStore = Inr ix"
  by (simp add: LoadContentIndex_def Let_def)

lemma demoIndex_inv: "sysInv (started demoHashlib demoIndex)"
  by (simp add: sysInv_def started_def demoIndex_def refsComplete_def heldCount_def setsStored_def presentBlob_def
      demoMeta_def)

text \<open>C11: transfers never lose a blob somebody needs. Start from a freshly loaded index and interleave
  any number of writers, commits, rollbacks and evictions: every recorded set still has its root and
  all its chunks on disk (except sets cached before their chunks arrived and sets the index file
  listed with chunks already missing), and every blob a transfer in flight has claimed and stored is
  still there.\<close>

theorem content_never_lost:
  assumes "LoadContentIndex H J now (Inr file) st = Inr ix" and "finite (dom (files st))"
    and "distinct (map fst (case file of None \<Rightarrow> [] | Some ss \<Rightarrow> ss))"
    and "reach (ixStep H) (started H ix) t"
  shows "(\<forall>(r, m) \<in> set (sets (index t)). r \<notin> partial t \<longrightarrow>
            (\<forall>h \<in> set (r # Chunks m). files (store (index t)) h \<noteq> None))
       \<and> (\<forall>w \<in> set (writers t). \<forall>h \<in> ready w. h \<in> set (held w) \<and> files (store (index t)) h \<noteq> None)
       \<and> (\<forall>h. pending (index t) h = heldCount (writers t) h)"
proof -
  have "sysInv (started H ix)"
    using LoadContentIndex_loading [OF assms(1-3)] loading_sysInv [OF _ assms(2)] by blast
  with ixSystem.reach_inv [OF assms(4)] have "sysInv t" .
  then show ?thesis unfolding sysInv_def setsStored_def presentBlob_def by blast
qed

theorem content_never_lost_witness:
  "\<exists>ix s. LoadContentIndex demoHashlib \<lparr>jsonEncode = \<lambda>_. None, jsonDecode = \<lambda>_. None\<rparr> 0 (Inr None) demoStore = Inr ix
     \<and> ixStep demoHashlib (started demoHashlib ix) LBegin s \<and> (\<forall>h. pending (index s) h = heldCount (writers s) h)"
proof -
  let ?J = "\<lparr>jsonEncode = \<lambda>_. None, jsonDecode = \<lambda>_. None\<rparr> :: manifestJson"
  obtain ix where ix: "LoadContentIndex demoHashlib ?J 0 (Inr None) demoStore = Inr ix"
    using demo_loads by blast
  let ?s = "(started demoHashlib ix)\<lparr>writers := writers (started demoHashlib ix) @ [\<lparr>held = BeginWrite, ready = {}\<rparr>]\<rparr>"
  have st: "ixStep demoHashlib (started demoHashlib ix) LBegin ?s" by (rule st_begin)
  then have "reach (ixStep demoHashlib) (started demoHashlib ix) ?s" by (rule reach_step [OF reach_refl])
  from content_never_lost [OF ix _ _ this] have "\<forall>h. pending (index ?s) h = heldCount (writers ?s) h" by simp
  with ix st show ?thesis by blast
qed

text \<open>A step removes a blob from the store only when nobody wants it. After the step no writer
  holds a claim on it and no recorded set, complete or partial, names it.\<close>

theorem blob_removed_only_unwanted:
  assumes "sysInv s" and "ixStep H s l s'"
    and "files (store (index s)) h \<noteq> None" and "files (store (index s')) h = None"
  shows "(\<forall>w \<in> set (writers s'). h \<notin> set (held w)) \<and> (\<forall>(r, m) \<in> set (sets (index s')). h \<notin> set (r # Chunks m))"
proof -
  have inv': "sysInv s'" using ixStep_preserves [OF assms(2,1)] .
  from step_loses_unwanted [OF assms(2,1)] assms(3,4)
  have lost: "pending (index s') h \<le> 0" "blobRefs (index s') h = {}"
    by (auto simp: losesUnwanted_def presentBlob_def)
  have "h \<notin> set (held w)" if "w \<in> set (writers s')" for w
    using heldCount_pos [OF that, of h] inv' lost(1) by (auto simp: sysInv_def)
  moreover have "h \<notin> set (r # Chunks m)" if "(r, m) \<in> set (sets (index s'))" for r m
    using refsComplete_refs [OF _ that, of h] inv' lost(2) by (auto simp: sysInv_def)
  ultimately show ?thesis by blast
qed

theorem blob_removed_only_unwanted_witness:
  "\<exists>s'. ixStep demoHashlib (started demoHashlib demoIndex) LPolicy s' \<and> files (store (index s')) demoHash = None
     \<and> (\<forall>(r, m) \<in> set (sets (index s')). demoHash \<notin> set (r # Chunks m))"
proof -
  let ?r = "Admit demoHashlib 50 60 60 0 7200 demoIndex"
  have e: "evictLocked demoHashlib demoHash demoIndex = demoIndex\<lparr>sets := [], blobRefs := (\<lambda>h. {}),
      store := demoStore\<lparr>files := Map.empty\<rparr>\<rparr>"
    using demoHash_content
    by (simp add: evictLocked_def demoIndex_def demoMeta_def releaseRef_def Let_def deleteBlob_def storeDelete_def
        demoStore_def fun_eq_iff)
  have hb: "hostedBytes demoIndex = 40" "hostedBytes (evictLocked demoHashlib demoHash demoIndex) = 0"
    unfolding e by (simp_all add: demoIndex_def demoMeta_def hostedBytes_def)
  have pv: "pickVictim 0 7200 {} (sets demoIndex) = Some (demoHash, demoMeta)"
    by (simp add: pickVictim_def demoIndex_def demoMeta_def evictable_def evictionProtection_def expired_def)
  have "fitLoop demoHashlib 50 60 0 7200 True 0 {} False demoIndex = (True, True, evictLocked demoHashlib demoHash demoIndex)"
  proof -
    have "fitLoop demoHashlib 50 60 0 7200 True 0 {} True (evictLocked demoHashlib demoHash demoIndex) =
        (True, True, evictLocked demoHashlib demoHash demoIndex)"
      by (subst fitLoop.simps) (simp add: hb)
    then show ?thesis by (subst fitLoop.simps) (simp add: hb pv)
  qed
  then have r: "?r = (True, saveIndex (evictLocked demoHashlib demoHash demoIndex))"
    by (simp add: Admit_def fitLocked_def)
  let ?s = "(started demoHashlib demoIndex)\<lparr>index := saveIndex (evictLocked demoHashlib demoHash demoIndex)\<rparr>"
  have "index (started demoHashlib demoIndex) = demoIndex" by (simp add: started_def)
  with r have st: "ixStep demoHashlib (started demoHashlib demoIndex) LPolicy ?s" by (intro st_admit) simp
  have f: "files (store (index ?s)) demoHash = None" by (simp add: e)
  have "files (store (index (started demoHashlib demoIndex))) demoHash \<noteq> None"
    by (simp add: started_def demoIndex_def)
  from blob_removed_only_unwanted [OF demoIndex_inv st this f] st f show ?thesis by blast
qed

text \<open>An offer costs nothing and is honest. \<open>Reserve\<close> answers exactly what the evicting pass of
  \<open>Admit\<close> would answer on the same index, and changes nothing but the reservation counter: no set
  goes, no blob is deleted, however many offers a stranger sends.\<close>

theorem Reserve_dry_run:
  assumes "distinct (map fst (sets ix))"
  shows "Reserve H sz budget maxSize ttl now ix =
    (let ok = fst (Admit H sz budget maxSize ttl now ix) in
     (ok, ix\<lparr>reserved := reserved ix + (if ok then sz else 0)\<rparr>))"
proof (cases "sz > maxSize \<or> sz > budget")
  case True
  then show ?thesis by (auto simp: Reserve_def Admit_def fitLocked_def)
next
  case False
  obtain f e i where l: "fitLoop H sz budget ttl now False 0 {} False ix = (f, e, i)" by (metis prod_cases3)
  have "fst (fitLoop H sz budget ttl now False 0 {} False ix) = fst (fitLoop H sz budget ttl now True 0 {} False ix)"
    by (rule fitLoop_dry_run [OF _ _ assms]) simp_all
  with l False have "fst (Admit H sz budget maxSize ttl now ix) = f"
    by (auto simp: Admit_def fitLocked_def split: prod.splits)
  moreover have "i = ix" "\<not> e" using fitLoop_props [OF l] by auto
  ultimately show ?thesis using False l by (simp add: Reserve_def fitLocked_def Let_def)
qed

theorem Reserve_dry_run_witness:
  "Reserve demoHashlib 50 60 60 0 7200 demoIndex =
    (let ok = fst (Admit demoHashlib 50 60 60 0 7200 demoIndex) in
     (ok, demoIndex\<lparr>reserved := reserved demoIndex + (if ok then 50 else 0)\<rparr>))"
  by (rule Reserve_dry_run) (simp add: demoIndex_def)

lemma fitLocked_room: "sz \<le> maxSize \<Longrightarrow> sz \<le> budget \<Longrightarrow> hostedBytes ix + sz \<le> budget \<Longrightarrow>
    fitLocked H sz budget maxSize ttl now ev ix = (True, ix)"
  by (simp add: fitLocked_def fitLoop.simps)

text \<open>C28: the eviction policy. Nothing goes while the budget has room. Otherwise every set that goes
  is hosted, never the owner's, and is expired or at least an hour old; a set stays only if no
  evicted set was a worse candidate, expired sets going first and then the least recently accessed;
  and when \<open>Admit\<close> agrees, the new set fits the budget.\<close>

theorem eviction_policy:
  assumes "distinct (map fst (sets ix))" and "Admit H sz budget maxSize ttl now ix = (fits, ix')"
  shows "(hostedBytes ix + sz \<le> budget \<longrightarrow> ix' = ix)
       \<and> set (sets ix') \<subseteq> set (sets ix)
       \<and> (\<forall>(r, m) \<in> set (sets ix) - set (sets ix').
             \<not> Owned m \<and> (expired ttl now m \<or> now - StoredAt m \<ge> evictionProtection)
             \<and> (\<forall>y \<in> set (sets ix'). evictable ttl now {} y \<longrightarrow> \<not> betterVictim ttl now y (r, m)))
       \<and> (fits \<longrightarrow> hostedBytes ix' + sz \<le> budget)"
proof -
  have f: "fitLocked H sz budget maxSize ttl now True ix = (fits, ix')" using assms(2) by (simp add: Admit_def)
  note p = fitLocked_props [OF f]
  then obtain S where S: "sets ix' = filter (\<lambda>(r, _). r \<notin> S) (sets ix)"
    "\<forall>(r, m) \<in> set (sets ix). r \<in> S \<longrightarrow> (\<exists>m'. (r, m') \<in> set (sets ix) \<and> evictable ttl now {} (r, m'))" by blast
  have "evictable ttl now {} (r, m)" if "(r, m) \<in> set (sets ix)" "(r, m) \<notin> set (sets ix')" for r m
    using that S distinct_keys_unique [OF assms(1)] by fastforce
  then have "\<not> Owned m \<and> (expired ttl now m \<or> now - StoredAt m \<ge> evictionProtection)"
    if "(r, m) \<in> set (sets ix)" "(r, m) \<notin> set (sets ix')" for r m
    using that by (fastforce simp: evictable_def)
  moreover have "\<not> betterVictim ttl now y x"
    if "x \<in> set (sets ix)" "x \<notin> set (sets ix')" "y \<in> set (sets ix')" "evictable ttl now {} y" for x y
  proof -
    have big: "\<not> (sz > maxSize \<or> sz > budget)" using f that(1,2) by (auto simp: fitLocked_def)
    obtain g e i where l: "fitLoop H sz budget ttl now True 0 {} False ix = (g, e, i)" by (metis prod_cases3)
    with f big have "sets ix' = sets i" by (auto simp: fitLocked_def split: if_splits)
    with fitLoop_evicts_worst [OF l assms(1)] that show ?thesis by simp
  qed
  moreover have "ix' = ix" if "hostedBytes ix + sz \<le> budget"
  proof (cases "sz > maxSize \<or> sz > budget")
    case False
    with f fitLocked_room [of sz maxSize budget ix H ttl now True] that show ?thesis by simp
  qed (use f in \<open>auto simp: fitLocked_def\<close>)
  ultimately show ?thesis using p S(1) by auto
qed

theorem eviction_policy_witness:
  "snd (Admit demoHashlib 20 60 60 0 100 demoIndex) = demoIndex"
proof -
  obtain fits ix' where a: "Admit demoHashlib 20 60 60 0 100 demoIndex = (fits, ix')" by fastforce
  have "hostedBytes demoIndex + 20 \<le> 60" by (simp add: demoIndex_def demoMeta_def hostedBytes_def)
  with eviction_policy [OF _ a] a show ?thesis by (simp add: demoIndex_def)
qed

lemma hostedBytes_touch: "hostedBytes (touchLocked now root ix) = hostedBytes ix"
proof -
  have "(\<Sum>(r, m) \<leftarrow> map (\<lambda>(r, m). (r, if r = root then m\<lparr>LastAccess := now\<rparr> else m)) ss. if Owned m then 0 else Size m) =
      (\<Sum>(r, m) \<leftarrow> ss. if Owned m then 0 else Size m)" for ss :: contentSets
    by (induction ss) auto
  then show ?thesis by (simp add: hostedBytes_def touchLocked_def del: map_map)
qed

lemma hostedBytes_addHosted:
  "hostedBytes (addHostedLocked now root sz chunks p ix) = hostedBytes ix + (if hasSet root ix then 0 else sz)"
  by (auto simp: addHostedLocked_def hasSet_def hostedBytes_touch) (simp add: hostedBytes_def Let_def putSet_def)

lemma releaseClaims_hosted: "hostedBytes (releaseClaims H d hs ix) = hostedBytes ix"
  using releaseClaims_frame [of H d hs ix] by (simp add: hostedBytes_def)

lemma addHosted_has: "hasSet root (addHostedLocked now root sz chunks p ix)"
proof (cases "map_of (sets ix) root")
  case None
  then show ?thesis by (simp add: hasSet_def addHostedLocked_def putSet_def Let_def)
next
  case (Some m)
  have "map_of (map (\<lambda>(r, m). (r, if r = root then m\<lparr>LastAccess := now\<rparr> else m)) ss) root \<noteq> None"
    if "map_of ss root = Some m" for ss
    using that by (induction ss) auto
  with Some show ?thesis by (simp add: hasSet_def addHostedLocked_def touchLocked_def)
qed

text \<open>A commit keeps the budget. It uses up the reservation either way. If it succeeds, the set is
  recorded, the writer's claims are handed over and the hosted bytes, promises included, are within
  the budget; if it fails, the set is not recorded and the writer keeps its claims, to be discarded.\<close>

theorem CommitHosted_budget:
  assumes "CommitHosted H clock root sz chunks p budget maxSize ttl now c ix = (ok, c', ix')" and "0 \<le> sz"
  shows "reserved ix' = max 0 (reserved ix - sz)
       \<and> (ok \<longrightarrow> hostedBytes ix' \<le> budget \<and> hasSet root ix' \<and> c' = [])
       \<and> (\<not> ok \<longrightarrow> c' = c \<and> set (sets ix') \<subseteq> set (sets ix))"
proof -
  from assms(1) obtain mid where f: "fitLocked H sz budget maxSize ttl now True (Release sz ix) = (ok, mid)"
    and t: "ok \<Longrightarrow> releaseClaimsLocked H False c (addHostedLocked clock root sz chunks p mid) = (c', ix')"
    and n: "\<not> ok \<Longrightarrow> c' = c \<and> ix' = mid"
    by (rule commit_split) blast
  from fitLocked_props [OF f] have rm: "reserved mid = max 0 (reserved ix - sz)"
    and hb: "ok \<Longrightarrow> hostedBytes mid + sz \<le> budget" and sub: "set (sets mid) \<subseteq> set (sets ix)"
    by (auto simp: Release_def)
  show ?thesis
  proof (cases ok)
    case True
    from t [OF True] have c: "c' = []" and i: "ix' = releaseClaims H False c (addHostedLocked clock root sz chunks p mid)"
      by (simp_all add: releaseClaimsLocked_def)
    have "reserved (addHostedLocked clock root sz chunks p mid) = reserved mid"
      by (simp add: addHostedLocked_def touchLocked_def Let_def)
    then have "reserved ix' = reserved mid" unfolding i using releaseClaims_frame by simp
    moreover have "hostedBytes ix' \<le> budget"
      unfolding i releaseClaims_hosted hostedBytes_addHosted using hb [OF True] assms(2) by simp
    moreover have "hasSet root ix'"
      using addHosted_has [of root clock sz chunks p mid] unfolding i hasSet_def by (simp add: releaseClaims_frame)
    ultimately show ?thesis using True c rm by simp
  qed (use n rm sub in simp)
qed

theorem CommitHosted_budget_witness:
  "\<exists>ix'. CommitHosted demoHashlib 100 ''r'' 20 [] ''peer'' 60 60 0 100 [] (demoIndex\<lparr>reserved := 20\<rparr>) = (True, [], ix')
     \<and> hostedBytes ix' \<le> 60 \<and> reserved ix' = 0"
proof -
  let ?ix = "demoIndex\<lparr>reserved := 20\<rparr>"
  have "hostedBytes (Release 20 ?ix) = 40" by (simp add: hostedBytes_def Release_def demoIndex_def demoMeta_def)
  then have "fitLocked demoHashlib 20 60 60 0 100 True (Release 20 ?ix) = (True, Release 20 ?ix)"
    by (intro fitLocked_room) simp_all
  then obtain ix' where c: "CommitHosted demoHashlib 100 ''r'' 20 [] ''peer'' 60 60 0 100 [] ?ix = (True, [], ix')"
    by (simp add: CommitHosted_def releaseClaimsLocked_def)
  from CommitHosted_budget [OF this] have "hostedBytes ix' \<le> 60" "reserved ix' = 0" by simp_all
  with c show ?thesis by blast
qed

text \<open>An abandoned transfer leaves nothing behind and takes nothing with it. Discarding a writer's
  claims empties the handle, gives back exactly its counts, and deletes exactly the blobs it had
  claimed that no other writer claims and no set refers to.\<close>

theorem Discard_exact:
  assumes "\<forall>h. int (count_list c h) \<le> pending ix h" and "Discard H c ix = (c', ix')"
  shows "c' = [] \<and> sets ix' = sets ix
       \<and> pending ix' h = pending ix h - int (count_list c h)
       \<and> files (store ix') h =
           (if h \<in> set c \<and> pending ix h = int (count_list c h) \<and> blobRefs ix h = {} \<and> IsContentHash H h
               \<and> writable (store ix)
            then None else files (store ix) h)"
proof -
  have i: "c' = []" "ix' = releaseClaims H True c ix"
    using assms(2) by (auto simp: Discard_def releaseClaimsLocked_def)
  show ?thesis
    unfolding i using releaseClaims_frame [of H True c ix] releaseClaims_exact [OF assms(1), of H h]
      releaseClaims_pending [OF assms(1), of H True h] by simp
qed

theorem Discard_exact_witness:
  "files (store (snd (Discard demoHashlib [demoHash] (demoIndex\<lparr>pending := (\<lambda>_. 1), blobRefs := (\<lambda>_. {})\<rparr>)))) demoHash = None
   \<and> files (store (snd (Discard demoHashlib [demoHash] (demoIndex\<lparr>pending := (\<lambda>_. 2), blobRefs := (\<lambda>_. {})\<rparr>)))) demoHash = Some []"
proof -
  have "files (store (snd (Discard demoHashlib [demoHash] (demoIndex\<lparr>pending := (\<lambda>_. k), blobRefs := (\<lambda>_. {})\<rparr>)))) demoHash =
      (if k = 1 then None else Some [])" if "1 \<le> k" for k
  proof -
    let ?i = "demoIndex\<lparr>pending := (\<lambda>_. k), blobRefs := (\<lambda>_. {})\<rparr>"
    obtain c' ix' where d: "Discard demoHashlib [demoHash] ?i = (c', ix')" by fastforce
    have "\<forall>h. int (count_list [demoHash] h) \<le> pending ?i h" using that by simp
    from Discard_exact [OF this d, of demoHash] have "files (store ix') demoHash = (if k = 1 then None else Some [])"
      using demoHash_content by (simp add: demoIndex_def)
    with d show ?thesis by simp
  qed
  from this [of 1] this [of 2] show ?thesis by simp
qed

text \<open>Loading accounts for every blob on disk. Every tracked root is a stored blob, every stored
  content blob belongs to a tracked set, the reverse map holds exactly the references of the tracked
  sets, no claim or reservation is outstanding, the entries of the index file whose root is still
  there are kept as they were, what is adopted besides is hosted, not owned, and has all its chunks
  on disk, and the result is what has been saved.\<close>

theorem LoadContentIndex_accounts:
  assumes "LoadContentIndex H J now (Inr file) st = Inr ix" and "finite (dom (files st))"
    and "distinct (map fst (case file of None \<Rightarrow> [] | Some ss \<Rightarrow> ss))"
  shows "fst ` set (sets ix) \<subseteq> set (storeList H st)
       \<and> (\<forall>h \<in> set (storeList H st). \<exists>(r, m) \<in> set (sets ix). h \<in> set (r # Chunks m))
       \<and> (\<forall>h. blobRefs ix h = {r. \<exists>m. (r, m) \<in> set (sets ix) \<and> h \<in> set (r # Chunks m)})
       \<and> pending ix = (\<lambda>_. 0) \<and> reserved ix = 0 \<and> store ix = st \<and> saved ix = Some (sets ix)
       \<and> (\<exists>more. sets ix = filter (\<lambda>(root, _). root \<in> set (storeList H st)) (case file of None \<Rightarrow> [] | Some ss \<Rightarrow> ss) @ more
            \<and> (\<forall>(r, m) \<in> set more. \<not> Owned m \<and> set (Chunks m) \<subseteq> set (storeList H st)))"
proof -
  note l = LoadContentIndex_loading [OF assms]
  then have ex: "\<forall>h. blobRefs ix h = {r. \<exists>m. (r, m) \<in> set (sets ix) \<and> h \<in> set (r # Chunks m)}"
    by (simp add: loading_def refsExact_def)
  have "\<exists>(r, m) \<in> set (sets ix). h \<in> set (r # Chunks m)" if "h \<in> set (storeList H st)" for h
  proof -
    from l that have "blobRefs ix h \<noteq> {}" by blast
    then obtain r where "r \<in> blobRefs ix h" by blast
    with ex show ?thesis by blast
  qed
  with ex l show ?thesis unfolding loading_def by blast
qed

theorem LoadContentIndex_accounts_witness:
  "\<exists>ix J. LoadContentIndex demoHashlib J 0 (Inr None) demoStore = Inr ix
     \<and> (\<exists>(r, m) \<in> set (sets ix). demoHash \<in> set (r # Chunks m))"
proof -
  obtain J :: manifestJson where True by simp
  obtain ix where ix: "LoadContentIndex demoHashlib J 0 (Inr None) demoStore = Inr ix" using demo_loads by blast
  from LoadContentIndex_accounts [OF ix] demoList
  have "\<exists>(r, m) \<in> set (sets ix). demoHash \<in> set (r # Chunks m)" by simp
  with ix show ?thesis by blast
qed

end
