(* ===== verification/ContentNet.thy ===== *)
theory ContentNet
  imports Wire IndexProps
begin

text \<open>
  \<open>internal/node/contentnet.go\<close>: publishing content (\<open>PutStream\<close>), fetching it from the local store
  or from peers (\<open>FetchStream\<close>, \<open>chunkReader\<close>, \<open>fetchFrom\<close>) and serving it (\<open>handleStream\<close>).
  The network is a parameter: who provides a hash, and what comes back on a stream to a peer for
  the bytes sent to it. Announcing and pushing to replicas start in the background after the
  content is stored and change nothing here. The service has an index, as \<open>NewContentService\<close>
  gives it; \<open>None\<close> for the network is a service without a node.
\<close>

type_synonym peerID = string

record contentNetwork =
  selfID :: peerID
  providersOf :: "string \<Rightarrow> peerID list"
  onStream :: "peerID \<Rightarrow> bytes \<Rightarrow> bytes option"

record hostingPolicy =
  hostBudget :: int
  maxPushSize :: int
  hostTTL :: int

section \<open>Publishing\<close>

text \<open>An \<open>io.Reader\<close>: the bytes it delivers, and whether it then ends with an error or with EOF.\<close>

record source =
  srcData :: bytes
  srcFails :: bool

definition readFill :: "nat \<Rightarrow> source \<Rightarrow> netErr + bytes \<times> source" where
  "readFill n s =
     (if n \<le> length (srcData s) then Inr (take n (srcData s), s\<lparr>srcData := drop n (srcData s)\<rparr>)
      else if srcFails s then Inl ErrSource
      else Inr (srcData s, s\<lparr>srcData := []\<rparr>))"

record putState =
  psManifest :: chunkManifest
  psClaims :: blobClaims
  psIndex :: contentIndex

definition claimPut :: "hashlib \<Rightarrow> bytes \<Rightarrow> blobClaims \<Rightarrow> contentIndex \<Rightarrow> (netErr + string) \<times> blobClaims \<times> contentIndex" where
  "claimPut H b c ix =
     (case ContentHash H b of
        Inl e \<Rightarrow> (Inl (ErrContent e), c, ix)
      | Inr h \<Rightarrow>
          (case Claim h c ix of (c', ix') \<Rightarrow>
             (case storePut H (store ix') b of (r, st') \<Rightarrow>
                ((case r of Inl e \<Rightarrow> Inl (ErrContent e) | Inr _ \<Rightarrow> Inr h), c', ix'\<lparr>store := st'\<rparr>))))"

definition putChunk :: "hashlib \<Rightarrow> bytes \<Rightarrow> putState \<Rightarrow> netErr option \<times> putState" where
  "putChunk H b ps =
     (let m = psManifest ps in
      if TotalSize m + int (length b) > int MaxContentSize then (Some (ErrContent ErrContentTooLarge), ps)
      else case claimPut H b (psClaims ps) (psIndex ps) of (r, c, ix) \<Rightarrow>
        (let ps' = ps\<lparr>psClaims := c, psIndex := ix\<rparr> in
         case r of
           Inl e \<Rightarrow> (Some e, ps')
         | Inr h \<Rightarrow> (None, ps'\<lparr>psManifest := m\<lparr>mChunks := mChunks m @ [h], TotalSize := TotalSize m + int (length b)\<rparr>\<rparr>)))"

function putLoop :: "hashlib \<Rightarrow> bytes \<Rightarrow> source \<Rightarrow> putState \<Rightarrow> netErr option \<times> putState" where
  "putLoop H pre s ps =
     (case readFill (ChunkSizeC - length pre) s of
        Inl e \<Rightarrow> (Some e, ps)
      | Inr (d, s') \<Rightarrow>
          (let fill = pre @ d in
           if fill = [] then (None, ps)
           else case putChunk H fill ps of
             (Some e, ps') \<Rightarrow> (Some e, ps')
           | (None, ps') \<Rightarrow> if length fill < ChunkSizeC then (None, ps') else putLoop H [] s' ps'))"
  by auto
termination
  by (relation "measure (\<lambda>(H, pre, s, ps). length pre + length (srcData s))")
    (auto simp: readFill_def ChunkSizeC_def simp flip: length_greater_0_conv split: if_splits)

declare putLoop.simps [simp del]

definition PutStream ::
    "hashlib \<Rightarrow> manifestJson \<Rightarrow> int \<Rightarrow> source \<Rightarrow> contentIndex \<Rightarrow> (netErr + string \<times> int) \<times> contentIndex" where
  "PutStream H J now s ix =
     (let claims = BeginWrite; failed = (\<lambda>e c ix. (Inl e, snd (Discard H c ix))) in
      case readFill (Suc ChunkSizeC) s of
        Inl e \<Rightarrow> failed e claims ix
      | Inr (head, s') \<Rightarrow>
          if length head \<le> ChunkSizeC then
            (case claimPut H head claims ix of
               (Inl e, c, ix1) \<Rightarrow> failed e c ix1
             | (Inr hash, c, ix1) \<Rightarrow>
                 (case MarkOwned H now hash (int (length head)) [] c ix1 of
                    (c', ix2) \<Rightarrow> (Inr (hash, int (length head)), snd (Discard H c' ix2))))
          else
            (let ps0 = \<lparr>psManifest = \<lparr>TotalSize = 0, ChunkSize = int ChunkSizeC, mChunks = []\<rparr>,
                        psClaims = claims, psIndex = ix\<rparr> in
             case putChunk H (take ChunkSizeC head) ps0 of
               (Some e, ps) \<Rightarrow> failed e (psClaims ps) (psIndex ps)
             | (None, ps) \<Rightarrow>
                 (case putLoop H (drop ChunkSizeC head) s' ps of
                    (Some e, ps) \<Rightarrow> failed e (psClaims ps) (psIndex ps)
                  | (None, ps) \<Rightarrow>
                      (case EncodeManifest J (psManifest ps) of
                         Inl e \<Rightarrow> failed (ErrContent e) (psClaims ps) (psIndex ps)
                       | Inr data \<Rightarrow>
                           (case claimPut H data (psClaims ps) (psIndex ps) of
                              (Inl e, c, ix1) \<Rightarrow> failed e c ix1
                            | (Inr hash, c, ix1) \<Rightarrow>
                                (case MarkOwned H now hash (int (length data) + TotalSize (psManifest ps))
                                        (mChunks (psManifest ps)) c ix1 of
                                   (c', ix2) \<Rightarrow>
                                     (Inr (hash, TotalSize (psManifest ps)), snd (Discard H c' ix2))))))))"

section \<open>Fetching\<close>

definition hashToCID :: "hashlib \<Rightarrow> string \<Rightarrow> netErr + bytes" where
  "hashToCID H hash =
     (case b36Decode H hash of
        None \<Rightarrow> Inl ErrBadHash
      | Some raw \<Rightarrow> (case mhDecode H raw of None \<Rightarrow> Inl ErrBadHash | Some _ \<Rightarrow> Inr raw))"

definition fetchFrom :: "hashlib \<Rightarrow> contentNetwork \<Rightarrow> peerID \<Rightarrow> string \<Rightarrow> netErr + bytes" where
  "fetchFrom H N p hash =
     (case onStream N p (writeRequest hash) of
        None \<Rightarrow> Inl ErrOpenStream
      | Some resp \<Rightarrow>
          bindR (readBlob resp) (\<lambda>(data, _).
            case ContentHash H data of
              Inl e \<Rightarrow> Inl (ErrContent e)
            | Inr got \<Rightarrow> if got \<noteq> hash then Inl (ErrWrongContent got) else Inr data))"

fun tryProviders :: "hashlib \<Rightarrow> contentNetwork \<Rightarrow> string \<Rightarrow> netErr \<Rightarrow> peerID list \<Rightarrow> netErr + bytes \<times> peerID" where
  "tryProviders H N hash lastErr [] = Inl lastErr"
| "tryProviders H N hash lastErr (p # ps) =
     (if p = selfID N then tryProviders H N hash lastErr ps
      else case fetchFrom H N p hash of
        Inl e \<Rightarrow> tryProviders H N hash e ps
      | Inr data \<Rightarrow> Inr (data, p))"

definition fetchBlob ::
    "hashlib \<Rightarrow> contentNetwork option \<Rightarrow> contentIndex \<Rightarrow> string \<Rightarrow> netErr + bytes \<times> peerID option" where
  "fetchBlob H net ix hash =
     (case storeGet H (store ix) hash of
        Inr data \<Rightarrow> Inr (data, None)
      | Inl _ \<Rightarrow>
          (case net of
             None \<Rightarrow> Inl (ErrContent ErrBlobNotFound)
           | Some N \<Rightarrow>
               bindR (hashToCID H hash) (\<lambda>_.
                 bindR (tryProviders H N hash (ErrContent ErrBlobNotFound) (providersOf N hash)) (\<lambda>(data, p).
                   Inr (data, Some p)))))"

definition cacheBlob :: "hashlib \<Rightarrow> bytes \<Rightarrow> contentIndex \<Rightarrow> contentIndex" where
  "cacheBlob H data ix = ix\<lparr>store := snd (storePut H (store ix) data)\<rparr>"

definition fetchChunk ::
    "hashlib \<Rightarrow> contentNetwork option \<Rightarrow> string \<Rightarrow> peerID option \<Rightarrow> bool \<Rightarrow> contentIndex \<Rightarrow> (netErr + bytes) \<times> contentIndex" where
  "fetchChunk H net hash src cache ix =
     (case storeGet H (store ix) hash of
        Inr data \<Rightarrow> (Inr data, ix)
      | Inl _ \<Rightarrow>
          (case (case (net, src) of (Some N, Some p) \<Rightarrow> fetchFrom H N p hash | _ \<Rightarrow> Inl ErrOpenStream) of
             Inr data \<Rightarrow> (Inr data, if cache then cacheBlob H data ix else ix)
           | Inl _ \<Rightarrow>
               (case fetchBlob H net ix hash of
                  Inl e \<Rightarrow> (Inl e, ix)
                | Inr (data, _) \<Rightarrow> (Inr data, if cache then cacheBlob H data ix else ix))))"

record chunkReader =
  crManifest :: chunkManifest
  crSrc :: "peerID option"
  crCache :: bool
  crNext :: nat
  crCur :: bytes

text \<open>The loop of \<open>Read\<close>: \<open>True\<close> when unread bytes are at hand, \<open>False\<close> at the end of the content.\<close>

function crFill ::
    "hashlib \<Rightarrow> contentNetwork option \<Rightarrow> chunkReader \<Rightarrow> contentIndex \<Rightarrow> (netErr + bool) \<times> chunkReader \<times> contentIndex" where
  "crFill H net cr ix =
     (let m = crManifest cr; i = crNext cr in
      if crCur cr \<noteq> [] then (Inr True, cr, ix)
      else if i \<ge> length (mChunks m) then (Inr False, cr, ix)
      else case fetchChunk H net (mChunks m ! i) (crSrc cr) (crCache cr) ix of
        (Inl e, ix') \<Rightarrow> (Inl (ErrChunk (i + 1) e), cr, ix')
      | (Inr data, ix') \<Rightarrow>
          if int (length data) \<noteq> ChunkLen m i then (Inl (ErrChunkLen (i + 1) (length data)), cr, ix')
          else crFill H net (cr\<lparr>crNext := i + 1, crCur := data\<rparr>) ix')"
  by auto
termination
  by (relation "measure (\<lambda>(H, net, cr, ix). length (mChunks (crManifest cr)) - crNext cr)") auto

declare crFill.simps [simp del]

text \<open>\<open>None\<close> is EOF.\<close>

definition chunkRead ::
    "hashlib \<Rightarrow> contentNetwork option \<Rightarrow> nat \<Rightarrow> chunkReader \<Rightarrow> contentIndex
      \<Rightarrow> (netErr + bytes option) \<times> chunkReader \<times> contentIndex" where
  "chunkRead H net n cr ix =
     (case crFill H net cr ix of
        (Inl e, cr', ix') \<Rightarrow> (Inl e, cr', ix')
      | (Inr False, cr', ix') \<Rightarrow> (Inr None, cr', ix')
      | (Inr True, cr', ix') \<Rightarrow> (Inr (Some (take n (crCur cr'))), cr'\<lparr>crCur := drop n (crCur cr')\<rparr>, ix'))"

lemma crFill_progress:
  "crFill H net cr ix = (Inr True, cr', ix') \<Longrightarrow>
     crCur cr' \<noteq> [] \<and> crManifest cr' = crManifest cr \<and>
     (cr' = cr \<or> crNext cr < crNext cr' \<and> crNext cr' \<le> length (mChunks (crManifest cr)))"
proof (induction H net cr ix rule: crFill.induct)
  case (1 H net cr ix)
  show ?case
  proof (cases "crCur cr = [] \<and> crNext cr < length (mChunks (crManifest cr))")
    case False
    with 1(2) show ?thesis by (subst (asm) crFill.simps) (auto simp: Let_def split: if_splits)
  next
    case True
    obtain r ix1 where f: "fetchChunk H net (mChunks (crManifest cr) ! crNext cr) (crSrc cr) (crCache cr) ix = (r, ix1)"
      by fastforce
    with 1(2) True obtain data where d: "r = Inr data" "int (length data) = ChunkLen (crManifest cr) (crNext cr)"
      and c: "crFill H net (cr\<lparr>crNext := crNext cr + 1, crCur := data\<rparr>) ix1 = (Inr True, cr', ix')"
      by (subst (asm) crFill.simps) (auto simp: Let_def split: sum.splits if_splits)
    from 1(1) [OF refl refl _ _ f [symmetric] d(1) _ c] True d(2)
    have "crCur cr' \<noteq> []" "crManifest cr' = crManifest cr"
      "cr' = cr\<lparr>crNext := crNext cr + 1, crCur := data\<rparr>
        \<or> crNext cr + 1 < crNext cr' \<and> crNext cr' \<le> length (mChunks (crManifest cr))" by auto
    with True show ?thesis by auto
  qed
qed

text \<open>\<open>io.Copy\<close> into a buffer: \<open>bs k\<close> is one less than the size of the buffer offered after \<open>k\<close> bytes.\<close>

function copyAll ::
    "hashlib \<Rightarrow> contentNetwork option \<Rightarrow> (nat \<Rightarrow> nat) \<Rightarrow> bytes \<Rightarrow> chunkReader \<Rightarrow> contentIndex \<Rightarrow> (netErr + bytes) \<times> contentIndex" where
  "copyAll H net bs acc cr ix =
     (case chunkRead H net (Suc (bs (length acc))) cr ix of
        (Inl e, cr', ix') \<Rightarrow> (Inl e, ix')
      | (Inr None, cr', ix') \<Rightarrow> (Inr acc, ix')
      | (Inr (Some b), cr', ix') \<Rightarrow> copyAll H net bs (acc @ b) cr' ix')"
  by auto
termination
proof (relation "measures [\<lambda>(H, net, bs, acc, cr, ix). length (mChunks (crManifest cr)) - crNext cr,
    \<lambda>(H, net, bs, acc, cr, ix). length (crCur cr)]", simp, goal_cases)
  case (1 H net bs acc cr ix x y ob b cr2 ix2)
  then have c: "chunkRead H net (Suc (bs (length acc))) cr ix = (Inr (Some b), cr2, ix2)" by simp
  then obtain cr1 where f: "crFill H net cr ix = (Inr True, cr1, ix2)"
    and y: "cr2 = cr1\<lparr>crCur := drop (Suc (bs (length acc))) (crCur cr1)\<rparr>"
    by (auto simp: chunkRead_def split: prod.splits sum.splits bool.splits)
  from crFill_progress [OF f] y show ?case by auto
qed

declare copyAll.simps [simp del]

datatype contentReader = BlobReader bytes | ChunkReader chunkReader

definition admitHosted :: "hashlib \<Rightarrow> hostingPolicy \<Rightarrow> int \<Rightarrow> int \<Rightarrow> contentIndex \<Rightarrow> bool \<times> contentIndex" where
  "admitHosted H P now sz ix = Admit H sz (hostBudget P) (maxPushSize P) (hostTTL P) now ix"

text \<open>Caching a fetched root: claim, store, record, all on the admitted index.\<close>

definition cacheSet ::
    "hashlib \<Rightarrow> int \<Rightarrow> string \<Rightarrow> bytes \<Rightarrow> int \<Rightarrow> string list \<Rightarrow> peerID \<Rightarrow> blobClaims \<Rightarrow> contentIndex \<Rightarrow> blobClaims \<times> contentIndex" where
  "cacheSet H clock hash blob0 tot chunks p claims ix =
     (case Claim hash claims ix of
        (c, ix1) \<Rightarrow> AddHosted H clock hash tot chunks p c (cacheBlob H blob0 ix1))"

definition FetchStream ::
    "hashlib \<Rightarrow> manifestJson \<Rightarrow> hostingPolicy \<Rightarrow> int \<Rightarrow> int \<Rightarrow> contentNetwork option \<Rightarrow> string \<Rightarrow> contentIndex
      \<Rightarrow> (netErr + contentReader \<times> int) \<times> contentIndex" where
  "FetchStream H J P now clock net hash ix =
     (case fetchBlob H net ix hash of
        Inl e \<Rightarrow> (Inl e, ix)
      | Inr (blob0, src) \<Rightarrow>
          (let claims = BeginWrite in
           case DecodeManifest H J blob0 of
             Some m \<Rightarrow>
               (let tot = int (length blob0) + TotalSize m;
                    (cache, c, ix') =
                      (case src of
                         None \<Rightarrow> (False, claims, TouchBlob clock hash ix)
                       | Some p \<Rightarrow>
                           (case admitHosted H P now tot ix of
                              (False, ix1) \<Rightarrow> (False, claims, ix1)
                            | (True, ix1) \<Rightarrow> (True, cacheSet H clock hash blob0 tot (mChunks m) p claims ix1)))
                in (Inr (ChunkReader \<lparr>crManifest = m, crSrc = src, crCache = cache, crNext = 0, crCur = []\<rparr>, TotalSize m),
                    snd (Discard H c ix')))
           | None \<Rightarrow>
               (let (c, ix') =
                      (case src of
                         None \<Rightarrow> (claims, TouchBlob clock hash ix)
                       | Some p \<Rightarrow>
                           (case admitHosted H P now (int (length blob0)) ix of
                              (False, ix1) \<Rightarrow> (claims, ix1)
                            | (True, ix1) \<Rightarrow> cacheSet H clock hash blob0 (int (length blob0)) [] p claims ix1))
                in (Inr (BlobReader blob0, int (length blob0)), snd (Discard H c ix')))))"

definition Fetch ::
    "hashlib \<Rightarrow> manifestJson \<Rightarrow> hostingPolicy \<Rightarrow> int \<Rightarrow> int \<Rightarrow> contentNetwork option \<Rightarrow> (nat \<Rightarrow> nat) \<Rightarrow> string \<Rightarrow> contentIndex
      \<Rightarrow> (netErr + bytes) \<times> contentIndex" where
  "Fetch H J P now clock net bs hash ix =
     (case FetchStream H J P now clock net hash ix of
        (Inl e, ix') \<Rightarrow> (Inl e, ix')
      | (Inr (BlobReader blob0, _), ix') \<Rightarrow> (Inr blob0, ix')
      | (Inr (ChunkReader cr, _), ix') \<Rightarrow> copyAll H net bs [] cr ix')"

section \<open>Serving\<close>

text \<open>What is written back for the bytes received, and the index afterwards.\<close>

definition handleStream :: "hashlib \<Rightarrow> int \<Rightarrow> bytes \<Rightarrow> contentIndex \<Rightarrow> bytes \<times> contentIndex" where
  "handleStream H now inp ix =
     (case readRequest inp of
        Inl _ \<Rightarrow> ([], ix)
      | Inr (hash, _) \<Rightarrow>
          (case storeOpen H (store ix) hash of
             Inl _ \<Rightarrow> (writeBlobHeader 0, ix)
           | Inr (data, sz) \<Rightarrow> (writeBlobHeader (word_of_int sz) @ data, TouchBlob now hash ix)))"

end
