(* ===== verification/ContentTransfer.thy ===== *)
theory ContentTransfer
  imports ContentNet
begin

text \<open>
  What content transfer promises (\<open>internal/node/contentnet.go\<close>): whatever is fetched matches the
  hash it was asked under, a peer's blob arrives unchanged, and published content is fetched back
  byte for byte.
\<close>

section \<open>Every byte is checked\<close>

lemma fetchFrom_hash: "fetchFrom H N p hash = Inr d \<Longrightarrow> ContentHash H d = Inr hash \<and> d \<noteq> [] \<and> length d \<le> MaxBlobSize"
proof -
  assume a: "fetchFrom H N p hash = Inr d"
  then obtain resp e rest where r: "readBlob resp = Inr (e, rest)"
    and c: "(case ContentHash H e of Inl x \<Rightarrow> Inl (ErrContent x)
            | Inr got \<Rightarrow> if got \<noteq> hash then Inl (ErrWrongContent got) else Inr e) = Inr d"
    by (auto simp: fetchFrom_def bindR_Inr_iff split: option.splits)
  from c have "e = d" "ContentHash H d = Inr hash" by (auto split: sum.splits if_splits)
  with r have "readBlob resp = Inr (d, rest)" "ContentHash H d = Inr hash" by simp_all
  with readBlobMax_Inr [of "of_nat MaxBlobSize" resp d rest] show ?thesis by (simp add: readBlob_def)
qed

lemma tryProviders_hash: "tryProviders H N hash e ps = Inr (d, p) \<Longrightarrow> ContentHash H d = Inr hash \<and> p \<in> set ps \<and> p \<noteq> selfID N"
  by (induction ps arbitrary: e) (auto split: if_splits sum.splits dest: fetchFrom_hash)

lemma fetchBlob_hash:
  "storeOk H (store ix) \<Longrightarrow> fetchBlob H net ix hash = Inr (d, src) \<Longrightarrow> ContentHash H d = Inr hash"
  by (auto simp: fetchBlob_def bindR_Inr_iff split: sum.splits option.splits dest: storeGet_addr tryProviders_hash)

lemma cacheBlob_ok: "storeOk H (store ix) \<Longrightarrow> storeOk H (store (cacheBlob H d ix))"
  by (cases "storePut H (store ix) d") (auto simp: cacheBlob_def dest: storePut_ok)

lemma fetchChunk_hash:
  assumes "storeOk H (store ix)" and "fetchChunk H net hash src cache ix = (r, ix')"
  shows "storeOk H (store ix') \<and> (\<forall>d. r = Inr d \<longrightarrow> ContentHash H d = Inr hash)"
  using assms cacheBlob_ok
  by (auto simp: fetchChunk_def split: sum.splits option.splits if_splits
      dest: storeGet_addr fetchFrom_hash fetchBlob_hash)

lemma storeOk_shrinks: "shrinks ix ix' \<Longrightarrow> storeOk H (store ix) \<Longrightarrow> storeOk H (store ix')"
  unfolding shrinks_def storeOk_def by (metis option.distinct(1))

text \<open>What a reader has still to deliver: its unread bytes and blobs for the remaining hashes, each of
  the length the manifest implies.\<close>

definition piecesOf :: "hashlib \<Rightarrow> chunkManifest \<Rightarrow> nat \<Rightarrow> bytes list \<Rightarrow> bool" where
  "piecesOf H m i ds \<longleftrightarrow>
     i + length ds = length (mChunks m) \<and>
     (\<forall>j < length ds. ContentHash H (ds ! j) = Inr (mChunks m ! (i + j)) \<and> int (length (ds ! j)) = ChunkLen m (i + j))"

lemma piecesOf_Cons:
  "i < length (mChunks m) \<Longrightarrow> ContentHash H d = Inr (mChunks m ! i) \<Longrightarrow> int (length d) = ChunkLen m i \<Longrightarrow>
     piecesOf H m (Suc i) ds \<Longrightarrow> piecesOf H m i (d # ds)"
  unfolding piecesOf_def by (auto simp: nth_Cons split: nat.splits)

lemma crFill_sound:
  "crFill H net cr ix = (r, cr', ix') \<Longrightarrow> storeOk H (store ix) \<Longrightarrow> crNext cr \<le> length (mChunks (crManifest cr)) \<Longrightarrow>
     storeOk H (store ix') \<and> crManifest cr' = crManifest cr \<and> crNext cr' \<le> length (mChunks (crManifest cr)) \<and>
     (r = Inr False \<longrightarrow> crNext cr' = length (mChunks (crManifest cr)) \<and> crCur cr' = []) \<and>
     (\<forall>ds. piecesOf H (crManifest cr) (crNext cr') ds \<longrightarrow>
        (\<exists>es. piecesOf H (crManifest cr) (crNext cr) es \<and> crCur cr @ concat es = crCur cr' @ concat ds))"
proof (induction H net cr ix rule: crFill.induct)
  case (1 H net cr ix)
  let ?m = "crManifest cr"
  show ?case
  proof (cases "crCur cr = [] \<and> crNext cr < length (mChunks ?m)")
    case False
    with 1(2-4) have "cr' = cr" "ix' = ix" "r = Inr (crCur cr \<noteq> [])"
      by (subst (asm) crFill.simps, auto simp: Let_def split: if_splits)+
    with 1(3,4) False show ?thesis by auto
  next
    case True
    obtain q ix1 where f: "fetchChunk H net (mChunks ?m ! crNext cr) (crSrc cr) (crCache cr) ix = (q, ix1)"
      by fastforce
    note fh = fetchChunk_hash [OF 1(3) f]
    have same: ?thesis if "cr' = cr" "ix' = ix1" "\<exists>e. r = Inl e"
      using that fh 1(4) by auto
    show ?thesis
    proof (cases q)
      case (Inl e)
      with 1(2) True f show ?thesis by (intro same) (subst (asm) crFill.simps, auto simp: Let_def)+
    next
      case (Inr data)
      let ?cr = "cr\<lparr>crNext := crNext cr + 1, crCur := data\<rparr>"
      show ?thesis
      proof (cases "int (length data) = ChunkLen ?m (crNext cr)")
        case False
        with 1(2) True f Inr show ?thesis by (intro same) (subst (asm) crFill.simps, auto simp: Let_def)+
      next
        case len: True
        with 1(2) True f Inr have c: "crFill H net ?cr ix1 = (r, cr', ix')"
          by (subst (asm) crFill.simps) (auto simp: Let_def)
        have ih: "storeOk H (store ix') \<and> crManifest cr' = ?m \<and> crNext cr' \<le> length (mChunks ?m) \<and>
           (r = Inr False \<longrightarrow> crNext cr' = length (mChunks ?m) \<and> crCur cr' = []) \<and>
           (\<forall>ds. piecesOf H ?m (crNext cr') ds \<longrightarrow>
              (\<exists>es. piecesOf H ?m (Suc (crNext cr)) es \<and> data @ concat es = crCur cr' @ concat ds))"
          using 1(1) [OF refl refl _ _ f [symmetric] Inr _ c] True len fh by simp
        moreover have "piecesOf H ?m (crNext cr) (data # es)" if "piecesOf H ?m (Suc (crNext cr)) es" for es
          using piecesOf_Cons [OF _ _ len that] True fh Inr by simp
        ultimately show ?thesis using True by (metis append_Nil concat.simps(2))
      qed
    qed
  qed
qed

lemma copyAll_sound:
  "copyAll H net bs acc cr ix = (Inr data, ix') \<Longrightarrow> storeOk H (store ix) \<Longrightarrow> crNext cr \<le> length (mChunks (crManifest cr)) \<Longrightarrow>
     storeOk H (store ix') \<and> (\<exists>ds. piecesOf H (crManifest cr) (crNext cr) ds \<and> data = acc @ crCur cr @ concat ds)"
proof (induction H net bs acc cr ix rule: copyAll.induct)
  case (1 H net bs acc cr ix)
  let ?n = "Suc (bs (length acc))"
  obtain r cr1 ix1 where f: "crFill H net cr ix = (r, cr1, ix1)" by (metis prod_cases3)
  note s = crFill_sound [OF f 1(3,4)]
  from 1(2) f have "isOk r" by (subst (asm) copyAll.simps) (auto simp: chunkRead_def split: sum.splits)
  then consider "r = Inr False" | "r = Inr True" by (cases r) auto
  then show ?case
  proof cases
    case 1
    with 1 f \<open>copyAll H net bs acc cr ix = (Inr data, ix')\<close> have "data = acc" "ix' = ix1"
      by (subst (asm) copyAll.simps, simp add: chunkRead_def)+
    moreover from s 1 have "piecesOf H (crManifest cr) (crNext cr1) []" "crCur cr1 = []" by (auto simp: piecesOf_def)
    ultimately show ?thesis using s by fastforce
  next
    case 2
    let ?cr2 = "cr1\<lparr>crCur := drop ?n (crCur cr1)\<rparr>"
    from 2 f have c: "chunkRead H net ?n cr ix = (Inr (Some (take ?n (crCur cr1))), ?cr2, ix1)"
      by (simp add: chunkRead_def)
    with \<open>copyAll H net bs acc cr ix = (Inr data, ix')\<close>
    have "copyAll H net bs (acc @ take ?n (crCur cr1)) ?cr2 ix1 = (Inr data, ix')"
      by (subst (asm) copyAll.simps) simp
    from "1.IH" [OF c [symmetric] refl refl refl this] s obtain ds where
      d: "storeOk H (store ix')" "piecesOf H (crManifest cr) (crNext cr1) ds" "data = acc @ crCur cr1 @ concat ds" by auto
    from s d(2) obtain es where "piecesOf H (crManifest cr) (crNext cr) es" "crCur cr @ concat es = crCur cr1 @ concat ds" by blast
    with d show ?thesis by auto
  qed
qed

text \<open>What \<open>hash\<close> stands for: a plain blob hashing to it, or the chunks, in order, of a valid manifest
  hashing to it.\<close>

definition contentOf :: "hashlib \<Rightarrow> manifestJson \<Rightarrow> string \<Rightarrow> bytes \<Rightarrow> bool" where
  "contentOf H J hash data \<longleftrightarrow>
     ContentHash H data = Inr hash \<and> DecodeManifest H J data = None
     \<or> (\<exists>blob m ds. ContentHash H blob = Inr hash \<and> DecodeManifest H J blob = Some m
          \<and> list_all2 (\<lambda>d h. ContentHash H d = Inr h) ds (mChunks m)
          \<and> (\<forall>i < length ds. int (length (ds ! i)) = ChunkLen m i)
          \<and> data = concat ds \<and> int (length data) = TotalSize m)"

lemma piecesOf_content:
  assumes "piecesOf H m 0 ds" and "ContentHash H blob = Inr hash" and "DecodeManifest H J blob = Some m"
  shows "contentOf H J hash (concat ds)"
proof -
  have l: "length ds = length (mChunks m)" and p: "\<forall>j < length ds. ContentHash H (ds ! j) = Inr (mChunks m ! j)
      \<and> int (length (ds ! j)) = ChunkLen m j" using assms(1) by (auto simp: piecesOf_def)
  have "int (length (concat ds)) = (\<Sum>i < length ds. int (length (ds ! i)))"
    by (simp add: length_concat sum_list_sum_nth atLeast0LessThan)
  also have "\<dots> = (\<Sum>i < length (mChunks m). ChunkLen m i)" using l p by simp
  also have "\<dots> = TotalSize m" using DecodeManifest_Some(4) [OF assms(3)] by (intro sum_ChunkLen) auto
  finally have t: "int (length (concat ds)) = TotalSize m" .
  have "list_all2 (\<lambda>d h. ContentHash H d = Inr h) ds (mChunks m)" using l p by (simp add: list_all2_conv_all_nth)
  with assms(2,3) p t show ?thesis unfolding contentOf_def by blast
qed

text \<open>Opening a fetch changes the store only by evicting and by caching the root blob: what both keep,
  it keeps.\<close>

lemma FetchStream_keeps:
  assumes ok: "Q (store ix)" and f: "FetchStream H J P now clock net hash ix = (r, ix')"
    and shrink: "\<And>ix1 ix2. shrinks ix1 ix2 \<Longrightarrow> Q (store ix1) \<Longrightarrow> Q (store ix2)"
    and cache: "\<And>blob0 src ix1. fetchBlob H net ix hash = Inr (blob0, src) \<Longrightarrow> Q (store ix1) \<Longrightarrow> Q (store (cacheBlob H blob0 ix1))"
  shows "Q (store ix')"
proof -
  have admit: "Q (store ix1)" if "admitHosted H P now sz ix = (b, ix1)" for sz b ix1
  proof -
    from that have "fitLocked H sz (hostBudget P) (maxPushSize P) (hostTTL P) now True ix = (b, ix1)"
      by (simp add: admitHosted_def Admit_def)
    from shrink [OF fitLocked_shrinks [OF this] ok] show ?thesis .
  qed
  have same: "Q st' = Q st" if "st' = st" for st st' using that by simp
  have cset: "Q (store (snd (cacheSet H clock hash blob0 tot cs p c ix1)))"
    if "Q (store ix1)" "fetchBlob H net ix hash = Inr (blob0, src)" for blob0 src tot cs p c ix1
    using cache [OF that(2)] that(1)
    by (auto simp: cacheSet_def Claim_def AddHosted_def releaseClaimsLocked_def releaseClaims_keep_store split: prod.splits)
  have disc: "Q (store (snd (Discard H c ix1)))" if "Q (store ix1)" for c ix1
    using shrink [OF releaseClaims_shrinks that] by (simp add: Discard_def releaseClaimsLocked_def)
  have touch: "store (TouchBlob clock hash ix) = store ix" using TouchBlob_frame by blast
  show ?thesis
    using f ok touch admit cset disc
    by (auto simp: FetchStream_def Let_def split: sum.splits prod.splits option.splits bool.splits) (metis snd_conv)+
qed

lemma FetchStream_store:
  "storeOk H (store ix) \<Longrightarrow> FetchStream H J P now clock net hash ix = (r, ix') \<Longrightarrow> storeOk H (store ix')"
  by (erule (1) FetchStream_keeps) (simp_all add: storeOk_shrinks cacheBlob_ok)

section \<open>A peer's blob arrives unchanged\<close>

lemma writeBlob_alt: "writeBlobHeader (word_of_int (int (length d))) @ d = writeBlob d"
  "writeBlobHeader (of_nat (length d)) @ d = writeBlob d"
  by (simp_all add: writeBlob_def)

lemma handleStream_blob:
  assumes "storeGet H (store ix) hash = Inr d" and "requestOk hash"
  shows "handleStream H now (writeRequest hash @ rest) ix = (writeBlob d, TouchBlob now hash ix)"
  using assms request.rd_enc [OF assms(2), of rest]
  by (simp add: handleStream_def storeOpen_def storeGet_Inr writeBlob_alt)

lemma handleStream_missing:
  assumes "storeGet H (store ix) hash = Inl e" and "requestOk hash"
  shows "handleStream H now (writeRequest hash @ rest) ix = (writeBlobHeader 0, ix)"
  using assms request.rd_enc [OF assms(2), of rest]
  by (auto simp: handleStream_def storeOpen_def storeGet_def split: if_splits option.splits)

section \<open>Cutting content into chunks\<close>

text \<open>The reference cut: consecutive pieces of \<open>n\<close> bytes, the last one shorter.\<close>

function chunksOf :: "nat \<Rightarrow> 'a list \<Rightarrow> 'a list list" where
  "chunksOf n xs = (if n = 0 \<or> xs = [] then [] else take n xs # chunksOf n (drop n xs))"
  by auto
termination by (relation "measure (\<lambda>(n, xs). length xs)") auto

declare chunksOf.simps [simp del]

lemma chunksOf_Nil [simp]: "chunksOf n [] = []"
  by (subst chunksOf.simps) simp

lemma chunksOf_short: "xs \<noteq> [] \<Longrightarrow> length xs \<le> n \<Longrightarrow> chunksOf n xs = [xs]"
  by (subst chunksOf.simps, cases xs) auto

lemma chunksOf_append: "length a = n \<Longrightarrow> 0 < n \<Longrightarrow> chunksOf n (a @ b) = a # chunksOf n b"
  by (subst chunksOf.simps) auto

lemma concat_chunksOf: "0 < n \<Longrightarrow> concat (chunksOf n xs) = xs"
proof (induction n xs rule: chunksOf.induct)
  case (1 n xs)
  then show ?case by (subst chunksOf.simps) auto
qed

text \<open>Every piece but the last is full, and the number of pieces is the size divided by \<open>n\<close>, rounded up.\<close>

lemma chunksOf_layout:
  assumes "0 < n"
  shows "xs \<noteq> [] \<Longrightarrow> chunksOf n xs \<noteq> [] \<and> (length (chunksOf n xs) - 1) * n < length xs \<and> length xs \<le> length (chunksOf n xs) * n
     \<and> (\<forall>i < length (chunksOf n xs). length (chunksOf n xs ! i) =
           (if i = length (chunksOf n xs) - 1 then length xs - (length (chunksOf n xs) - 1) * n else n))"
  using assms
proof (induction n xs rule: chunksOf.induct)
  case (1 n xs)
  show ?case
  proof (cases "length xs \<le> n")
    case True
    then show ?thesis using 1(2,3) by (simp add: chunksOf_short)
  next
    case False
    let ?cs = "chunksOf n (drop n xs)"
    have e: "chunksOf n xs = take n xs # ?cs" using 1(2,3) by (subst chunksOf.simps) simp
    have ih: "?cs \<noteq> []" "(length ?cs - 1) * n < length xs - n" "length xs - n \<le> length ?cs * n"
      "\<forall>i < length ?cs. length (?cs ! i) =
           (if i = length ?cs - 1 then length xs - n - (length ?cs - 1) * n else n)"
      using 1(1) [OF _ _ 1(3)] 1(2,3) False by auto
    obtain k where k: "length ?cs = Suc k" using ih(1) by (cases ?cs) auto
    have "length (chunksOf n xs ! i) =
        (if i = length (chunksOf n xs) - 1 then length xs - (length (chunksOf n xs) - 1) * n else n)"
      if "i < length (chunksOf n xs)" for i
      using that ih(4) k False unfolding e by (cases i) auto
    then show ?thesis unfolding e using ih(2,3) k False by auto
  qed
qed

section \<open>Publishing stores what it says\<close>

lemma ChunkSizeC_pos: "0 < ChunkSizeC" "ChunkSizeC \<le> MaxBlobSize" "MaxManifestChunks * ChunkSizeC = MaxContentSize"
  by (simp_all add: ChunkSizeC_def MaxBlobSize_def MaxManifestChunks_def MaxContentSize_def)

text \<open>How the index grows while a set is assembled: claims are counted, the store only gains.\<close>

definition grows :: "hashlib \<Rightarrow> blobClaims \<times> contentIndex \<Rightarrow> blobClaims \<times> contentIndex \<Rightarrow> bool" where
  "grows H = (\<lambda>(c, ix) (c', ix').
     sets ix' = sets ix \<and> blobRefs ix' = blobRefs ix \<and> reserved ix' = reserved ix \<and> writable (store ix') = writable (store ix)
     \<and> (\<exists>new. c' = c @ new \<and> (\<forall>h. pending ix' h = pending ix h + int (count_list new h))
          \<and> (\<forall>h. h \<notin> set new \<longrightarrow> files (store ix') h = files (store ix) h)
          \<and> (\<forall>h \<in> set new. \<exists>d. ContentHash H d = Inr h))
     \<and> (writable (store ix) \<or> files (store ix') = files (store ix))
     \<and> (\<forall>h d. files (store ix) h = Some d \<longrightarrow> IsContentHash H h \<longrightarrow> files (store ix') h = Some d)
     \<and> (storeOk H (store ix) \<longrightarrow> storeOk H (store ix')))"

lemma grows_refl [simp]: "grows H s s"
  by (cases s) (auto simp: grows_def)

lemma grows_trans: "grows H s t \<Longrightarrow> grows H t u \<Longrightarrow> grows H s u"
proof -
  assume st: "grows H s t" and tu: "grows H t u"
  obtain c ix where s: "s = (c, ix)" by (cases s)
  obtain c1 ix1 where t: "t = (c1, ix1)" by (cases t)
  obtain c2 ix2 where u: "u = (c2, ix2)" by (cases u)
  from st s t obtain n1 where n1: "c1 = c @ n1" "\<forall>h. pending ix1 h = pending ix h + int (count_list n1 h)"
    "\<forall>h. h \<notin> set n1 \<longrightarrow> files (store ix1) h = files (store ix) h" "\<forall>h \<in> set n1. \<exists>d. ContentHash H d = Inr h"
    by (auto simp: grows_def)
  from tu t u obtain n2 where n2: "c2 = c1 @ n2" "\<forall>h. pending ix2 h = pending ix1 h + int (count_list n2 h)"
    "\<forall>h. h \<notin> set n2 \<longrightarrow> files (store ix2) h = files (store ix1) h" "\<forall>h \<in> set n2. \<exists>d. ContentHash H d = Inr h"
    by (auto simp: grows_def)
  have "c2 = c @ (n1 @ n2) \<and> (\<forall>h. pending ix2 h = pending ix h + int (count_list (n1 @ n2) h))
      \<and> (\<forall>h. h \<notin> set (n1 @ n2) \<longrightarrow> files (store ix2) h = files (store ix) h)
      \<and> (\<forall>h \<in> set (n1 @ n2). \<exists>d. ContentHash H d = Inr h)"
    using n1 n2 by auto
  moreover have "writable (store ix) \<or> files (store ix2) = files (store ix)"
    using st tu s t u by (auto simp: grows_def)
  ultimately show ?thesis using st tu unfolding s t u grows_def by (simp only: prod.case) metis
qed

lemma claimPut_grows:
  assumes "claimPut H b c ix = (r, c', ix')"
  shows "grows H (c, ix) (c', ix')
     \<and> (\<forall>h. r = Inr h \<longrightarrow> ContentHash H b = Inr h \<and> files (store ix') h \<noteq> None)"
proof (cases "ContentHash H b")
  case (Inl e)
  with assms show ?thesis by (auto simp: claimPut_def)
next
  case (Inr h)
  obtain q st' where q: "storePut H (store ix) b = (q, st')" by fastforce
  from assms Inr q have c: "c' = c @ [h]"
    and i: "ix' = ix\<lparr>pending := (pending ix)(h := pending ix h + 1), store := st'\<rparr>"
    and r: "r = (case q of Inl e \<Rightarrow> Inl (ErrContent e) | Inr _ \<Rightarrow> Inr h)"
    by (auto simp: claimPut_def Claim_def)
  have w: "writable st' = writable (store ix)" using q by (elim storePut_cases) auto
  have fl: "files st' g = files (store ix) g" if "g \<noteq> h" for g
    using q that Inr by (elim storePut_cases) auto
  have keep: "files st' g = Some d" if "files (store ix) g = Some d" "IsContentHash H g" for g d
    using q that by (elim storePut_cases) (auto simp: storeHas_def)
  have "storeOk H (store ix) \<Longrightarrow> storeOk H st'" using storePut_ok q by blast
  moreover have "writable (store ix) \<or> files st' = files (store ix)"
    using q Inr by (auto simp: storePut_def split: if_splits)
  ultimately have "grows H (c, ix) (c', ix')" using c i w fl keep Inr by (auto simp: grows_def)
  moreover have "files st' h \<noteq> None" if "q = Inr h'" for h'
  proof -
    from q that have "h' = h" using Inr by (elim storePut_cases) auto
    then show ?thesis using storePut_stored [of H "store ix" b h' st'] q that by simp
  qed
  then have "\<forall>k. r = Inr k \<longrightarrow> ContentHash H b = Inr k \<and> files (store ix') k \<noteq> None"
    using r i Inr by (cases q) auto
  ultimately show ?thesis by simp
qed

text \<open>Blobs \<open>ds\<close> are stored under the hashes \<open>hs\<close>.\<close>

definition storedAs :: "hashlib \<Rightarrow> blobStore \<Rightarrow> bytes list \<Rightarrow> string list \<Rightarrow> bool" where
  "storedAs H st ds hs \<longleftrightarrow> list_all2 (\<lambda>d h. ContentHash H d = Inr h \<and> files st h \<noteq> None) ds hs"

lemma grows_stored:
  assumes "grows H (c, ix) (c', ix')" and "hashlib_ok H" and "storedAs H (store ix) ds hs"
  shows "storedAs H (store ix') ds hs"
proof -
  have "files (store ix') h \<noteq> None" if "ContentHash H d = Inr h" "files (store ix) h \<noteq> None" for d h
    using that assms(1) IsContentHash_ContentHash [OF assms(2) that(1)] by (auto simp: grows_def)
  with assms(3) show ?thesis unfolding storedAs_def by (auto elim!: list_all2_mono)
qed

abbreviation psPair :: "putState \<Rightarrow> blobClaims \<times> contentIndex" where
  "psPair ps \<equiv> (psClaims ps, psIndex ps)"

lemma putChunk_spec:
  assumes "putChunk H b ps = (r, ps')"
  shows "grows H (psPair ps) (psPair ps') \<and>
     (r = None \<longrightarrow> (\<exists>h. ContentHash H b = Inr h \<and> files (store (psIndex ps')) h \<noteq> None
        \<and> psManifest ps' = (psManifest ps)\<lparr>mChunks := mChunks (psManifest ps) @ [h],
             TotalSize := TotalSize (psManifest ps) + int (length b)\<rparr>
        \<and> TotalSize (psManifest ps') \<le> int MaxContentSize))"
proof (cases "TotalSize (psManifest ps) + int (length b) > int MaxContentSize")
  case True
  with assms have "r = Some (ErrContent ErrContentTooLarge)" "ps' = ps" by (auto simp: putChunk_def)
  then show ?thesis by simp
next
  case False
  obtain q c ix where q: "claimPut H b (psClaims ps) (psIndex ps) = (q, c, ix)" by (metis prod_cases3)
  from claimPut_grows [OF q] False assms q show ?thesis
    by (cases q) (auto simp: putChunk_def Let_def)
qed

lemma putLoop_spec:
  "putLoop H pre s ps = (r, ps') \<Longrightarrow> hashlib_ok H \<Longrightarrow> length pre \<le> ChunkSizeC \<Longrightarrow>
     grows H (psPair ps) (psPair ps') \<and>
     (r = None \<longrightarrow> TotalSize (psManifest ps) \<le> int MaxContentSize \<longrightarrow>
        (\<exists>hs. storedAs H (store (psIndex ps')) (chunksOf ChunkSizeC (pre @ srcData s)) hs
          \<and> psManifest ps' = (psManifest ps)\<lparr>mChunks := mChunks (psManifest ps) @ hs,
               TotalSize := TotalSize (psManifest ps) + int (length (pre @ srcData s))\<rparr>
          \<and> TotalSize (psManifest ps') \<le> int MaxContentSize))"
proof (induction H pre s ps rule: putLoop.induct)
  case (1 H pre s ps)
  show ?case
  proof (cases "readFill (ChunkSizeC - length pre) s")
    case (Inl e)
    with 1(2) show ?thesis by (subst (asm) putLoop.simps) auto
  next
    case (Inr x)
    obtain d s' where x: "x = (d, s')" by (cases x)
    with Inr have rd: "readFill (ChunkSizeC - length pre) s = Inr (d, s')" by simp
    then have src: "srcData s = d @ srcData s'"
      and short: "length (pre @ d) < ChunkSizeC \<Longrightarrow> srcData s' = []" and le: "length (pre @ d) \<le> ChunkSizeC"
      using 1(4) by (auto simp: readFill_def split: if_splits)
    show ?thesis
    proof (cases "pre @ d = []")
      case True
      have "putLoop H pre s ps = (None, ps)" by (subst putLoop.simps) (simp add: rd True Let_def del: append_is_Nil_conv)
      with 1(2) have "r = None" "ps' = ps" by simp_all
      moreover have "srcData s = []" using True src short ChunkSizeC_pos(1) by simp
      ultimately show ?thesis using True by (auto simp: storedAs_def)
    next
      case ne: False
      obtain q ps1 where q: "putChunk H (pre @ d) ps = (q, ps1)" by fastforce
      note pc = putChunk_spec [OF q]
      show ?thesis
      proof (cases q)
        case (Some e)
        have "putLoop H pre s ps = (Some e, ps1)" by (subst putLoop.simps) (simp add: rd ne q Some Let_def del: append_is_Nil_conv)
        with 1(2) have "r = Some e" "ps' = ps1" by simp_all
        with pc show ?thesis by simp
      next
        case None
        with pc obtain h where h: "ContentHash H (pre @ d) = Inr h" "files (store (psIndex ps1)) h \<noteq> None"
          and m1: "psManifest ps1 = (psManifest ps)\<lparr>mChunks := mChunks (psManifest ps) @ [h],
             TotalSize := TotalSize (psManifest ps) + int (length (pre @ d))\<rparr>"
          and mx: "TotalSize (psManifest ps1) \<le> int MaxContentSize" by blast
        have s1: "storedAs H (store (psIndex ps1)) [pre @ d] [h]" using h by (simp add: storedAs_def)
        show ?thesis
        proof (cases "length (pre @ d) < ChunkSizeC")
          case True
          then have "putLoop H pre s ps = (None, ps1)" by (subst putLoop.simps) (simp add: rd ne q None Let_def del: append_is_Nil_conv length_append)
          with 1(2) have "r = None" "ps' = ps1" by simp_all
          moreover have "chunksOf ChunkSizeC (pre @ srcData s) = [pre @ d]"
            using src short [OF True] ne True by (simp add: chunksOf_short)
          ultimately show ?thesis using pc s1 m1 mx src short [OF True] by (intro conjI impI exI [of _ "[h]"]) simp_all
        next
          case False
          then have "putLoop H pre s ps = putLoop H [] s' ps1"
            by (subst putLoop.simps) (simp add: rd ne q None Let_def del: append_is_Nil_conv length_append)
          with 1(2) have l: "putLoop H [] s' ps1 = (r, ps')" by simp
          have full: "length (pre @ d) = ChunkSizeC" using False le by simp
          note ih = 1(1) [OF Inr x [symmetric] refl ne q [symmetric] None False l 1(3)]
          have g: "grows H (psPair ps) (psPair ps')" using pc ih grows_trans by (metis le0 list.size(3))
          have cs: "chunksOf ChunkSizeC (pre @ srcData s) = (pre @ d) # chunksOf ChunkSizeC (srcData s')"
            using chunksOf_append [OF full ChunkSizeC_pos(1)] src by simp
          show ?thesis
          proof (intro conjI impI g)
            assume "r = None" "TotalSize (psManifest ps) \<le> int MaxContentSize"
            with ih mx obtain hs where hs: "storedAs H (store (psIndex ps')) (chunksOf ChunkSizeC (srcData s')) hs"
              "psManifest ps' = (psManifest ps1)\<lparr>mChunks := mChunks (psManifest ps1) @ hs,
                 TotalSize := TotalSize (psManifest ps1) + int (length (srcData s'))\<rparr>"
              "TotalSize (psManifest ps') \<le> int MaxContentSize" by auto
            have "storedAs H (store (psIndex ps')) [pre @ d] [h]"
              using ih grows_stored [OF _ 1(3) s1] by auto
            with hs(1) have "storedAs H (store (psIndex ps')) (chunksOf ChunkSizeC (pre @ srcData s)) (h # hs)"
              unfolding cs by (simp add: storedAs_def)
            moreover have "psManifest ps' = (psManifest ps)\<lparr>mChunks := mChunks (psManifest ps) @ (h # hs),
                 TotalSize := TotalSize (psManifest ps) + int (length (pre @ srcData s))\<rparr>"
              using hs(2) m1 src by simp
            ultimately show "\<exists>hs. storedAs H (store (psIndex ps')) (chunksOf ChunkSizeC (pre @ srcData s)) hs
                \<and> psManifest ps' = (psManifest ps)\<lparr>mChunks := mChunks (psManifest ps) @ hs,
                     TotalSize := TotalSize (psManifest ps) + int (length (pre @ srcData s))\<rparr>
                \<and> TotalSize (psManifest ps') \<le> int MaxContentSize" using hs(3) by blast
          qed
        qed
      qed
    qed
  qed
qed

lemma Discard_Nil [simp]: "Discard H [] ix = ([], ix)"
  by (simp add: Discard_def releaseClaimsLocked_def)

lemma MarkOwned_claims: "fst (MarkOwned H now root sz chunks c ix) = []"
  by (simp add: MarkOwned_def Let_def releaseClaimsLocked_def)

lemma MarkOwned_has: "\<exists>m. map_of (sets (snd (MarkOwned H now root sz chunks c ix))) root = Some m \<and> Owned m \<and> Chunks m = chunks \<and> Size m = sz"
proof -
  have "map_of (putSet root m ss) root = Some m" for m :: contentMeta and ss
  proof (cases "map_of ss root")
    case None
    then show ?thesis by (simp add: putSet_def map_of_append map_add_def)
  next
    case (Some x)
    then have "map_of (map (\<lambda>(r, x). (r, if r = root then m else x)) ss) root = Some m" by (induction ss) auto
    with Some show ?thesis by (simp add: putSet_def)
  qed
  then show ?thesis
    by (simp add: MarkOwned_def Let_def releaseClaimsLocked_def releaseClaims_frame)
qed

text \<open>A successful publish: a single blob, or full chunks and the manifest that lists them.\<close>

definition published :: "hashlib \<Rightarrow> manifestJson \<Rightarrow> bytes \<Rightarrow> string \<Rightarrow> string list \<Rightarrow> blobStore \<Rightarrow> bool" where
  "published H J data hash hs st \<longleftrightarrow>
     (if length data \<le> ChunkSizeC then hs = [] \<and> storedAs H st [data] [hash]
      else \<exists>blob. EncodeManifest J \<lparr>TotalSize = int (length data), ChunkSize = int ChunkSizeC, mChunks = hs\<rparr> = Inr blob
         \<and> storedAs H st (blob # chunksOf ChunkSizeC data) (hash # hs) \<and> length data \<le> MaxContentSize)"

lemma PutStream_Inr:
  assumes put: "PutStream H J now s ix = (Inr (hash, n), ix')" and ok: "hashlib_ok H" "storeOk H (store ix)"
  shows "n = int (length (srcData s)) \<and> storeOk H (store ix')
       \<and> (\<exists>m. map_of (sets ix') hash = Some m \<and> Owned m \<and> published H J (srcData s) hash (Chunks m) (store ix'))"
proof -
  obtain head s' where rd: "readFill (Suc ChunkSizeC) s = Inr (head, s')"
    using put by (auto simp: PutStream_def Let_def split: sum.splits)
  then have src: "srcData s = head @ srcData s'" and short: "length head \<le> ChunkSizeC \<Longrightarrow> srcData s' = []"
    and le: "length head \<le> Suc ChunkSizeC"
    by (auto simp: readFill_def split: if_splits)
  have own: "ix' = snd (MarkOwned H now hash sz cs c ix1) \<Longrightarrow> store ix' = store ix1 \<and> (\<exists>m. map_of (sets ix') hash = Some m \<and> Owned m \<and> Chunks m = cs)"
    for sz cs c ix1
    using MarkOwned_store [where root = hash and H = H and now = now and sz = sz and chunks = cs and c = c and ix = ix1]
      MarkOwned_has [where root = hash and H = H and now = now and sz = sz and chunks = cs and c = c and ix = ix1]
    by (cases "MarkOwned H now hash sz cs c ix1") auto
  show ?thesis
  proof (cases "length head \<le> ChunkSizeC")
    case True
    obtain r c ix1 where cp: "claimPut H head BeginWrite ix = (r, c, ix1)" by (metis prod_cases3)
    with put rd True obtain h where r: "r = Inr h"
      by (cases r) (auto simp: PutStream_def Let_def split: prod.splits)
    have m: "PutStream H J now s ix = (Inr (h, int (length head)), snd (MarkOwned H now h (int (length head)) [] c ix1))"
      using rd True cp r MarkOwned_claims [of H now h "int (length head)" "[]" c ix1]
      by (auto simp: PutStream_def Let_def split: prod.splits)
    then have e: "h = hash" "n = int (length head)" "ix' = snd (MarkOwned H now hash (int (length head)) [] c ix1)"
      using put by auto
    from claimPut_grows [OF cp] r e have g: "grows H (BeginWrite, ix) (c, ix1)" "ContentHash H head = Inr hash" "files (store ix1) hash \<noteq> None"
      by auto
    then have "storedAs H (store ix1) [head] [hash]" "storeOk H (store ix1)" using ok by (auto simp: storedAs_def grows_def)
    then show ?thesis using own [OF e(3)] e src short [OF True] True by (auto simp: published_def)
  next
    case False
    let ?ps0 = "\<lparr>psManifest = \<lparr>TotalSize = 0, ChunkSize = int ChunkSizeC, mChunks = []\<rparr>,
                  psClaims = BeginWrite, psIndex = ix\<rparr>"
    from False le have hl: "length head = Suc ChunkSizeC" by simp
    obtain r1 ps1 where p1: "putChunk H (take ChunkSizeC head) ?ps0 = (r1, ps1)" by fastforce
    with put rd False have r1: "r1 = None" by (cases r1) (auto simp: PutStream_def Let_def)
    obtain r2 ps2 where p2: "putLoop H (drop ChunkSizeC head) s' ps1 = (r2, ps2)" by fastforce
    with put rd False p1 r1 have r2: "r2 = None" by (cases r2) (auto simp: PutStream_def Let_def)
    obtain e3 where p3: "EncodeManifest J (psManifest ps2) = e3" by simp
    with put rd False p1 r1 p2 r2 obtain blob where blob: "e3 = Inr blob" by (cases e3) (auto simp: PutStream_def Let_def)
    obtain r c ix1 where cp: "claimPut H blob (psClaims ps2) (psIndex ps2) = (r, c, ix1)" by (metis prod_cases3)
    with put rd False p1 r1 p2 r2 p3 blob obtain h where r: "r = Inr h"
      by (cases r) (auto simp: PutStream_def Let_def split: prod.splits)
    let ?mo = "MarkOwned H now h (int (length blob) + TotalSize (psManifest ps2)) (mChunks (psManifest ps2)) c ix1"
    have m: "PutStream H J now s ix = (Inr (h, TotalSize (psManifest ps2)), snd ?mo)"
      using rd False p1 r1 p2 r2 p3 blob cp r
        MarkOwned_claims [of H now h "int (length blob) + TotalSize (psManifest ps2)" "mChunks (psManifest ps2)" c ix1]
      by (auto simp: PutStream_def Let_def split: prod.splits)
    then have e: "h = hash" "n = TotalSize (psManifest ps2)" "ix' = snd ?mo" using put by auto
    note own' = own [OF e(3) [unfolded e(1)]]
    from putChunk_spec [OF p1] r1 obtain h0 where g1: "grows H (BeginWrite, ix) (psPair ps1)"
      and h0: "ContentHash H (take ChunkSizeC head) = Inr h0" "files (store (psIndex ps1)) h0 \<noteq> None"
        "psManifest ps1 = \<lparr>TotalSize = int ChunkSizeC, ChunkSize = int ChunkSizeC, mChunks = [h0]\<rparr>"
      and le1: "TotalSize (psManifest ps1) \<le> int MaxContentSize" using hl by auto
    have "length (drop ChunkSizeC head) \<le> ChunkSizeC" using hl ChunkSizeC_pos(1) by simp
    from putLoop_spec [OF p2 ok(1) this] r2 le1 obtain hs where g2: "grows H (psPair ps1) (psPair ps2)"
      and hs: "storedAs H (store (psIndex ps2)) (chunksOf ChunkSizeC (drop ChunkSizeC head @ srcData s')) hs"
        "psManifest ps2 = (psManifest ps1)\<lparr>mChunks := mChunks (psManifest ps1) @ hs,
             TotalSize := TotalSize (psManifest ps1) + int (length (drop ChunkSizeC head @ srcData s'))\<rparr>"
      and le2: "TotalSize (psManifest ps2) \<le> int MaxContentSize" by blast
    from claimPut_grows [OF cp] r e(1) have g3: "grows H (psPair ps2) (c, ix1)"
      and hb: "ContentHash H blob = Inr hash" "files (store ix1) hash \<noteq> None" by auto
    have ok1: "storeOk H (store ix1)" using ok(2) g1 g2 g3 by (auto simp: grows_def)
    have cs: "chunksOf ChunkSizeC (srcData s) = take ChunkSizeC head # chunksOf ChunkSizeC (drop ChunkSizeC head @ srcData s')"
      using chunksOf_append [of "take ChunkSizeC head" ChunkSizeC "drop ChunkSizeC head @ srcData s'"] hl ChunkSizeC_pos(1)
      by (simp add: src flip: append_assoc)
    have len: "length (srcData s) = ChunkSizeC + length (drop ChunkSizeC head @ srcData s')"
      using hl by (simp add: src)
    have "storedAs H (store (psIndex ps1)) [take ChunkSizeC head] [h0]" using h0 by (simp add: storedAs_def)
    then have "storedAs H (store (psIndex ps2)) [take ChunkSizeC head] [h0]" using grows_stored g2 ok(1) by blast
    with hs(1) have "storedAs H (store (psIndex ps2)) (chunksOf ChunkSizeC (srcData s)) (h0 # hs)"
      unfolding cs by (simp add: storedAs_def)
    then have "storedAs H (store ix1) (chunksOf ChunkSizeC (srcData s)) (h0 # hs)" using grows_stored g3 ok(1) by blast
    with hb have st: "storedAs H (store ix1) (blob # chunksOf ChunkSizeC (srcData s)) (hash # h0 # hs)"
      by (simp add: storedAs_def)
    have man: "psManifest ps2 = \<lparr>TotalSize = int (length (srcData s)), ChunkSize = int ChunkSizeC, mChunks = h0 # hs\<rparr>"
      using hs(2) h0(3) len by simp
    have "published H J (srcData s) hash (h0 # hs) (store ix1)"
      unfolding published_def using st p3 blob man le2 len hl by (auto simp: src)
    with own' ok1 e(2) man show ?thesis by auto
  qed
qed

section \<open>Reading local content back\<close>

text \<open>The reader's chunk fetches deliver \<open>d\<close> for \<open>h\<close> from every index in \<open>G\<close>, and stay in \<open>G\<close>. Reading
  local content is the case where \<open>G\<close> fixes the store.\<close>

definition delivers ::
    "hashlib \<Rightarrow> contentNetwork option \<Rightarrow> (contentIndex \<Rightarrow> bool) \<Rightarrow> string \<Rightarrow> bytes \<Rightarrow> bool" where
  "delivers H net G h d \<longleftrightarrow>
     (\<forall>src cache ix. G ix \<longrightarrow> (\<exists>ix'. fetchChunk H net h src cache ix = (Inr d, ix') \<and> G ix'))"

definition pieces :: "(string \<Rightarrow> bytes \<Rightarrow> bool) \<Rightarrow> chunkManifest \<Rightarrow> nat \<Rightarrow> bytes list \<Rightarrow> bool" where
  "pieces D m i ds \<longleftrightarrow>
     i + length ds = length (mChunks m) \<and>
     (\<forall>j < length ds. D (mChunks m ! (i + j)) (ds ! j) \<and> int (length (ds ! j)) = ChunkLen m (i + j))"

abbreviation localPieces :: "hashlib \<Rightarrow> blobStore \<Rightarrow> chunkManifest \<Rightarrow> nat \<Rightarrow> bytes list \<Rightarrow> bool" where
  "localPieces H st \<equiv> pieces (\<lambda>h d. storeGet H st h = Inr d)"

lemma pieces_Nil: "pieces D m i [] \<longleftrightarrow> i = length (mChunks m)"
  by (simp add: pieces_def)

lemma pieces_Cons:
  "pieces D m i (d # ds) \<longleftrightarrow>
     i < length (mChunks m) \<and> D (mChunks m ! i) d \<and> int (length d) = ChunkLen m i \<and> pieces D m (Suc i) ds"
proof -
  have "(\<forall>j < length (d # ds). P (i + j) ((d # ds) ! j)) \<longleftrightarrow> P i d \<and> (\<forall>j < length ds. P (Suc i + j) (ds ! j))"
    for P :: "nat \<Rightarrow> bytes \<Rightarrow> bool"
    by (auto simp: nth_Cons split: nat.splits)
  from this [of "\<lambda>k e. D (mChunks m ! k) e \<and> int (length e) = ChunkLen m k"]
  show ?thesis unfolding pieces_def by auto
qed

lemma crFill_delivers:
  "pieces (delivers H net G) (crManifest cr) (crNext cr) ds \<Longrightarrow> G ix \<Longrightarrow>
     \<exists>cr' ds' ix'. crFill H net cr ix = (Inr (crCur cr' \<noteq> []), cr', ix') \<and> G ix' \<and> crManifest cr' = crManifest cr
       \<and> pieces (delivers H net G) (crManifest cr) (crNext cr') ds' \<and> (crCur cr' = [] \<longrightarrow> ds' = [])
       \<and> crCur cr' @ concat ds' = crCur cr @ concat ds"
proof (induction ds arbitrary: cr ix)
  case Nil
  then have "crFill H net cr ix = (Inr (crCur cr \<noteq> []), cr, ix)"
    by (subst crFill.simps) (simp add: pieces_Nil Let_def)
  with Nil show ?case by (metis)
next
  case (Cons d ds)
  show ?case
  proof (cases "crCur cr = []")
    case False
    then have "crFill H net cr ix = (Inr (crCur cr \<noteq> []), cr, ix)" by (subst crFill.simps) (simp add: Let_def)
    with Cons.prems False show ?thesis by metis
  next
    case True
    let ?cr = "cr\<lparr>crNext := crNext cr + 1, crCur := d\<rparr>"
    from Cons.prems(1) have p: "crNext cr < length (mChunks (crManifest cr))"
      "delivers H net G (mChunks (crManifest cr) ! crNext cr) d"
      "int (length d) = ChunkLen (crManifest cr) (crNext cr)"
      "pieces (delivers H net G) (crManifest ?cr) (crNext ?cr) ds" by (simp_all add: pieces_Cons)
    from p(2) Cons.prems(2) obtain ix1 where f: "G ix1"
      "fetchChunk H net (mChunks (crManifest cr) ! crNext cr) (crSrc cr) (crCache cr) ix = (Inr d, ix1)"
      unfolding delivers_def by blast
    then have "crFill H net cr ix = crFill H net ?cr ix1"
      using True p by (subst crFill.simps) (simp add: Let_def)
    with Cons.IH [OF p(4) f(1)] True show ?thesis by simp
  qed
qed

lemma copyAll_delivers:
  "pieces (delivers H net G) (crManifest cr) (crNext cr) ds \<Longrightarrow> G ix \<Longrightarrow>
     \<exists>ix'. copyAll H net bs acc cr ix = (Inr (acc @ crCur cr @ concat ds), ix') \<and> G ix'"
proof (induction H net bs acc cr ix arbitrary: ds rule: copyAll.induct)
  case (1 H net bs acc cr ix)
  let ?n = "Suc (bs (length acc))"
  from crFill_delivers [OF 1(2,3)] obtain cr' ds' ix1 where
    f: "crFill H net cr ix = (Inr (crCur cr' \<noteq> []), cr', ix1)" "G ix1" and m: "crManifest cr' = crManifest cr"
    and l: "pieces (delivers H net G) (crManifest cr) (crNext cr') ds'" and e: "crCur cr' = [] \<Longrightarrow> ds' = []"
    and eq: "crCur cr' @ concat ds' = crCur cr @ concat ds" by blast
  show ?case
  proof (cases "crCur cr' = []")
    case True
    with f have "copyAll H net bs acc cr ix = (Inr acc, ix1)" by (subst copyAll.simps) (simp add: chunkRead_def)
    with True e eq f show ?thesis by simp
  next
    case False
    let ?cr2 = "cr'\<lparr>crCur := drop ?n (crCur cr')\<rparr>"
    from False f have c: "chunkRead H net ?n cr ix = (Inr (Some (take ?n (crCur cr'))), ?cr2, ix1)"
      by (simp add: chunkRead_def)
    then have "copyAll H net bs acc cr ix = copyAll H net bs (acc @ take ?n (crCur cr')) ?cr2 ix1"
      by (subst copyAll.simps) simp
    moreover have "take ?n (crCur cr') @ drop ?n (crCur cr') @ concat ds' = crCur cr @ concat ds"
      using eq by (metis append.assoc append_take_drop_id)
    ultimately show ?thesis using "1.IH" [OF c [symmetric] refl refl refl, of ds'] l m f by simp
  qed
qed

text \<open>Every blob the content is stored as: itself, or its chunks and their manifest.\<close>

definition contentBlobs :: "hashlib \<Rightarrow> manifestJson \<Rightarrow> bytes \<Rightarrow> bytes set" where
  "contentBlobs H J data =
     (if length data \<le> ChunkSizeC then {data}
      else set (chunksOf ChunkSizeC data) \<union>
        {blob. \<exists>hs. list_all2 (\<lambda>d h. ContentHash H d = Inr h) (chunksOf ChunkSizeC data) hs
           \<and> EncodeManifest J \<lparr>TotalSize = int (length data), ChunkSize = int ChunkSizeC, mChunks = hs\<rparr> = Inr blob})"

definition noCollision :: "hashlib \<Rightarrow> blobStore \<Rightarrow> bytes set \<Rightarrow> bool" where
  "noCollision H st D \<longleftrightarrow> (\<forall>d \<in> D. \<forall>e \<in> ran (files st). ContentHash H e = ContentHash H d \<longrightarrow> e = d)"

definition manifestJson_ok :: "manifestJson \<Rightarrow> bool" where
  "manifestJson_ok J \<longleftrightarrow> (\<forall>m body. jsonEncode J m = Some body \<longrightarrow> jsonDecode J body = Some m)"

lemma stored_exact:
  assumes "storeOk H st" and "noCollision H st D" and "d \<in> D" and "ContentHash H d = Inr h" and "files st h \<noteq> None"
  shows "storeGet H st h = Inr d"
proof -
  from assms(5) obtain e where e: "files st h = Some e" by blast
  have h: "IsContentHash H h" using assms(1,4) IsContentHash_ContentHash by (auto simp: storeOk_def)
  with e assms(1) have "ContentHash H e = Inr h" by (auto simp: storeOk_def)
  with assms(4) have "ContentHash H e = ContentHash H d" by simp
  moreover have "e \<in> ran (files st)" using e by (auto simp: ran_def)
  ultimately have "e = d" using assms(2,3) unfolding noCollision_def by blast
  with e h show ?thesis by (simp add: storeGet_Inr)
qed

text \<open>A fetch whose root blob is at hand, when opening it keeps \<open>G\<close>.\<close>

lemma Fetch_delivers_blob:
  assumes "fetchBlob H net ix hash = Inr (data, src)" and "DecodeManifest H J data = None"
  shows "fst (Fetch H J P now clock net bs hash ix) = Inr data"
proof -
  obtain r ix1 where "FetchStream H J P now clock net hash ix = (r, ix1)" by fastforce
  moreover from this assms have "\<exists>n. r = Inr (BlobReader data, n)"
    by (auto simp: FetchStream_def Let_def split: prod.splits)
  ultimately show ?thesis by (auto simp: Fetch_def)
qed

lemma Fetch_delivers_chunks:
  assumes root: "fetchBlob H net ix hash = Inr (blob0, src)" and man: "DecodeManifest H J blob0 = Some m"
    and pcs: "pieces (delivers H net G) m 0 ds" and G: "G (snd (FetchStream H J P now clock net hash ix))"
  shows "fst (Fetch H J P now clock net bs hash ix) = Inr (concat ds)"
proof -
  obtain r ix1 where f: "FetchStream H J P now clock net hash ix = (r, ix1)" by fastforce
  from this root man obtain c n
    where r: "r = Inr (ChunkReader \<lparr>crManifest = m, crSrc = src, crCache = c, crNext = 0, crCur = []\<rparr>, n)"
    by (auto simp: FetchStream_def Let_def split: prod.splits)
  let ?cr = "\<lparr>crManifest = m, crSrc = src, crCache = c, crNext = 0, crCur = []\<rparr>"
  have "pieces (delivers H net G) (crManifest ?cr) (crNext ?cr) ds" using pcs by simp
  from copyAll_delivers [OF this, of ix1 bs "[]"] G f obtain ix' where "copyAll H net bs [] ?cr ix1 = (Inr (concat ds), ix')"
    by auto
  with f r show ?thesis by (simp add: Fetch_def)
qed

lemma published_manifest:
  assumes big: "\<not> length data \<le> ChunkSizeC" "length data \<le> MaxContentSize" and ok: "hashlib_ok H" "manifestJson_ok J"
    and hs: "list_all2 (\<lambda>d h. ContentHash H d = Inr h) (chunksOf ChunkSizeC data) hs"
    and m: "m = \<lparr>TotalSize = int (length data), ChunkSize = int ChunkSizeC, mChunks = hs\<rparr>"
    and enc: "EncodeManifest J m = Inr blob"
  shows "DecodeManifest H J blob = Some m"
    and "\<forall>i < length hs. int (length (chunksOf ChunkSizeC data ! i)) = ChunkLen m i"
proof -
  let ?cs = "chunksOf ChunkSizeC data"
  from big(1) have ne: "data \<noteq> []" by auto
  note lay = chunksOf_layout [OF ChunkSizeC_pos(1) ne]
  obtain k where k: "length ?cs = Suc k" using lay by (cases ?cs) auto
  have l: "length hs = Suc k" using hs k by (simp add: list_all2_lengthD)
  from lay k have b: "k * ChunkSizeC < length data" "length data \<le> Suc k * ChunkSizeC" by auto
  have "k \<noteq> 0" using b(2) big(1) by (cases k) auto
  moreover have "k < MaxManifestChunks"
  proof -
    have "k * ChunkSizeC < MaxManifestChunks * ChunkSizeC" using b(1) big(2) ChunkSizeC_pos(3) by simp
    then show ?thesis by simp
  qed
  ultimately have n: "2 \<le> length hs" "length hs \<le> MaxManifestChunks" using l by auto
  have s: "int k * int ChunkSizeC < int (length data)" "int (length data) \<le> (int k + 1) * int ChunkSizeC"
    using b by (metis of_nat_less_iff of_nat_mult, metis of_nat_le_iff of_nat_mult of_nat_Suc add.commute)
  obtain body where j: "jsonEncode J m = Some body" "blob = manifestMagic @ body"
    using enc by (auto simp: EncodeManifest_def split: option.splits)
  have hh: "list_all (IsContentHash H) hs"
    using hs IsContentHash_ContentHash [OF ok(1)] by (auto simp: list_all2_conv_all_nth list_all_length)
  show "DecodeManifest H J blob = Some m"
    unfolding j(2)
  proof (rule DecodeManifest_Encode [THEN conjunct2])
    show "jsonDecode J body = Some m" using ok(2) j(1) by (simp add: manifestJson_ok_def)
  qed (use j(1) m n l s hh big(2) ChunkSizeC_pos in \<open>simp_all add: add.commute\<close>)
  show "\<forall>i < length hs. int (length (?cs ! i)) = ChunkLen m i"
    using lay k l m b(1) by (auto simp: ChunkLen_def of_nat_diff)
qed

text \<open>Where published content lies: one blob, or a manifest and the pieces it lists.\<close>

lemma published_cases:
  assumes pub: "published H J data hash hs st" and ok: "storeOk H st" "manifestJson_ok J"
    and nc: "noCollision H st (contentBlobs H J data)"
    and plain: "length data \<le> ChunkSizeC \<longrightarrow> DecodeManifest H J data = None"
  obtains (one) "hs = []" "storeGet H st hash = Inr data" "data \<in> contentBlobs H J data" "DecodeManifest H J data = None"
  | (chunked) blob m ds where "storeGet H st hash = Inr blob" "blob \<in> contentBlobs H J data" "DecodeManifest H J blob = Some m"
      "mChunks m = hs" "localPieces H st m 0 ds" "set ds \<subseteq> contentBlobs H J data" "concat ds = data"
proof (cases "length data \<le> ChunkSizeC")
  case True
  with pub have p: "ContentHash H data = Inr hash" "files st hash \<noteq> None" "hs = []" by (auto simp: published_def storedAs_def)
  have d: "data \<in> contentBlobs H J data" using True by (simp add: contentBlobs_def)
  from one [OF p(3) stored_exact [OF ok(1) nc d p(1,2)] d plain [rule_format, OF True]] show thesis .
next
  case False
  let ?cs = "chunksOf ChunkSizeC data"
  have hl: "hashlib_ok H" using ok(1) by (simp add: storeOk_def)
  from pub False obtain blob where enc: "EncodeManifest J \<lparr>TotalSize = int (length data), ChunkSize = int ChunkSizeC, mChunks = hs\<rparr> = Inr blob"
    and blob: "ContentHash H blob = Inr hash" "files st hash \<noteq> None"
    and st: "storedAs H st ?cs hs" and mx: "length data \<le> MaxContentSize"
    by (auto simp: published_def storedAs_def)
  let ?m = "\<lparr>TotalSize = int (length data), ChunkSize = int ChunkSizeC, mChunks = hs\<rparr>"
  from st have hs: "list_all2 (\<lambda>d h. ContentHash H d = Inr h) ?cs hs" unfolding storedAs_def by (rule list_all2_mono) simp
  note man = published_manifest [OF False mx hl ok(2) hs refl enc]
  have b: "blob \<in> contentBlobs H J data" using False hs enc by (auto simp: contentBlobs_def)
  have cs: "set ?cs \<subseteq> contentBlobs H J data" using False by (simp add: contentBlobs_def)
  have "storeGet H st (hs ! j) = Inr (?cs ! j)" if "j < length hs" for j
  proof (rule stored_exact [OF ok(1) nc])
    have j: "j < length ?cs" using that st by (simp add: storedAs_def list_all2_lengthD)
    then show "?cs ! j \<in> contentBlobs H J data" using cs by auto
    show "ContentHash H (?cs ! j) = Inr (hs ! j)" "files st (hs ! j) \<noteq> None"
      using st j by (simp_all add: storedAs_def list_all2_conv_all_nth)
  qed
  moreover have "length ?cs = length hs" using hs by (rule list_all2_lengthD)
  ultimately have "localPieces H st ?m 0 ?cs" using man(2) by (simp add: pieces_def)
  from chunked [OF stored_exact [OF ok(1) nc b blob] b man(1) _ this cs concat_chunksOf [OF ChunkSizeC_pos(1)]]
  show thesis by simp
qed

text \<open>Published content is delivered wherever its root blob and its chunks are.\<close>

lemma published_delivered:
  assumes pub: "published H J data hash hs st" and ok: "storeOk H st" "manifestJson_ok J"
    and nc: "noCollision H st (contentBlobs H J data)"
    and plain: "length data \<le> ChunkSizeC \<Longrightarrow> DecodeManifest H J data = None"
    and root: "\<And>d. storeGet H st hash = Inr d \<Longrightarrow> d \<in> contentBlobs H J data \<Longrightarrow> \<exists>src. fetchBlob H net ix hash = Inr (d, src)"
    and chunks: "\<And>h d. h \<in> set hs \<Longrightarrow> storeGet H st h = Inr d \<Longrightarrow> d \<in> contentBlobs H J data \<Longrightarrow> delivers H net G h d"
    and G: "G (snd (FetchStream H J P now clock net hash ix))"
  shows "fst (Fetch H J P now clock net bs hash ix) = Inr data"
proof (rule published_cases [OF pub ok nc], goal_cases plain one chunked)
  case plain
  with assms(5) show ?case by simp
next
  case one
  from root [OF one(2,3)] obtain src where "fetchBlob H net ix hash = Inr (data, src)" by blast
  then show ?thesis using one(4) by (rule Fetch_delivers_blob)
next
  case chunked: (chunked blob m ds)
  from root [OF chunked(1,2)] obtain src where r: "fetchBlob H net ix hash = Inr (blob, src)" by blast
  have "delivers H net G (mChunks m ! j) (ds ! j)" if "j < length ds" for j
  proof -
    from chunked(5) that have "storeGet H st (mChunks m ! j) = Inr (ds ! j)" "j < length (mChunks m)" by (auto simp: pieces_def)
    moreover have "ds ! j \<in> contentBlobs H J data" using chunked(6) nth_mem [OF that] by blast
    ultimately show ?thesis using chunks [of "mChunks m ! j"] chunked(4) by simp
  qed
  with chunked(5) have "pieces (delivers H net G) m 0 ds" by (simp add: pieces_def)
  from Fetch_delivers_chunks [OF r chunked(3) this G] chunked(7) show ?thesis by simp
qed

lemma published_fetched:
  assumes "published H J data hash hs (store ix)" and "storeOk H (store ix)" "manifestJson_ok J"
    and "noCollision H (store ix) (contentBlobs H J data)"
    and "length data \<le> ChunkSizeC \<Longrightarrow> DecodeManifest H J data = None"
  shows "fst (Fetch H J P now clock net bs hash ix) = Inr data"
proof (rule published_delivered [OF assms, where G = "\<lambda>i. store i = store ix"])
  show "\<exists>src. fetchBlob H net ix hash = Inr (d, src)" if "storeGet H (store ix) hash = Inr d" for d
    using that by (simp add: fetchBlob_def)
  show "delivers H net (\<lambda>i. store i = store ix) h d" if "storeGet H (store ix) h = Inr d" for h d
    using that by (simp add: delivers_def fetchChunk_def)
  from assms(1) obtain d where "storeGet H (store ix) hash = Inr d"
    using assms(2) IsContentHash_ContentHash
    by (auto simp: published_def storedAs_def storeGet_Inr storeOk_def split: if_splits)
  moreover have "store (TouchBlob clock hash ix) = store ix" using TouchBlob_frame by blast
  ultimately show "store (snd (FetchStream H J P now clock net hash ix)) = store ix"
    by (simp add: FetchStream_def fetchBlob_def Let_def BeginWrite_def split: option.splits)
qed

section \<open>Rolling back\<close>

text \<open>Every content blob in the store belongs to somebody: a recorded set or a writer in flight.\<close>

definition accounted :: "hashlib \<Rightarrow> contentIndex \<Rightarrow> bool" where
  "accounted H ix \<longleftrightarrow> (\<forall>h. 0 \<le> pending ix h) \<and>
     (\<forall>h. IsContentHash H h \<longrightarrow> files (store ix) h \<noteq> None \<longrightarrow> blobRefs ix h \<noteq> {} \<or> 0 < pending ix h)"

text \<open>Nothing recorded changed; a new blob stays only if a set or another writer wants it.\<close>

definition rolledBack :: "contentIndex \<Rightarrow> contentIndex \<Rightarrow> bool" where
  "rolledBack ix ix' \<longleftrightarrow>
     sets ix' = sets ix \<and> blobRefs ix' = blobRefs ix \<and> reserved ix' = reserved ix \<and> pending ix' = pending ix
     \<and> (\<forall>h. files (store ix') h = files (store ix) h
            \<or> files (store ix) h = None \<and> (blobRefs ix h \<noteq> {} \<or> 0 < pending ix h))"

lemma rolledBack_refl [simp]: "rolledBack ix ix"
  by (simp add: rolledBack_def)

lemma rollback:
  assumes g: "grows H (BeginWrite, ix) (c, ix1)" and ok: "hashlib_ok H" "accounted H ix"
  shows "rolledBack ix (snd (Discard H c ix1))"
proof -
  have g1: "sets ix1 = sets ix" "blobRefs ix1 = blobRefs ix" "reserved ix1 = reserved ix"
    "writable (store ix1) = writable (store ix)"
    and p: "pending ix1 h = pending ix h + int (count_list c h)"
    and fl: "h \<notin> set c \<Longrightarrow> files (store ix1) h = files (store ix) h"
    and hs: "h \<in> set c \<Longrightarrow> \<exists>d. ContentHash H d = Inr h"
    and ro: "writable (store ix) \<or> files (store ix1) = files (store ix)"
    and keep: "files (store ix) h = Some d \<Longrightarrow> IsContentHash H h \<Longrightarrow> files (store ix1) h = Some d" for h d
    using g by (auto simp: grows_def BeginWrite_def)
  have nn: "0 \<le> pending ix h" for h using ok(2) by (simp add: accounted_def)
  have le: "\<forall>h. int (count_list c h) \<le> pending ix1 h" using p nn by simp
  let ?ix = "snd (Discard H c ix1)"
  have d: "?ix = releaseClaims H True c ix1" by (simp add: Discard_def releaseClaimsLocked_def)
  note fr = releaseClaims_frame [of H True c ix1]
  have pend: "pending ?ix h = pending ix h" for h
    unfolding d using releaseClaims_pending [OF le, of H True h] p by simp
  have "files (store ?ix) h = files (store ix) h \<or> files (store ix) h = None \<and> (blobRefs ix h \<noteq> {} \<or> 0 < pending ix h)" for h
  proof (cases "h \<in> set c")
    case False
    then show ?thesis using releaseClaims_exact [OF le, of H h] fl unfolding d by simp
  next
    case True
    then have ch: "IsContentHash H h" using hs IsContentHash_ContentHash [OF ok(1)] by blast
    show ?thesis
    proof (cases "blobRefs ix h = {} \<and> pending ix h = 0")
      case unwanted: True
      then have "files (store ix) h = None" using ok(2) ch by (auto simp: accounted_def)
      moreover have "files (store ?ix) h = None"
        using releaseClaims_exact [OF le, of H h] unwanted True ch p ro g1 calculation unfolding d by auto
      ultimately show ?thesis by simp
    next
      case False
      then have "files (store ?ix) h = files (store ix1) h"
        using releaseClaims_exact [OF le, of H h] p g1 nn [of h] unfolding d by auto
      moreover have "blobRefs ix h \<noteq> {} \<or> 0 < pending ix h" using False nn [of h] by auto
      ultimately show ?thesis using keep [of h] ch by (cases "files (store ix) h") auto
    qed
  qed
  with pend g1 fr d show ?thesis by (auto simp: rolledBack_def)
qed

lemma PutStream_Inl:
  assumes put: "PutStream H J now s ix = (Inl e, ix')" and ok: "hashlib_ok H"
  shows "\<exists>c ix1. grows H (BeginWrite, ix) (c, ix1) \<and> ix' = snd (Discard H c ix1)"
proof (cases "readFill (Suc ChunkSizeC) s")
  case (Inl x)
  with put show ?thesis by (intro exI [of _ BeginWrite] exI [of _ ix]) (auto simp: PutStream_def Let_def)
next
  case (Inr y)
  obtain head s' where y: "y = (head, s')" by (cases y)
  note rd = Inr [unfolded y]
  show ?thesis
  proof (cases "length head \<le> ChunkSizeC")
    case True
    obtain r c ix1 where cp: "claimPut H head BeginWrite ix = (r, c, ix1)" by (metis prod_cases3)
    from put rd True cp have "ix' = snd (Discard H c ix1)"
      by (cases r) (auto simp: PutStream_def Let_def split: prod.splits)
    with claimPut_grows [OF cp] show ?thesis by blast
  next
    case False
    have hl: "length head = Suc ChunkSizeC" using False rd by (auto simp: readFill_def split: if_splits)
    let ?ps0 = "\<lparr>psManifest = \<lparr>TotalSize = 0, ChunkSize = int ChunkSizeC, mChunks = []\<rparr>,
                  psClaims = BeginWrite, psIndex = ix\<rparr>"
    obtain r1 ps1 where p1: "putChunk H (take ChunkSizeC head) ?ps0 = (r1, ps1)" by fastforce
    note g1 = putChunk_spec [OF p1, THEN conjunct1]
    show ?thesis
    proof (cases r1)
      case (Some x)
      with put rd False p1 have "ix' = snd (Discard H (psClaims ps1) (psIndex ps1))" by (simp add: PutStream_def Let_def)
      with g1 show ?thesis by auto
    next
      case None
      obtain r2 ps2 where p2: "putLoop H (drop ChunkSizeC head) s' ps1 = (r2, ps2)" by fastforce
      have "length (drop ChunkSizeC head) \<le> ChunkSizeC" using hl ChunkSizeC_pos(1) by simp
      from putLoop_spec [OF p2 ok this] g1 have g2: "grows H (BeginWrite, ix) (psPair ps2)"
        using grows_trans by fastforce
      show ?thesis
      proof (cases "\<exists>data. r2 = None \<and> EncodeManifest J (psManifest ps2) = Inr data")
        case True
        then obtain data where dt: "r2 = None" "EncodeManifest J (psManifest ps2) = Inr data" by blast
        obtain r c ix1 where cp: "claimPut H data (psClaims ps2) (psIndex ps2) = (r, c, ix1)" by (metis prod_cases3)
        from put rd False p1 None p2 dt cp have "ix' = snd (Discard H c ix1)"
          by (cases r) (auto simp: PutStream_def Let_def split: prod.splits)
        with claimPut_grows [OF cp] g2 grows_trans show ?thesis by blast
      next
        case fail: False
        with put rd False p1 None p2 have "ix' = snd (Discard H (psClaims ps2) (psIndex ps2))"
          by (cases r2; cases "EncodeManifest J (psManifest ps2)") (simp_all add: PutStream_def Let_def)
        with g2 show ?thesis by auto
      qed
    qed
  qed
qed

lemma demo_blob: "storeGet demoHashlib (store demoIndex) demoHash = Inr []"
  using demoHash_content by (simp add: storeGet_Inr demoIndex_def)

lemma demo_zero: "ContentHash demoHashlib [0] = Inr demoHash"
proof -
  have "take 32 ([0] @ replicate 32 0) = replicate 32 (0 :: 8 word)" by (simp add: numeral_eq_Suc)
  then show ?thesis by (simp add: ContentHash_def demoHashlib_def demoHash_def SHA2_256_def del: letters.simps)
qed

lemma demoHash_request: "requestOk demoHash"
proof -
  have "length (letters b) = 2 * length b" for b by (induction b) simp_all
  then show ?thesis
    by (auto simp: requestOk_def demoHash_def maxHashRequestLen_def simp del: letters.simps simp flip: length_greater_0_conv)
qed

lemma demo_storeOk: "storeOk demoHashlib (store demoIndex)"
  using demoHashlib_ok
  by (simp add: storeOk_def demoIndex_def demoStore_def ContentHash_def demoHashlib_def demoHash_def SHA2_256_def del: letters.simps)

lemma demo_put:
  "\<exists>hash ix'. ContentHash demoHashlib [1, 2, 3] = Inr hash
     \<and> PutStream demoHashlib J 9 \<lparr>srcData = [1, 2, 3], srcFails = False\<rparr>
         (demoIndex\<lparr>store := demoStore\<lparr>files := Map.empty\<rparr>\<rparr>) = (Inr (hash, 3), ix')
     \<and> store ix' = demoStore\<lparr>files := [hash \<mapsto> [1, 2, 3]]\<rparr>"
proof -
  let ?ix = "demoIndex\<lparr>store := demoStore\<lparr>files := Map.empty\<rparr>\<rparr>"
  let ?s = "\<lparr>srcData = [1, 2, 3], srcFails = False\<rparr>"
  obtain hash where h: "ContentHash demoHashlib [1, 2, 3] = Inr hash" and ch: "IsContentHash demoHashlib hash"
    using ContentHash_ok [OF demoHashlib_ok] by blast
  let ?cl = "demoIndex\<lparr>pending := (\<lambda>_. 0)(hash := 1), store := demoStore\<lparr>files := [hash \<mapsto> [1, 2, 3]]\<rparr>\<rparr>"
  have "claimPut demoHashlib [1, 2, 3] BeginWrite ?ix = (Inr hash, [hash], ?cl)"
    using h by (simp add: claimPut_def Claim_def BeginWrite_def storePut_def MaxBlobSize_def storeHas_def demoIndex_def)
  moreover obtain c ix1 where mo: "MarkOwned demoHashlib 9 hash 3 [] [hash] ?cl = (c, ix1)" by fastforce
  moreover have "c = []" using MarkOwned_claims [of demoHashlib 9 hash 3 "[]" "[hash]" ?cl] mo by simp
  ultimately have put: "PutStream demoHashlib J 9 ?s ?ix = (Inr (hash, 3), ix1)"
    by (simp add: PutStream_def readFill_def ChunkSizeC_def Let_def)
  have st: "store ix1 = demoStore\<lparr>files := [hash \<mapsto> [1, 2, 3]]\<rparr>" using MarkOwned_store [OF mo] by simp
  with put h show ?thesis by blast
qed

section \<open>Properties of content transfer\<close>

text \<open>C12: everything a fetch delivers was checked. Whatever the peers answer and whatever is in the
  local store, the bytes returned are what the hash stands for: a blob hashing to it, or the chunks of
  a manifest hashing to it, each hashing to the entry that lists it, of the length the manifest
  implies, and in its order. The store still holds only what its file names say.\<close>

theorem fetch_integrity:
  assumes "Fetch H J P now clock net bs hash ix = (Inr data, ix')" and "storeOk H (store ix)"
  shows "contentOf H J hash data \<and> storeOk H (store ix')"
proof -
  obtain r ix1 where f: "FetchStream H J P now clock net hash ix = (r, ix1)" by fastforce
  note s1 = FetchStream_store [OF assms(2) f]
  from assms(1) f obtain rd n where r: "r = Inr (rd, n)" by (cases r) (auto simp: Fetch_def)
  with f obtain blob src where b: "fetchBlob H net ix hash = Inr (blob, src)"
    by (auto simp: FetchStream_def split: sum.splits)
  note h = fetchBlob_hash [OF assms(2) b]
  show ?thesis
  proof (cases "DecodeManifest H J blob")
    case None
    with f r b have "rd = BlobReader blob" by (auto simp: FetchStream_def Let_def split: prod.splits)
    with assms(1) f r have "data = blob" "ix' = ix1" by (simp_all add: Fetch_def)
    with h None s1 show ?thesis by (simp add: contentOf_def)
  next
    case (Some m)
    with f r b obtain c where "rd = ChunkReader \<lparr>crManifest = m, crSrc = src, crCache = c, crNext = 0, crCur = []\<rparr>"
      by (auto simp: FetchStream_def Let_def split: prod.splits)
    with assms(1) f r have "copyAll H net bs [] \<lparr>crManifest = m, crSrc = src, crCache = c, crNext = 0, crCur = []\<rparr> ix1 = (Inr data, ix')"
      by (simp add: Fetch_def)
    from copyAll_sound [OF this s1] obtain ds where "piecesOf H m 0 ds" "data = concat ds" "storeOk H (store ix')" by auto
    with piecesOf_content [OF _ h Some] show ?thesis by simp
  qed
qed

theorem fetch_integrity_witness:
  "contentOf demoHashlib \<lparr>jsonEncode = \<lambda>_. None, jsonDecode = \<lambda>_. None\<rparr> demoHash []
     \<and> storeOk demoHashlib (store (TouchBlob 5 demoHash demoIndex))"
proof (rule fetch_integrity)
  show "Fetch demoHashlib \<lparr>jsonEncode = \<lambda>_. None, jsonDecode = \<lambda>_. None\<rparr> \<lparr>hostBudget = 0, maxPushSize = 0, hostTTL = 0\<rparr>
      0 5 None (\<lambda>_. 511) demoHash demoIndex = (Inr [], TouchBlob 5 demoHash demoIndex)"
    by (simp add: Fetch_def FetchStream_def fetchBlob_def demo_blob Let_def BeginWrite_def
        DecodeManifest_def hasPrefix_def manifestMagic_def)
qed (rule demo_storeOk)

text \<open>What a peer serves arrives unchanged. If the stream to a peer carries the request to the
  peer's handler and the handler's answer back, a fetch from it returns exactly the blob the peer's
  store holds under the hash; for a hash the peer does not hold, and for the empty blob, whose
  length the answer cannot tell from a missing one, it reports that the blob was not found.\<close>

theorem served_blob_arrives:
  assumes "onStream N p (writeRequest hash) = Some (fst (handleStream H now (writeRequest hash) peer))"
    and "requestOk hash" and "storeOk H (store peer)"
    and "\<forall>d. storeGet H (store peer) hash = Inr d \<longrightarrow> length d \<le> MaxBlobSize"
  shows "fetchFrom H N p hash =
     (case storeGet H (store peer) hash of
        Inr d \<Rightarrow> if d = [] then Inl (ErrContent ErrBlobNotFound) else Inr d
      | Inl _ \<Rightarrow> Inl (ErrContent ErrBlobNotFound))"
proof -
  have none: "readBlob (writeBlobHeader 0) = Inl (ErrContent ErrBlobNotFound)"
    using varint.rd_enc [of 0 "[]"] by (simp add: readBlob_def readBlobMax_def writeBlobHeader_def Let_def)
  show ?thesis
  proof (cases "storeGet H (store peer) hash")
    case (Inl e)
    with handleStream_missing [OF Inl assms(2), of now "[]"] assms(1)
    show ?thesis by (simp add: fetchFrom_def) (simp only: none bindR_simps)
  next
    case (Inr d)
    from handleStream_blob [OF Inr assms(2), of now "[]"] assms(1)
    have o: "onStream N p (writeRequest hash) = Some (writeBlob d)" by simp
    show ?thesis
    proof (cases "d = []")
      case True
      with o Inr show ?thesis by (simp add: fetchFrom_def writeBlob_def) (simp only: none bindR_simps)
    next
      case False
      with Inr assms(4) have "blobOk (of_nat MaxBlobSize) d" by (simp add: blobOk_def MaxBlobSize_word)
      from blob.rd_enc [OF this, of "[]"] have "readBlob (writeBlob d) = Inr (d, [])" by (simp add: readBlob_def)
      with o False Inr storeGet_addr [OF assms(3) Inr] show ?thesis by (simp add: fetchFrom_def)
    qed
  qed
qed

theorem served_blob_arrives_witness:
  "\<exists>N (peer :: contentIndex). storeGet demoHashlib (store peer) demoHash = Inr [0]
     \<and> fetchFrom demoHashlib N ''p'' demoHash = Inr [0]"
proof -
  let ?peer = "demoIndex\<lparr>store := demoStore\<lparr>files := [demoHash \<mapsto> [0]]\<rparr>\<rparr>"
  let ?N = "\<lparr>selfID = ''s'', providersOf = (\<lambda>_. [''p'']),
      onStream = (\<lambda>p req. Some (fst (handleStream demoHashlib 7 req ?peer)))\<rparr>"
  have g: "storeGet demoHashlib (store ?peer) demoHash = Inr [0]" using demoHash_content by (simp add: storeGet_Inr)
  have "fetchFrom demoHashlib ?N ''p'' demoHash =
     (case storeGet demoHashlib (store ?peer) demoHash of
        Inr d \<Rightarrow> if d = [] then Inl (ErrContent ErrBlobNotFound) else Inr d
      | Inl _ \<Rightarrow> Inl (ErrContent ErrBlobNotFound))"
  proof (rule served_blob_arrives)
    show "requestOk demoHash" by (rule demoHash_request)
    show "storeOk demoHashlib (store ?peer)" using demoHashlib_ok demo_zero by (simp add: storeOk_def)
  qed (use g in \<open>simp_all add: MaxBlobSize_def\<close>)
  then have "fetchFrom demoHashlib ?N ''p'' demoHash = Inr [0]" unfolding g by simp
  with g show ?thesis by blast
qed

text \<open>C15: published content is read back byte for byte. After \<open>PutStream\<close> reports a hash and a size,
  the size is that of the bytes read, the set is recorded as owned, and a fetch of the hash, from
  the local store alone if need be, returns exactly those bytes, cut into chunks or not. Two
  assumptions: no stored blob has the same hash as a different blob of this content, and content
  small enough to be stored as a single blob is not itself a chunk manifest.\<close>

theorem publish_fetch_roundtrip:
  assumes "PutStream H J now s ix = (Inr (hash, n), ix')" and "storeOk H (store ix)" and "manifestJson_ok J"
    and "noCollision H (store ix') (contentBlobs H J (srcData s))"
    and "length (srcData s) \<le> ChunkSizeC \<Longrightarrow> DecodeManifest H J (srcData s) = None"
  shows "n = int (length (srcData s)) \<and> (\<exists>m. map_of (sets ix') hash = Some m \<and> Owned m)
       \<and> fst (Fetch H J P later clock net bs hash ix') = Inr (srcData s)"
proof -
  have "hashlib_ok H" using assms(2) by (simp add: storeOk_def)
  from PutStream_Inr [OF assms(1) this assms(2)] obtain m where p: "n = int (length (srcData s))" "storeOk H (store ix')"
    "map_of (sets ix') hash = Some m" "Owned m" "published H J (srcData s) hash (Chunks m) (store ix')" by auto
  with published_fetched [OF p(5,2) assms(3-5)] show ?thesis by simp
qed

theorem publish_fetch_roundtrip_witness:
  "\<exists>J hash ix'. PutStream demoHashlib J 9 \<lparr>srcData = [1, 2, 3], srcFails = False\<rparr>
        (demoIndex\<lparr>store := demoStore\<lparr>files := Map.empty\<rparr>\<rparr>) = (Inr (hash, 3), ix')
     \<and> fst (Fetch demoHashlib J \<lparr>hostBudget = 0, maxPushSize = 0, hostTTL = 0\<rparr> 0 0 None (\<lambda>_. 511) hash ix') = Inr [1, 2, 3]"
proof -
  let ?m = "\<lparr>TotalSize = 5, ChunkSize = 3, mChunks = [demoHash, demoHash]\<rparr>"
  let ?J = "\<lparr>jsonEncode = (\<lambda>m. if m = ?m then Some [] else None), jsonDecode = (\<lambda>_. Some ?m)\<rparr>"
  let ?ix = "demoIndex\<lparr>store := demoStore\<lparr>files := Map.empty\<rparr>\<rparr>"
  let ?s = "\<lparr>srcData = [1, 2, 3], srcFails = False\<rparr>"
  obtain hash ix1 where put: "PutStream demoHashlib ?J 9 ?s ?ix = (Inr (hash, 3), ix1)"
    and st: "store ix1 = demoStore\<lparr>files := [hash \<mapsto> [1, 2, 3]]\<rparr>" using demo_put [of ?J] by blast
  have "3 = int (length (srcData ?s)) \<and> (\<exists>m. map_of (sets ix1) hash = Some m \<and> Owned m) \<and>
     fst (Fetch demoHashlib ?J \<lparr>hostBudget = 0, maxPushSize = 0, hostTTL = 0\<rparr> 0 0 None (\<lambda>_. 511) hash ix1) = Inr (srcData ?s)"
  proof (rule publish_fetch_roundtrip [OF put])
    show "storeOk demoHashlib (store ?ix)" using demoHashlib_ok by (simp add: storeOk_def)
    show "manifestJson_ok ?J" by (auto simp: manifestJson_ok_def split: if_splits)
    show "noCollision demoHashlib (store ix1) (contentBlobs demoHashlib ?J (srcData ?s))"
      by (simp add: st noCollision_def contentBlobs_def ChunkSizeC_def)
    show "DecodeManifest demoHashlib ?J (srcData ?s) = None"
      by (simp add: DecodeManifest_def hasPrefix_def manifestMagic_def)
  qed
  then have "fst (Fetch demoHashlib ?J \<lparr>hostBudget = 0, maxPushSize = 0, hostTTL = 0\<rparr> 0 0 None (\<lambda>_. 511) hash ix1) = Inr [1, 2, 3]"
    by (elim conjE) (simp only: source.select_convs)
  with put show ?thesis by blast
qed

text \<open>C21: a failed publish leaves no trace. Whatever goes wrong (the reader fails, the content is too
  large, the disk refuses a write), the recorded sets, the references, the reservations and the
  claims are as before, no blob is lost, and a blob written on the way stays only if a recorded set
  or another writer wants it.\<close>

theorem failed_publish_rolled_back:
  assumes "PutStream H J now s ix = (Inl e, ix')" and "hashlib_ok H" and "accounted H ix"
  shows "rolledBack ix ix'"
  using PutStream_Inl [OF assms(1,2)] rollback assms(2,3) by blast

theorem failed_publish_rolled_back_witness:
  "rolledBack demoIndex (snd (PutStream demoHashlib \<lparr>jsonEncode = \<lambda>_. None, jsonDecode = \<lambda>_. None\<rparr> 9
      \<lparr>srcData = [1, 2, 3], srcFails = True\<rparr> demoIndex))"
proof (rule failed_publish_rolled_back)
  show "PutStream demoHashlib \<lparr>jsonEncode = \<lambda>_. None, jsonDecode = \<lambda>_. None\<rparr> 9
      \<lparr>srcData = [1, 2, 3], srcFails = True\<rparr> demoIndex = (Inl ErrSource,
        snd (PutStream demoHashlib \<lparr>jsonEncode = \<lambda>_. None, jsonDecode = \<lambda>_. None\<rparr> 9
          \<lparr>srcData = [1, 2, 3], srcFails = True\<rparr> demoIndex))"
    by (simp add: PutStream_def readFill_def ChunkSizeC_def Let_def)
  show "hashlib_ok demoHashlib" by (rule demoHashlib_ok)
  show "accounted demoHashlib demoIndex" by (simp add: accounted_def demoIndex_def demoStore_def)
qed

end
