(* ===== verification/Push.thy ===== *)
theory Push
  imports ContentTransfer
begin

text \<open>
  \<open>internal/node/replicate.go\<close>: pushing a content set to a peer, receiving one, and deciding where
  copies go. A stream is seen by each side as bytes: the receiver's handler maps the bytes received
  to the bytes it writes, the pusher asks a \<open>transport\<close> what has come back after the bytes written so
  far (\<open>None\<close> when the stream fails). The DHT lookups and the pushes of the \<open>replicator\<close> are its
  fields, as in the code. Deadlines and rate limits bound the time of a transfer and are not part of
  the values.
\<close>

section \<open>Content sets\<close>

definition pushDecline :: "8 word" where "pushDecline = 0"
definition pushAccept :: "8 word" where "pushAccept = 1"
definition pushHave :: "8 word" where "pushHave = 2"

record contentSet =
  csRoot :: string
  csSize :: int
  csChunks :: "string list"

definition loadContentSet :: "hashlib \<Rightarrow> manifestJson \<Rightarrow> blobStore \<Rightarrow> string \<Rightarrow> contentErr + contentSet" where
  "loadContentSet H J st root =
     bindR (storeGet H st root) (\<lambda>data.
       let cset = \<lparr>csRoot = root, csSize = int (length data), csChunks = []\<rparr> in
       case DecodeManifest H J data of
         None \<Rightarrow> Inr cset
       | Some m \<Rightarrow> Inr (cset\<lparr>csChunks := mChunks m, csSize := csSize cset + TotalSize m\<rparr>))"

definition numBlobs :: "contentSet \<Rightarrow> 64 word" where
  "numBlobs s = word_of_int (int (1 + length (csChunks s)))"

text \<open>In nanoseconds.\<close>

definition pushDeadline :: "int \<Rightarrow> int" where
  "pushDeadline sz =
     (let second = 10 ^ 9; d = 30 * second + (sz div 2 ^ 20) * second in
      if d > 10 * 60 * second then 10 * 60 * second else d)"

section \<open>The pusher's side\<close>

datatype pushErr =
    PushIO | PushLocal string contentErr | PushRefused
  | PushHeader netErr | PushBlob string netErr | PushHash | PushRoot string | PushCount nat
  | PushOrder nat | PushLength nat | PushStore contentErr | PushTotal "64 word" | PushBudget | PushPanic

type_synonym transport = "bytes \<Rightarrow> bytes option"

text \<open>The next status byte, \<open>k\<close> having been read already, after \<open>sent\<close> was written.\<close>

definition readStatusByte :: "transport \<Rightarrow> bytes \<Rightarrow> nat \<Rightarrow> pushErr + 8 word" where
  "readStatusByte T sent k =
     (case T sent of None \<Rightarrow> Inl PushIO | Some resp \<Rightarrow> if k < length resp then Inr (resp ! k) else Inl PushIO)"

definition blobFrame :: "string \<Rightarrow> bytes \<Rightarrow> bytes" where
  "blobFrame h data = writeRequest h @ writeBlobHeader (word_of_int (int (length data))) @ data"

fun sendBlobs :: "hashlib \<Rightarrow> blobStore \<Rightarrow> bytes \<Rightarrow> string list \<Rightarrow> pushErr + bytes" where
  "sendBlobs H st sent [] = Inr sent"
| "sendBlobs H st sent (h # hs) =
     (case storeOpen H st h of
        Inl e \<Rightarrow> Inl (PushLocal h e)
      | Inr (data, _) \<Rightarrow> sendBlobs H st (sent @ blobFrame h data) hs)"

text \<open>The status byte returned beside an error is \<open>pushDecline\<close>.\<close>

definition pushOnStream :: "hashlib \<Rightarrow> blobStore \<Rightarrow> transport \<Rightarrow> contentSet \<Rightarrow> 8 word \<times> pushErr option" where
  "pushOnStream H st T cset =
     (let offer = writePushOffer (csRoot cset) (word_of_int (csSize cset)) (numBlobs cset) in
      case readStatusByte T offer 0 of
        Inl e \<Rightarrow> (pushDecline, Some e)
      | Inr status \<Rightarrow>
          if status \<noteq> pushAccept then (status, None)
          else case sendBlobs H st offer (csRoot cset # csChunks cset) of
            Inl e \<Rightarrow> (pushDecline, Some e)
          | Inr sent \<Rightarrow>
              (case readStatusByte T sent 1 of
                 Inl e \<Rightarrow> (pushDecline, Some e)
               | Inr final \<Rightarrow> if final \<noteq> 1 then (pushDecline, Some PushRefused) else (pushAccept, None)))"

section \<open>The receiver's side\<close>

definition reserveHosted :: "hashlib \<Rightarrow> hostingPolicy \<Rightarrow> int \<Rightarrow> int \<Rightarrow> contentIndex \<Rightarrow> bool \<times> contentIndex" where
  "reserveHosted H P now sz ix = Reserve H sz (hostBudget P) (maxPushSize P) (hostTTL P) now ix"

definition releaseHosted :: "int \<Rightarrow> contentIndex \<Rightarrow> contentIndex" where
  "releaseHosted sz ix = Release sz ix"

definition commitHosted ::
    "hashlib \<Rightarrow> hostingPolicy \<Rightarrow> int \<Rightarrow> int \<Rightarrow> string \<Rightarrow> int \<Rightarrow> string list \<Rightarrow> string \<Rightarrow> blobClaims \<Rightarrow> contentIndex
      \<Rightarrow> bool \<times> blobClaims \<times> contentIndex" where
  "commitHosted H P clock now root sz chunks p claims ix =
     CommitHosted H clock root sz chunks p (hostBudget P) (maxPushSize P) (hostTTL P) now claims ix"

text \<open>The checks on blob \<open>i\<close> once its bytes are known to match their hash: the result is the manifest
  to go on with.\<close>

definition checkBlob ::
    "hashlib \<Rightarrow> manifestJson \<Rightarrow> string \<Rightarrow> 64 word \<Rightarrow> nat \<Rightarrow> string \<Rightarrow> bytes \<Rightarrow> chunkManifest option
      \<Rightarrow> pushErr + chunkManifest option" where
  "checkBlob H J root nblobs i hash data man =
     (if i = 0 then
        if hash \<noteq> root then Inl (PushRoot hash)
        else case DecodeManifest H J data of
          Some m \<Rightarrow> if nblobs \<noteq> word_of_int (int (1 + length (mChunks m))) then Inl (PushCount (length (mChunks m))) else Inr (Some m)
        | None \<Rightarrow> if nblobs \<noteq> 1 then Inl (PushCount 0) else Inr man
      else case man of
        None \<Rightarrow> Inl PushPanic
      | Some m \<Rightarrow>
          if \<not> i - 1 < length (mChunks m) then Inl PushPanic
          else if hash \<noteq> mChunks m ! (i - 1) then Inl (PushOrder i)
          else if int (length data) \<noteq> ChunkLen m (i - 1) then Inl (PushLength i)
          else Inr man)"

record pushState =
  pushMan :: "chunkManifest option"
  pushRecv :: "64 word"
  pushClaims :: blobClaims
  pushIndex :: contentIndex

text \<open>The loop over the announced blobs, \<open>n\<close> of them still to come, the next one number \<open>i\<close>.\<close>

fun pushLoop ::
    "hashlib \<Rightarrow> manifestJson \<Rightarrow> string \<Rightarrow> 64 word \<Rightarrow> 64 word \<Rightarrow> nat \<Rightarrow> nat \<Rightarrow> bytes \<Rightarrow> pushState
      \<Rightarrow> pushErr option \<times> pushState" where
  "pushLoop H J root sz nblobs 0 i r ps = (None, ps)"
| "pushLoop H J root sz nblobs (Suc n) i r ps =
     (case readRequest r of
        Inl e \<Rightarrow> (Some (PushHeader e), ps)
      | Inr (hash, r1) \<Rightarrow>
          (case readBlobMax (sz - pushRecv ps) r1 of
             Inl e \<Rightarrow> (Some (PushBlob hash e), ps)
           | Inr (data, r2) \<Rightarrow>
               if ContentHash H data \<noteq> Inr hash then (Some PushHash, ps)
               else case checkBlob H J root nblobs i hash data (pushMan ps) of
                 Inl e \<Rightarrow> (Some e, ps)
               | Inr man \<Rightarrow>
                   (case Claim hash (pushClaims ps) (pushIndex ps) of (c, ix) \<Rightarrow>
                      case storePut H (store ix) data of
                        (Inl e, st) \<Rightarrow>
                          (Some (PushStore e), ps\<lparr>pushMan := man, pushClaims := c, pushIndex := ix\<lparr>store := st\<rparr>\<rparr>)
                      | (Inr _, st) \<Rightarrow>
                          pushLoop H J root sz nblobs n (Suc i) r2
                            \<lparr>pushMan = man, pushRecv = pushRecv ps + word_of_int (int (length data)),
                             pushClaims = c, pushIndex = ix\<lparr>store := st\<rparr>\<rparr>)))"

text \<open>The answer to the offer: what is written, and the accepted offer with the rest of the stream.\<close>

definition pushOffer ::
    "hashlib \<Rightarrow> hostingPolicy \<Rightarrow> int \<Rightarrow> int \<Rightarrow> bytes \<Rightarrow> contentIndex
      \<Rightarrow> bytes \<times> (string \<times> 64 word \<times> 64 word \<times> bytes) option \<times> contentIndex" where
  "pushOffer H P clock now inp ix =
     (case readPushOffer H inp of
        Inl _ \<Rightarrow> ([], None, ix)
      | Inr ((root, sz, nblobs), rest) \<Rightarrow>
          if hasSet root ix then ([pushHave], None, Touch clock root ix)
          else case reserveHosted H P now (uint sz) ix of
            (False, ix') \<Rightarrow> ([pushDecline], None, ix')
          | (True, ix') \<Rightarrow> ([pushAccept], Some (root, sz, nblobs, rest), ix'))"

text \<open>The transfer itself, up to the final byte. The limit on the stream is the offered size and the
  framing of every blob.\<close>

definition receiveSet ::
    "hashlib \<Rightarrow> manifestJson \<Rightarrow> hostingPolicy \<Rightarrow> int \<Rightarrow> int \<Rightarrow> string \<Rightarrow> string \<Rightarrow> 64 word \<Rightarrow> 64 word \<Rightarrow> bytes \<Rightarrow> contentIndex
      \<Rightarrow> bool \<times> contentIndex" where
  "receiveSet H J P clock now peer root sz nblobs rest ix =
     (let framing = unat nblobs * (maxHashRequestLen + 2 * 10);
          r = take (unat sz + framing) rest;
          fail = (\<lambda>ps. (False, releaseHosted (uint sz) (snd (Discard H (pushClaims ps) (pushIndex ps)))));
          ps0 = \<lparr>pushMan = None, pushRecv = 0, pushClaims = BeginWrite, pushIndex = ix\<rparr>
      in case pushLoop H J root sz nblobs (unat nblobs) 0 r ps0 of
           (Some _, ps) \<Rightarrow> fail ps
         | (None, ps) \<Rightarrow>
             if pushRecv ps \<noteq> sz then fail ps
             else let chunks = (case pushMan ps of None \<Rightarrow> [] | Some m \<Rightarrow> mChunks m) in
               (case commitHosted H P clock now root (uint sz) chunks peer (pushClaims ps) (pushIndex ps) of
                  (False, c, ix') \<Rightarrow> (False, snd (Discard H c ix'))
                | (True, c, ix') \<Rightarrow> (True, snd (Discard H c ix'))))"

text \<open>\<open>ackOk\<close> says whether the acceptance could be written; the times are those of the offer and of
  the commit.\<close>

definition handlePushStream ::
    "hashlib \<Rightarrow> manifestJson \<Rightarrow> hostingPolicy \<Rightarrow> int \<times> int \<Rightarrow> int \<times> int \<Rightarrow> string \<Rightarrow> bool \<Rightarrow> bytes \<Rightarrow> contentIndex
      \<Rightarrow> bytes \<times> contentIndex" where
  "handlePushStream H J P t1 t2 peer ackOk inp ix =
     (case pushOffer H P (fst t1) (snd t1) inp ix of
        (out, None, ix1) \<Rightarrow> (out, ix1)
      | (out, Some (root, sz, nblobs, rest), ix1) \<Rightarrow>
          if \<not> ackOk then ([], releaseHosted (uint sz) ix1)
          else case receiveSet H J P (fst t2) (snd t2) peer root sz nblobs rest ix1 of
            (False, ix2) \<Rightarrow> (out @ [0], ix2)
          | (True, ix2) \<Rightarrow> (out @ [1], ix2))"

section \<open>Placement and healing\<close>

text \<open>\<open>rPush k p root\<close> is the outcome of the \<open>k\<close>-th push of a pass.\<close>

record replicator =
  rSelf :: peerID
  replicas :: int
  rClosest :: "string \<Rightarrow> int \<Rightarrow> netErr + peerID list"
  rProviders :: "string \<Rightarrow> int \<Rightarrow> netErr + peerID list"
  rPush :: "nat \<Rightarrow> peerID \<Rightarrow> string \<Rightarrow> pushErr + 8 word"

definition pushPlaced :: "pushErr + 8 word \<Rightarrow> bool" where
  "pushPlaced r \<longleftrightarrow> r = Inr pushAccept \<or> r = Inr pushHave"

text \<open>Both loops also return the peers pushed to, in order.\<close>

fun replicateLoop :: "replicator \<Rightarrow> string \<Rightarrow> int \<Rightarrow> nat \<Rightarrow> peerID list \<Rightarrow> int \<times> peerID list" where
  "replicateLoop R root placed k [] = (placed, [])"
| "replicateLoop R root placed k (p # ps) =
     (if placed \<ge> replicas R then (placed, [])
      else if p = rSelf R then replicateLoop R root placed k ps
      else case replicateLoop R root (if pushPlaced (rPush R k p root) then placed + 1 else placed) (Suc k) ps of
        (n, tried) \<Rightarrow> (n, p # tried))"

definition replicateSet :: "replicator \<Rightarrow> string \<Rightarrow> int \<times> peerID list" where
  "replicateSet R root =
     (case rClosest R root (replicas R * 2 + 2) of
        Inl _ \<Rightarrow> (0, [])
      | Inr peers \<Rightarrow> replicateLoop R root 0 0 peers)"

fun countHolders :: "peerID list \<Rightarrow> peerID set \<Rightarrow> int \<Rightarrow> peerID set \<times> int" where
  "countHolders [] known holders = (known, holders)"
| "countHolders (p # ps) known holders =
     (if p \<notin> known then countHolders ps (insert p known) (holders + 1) else countHolders ps known holders)"

fun topUp :: "replicator \<Rightarrow> string \<Rightarrow> peerID set \<Rightarrow> int \<Rightarrow> nat \<Rightarrow> peerID list \<Rightarrow> int \<times> peerID list" where
  "topUp R root known need k [] = (need, [])"
| "topUp R root known need k (p # ps) =
     (if need \<le> 0 then (need, [])
      else if p \<in> known then topUp R root known need k ps
      else case topUp R root known (if pushPlaced (rPush R k p root) then need - 1 else need) (Suc k) ps of
        (n, tried) \<Rightarrow> (n, p # tried))"

text \<open>The result is what is still missing at the end, and the peers pushed to.\<close>

definition heal :: "replicator \<Rightarrow> string \<Rightarrow> netErr + int \<times> peerID list" where
  "heal R root =
     (let target = replicas R + 1 in
      bindR (rProviders R root (target + 2)) (\<lambda>found.
        case countHolders found {rSelf R} 1 of (known, holders) \<Rightarrow>
          if holders \<ge> target then Inr (0, [])
          else bindR (rClosest R root (target * 2 + 2)) (\<lambda>peers.
            Inr (topUp R root known (target - holders) 0 peers))))"

text \<open>One pass over the held sets, in the order \<open>shuffle\<close> puts them; \<open>peersKnown\<close> is the size of the
  routing table.\<close>

definition healAll :: "replicator \<Rightarrow> nat \<Rightarrow> (string list \<Rightarrow> string list) \<Rightarrow> contentIndex \<Rightarrow> (netErr + int \<times> peerID list) list" where
  "healAll R peersKnown shuffle ix =
     (if peersKnown = 0 then [] else map (heal R) (shuffle (Roots ix)))"

end
