(* ===== verification/PushProps.thy ===== *)
theory PushProps
  imports Push
begin

text \<open>
  What a push promises: a sender can only ever store a complete set that its own root commits to, a
  push that is not accepted leaves nothing behind, a peer holding a set can hand it on, and placement
  and healing stop at the number of copies asked for.
\<close>

section \<open>What the receiving loop has checked\<close>

text \<open>Blobs \<open>ds\<close> under hashes \<open>hs\<close> pass the checks from number \<open>i\<close> on, the manifest going from \<open>man\<close>
  to \<open>man'\<close>.\<close>

fun checkedFrom ::
    "hashlib \<Rightarrow> manifestJson \<Rightarrow> string \<Rightarrow> 64 word \<Rightarrow> nat \<Rightarrow> chunkManifest option \<Rightarrow> string list \<Rightarrow> bytes list
      \<Rightarrow> chunkManifest option \<Rightarrow> bool" where
  "checkedFrom H J root nblobs i man [] [] man' \<longleftrightarrow> man' = man"
| "checkedFrom H J root nblobs i man (h # hs) (d # ds) man' \<longleftrightarrow>
     (\<exists>m. checkBlob H J root nblobs i h d man = Inr m \<and> checkedFrom H J root nblobs (Suc i) m hs ds man')"
| "checkedFrom H J root nblobs i man hs ds man' \<longleftrightarrow> False"

abbreviation pushPair :: "pushState \<Rightarrow> blobClaims \<times> contentIndex" where
  "pushPair ps \<equiv> (pushClaims ps, pushIndex ps)"

lemma claimPut_step:
  assumes "ContentHash H d = Inr h" and "Claim h c ix = (c', ix1)" and "storePut H (store ix1) d = (r, st)"
  shows "grows H (c, ix) (c', ix1\<lparr>store := st\<rparr>)
     \<and> (isOk r \<longrightarrow> files (store (ix1\<lparr>store := st\<rparr>)) h \<noteq> None)"
proof -
  let ?r = "case r of Inl e \<Rightarrow> Inl (ErrContent e) | Inr _ \<Rightarrow> Inr h"
  have "claimPut H d c ix = (?r, c', ix1\<lparr>store := st\<rparr>)" using assms by (simp add: claimPut_def)
  from claimPut_grows [OF this] show ?thesis by (cases r) auto
qed

lemma readBlobMax_length: "readBlobMax mx inp = Inr (d, rest) \<Longrightarrow> length d \<le> unat mx \<and> length d < 2 ^ 64"
  using readBlobMax_Inr [of mx inp d rest] unsigned_less [of mx, where ?'a = nat] by (simp add: order_le_less_trans)

lemma received_add:
  fixes sz recv :: "64 word"
  assumes "unat recv \<le> unat sz" and "n \<le> unat (sz - recv)"
  shows "unat (recv + word_of_int (int n)) = unat recv + n \<and> unat recv + n \<le> unat sz"
proof -
  have "unat (sz - recv) = unat sz - unat recv" using assms(1) by (simp add: unat_sub word_le_nat_alt)
  with assms have le: "unat recv + n \<le> unat sz" by simp
  have "unat sz < 2 ^ 64" using unsigned_less [of sz, where ?'a = nat] by simp
  with le have "n < 2 ^ 64" "unat recv + n < 2 ^ 64" by linarith+
  then show ?thesis using le by (simp add: unat_word_ariths unat_of_nat)
qed

lemma pushLoop_spec:
  "pushLoop H J root sz nblobs n i r ps = (res, ps') \<Longrightarrow> hashlib_ok H \<Longrightarrow> unat (pushRecv ps) \<le> unat sz \<Longrightarrow>
     grows H (pushPair ps) (pushPair ps') \<and>
     (res = None \<longrightarrow> (\<exists>hs ds. length hs = n \<and> storedAs H (store (pushIndex ps')) ds hs \<and> set hs \<subseteq> set (pushClaims ps')
        \<and> checkedFrom H J root nblobs i (pushMan ps) hs ds (pushMan ps')
        \<and> unat (pushRecv ps') = unat (pushRecv ps) + sum_list (map length ds)))"
proof (induction H J root sz nblobs n i r ps rule: pushLoop.induct)
  case (1 H J root sz nblobs i r ps)
  then have "res = None" "ps' = ps" by simp_all
  then show ?case by (auto simp: storedAs_def)
next
  case (2 H J root sz nblobs n i r ps)
  show ?case
  proof (cases "readRequest r")
    case (Inl e)
    with 2(2) show ?thesis by auto
  next
    case (Inr x)
    obtain hash r1 where x: "x = (hash, r1)" by (cases x)
    show ?thesis
    proof (cases "readBlobMax (sz - pushRecv ps) r1")
      case (Inl e)
      with 2(2) Inr x show ?thesis by auto
    next
      case inr2: (Inr y)
      obtain d r2 where y: "y = (d, r2)" by (cases y)
      show ?thesis
      proof (cases "ContentHash H d = Inr hash \<and> isOk (checkBlob H J root nblobs i hash d (pushMan ps))")
        case False
        with 2(2) Inr x inr2 y show ?thesis by (auto split: if_splits sum.splits)
      next
        case True
        then obtain man where man: "checkBlob H J root nblobs i hash d (pushMan ps) = Inr man"
          by (cases "checkBlob H J root nblobs i hash d (pushMan ps)") auto
        obtain c ix1 where cl: "Claim hash (pushClaims ps) (pushIndex ps) = (c, ix1)" by fastforce
        obtain q st where put: "storePut H (store ix1) d = (q, st)" by fastforce
        note g1 = claimPut_step [OF conjunct1 [OF True] cl put]
        show ?thesis
        proof (cases q)
          case (Inl e)
          with 2(2) Inr x inr2 y True man cl put g1 show ?thesis by auto
        next
          case inr3: (Inr h')
          let ?ps = "\<lparr>pushMan = man, pushRecv = pushRecv ps + word_of_int (int (length d)), pushClaims = c,
                      pushIndex = ix1\<lparr>store := st\<rparr>\<rparr>"
          from 2(2) Inr x inr2 y True man cl put inr3
          have l: "pushLoop H J root sz nblobs n (Suc i) r2 ?ps = (res, ps')" by simp
          have "length d \<le> unat (sz - pushRecv ps)" using readBlobMax_length inr2 y by blast
          note rv = received_add [OF 2(4) this]
          from 2(1) [OF Inr x [symmetric] inr2 y [symmetric] _ man cl [symmetric] _ _ l 2(3)] True put inr3 rv
          have ih: "grows H (pushPair ?ps) (pushPair ps')"
            "res = None \<Longrightarrow> \<exists>hs ds. length hs = n \<and> storedAs H (store (pushIndex ps')) ds hs \<and> set hs \<subseteq> set (pushClaims ps')
               \<and> checkedFrom H J root nblobs (Suc i) man hs ds (pushMan ps')
               \<and> unat (pushRecv ps') = unat (pushRecv ps) + length d + sum_list (map length ds)"
            by simp_all
          have g: "grows H (pushPair ps) (pushPair ps')" using g1 ih(1) grows_trans by fastforce
          have hc: "hash \<in> set (pushClaims ps')" using ih(1) cl by (auto simp: grows_def Claim_def)
          have "storedAs H (store (ix1\<lparr>store := st\<rparr>)) [d] [hash]" using g1 inr3 True by (simp add: storedAs_def)
          then have s1: "storedAs H (store (pushIndex ps')) [d] [hash]" using grows_stored [OF _ 2(3)] ih(1) by fastforce
          show ?thesis
          proof (intro conjI impI g)
            assume "res = None"
            from ih(2) [OF this] obtain hs ds where h: "length hs = n" "storedAs H (store (pushIndex ps')) ds hs"
              "set hs \<subseteq> set (pushClaims ps')" "checkedFrom H J root nblobs (Suc i) man hs ds (pushMan ps')"
              "unat (pushRecv ps') = unat (pushRecv ps) + length d + sum_list (map length ds)" by blast
            show "\<exists>hs ds. length hs = Suc n \<and> storedAs H (store (pushIndex ps')) ds hs \<and> set hs \<subseteq> set (pushClaims ps')
               \<and> checkedFrom H J root nblobs i (pushMan ps) hs ds (pushMan ps')
               \<and> unat (pushRecv ps') = unat (pushRecv ps) + sum_list (map length ds)"
              using h s1 hc man by (intro exI [of _ "hash # hs"] exI [of _ "d # ds"]) (simp add: storedAs_def)
          qed
        qed
      qed
    qed
  qed
qed

lemma checked_chunks:
  "checkedFrom H J root nblobs (Suc i) (Some m) hs ds man' \<Longrightarrow>
     man' = Some m \<and> length ds = length hs \<and>
     (\<forall>j < length hs. i + j < length (mChunks m) \<and> hs ! j = mChunks m ! (i + j) \<and> int (length (ds ! j)) = ChunkLen m (i + j))"
proof (induction hs arbitrary: i ds)
  case Nil
  then show ?case by (cases ds) simp_all
next
  case (Cons h hs)
  then obtain d es where ds: "ds = d # es" by (cases ds) simp_all
  with Cons.prems have c: "i < length (mChunks m)" "h = mChunks m ! i" "int (length d) = ChunkLen m i"
    and r: "checkedFrom H J root nblobs (Suc (Suc i)) (Some m) hs es man'"
    by (auto simp: checkBlob_def split: if_splits)
  note ih = Cons.IH [OF r]
  have "i + j < length (mChunks m) \<and> (h # hs) ! j = mChunks m ! (i + j) \<and> int (length ((d # es) ! j)) = ChunkLen m (i + j)"
    if "j < length (h # hs)" for j
    using that c ih by (cases j) simp_all
  with ih ds show ?case by simp
qed

text \<open>The blob behind \<open>root\<close> and, where it is a manifest, every chunk it names are stored, and \<open>sz\<close> is
  their total size.\<close>

definition completeSet :: "hashlib \<Rightarrow> manifestJson \<Rightarrow> blobStore \<Rightarrow> string \<Rightarrow> int \<Rightarrow> string list \<Rightarrow> bool" where
  "completeSet H J st root sz chunks \<longleftrightarrow>
     (\<exists>blob. ContentHash H blob = Inr root \<and>
        (case DecodeManifest H J blob of
           None \<Rightarrow> chunks = [] \<and> sz = int (length blob)
         | Some m \<Rightarrow> chunks = mChunks m \<and> sz = int (length blob) + TotalSize m)) \<and>
     (\<forall>h \<in> set (root # chunks). files st h \<noteq> None)"

abbreviation manChunks :: "chunkManifest option \<Rightarrow> string list" where
  "manChunks man \<equiv> case man of None \<Rightarrow> [] | Some m \<Rightarrow> mChunks m"

lemma word_count: "n < 2 ^ 64 \<Longrightarrow> unat (word_of_int (int n) :: 64 word) = n"
  by (simp add: unat_of_nat)

lemma checked_complete:
  assumes c: "checkedFrom H J root nblobs 0 None hs ds man" and n: "length hs = unat nblobs" "0 < unat nblobs"
    and st: "storedAs H st ds hs"
  shows "completeSet H J st root (int (sum_list (map length ds))) (manChunks man) \<and> set (root # manChunks man) = set hs"
proof -
  obtain h hs' where hs: "hs = h # hs'" using n by (cases hs) auto
  with c obtain d ds' where ds: "ds = d # ds'" by (cases ds) auto
  from c hs ds have root: "h = root"
    and c1: "checkedFrom H J root nblobs (Suc 0) (DecodeManifest H J d) hs' ds' man"
    and count: "case DecodeManifest H J d of None \<Rightarrow> nblobs = 1
        | Some m \<Rightarrow> nblobs = word_of_int (int (1 + length (mChunks m)))"
    by (auto simp: checkBlob_def split: if_splits option.splits)
  from st hs ds root have hd: "ContentHash H d = Inr root" "files st root \<noteq> None" and tl: "storedAs H st ds' hs'"
    by (auto simp: storedAs_def)
  show ?thesis
  proof (cases "DecodeManifest H J d")
    case None
    with count n(1) hs have "hs' = []" by simp
    with c1 None have "ds' = []" "man = None" by (cases ds'; simp)+
    with hd None ds hs root \<open>hs' = []\<close> show ?thesis by (auto simp: completeSet_def)
  next
    case (Some m)
    note ch = checked_chunks [OF c1 [unfolded Some]]
    have "length (mChunks m) < 2 ^ 64 - 1"
      using DecodeManifest_Some(5) [OF Some] by (simp add: MaxManifestChunks_def MaxContentSize_def ChunkSizeC_def)
    then have "unat nblobs = 1 + length (mChunks m)" using count Some word_count [of "1 + length (mChunks m)"] by simp
    then have l: "length hs' = length (mChunks m)" using n(1) hs by simp
    then have eq: "hs' = mChunks m" using ch by (intro nth_equalityI) simp_all
    have "int (sum_list (map length ds')) = (\<Sum>j < length ds'. int (length (ds' ! j)))"
      by (simp add: sum_list_sum_nth atLeast0LessThan)
    also have "\<dots> = (\<Sum>j < length (mChunks m). ChunkLen m j)" using ch l by simp
    also have "\<dots> = TotalSize m" using DecodeManifest_Some(4) [OF Some] by (intro sum_ChunkLen) auto
    finally have t: "int (sum_list (map length ds')) = TotalSize m" .
    have "\<forall>h \<in> set hs'. files st h \<noteq> None"
      using tl unfolding storedAs_def by (auto simp: list_all2_conv_all_nth in_set_conv_nth)
    with hd Some t ch eq ds hs root show ?thesis by (auto simp: completeSet_def)
  qed
qed

section \<open>Committing\<close>

text \<open>What every eviction step does, the whole pass does.\<close>

lemma fitLoop_related:
  assumes same: "\<And>i. R i i" and comp: "\<And>i j k. R i j \<Longrightarrow> R j k \<Longrightarrow> R i k"
    and step: "\<And>H i v. R i (evictLocked H v i)"
  shows "fitLoop H sz budget ttl now ev freed spared e ix = (f, e', ix') \<Longrightarrow> R ix ix'"
proof (induction H sz budget ttl now ev freed spared e ix rule: fitLoop.induct)
  case (1 H sz budget ttl now ev freed spared e ix)
  show ?case
  proof (cases "hostedBytes ix - freed + sz > budget \<and> pickVictim ttl now spared (sets ix) \<noteq> None")
    case False
    with 1(3) have "ix' = ix" by (subst (asm) fitLoop.simps) (auto split: if_splits option.splits)
    then show ?thesis using same by simp
  next
    case True
    then obtain v m where pv: "pickVictim ttl now spared (sets ix) = Some (v, m)"
      and b: "\<not> \<not> hostedBytes ix - freed + sz > budget" by auto
    show ?thesis
    proof (cases ev)
      case ev: True
      with b pv 1(3) have "fitLoop H sz budget ttl now ev freed spared True (evictLocked H v ix) = (f, e', ix')"
        by (subst (asm) fitLoop.simps) simp
      from 1(1) [OF b pv refl ev this] show ?thesis using comp step by blast
    next
      case ev: False
      with b pv 1(3) have "fitLoop H sz budget ttl now ev (freed + Size m) (insert v spared) e ix = (f, e', ix')"
        by (subst (asm) fitLoop.simps) simp
      from 1(2) [OF b pv refl ev this] show ?thesis .
    qed
  qed
qed

lemma fitLocked_related:
  assumes "fitLocked H sz budget maxSize ttl now ev ix = (fits, ix')"
    and same: "\<And>i. R i i" and comp: "\<And>i j k. R i j \<Longrightarrow> R j k \<Longrightarrow> R i k"
    and step: "\<And>H i v. R i (evictLocked H v i)" and save: "\<And>i. R i (saveIndex i)"
  shows "R ix ix'"
proof (cases "sz > maxSize \<or> sz > budget")
  case False
  obtain f e i where l: "fitLoop H sz budget ttl now ev 0 {} False ix = (f, e, i)" by (metis prod_cases3)
  have "R ix i" by (rule fitLoop_related [where R = R]) (use same comp step l in blast)+
  moreover have "ix' = (if e then saveIndex i else i)" using assms(1) False l by (simp add: fitLocked_def)
  ultimately show ?thesis using comp [OF _ save] by simp
qed (use assms(1) same in \<open>auto simp: fitLocked_def\<close>)

lemma fitLocked_refs_le: "fitLocked H sz budget maxSize ttl now ev ix = (fits, ix') \<Longrightarrow> blobRefs ix' g \<subseteq> blobRefs ix g"
  by (erule fitLocked_related [where R = "\<lambda>i j. blobRefs j g \<subseteq> blobRefs i g"])
    (simp_all add: evictLocked_refs subset_trans)

lemma evictLocked_writable: "writable (store (evictLocked H root ix)) = writable (store ix)"
proof -
  have "writable (store (releaseRef H root ix h)) = writable (store ix)" for ix h
    by (simp add: releaseRef_def Let_def deleteBlob_def storeDelete_def)
  then have "writable (store (foldl (releaseRef H root) ix hs)) = writable (store ix)" for ix hs
    by (induction hs arbitrary: ix) simp_all
  then show ?thesis by (simp add: evictLocked_def del: foldl_Cons split: option.split)
qed

lemma fitLocked_writable:
  "fitLocked H sz budget maxSize ttl now ev ix = (fits, ix') \<Longrightarrow> writable (store ix') = writable (store ix)"
  by (erule fitLocked_related [where R = "\<lambda>i j. writable (store j) = writable (store i)"]) (simp_all add: evictLocked_writable)

text \<open>A transfer that comes to nothing: the claims are as before, a new blob stays only if a set or
  another writer wants it, and a blob goes only if nobody does.\<close>

definition leavesNothing :: "contentIndex \<Rightarrow> contentIndex \<Rightarrow> bool" where
  "leavesNothing ix ix' \<longleftrightarrow>
     pending ix' = pending ix \<and> set (sets ix') \<subseteq> set (sets ix) \<and>
     (\<forall>h. files (store ix') h \<noteq> None \<longrightarrow> files (store ix) h \<noteq> None \<or> blobRefs ix h \<noteq> {} \<or> 0 < pending ix h) \<and>
     (\<forall>h. files (store ix) h \<noteq> None \<longrightarrow> files (store ix') h = None \<longrightarrow> pending ix h = 0 \<and> blobRefs ix' h = {})"

lemma leavesNothing_refl [simp]: "leavesNothing ix ix"
  unfolding leavesNothing_def by blast

text \<open>\<open>mid\<close> is what an eviction pass may make of the grown index before the writer gives up.\<close>

lemma discard_leavesNothing:
  assumes g: "grows H (BeginWrite, ix) (c, ix1)" and ok: "hashlib_ok H" "\<forall>h. 0 \<le> pending ix h"
    and mid: "pending mid = pending ix1" "writable (store mid) = writable (store ix1)"
      "\<forall>h. blobRefs mid h \<subseteq> blobRefs ix1 h" "set (sets mid) \<subseteq> set (sets ix1)"
      "\<forall>h. files (store mid) h = files (store ix1) h
         \<or> files (store mid) h = None \<and> pending ix1 h = 0 \<and> blobRefs mid h = {}"
  shows "leavesNothing ix (snd (Discard H c mid))"
proof -
  have g1: "sets ix1 = sets ix" "blobRefs ix1 = blobRefs ix" "writable (store ix1) = writable (store ix)"
    and p: "pending ix1 h = pending ix h + int (count_list c h)"
    and fl: "h \<notin> set c \<Longrightarrow> files (store ix1) h = files (store ix) h"
    and hs: "h \<in> set c \<Longrightarrow> \<exists>d. ContentHash H d = Inr h"
    and ro: "writable (store ix) \<or> files (store ix1) = files (store ix)"
    and keep: "files (store ix) h = Some d \<Longrightarrow> IsContentHash H h \<Longrightarrow> files (store ix1) h = Some d" for h d
    using g by (auto simp: grows_def BeginWrite_def)
  let ?ix = "snd (Discard H c mid)"
  have d: "?ix = releaseClaims H True c mid" by (simp add: Discard_def releaseClaimsLocked_def)
  have le: "\<forall>h. int (count_list c h) \<le> pending mid h" using p ok(2) mid(1) by simp
  note fr = releaseClaims_frame [of H True c mid]
  have pend: "pending ?ix h = pending ix h" for h
    unfolding d using releaseClaims_pending [OF le, of H True h] p mid(1) by simp
  have ex: "files (store ?ix) h =
      (if h \<in> set c \<and> pending ix h = 0 \<and> blobRefs mid h = {} \<and> IsContentHash H h \<and> writable (store ix)
       then None else files (store mid) h)" for h
    unfolding d using releaseClaims_exact [OF le, of H h] p mid(1,2) g1(3) by simp
  have ch: "h \<in> set c \<Longrightarrow> IsContentHash H h" for h using hs IsContentHash_ContentHash [OF ok(1)] by blast
  have "files (store ix) h \<noteq> None \<or> blobRefs ix h \<noteq> {} \<or> 0 < pending ix h" if "files (store ?ix) h \<noteq> None" for h
  proof (rule ccontr)
    assume "\<not> ?thesis"
    then have n: "files (store ix) h = None" "blobRefs ix h = {}" "pending ix h = 0" using ok(2) by (auto simp: order_antisym not_less)
    have "files (store ix1) h \<noteq> None" using that ex mid(5) by (metis (no_types, lifting))
    then have "h \<in> set c" "writable (store ix)" using fl n(1) ro by metis+
    moreover have "blobRefs mid h = {}" using mid(3) g1(2) n(2) by auto
    ultimately show False using that ex n(3) ch by simp
  qed
  moreover have "pending ix h = 0 \<and> blobRefs ?ix h = {}"
    if "files (store ix) h \<noteq> None" "files (store ?ix) h = None" for h
  proof -
    have "files (store ix1) h \<noteq> None" using that(1) fl keep ch by (metis option.exhaust option.distinct(1))
    then have "pending ix1 h = 0 \<and> blobRefs mid h = {} \<or> pending ix h = 0 \<and> blobRefs mid h = {}"
      using that(2) ex mid(5) by (metis (no_types, lifting))
    then show ?thesis using p [of h] ok(2) fr unfolding d by (auto simp: add_nonneg_eq_0_iff)
  qed
  ultimately show ?thesis using pend fr mid(4) g1(1) unfolding d leavesNothing_def by auto
qed

section \<open>The receiver\<close>

lemma Release_frame2:
  "store (Release sz ix) = store ix" "sets (Release sz ix) = sets ix" "pending (Release sz ix) = pending ix"
  "blobRefs (Release sz ix) = blobRefs ix"
  by (simp_all add: Release_def)

lemma Release_reserved: "reserved (Release sz ix) = max 0 (reserved ix - sz)"
  by (simp add: Release_def)

lemma leavesNothing_release: "leavesNothing ix ix' \<Longrightarrow> leavesNothing ix (Release sz ix')"
  by (simp add: leavesNothing_def Release_frame2)

lemma Reserve_cases:
  assumes "Reserve H sz budget maxSize ttl now ix = (ok, ix')"
  shows "ix' = (if ok then ix\<lparr>reserved := reserved ix + sz\<rparr> else ix) \<and> (ok \<longrightarrow> sz \<le> maxSize)"
proof -
  obtain f i where f: "fitLocked H sz budget maxSize ttl now False ix = (f, i)" by fastforce
  have "i = ix" using fitLocked_props [OF f] by simp
  moreover have "f \<longrightarrow> sz \<le> maxSize" using f by (auto simp: fitLocked_def split: if_splits)
  ultimately show ?thesis using assms f by (auto simp: Reserve_def split: if_splits)
qed

lemma Discard_reserved [simp]: "reserved (snd (Discard H c ix)) = reserved ix"
  using releaseClaims_frame by (simp add: Discard_def releaseClaimsLocked_def)

lemma receiveSet_cases:
  assumes r: "receiveSet H J P clock now peer root sz nblobs rest ix = (ok, ix')"
    and hl: "hashlib_ok H" and pos: "\<forall>h. 0 \<le> pending ix h" and n: "0 < unat nblobs"
  shows "if ok then
       \<exists>c ix1 mid chunks. grows H (BeginWrite, ix) (c, ix1)
         \<and> completeSet H J (store ix1) root (uint sz) chunks \<and> set (root # chunks) \<subseteq> set c
         \<and> fitLocked H (uint sz) (hostBudget P) (maxPushSize P) (hostTTL P) now True (Release (uint sz) ix1) = (True, mid)
         \<and> ix' = releaseClaims H False c (addHostedLocked clock root (uint sz) chunks peer mid)
     else leavesNothing ix ix' \<and> reserved ix' = max 0 (reserved ix - uint sz)"
proof -
  let ?ps0 = "\<lparr>pushMan = None, pushRecv = 0, pushClaims = BeginWrite, pushIndex = ix\<rparr>"
  let ?r = "take (unat sz + unat nblobs * (maxHashRequestLen + 20)) rest"
  obtain res ps where l: "pushLoop H J root sz nblobs (unat nblobs) 0 ?r ?ps0 = (res, ps)" by fastforce
  from pushLoop_spec [OF l hl] have g: "grows H (BeginWrite, ix) (pushClaims ps, pushIndex ps)"
    and fin: "res = None \<Longrightarrow> \<exists>hs ds. length hs = unat nblobs \<and> storedAs H (store (pushIndex ps)) ds hs
        \<and> set hs \<subseteq> set (pushClaims ps) \<and> checkedFrom H J root nblobs 0 None hs ds (pushMan ps)
        \<and> unat (pushRecv ps) = sum_list (map length ds)" by simp_all
  have gr: "reserved (pushIndex ps) = reserved ix" using g by (simp add: grows_def)
  show ?thesis
  proof (cases "res = None \<and> pushRecv ps = sz")
    case False
    then have "ok = False" "ix' = Release (uint sz) (snd (Discard H (pushClaims ps) (pushIndex ps)))"
      using r l by (auto simp: receiveSet_def Let_def releaseHosted_def split: option.splits if_splits)
    moreover have "leavesNothing ix (snd (Discard H (pushClaims ps) (pushIndex ps)))"
      using discard_leavesNothing [OF g hl pos] by simp
    ultimately show ?thesis using leavesNothing_release gr by (simp add: Release_reserved)
  next
    case True
    let ?chunks = "manChunks (pushMan ps)"
    obtain k c i where cm: "commitHosted H P clock now root (uint sz) ?chunks peer (pushClaims ps) (pushIndex ps) = (k, c, i)"
      by (metis prod_cases3)
    with r l True have ok: "ok = k" "ix' = snd (Discard H c i)"
      by (auto simp: receiveSet_def Let_def split: bool.splits)
    from cm obtain mid where f: "fitLocked H (uint sz) (hostBudget P) (maxPushSize P) (hostTTL P) now True
          (Release (uint sz) (pushIndex ps)) = (k, mid)"
      and yes: "k \<Longrightarrow> releaseClaimsLocked H False (pushClaims ps) (addHostedLocked clock root (uint sz) ?chunks peer mid) = (c, i)"
      and no: "\<not> k \<Longrightarrow> c = pushClaims ps \<and> i = mid"
      by (unfold commitHosted_def) (rule commit_split, blast+)
    note fp = fitLocked_props [OF f]
    show ?thesis
    proof (cases k)
      case False
      have "leavesNothing ix (snd (Discard H (pushClaims ps) mid))"
      proof (rule discard_leavesNothing [OF g hl pos])
        show "set (sets mid) \<subseteq> set (sets (pushIndex ps))" using fp by (auto simp: Release_frame2)
        show "\<forall>h. blobRefs mid h \<subseteq> blobRefs (pushIndex ps) h" using fitLocked_refs_le [OF f] by (simp add: Release_frame2)
        show "\<forall>h. files (store mid) h = files (store (pushIndex ps)) h
           \<or> files (store mid) h = None \<and> pending (pushIndex ps) h = 0 \<and> blobRefs mid h = {}"
          using fp [THEN conjunct2, THEN conjunct2, THEN conjunct2, THEN conjunct1] unfolding Release_frame2 .
      qed (use fp fitLocked_writable [OF f] in \<open>simp_all add: Release_frame2\<close>)
      moreover have "reserved mid = max 0 (reserved ix - uint sz)" using fp gr by (simp add: Release_reserved)
      ultimately show ?thesis using False ok no by simp
    next
      case k: True
      from True fin obtain hs ds where h: "length hs = unat nblobs" "storedAs H (store (pushIndex ps)) ds hs"
        "set hs \<subseteq> set (pushClaims ps)" "checkedFrom H J root nblobs 0 None hs ds (pushMan ps)"
        "unat sz = sum_list (map length ds)" by blast
      from checked_complete [OF h(4,1) n h(2)] h(5) have cs: "completeSet H J (store (pushIndex ps)) root (uint sz) ?chunks"
        "set (root # ?chunks) = set hs" by (auto simp: uint_nat)
      have "ix' = releaseClaims H False (pushClaims ps) (addHostedLocked clock root (uint sz) ?chunks peer mid)"
        using ok yes [OF k] by (auto simp: releaseClaimsLocked_def)
      moreover have "set (root # ?chunks) \<subseteq> set (pushClaims ps)" using cs(2) h(3) by simp
      ultimately have "\<exists>c ix1 mid chunks. grows H (BeginWrite, ix) (c, ix1)
         \<and> completeSet H J (store ix1) root (uint sz) chunks \<and> set (root # chunks) \<subseteq> set c
         \<and> fitLocked H (uint sz) (hostBudget P) (maxPushSize P) (hostTTL P) now True (Release (uint sz) ix1) = (True, mid)
         \<and> ix' = releaseClaims H False c (addHostedLocked clock root (uint sz) chunks peer mid)"
        using g cs(1) f k by (intro exI [of _ "pushClaims ps"] exI [of _ "pushIndex ps"] exI [of _ mid] exI [of _ ?chunks]) simp
      with k ok show ?thesis by simp
    qed
  qed
qed

lemma readPushOffer_pos: "readPushOffer H inp = Inr ((root, sz, nblobs), rest) \<Longrightarrow> 0 < unat nblobs"
  using readPushOffer_Inr by blast

lemma pushOffer_cases:
  assumes "pushOffer H P clock now inp ix = (out, acc, ix1)"
  shows "(case acc of
       None \<Rightarrow> out = [pushHave] \<or> (out = [] \<or> out = [pushDecline]) \<and> ix1 = ix
     | Some (root, sz, nblobs, rest) \<Rightarrow> out = [pushAccept] \<and> readPushOffer H inp = Inr ((root, sz, nblobs), rest)
         \<and> \<not> hasSet root ix \<and> uint sz \<le> maxPushSize P \<and> ix1 = ix\<lparr>reserved := reserved ix + uint sz\<rparr>)"
proof (cases "readPushOffer H inp")
  case (Inl e)
  with assms show ?thesis by (auto simp: pushOffer_def)
next
  case (Inr x)
  obtain root sz nblobs rest where x: "x = ((root, sz, nblobs), rest)" by (metis surj_pair)
  obtain k i where r: "Reserve H (uint sz) (hostBudget P) (maxPushSize P) (hostTTL P) now ix = (k, i)" by fastforce
  from Reserve_cases [OF r] assms Inr x r show ?thesis
    by (auto simp: pushOffer_def reserveHosted_def split: if_splits bool.splits)
qed

text \<open>What holds of the index while a transfer is between its offer and its end.\<close>

lemma release_reserved: "0 \<le> reserved ix \<Longrightarrow> 0 \<le> sz \<Longrightarrow> Release sz (ix\<lparr>reserved := reserved ix + sz\<rparr>) = ix"
  by (simp add: Release_def)

lemma leavesNothing_reserved: "leavesNothing (ix\<lparr>reserved := n\<rparr>) ix' = leavesNothing ix ix'"
  by (simp add: leavesNothing_def)

end
