(* ===== verification/PushHonest.thy ===== *)
theory PushHonest
  imports PushProps
begin

text \<open>
  Both ends of a push together: a peer that holds a set and a peer with room for it. What the pusher
  frames, the receiver's bounded reader reads back whole, and the set arrives.
\<close>

section \<open>Frames fit the receiver's limit\<close>

lemma putUvarint_length_less: "unat x < 128 ^ Suc n \<Longrightarrow> length (putUvarint x) \<le> Suc n"
proof (induction n arbitrary: x)
  case 0
  then have "x < 0x80" by (simp add: word_less_nat_alt)
  then show ?case by (subst putUvarint.simps) simp
next
  case (Suc n)
  show ?case
  proof (cases "x < 0x80")
    case True
    then show ?thesis by (subst putUvarint.simps) simp
  next
    case False
    have "unat (drop_bit 7 x) = unat x div 128" by (simp add: drop_bit_eq_div unat_div_distrib)
    also have "\<dots> < 128 ^ Suc n" using Suc.prems by (simp add: less_mult_imp_div_less mult.commute)
    finally have "length (putUvarint (drop_bit 7 x)) \<le> Suc n" by (rule Suc.IH)
    then show ?thesis using False by (subst putUvarint.simps) simp
  qed
qed

lemma putUvarint_length: "length (putUvarint x) \<le> 10"
proof -
  have "unat x < 2 ^ 64" using unsigned_less [of x, where ?'a = nat] by simp
  then have "unat x < 128 ^ Suc 9" by (rule order_less_trans) simp
  then show ?thesis using putUvarint_length_less [of x 9] by simp
qed

lemma blobFrame_length: "requestOk h \<Longrightarrow> length (blobFrame h d) \<le> length d + (maxHashRequestLen + 20)"
  using putUvarint_length [of "of_nat (length h)"] putUvarint_length [of "word_of_int (int (length d))"]
  by (simp add: blobFrame_def writeRequest_def writeBlobHeader_def requestOk_def)

definition frames :: "string list \<Rightarrow> bytes list \<Rightarrow> bytes" where
  "frames hs ds = concat (map2 blobFrame hs ds)"

lemma frames_simps [simp]: "frames [] ds = []" "frames (h # hs) (d # ds) = blobFrame h d @ frames hs ds"
  by (simp_all add: frames_def)

lemma frames_length:
  "length hs = length ds \<Longrightarrow> list_all requestOk hs \<Longrightarrow>
     length (frames hs ds) \<le> sum_list (map length ds) + length hs * (maxHashRequestLen + 20)"
proof (induction hs ds rule: list_induct2)
  case (Cons h hs d ds)
  then show ?case using blobFrame_length [of h d] by simp
qed simp

section \<open>The receiver reads what the pusher frames\<close>

abbreviation blobsOf :: "blobStore \<Rightarrow> bytes set" where
  "blobsOf st \<equiv> ran (files st)"

lemma storePut_succeeds:
  assumes "writable st" and "length d \<le> MaxBlobSize" and "ContentHash H d = Inr h"
  shows "\<exists>st'. storePut H st d = (Inr h, st') \<and> writable st' \<and> blobsOf st' \<subseteq> insert d (blobsOf st)"
  using assms by (auto simp: storePut_def ran_def)

lemma read_frame:
  assumes "requestOk h" and "blobOk mx d"
  shows "readRequest (blobFrame h d @ rest) = Inr (h, writeBlob d @ rest)"
    and "readBlobMax mx (writeBlob d @ rest) = Inr (d, rest)"
  using request.rd_enc [OF assms(1), of "writeBlob d @ rest"] blob.rd_enc [OF assms(2), of rest]
  by (simp_all add: blobFrame_def writeBlob_def)

lemma pushLoop_honest:
  "list_all2 (\<lambda>d h. ContentHash H d = Inr h) ds hs \<Longrightarrow> checkedFrom H J root nblobs i (pushMan ps) hs ds man' \<Longrightarrow>
     list_all requestOk hs \<Longrightarrow> list_all (\<lambda>d. d \<noteq> [] \<and> length d \<le> MaxBlobSize) ds \<Longrightarrow>
     unat (pushRecv ps) + sum_list (map length ds) \<le> unat sz \<Longrightarrow> writable (store (pushIndex ps)) \<Longrightarrow>
     \<exists>ps'. pushLoop H J root sz nblobs (length hs) i (frames hs ds) ps = (None, ps') \<and> pushMan ps' = man'
       \<and> unat (pushRecv ps') = unat (pushRecv ps) + sum_list (map length ds)
       \<and> blobsOf (store (pushIndex ps')) \<subseteq> blobsOf (store (pushIndex ps)) \<union> set ds"
proof (induction hs arbitrary: i ds ps)
  case Nil
  then show ?case by simp
next
  case (Cons h hs)
  then obtain d es where ds: "ds = d # es" by (cases ds) auto
  from Cons.prems ds have hd: "ContentHash H d = Inr h" "requestOk h" "d \<noteq> []" "length d \<le> MaxBlobSize"
    and le: "unat (pushRecv ps) + length d + sum_list (map length es) \<le> unat sz" by auto
  from Cons.prems(2) ds obtain man where man: "checkBlob H J root nblobs i h d (pushMan ps) = Inr man"
    and ck: "checkedFrom H J root nblobs (Suc i) man hs es man'" by auto
  have room: "unat (sz - pushRecv ps) = unat sz - unat (pushRecv ps)" using le by (simp add: unat_sub word_le_nat_alt)
  have "length d \<le> unat (sz - pushRecv ps)" using le room by simp
  then have bok: "blobOk (sz - pushRecv ps) d" using hd by (simp add: blobOk_def)
  have rv: "unat (pushRecv ps + word_of_int (int (length d))) = unat (pushRecv ps) + length d"
    using received_add [of "pushRecv ps" sz "length d"] le room by simp
  note rf = read_frame [OF hd(2) bok, of "frames hs es"]
  obtain c ix1 where cl: "Claim h (pushClaims ps) (pushIndex ps) = (c, ix1)" by fastforce
  then have "writable (store ix1)" and s1: "store ix1 = store (pushIndex ps)" using Cons.prems(6) by (auto simp: Claim_def)
  from storePut_succeeds [OF this(1) hd(4,1)] obtain st where put: "storePut H (store ix1) d = (Inr h, st)" "writable st"
    and sub: "blobsOf st \<subseteq> insert d (blobsOf (store ix1))" by blast
  let ?ps = "\<lparr>pushMan = man, pushRecv = pushRecv ps + word_of_int (int (length d)), pushClaims = c,
              pushIndex = ix1\<lparr>store := st\<rparr>\<rparr>"
  have step: "pushLoop H J root sz nblobs (length (h # hs)) i (frames (h # hs) ds) ps =
      pushLoop H J root sz nblobs (length hs) (Suc i) (frames hs es) ?ps"
    using rf hd(1) man cl put(1) by (simp add: ds)
  have "\<exists>ps'. pushLoop H J root sz nblobs (length hs) (Suc i) (frames hs es) ?ps = (None, ps') \<and> pushMan ps' = man'
       \<and> unat (pushRecv ps') = unat (pushRecv ?ps) + sum_list (map length es)
       \<and> blobsOf (store (pushIndex ps')) \<subseteq> blobsOf (store (pushIndex ?ps)) \<union> set es"
    by (rule Cons.IH) (use Cons.prems ds ck le rv put(2) in simp_all)
  then obtain ps' where "pushLoop H J root sz nblobs (length hs) (Suc i) (frames hs es) ?ps = (None, ps')" "pushMan ps' = man'"
    "unat (pushRecv ps') = unat (pushRecv ?ps) + sum_list (map length es)"
    "blobsOf (store (pushIndex ps')) \<subseteq> blobsOf st \<union> set es" by auto
  moreover from this(4) sub s1 have "blobsOf (store (pushIndex ps')) \<subseteq> blobsOf (store (pushIndex ps)) \<union> set ds"
    by (auto simp: ds)
  ultimately show ?case using step rv ds by auto
qed

section \<open>The set a pusher offers\<close>

text \<open>The pusher's store holds the blob and, for a manifest, every chunk it names, at its length; the
  hashes fit a request.\<close>

definition holdsSet :: "hashlib \<Rightarrow> manifestJson \<Rightarrow> blobStore \<Rightarrow> string \<Rightarrow> bool" where
  "holdsSet H J st root \<longleftrightarrow> storeOk H st \<and> requestOk root \<and>
     (\<exists>blob. storeGet H st root = Inr blob \<and> blob \<noteq> [] \<and> length blob \<le> MaxBlobSize \<and>
        (case DecodeManifest H J blob of
           None \<Rightarrow> True
         | Some m \<Rightarrow> list_all requestOk (mChunks m) \<and> (\<exists>ds. localPieces H st m 0 ds)))"

lemma checked_chunks_honest:
  "i + length ds = length (mChunks m) \<Longrightarrow> \<forall>j < length ds. int (length (ds ! j)) = ChunkLen m (i + j) \<Longrightarrow>
     checkedFrom H J root nblobs (Suc i) (Some m) (drop i (mChunks m)) ds (Some m)"
proof (induction ds arbitrary: i)
  case (Cons d ds)
  have "drop i (mChunks m) = (mChunks m ! i) # drop (Suc i) (mChunks m)"
    using Cons.prems(1) by (simp add: Cons_nth_drop_Suc)
  moreover have "int (length d) = ChunkLen m i" using Cons.prems(2) by fastforce
  moreover have "checkedFrom H J root nblobs (Suc (Suc i)) (Some m) (drop (Suc i) (mChunks m)) ds (Some m)"
  proof (rule Cons.IH)
    show "\<forall>j < length ds. int (length (ds ! j)) = ChunkLen m (Suc i + j)"
    proof (intro allI impI)
      fix j assume "j < length ds"
      with Cons.prems(2) [rule_format, of "Suc j"] show "int (length (ds ! j)) = ChunkLen m (Suc i + j)" by simp
    qed
  qed (use Cons.prems(1) in simp)
  ultimately show ?case using Cons.prems(1) by (simp add: checkBlob_def)
qed simp

lemma sendBlobs_frames:
  "list_all2 (\<lambda>d h. storeGet H st h = Inr d) ds hs \<Longrightarrow> sendBlobs H st sent hs = Inr (sent @ frames hs ds)"
proof (induction hs arbitrary: ds sent)
  case (Cons h hs)
  then obtain d es where ds: "ds = d # es" "storeGet H st h = Inr d" "list_all2 (\<lambda>d h. storeGet H st h = Inr d) es hs"
    by (cases ds) auto
  then have "storeOpen H st h = Inr (d, int (length d))" by (simp add: storeOpen_def storeGet_Inr)
  with Cons.IH [OF ds(3)] ds(1) show ?case by simp
qed simp

text \<open>Everything the two ends need to know about an offered set.\<close>

lemma holdsSet_blobs:
  assumes held: "holdsSet H J st root" and ld: "loadContentSet H J st root = Inr cset"
  obtains ds man where
    "csRoot cset = root" "IsContentHash H root"
    "list_all2 (\<lambda>d h. storeGet H st h = Inr d) ds (csRoot cset # csChunks cset)"
    "list_all requestOk (csRoot cset # csChunks cset)"
    "list_all (\<lambda>d. d \<noteq> [] \<and> length d \<le> MaxBlobSize) ds"
    "csSize cset = int (sum_list (map length ds))" "0 < csSize cset"
    "unat (numBlobs cset) = length (csRoot cset # csChunks cset)" "unat (numBlobs cset) \<le> 1 + MaxManifestChunks"
    "checkedFrom H J root (numBlobs cset) 0 None (csRoot cset # csChunks cset) ds man"
    "manChunks man = csChunks cset"
proof -
  from held obtain blob where blob: "storeGet H st root = Inr blob" "blob \<noteq> []" "length blob \<le> MaxBlobSize"
    and pieces: "\<And>m. DecodeManifest H J blob = Some m \<Longrightarrow> list_all requestOk (mChunks m) \<and> (\<exists>ds. localPieces H st m 0 ds)"
    and ok: "requestOk root" "storeOk H st"
    by (auto simp: holdsSet_def split: option.splits)
  have root: "IsContentHash H root" using blob(1) by (simp add: storeGet_Inr)
  have big: "1 + MaxManifestChunks < 2 ^ 64" by (simp add: MaxManifestChunks_def MaxContentSize_def ChunkSizeC_def)
  show thesis
  proof (cases "DecodeManifest H J blob")
    case None
    with ld blob have c: "cset = \<lparr>csRoot = root, csSize = int (length blob), csChunks = []\<rparr>"
      by (auto simp: loadContentSet_def Let_def)
    show thesis
      by (rule that [of "[blob]" None]) (use c root blob ok None in \<open>auto simp: numBlobs_def checkBlob_def\<close>)
  next
    case (Some m)
    with ld blob have c: "cset = \<lparr>csRoot = root, csSize = int (length blob) + TotalSize m, csChunks = mChunks m\<rparr>"
      by (auto simp: loadContentSet_def Let_def)
    from pieces [OF Some] obtain ds where rq: "list_all requestOk (mChunks m)" and lp: "localPieces H st m 0 ds" by blast
    note dm = DecodeManifest_Some [OF Some]
    from lp have l: "length ds = length (mChunks m)" and g: "\<forall>j < length ds. storeGet H st (mChunks m ! j) = Inr (ds ! j)"
      and cl: "\<forall>j < length ds. int (length (ds ! j)) = ChunkLen m j" by (auto simp: pieces_def)
    have n: "unat (numBlobs cset) = 1 + length (mChunks m)"
      using c word_count [of "1 + length (mChunks m)"] dm(5) big by (simp add: numBlobs_def)
    have len: "1 \<le> ChunkLen m j \<and> ChunkLen m j \<le> int MaxBlobSize" for j
      using dm(2,3,6,7) by (simp add: ChunkLen_def algebra_simps)
    have "int (sum_list (map length ds)) = (\<Sum>j < length ds. int (length (ds ! j)))"
      by (simp add: sum_list_sum_nth atLeast0LessThan)
    also have "\<dots> = (\<Sum>j < length (mChunks m). ChunkLen m j)" using cl l by simp
    also have "\<dots> = TotalSize m" using dm(4) by (intro sum_ChunkLen) auto
    finally have t: "TotalSize m = int (sum_list (map length ds))" ..
    have nb: "numBlobs cset = word_of_int (int (1 + length (mChunks m)))" using c by (simp add: numBlobs_def)
    have ck: "checkedFrom H J root (numBlobs cset) 0 None (root # mChunks m) (blob # ds) (Some m)"
      using checked_chunks_honest [of 0 ds m H J root "numBlobs cset"] l cl Some nb by (simp add: checkBlob_def)
    have sz: "list_all (\<lambda>d. d \<noteq> [] \<and> length d \<le> MaxBlobSize) ds"
    proof (unfold list_all_length, intro allI impI)
      fix j assume "j < length ds"
      with cl len [of j] show "ds ! j \<noteq> [] \<and> length (ds ! j) \<le> MaxBlobSize" by fastforce
    qed
    have "list_all2 (\<lambda>d h. storeGet H st h = Inr d) ds (mChunks m)" using g l by (simp add: list_all2_conv_all_nth)
    moreover have "0 < int (length blob) + int k" for k using blob(2) by (cases blob) simp_all
    ultimately show thesis
      by (intro that [of "blob # ds" "Some m"])
        (use c root blob ok rq sz ck t n dm(5) in \<open>simp_all del: checkedFrom.simps\<close>)
  qed
qed

section \<open>The whole exchange\<close>

lemma hostedBytes_grows: "grows H (c, ix) (c', ix') \<Longrightarrow> hostedBytes ix' = hostedBytes ix"
  by (simp add: grows_def hostedBytes_def)

lemma hostedBytes_release: "0 \<le> reserved ix \<Longrightarrow> 0 \<le> sz \<Longrightarrow> reserved ix' = reserved ix + sz \<Longrightarrow>
    hostedBytes ix' = hostedBytes ix + sz \<Longrightarrow> hostedBytes (Release sz ix') = hostedBytes ix"
  by (simp add: hostedBytes_def Release_def)

lemma Reserve_room:
  "sz \<le> maxSize \<Longrightarrow> sz \<le> budget \<Longrightarrow> hostedBytes ix + sz \<le> budget \<Longrightarrow>
     Reserve H sz budget maxSize ttl now ix = (True, ix\<lparr>reserved := reserved ix + sz\<rparr>)"
  by (simp add: Reserve_def fitLocked_room)

text \<open>The receiver has room for \<open>sz\<close> more bytes and can write them.\<close>

definition hasRoom :: "hostingPolicy \<Rightarrow> contentIndex \<Rightarrow> int \<Rightarrow> bool" where
  "hasRoom P ix sz \<longleftrightarrow> sz \<le> maxPushSize P \<and> sz \<le> hostBudget P \<and> hostedBytes ix + sz \<le> hostBudget P
     \<and> 0 \<le> reserved ix \<and> (\<forall>h. 0 \<le> pending ix h) \<and> writable (store ix)"

lemma receive_honest:
  assumes held: "holdsSet H J st root" and ld: "loadContentSet H J st root = Inr cset"
    and small: "csSize cset \<le> int MaxContentSize"
    and room: "hasRoom P ix (csSize cset)" and fresh: "\<not> hasSet root ix"
  obtains sent ix' m where
    "sendBlobs H st (writePushOffer root (word_of_int (csSize cset)) (numBlobs cset)) (root # csChunks cset) = Inr sent"
    "fst (pushOffer H P (fst t1) (snd t1) (writePushOffer root (word_of_int (csSize cset)) (numBlobs cset)) ix) = [pushAccept]"
    "handlePushStream H J P t1 t2 peer True sent ix = ([pushAccept, 1], ix')"
    "map_of (sets ix') root = Some m" "Size m = csSize cset" "Chunks m = csChunks cset"
    "blobsOf (store ix') \<subseteq> blobsOf (store ix) \<union> blobsOf st"
proof -
  from held have hl: "hashlib_ok H" and stok: "storeOk H st" and rq: "requestOk root"
    by (auto simp: holdsSet_def storeOk_def)
  obtain ds man where root: "csRoot cset = root" "IsContentHash H root"
    and g: "list_all2 (\<lambda>d h. storeGet H st h = Inr d) ds (csRoot cset # csChunks cset)"
    and rqs: "list_all requestOk (csRoot cset # csChunks cset)"
    and szs: "list_all (\<lambda>d. d \<noteq> [] \<and> length d \<le> MaxBlobSize) ds"
    and tot: "csSize cset = int (sum_list (map length ds))" "0 < csSize cset"
    and nb: "unat (numBlobs cset) = length (csRoot cset # csChunks cset)" "unat (numBlobs cset) \<le> 1 + MaxManifestChunks"
    and ck: "checkedFrom H J root (numBlobs cset) 0 None (csRoot cset # csChunks cset) ds man"
    and mc: "manChunks man = csChunks cset" by (rule holdsSet_blobs [OF held ld])
  let ?sz = "word_of_int (csSize cset) :: 64 word" and ?hs = "root # csChunks cset"
  let ?offer = "writePushOffer root ?sz (numBlobs cset)"
  have "sum_list (map length ds) < 2 ^ 64" using small tot(1) by (simp add: MaxContentSize_def)
  then have usz: "unat ?sz = sum_list (map length ds)" using word_count tot(1) by simp
  then have isz: "uint ?sz = csSize cset" using tot(1) by (simp add: uint_nat)
  have "offerOk H (root, ?sz, numBlobs cset)"
    using rq root usz tot small nb by (auto simp: offerOk_def)
  from offer.rd_enc [OF this] have offer: "readPushOffer H (?offer @ r) = Inr ((root, ?sz, numBlobs cset), r)" for r by simp
  let ?ix1 = "ix\<lparr>reserved := reserved ix + csSize cset\<rparr>"
  have po: "pushOffer H P (fst t1) (snd t1) (?offer @ r) ix = ([pushAccept], Some (root, ?sz, numBlobs cset, r), ?ix1)" for r
    using offer fresh Reserve_room room isz by (simp add: pushOffer_def reserveHosted_def hasRoom_def)
  have sent: "sendBlobs H st ?offer ?hs = Inr (?offer @ frames ?hs ds)"
    using sendBlobs_frames [OF g [unfolded root(1)]] .
  have hashes: "list_all2 (\<lambda>d h. ContentHash H d = Inr h) ds ?hs"
    using g root storeGet_addr [OF stok] by (auto elim!: list_all2_mono)
  let ?ps0 = "\<lparr>pushMan = None, pushRecv = 0, pushClaims = BeginWrite, pushIndex = ?ix1\<rparr>"
  have "\<exists>ps. pushLoop H J root ?sz (numBlobs cset) (length ?hs) 0 (frames ?hs ds) ?ps0 = (None, ps) \<and> pushMan ps = man
      \<and> unat (pushRecv ps) = unat (pushRecv ?ps0) + sum_list (map length ds)
      \<and> blobsOf (store (pushIndex ps)) \<subseteq> blobsOf (store (pushIndex ?ps0)) \<union> set ds"
    by (rule pushLoop_honest) (use hashes ck root rqs szs usz room in \<open>simp_all add: hasRoom_def\<close>)
  then obtain ps where l: "pushLoop H J root ?sz (numBlobs cset) (length ?hs) 0 (frames ?hs ds) ?ps0 = (None, ps)"
    and ps: "pushMan ps = man" "unat (pushRecv ps) = sum_list (map length ds)"
    and new: "blobsOf (store (pushIndex ps)) \<subseteq> blobsOf (store ix) \<union> set ds" by auto
  have recv: "pushRecv ps = ?sz" using ps(2) usz by (simp add: word_unat_eq_iff)
  have "length ?hs = length ds" using hashes by (simp add: list_all2_lengthD)
  from frames_length [OF this] rqs root nb(1) usz
  have lim: "take (unat ?sz + unat (numBlobs cset) * (maxHashRequestLen + 2 * 10)) (frames ?hs ds) = frames ?hs ds"
    by simp
  from pushLoop_spec [OF l hl] have gr: "grows H (BeginWrite, ?ix1) (pushPair ps)" by simp
  have "hostedBytes (pushIndex ps) = hostedBytes ix + csSize cset" "reserved (pushIndex ps) = reserved ix + csSize cset"
    using hostedBytes_grows gr by (auto simp: hostedBytes_def grows_def)
  then have "hostedBytes (Release (csSize cset) (pushIndex ps)) = hostedBytes ix"
    using room tot(2) by (intro hostedBytes_release) (simp_all add: hasRoom_def)
  then have fit: "fitLocked H (csSize cset) (hostBudget P) (maxPushSize P) (hostTTL P) (snd t2) True
      (Release (csSize cset) (pushIndex ps)) = (True, Release (csSize cset) (pushIndex ps))"
    using room by (intro fitLocked_room) (simp_all add: hasRoom_def)
  let ?ah = "addHostedLocked (fst t2) root (csSize cset) (csChunks cset) peer (Release (csSize cset) (pushIndex ps))"
  let ?last = "releaseClaims H False (pushClaims ps) ?ah"
  have cm: "commitHosted H P (fst t2) (snd t2) root (csSize cset) (csChunks cset) peer (pushClaims ps) (pushIndex ps) = (True, [], ?last)"
    using fit by (simp add: commitHosted_def CommitHosted_def releaseClaimsLocked_def)
  have rs: "receiveSet H J P (fst t2) (snd t2) peer root ?sz (numBlobs cset) (frames ?hs ds) ?ix1 = (True, ?last)"
    using l lim nb(1) root recv ps(1) mc isz cm by (simp add: receiveSet_def Let_def)
  have none: "map_of (sets (Release (csSize cset) (pushIndex ps))) root = None"
    using gr fresh by (simp add: grows_def hasSet_def Release_frame2)
  let ?m = "\<lparr>Owned = False, Size = csSize cset, Chunks = csChunks cset, StoredAt = fst t2, LastAccess = fst t2, From = peer\<rparr>"
  have "map_of (sets ?last) root = Some ?m"
    using none releaseClaims_frame [of H False "pushClaims ps" ?ah]
    by (simp add: addHostedLocked_def Let_def reference_def putSet_def map_of_append map_add_def)
  moreover have "blobsOf (store ?last) \<subseteq> blobsOf (store ix) \<union> blobsOf st"
  proof -
    have "set ds \<subseteq> blobsOf st"
      using g by (auto simp: list_all2_conv_all_nth in_set_conv_nth storeGet_Inr ran_def) (metis)
    moreover have "store ?last = store (pushIndex ps)"
      using none by (simp add: releaseClaims_keep_store addHostedLocked_def Let_def reference_def Release_frame2)
    ultimately show ?thesis using new by auto
  qed
  ultimately show thesis
    using that [of "?offer @ frames ?hs ds" ?last ?m] sent po [of "[]"] po [of "frames ?hs ds"] rs
    by (simp add: handlePushStream_def)
qed

lemma pushOnStream_accepted:
  assumes "T (writePushOffer (csRoot cset) (word_of_int (csSize cset)) (numBlobs cset)) = Some [pushAccept]"
    and "sendBlobs H st (writePushOffer (csRoot cset) (word_of_int (csSize cset)) (numBlobs cset)) (csRoot cset # csChunks cset) = Inr sent"
    and "T sent = Some [pushAccept, 1]"
  shows "pushOnStream H st T cset = (pushAccept, None)"
  using assms by (simp add: pushOnStream_def readStatusByte_def Let_def)

lemma loadContentSet_root: "loadContentSet H J st root = Inr cset \<Longrightarrow> csRoot cset = root"
  by (auto simp: loadContentSet_def bindR_Inr_iff Let_def split: option.splits)

section \<open>A small exchange\<close>

definition demoJson :: manifestJson where
  "demoJson = \<lparr>jsonEncode = (\<lambda>_. None), jsonDecode = (\<lambda>_. None)\<rparr>"

definition demoPolicy :: hostingPolicy where
  "demoPolicy = \<lparr>hostBudget = 100, maxPushSize = 100, hostTTL = 0\<rparr>"

definition demoSet :: contentSet where
  "demoSet = \<lparr>csRoot = demoHash, csSize = 1, csChunks = []\<rparr>"

definition holderStore :: blobStore where
  "holderStore = \<lparr>files = [demoHash \<mapsto> [0]], writable = True\<rparr>"

definition emptyIndex :: contentIndex where
  "emptyIndex = \<lparr>sets = [], blobRefs = (\<lambda>_. {}), pending = (\<lambda>_. 0), reserved = 0, dirty = False, saved = None,
     store = \<lparr>files = Map.empty, writable = True\<rparr>\<rparr>"

definition demoOffer :: bytes where
  "demoOffer = writePushOffer demoHash (word_of_int (csSize demoSet)) (numBlobs demoSet)"

lemma holder_blob: "storeGet demoHashlib holderStore demoHash = Inr [0]"
  using demoHash_content by (simp add: storeGet_Inr holderStore_def)

lemma demo_no_manifest: "DecodeManifest H demoJson data = None"
  by (simp add: DecodeManifest_def demoJson_def)

lemma holder_holds: "holdsSet demoHashlib demoJson holderStore demoHash"
  using demoHashlib_ok demo_zero demoHash_request holder_blob
  by (simp add: holdsSet_def storeOk_def holderStore_def demo_no_manifest MaxBlobSize_def)

lemma holder_loads: "loadContentSet demoHashlib demoJson holderStore demoHash = Inr demoSet"
  by (simp add: loadContentSet_def holder_blob demo_no_manifest demoSet_def Let_def)

lemma demo_room: "hasRoom demoPolicy emptyIndex (csSize demoSet)" "\<not> hasSet demoHash emptyIndex"
  "csSize demoSet \<le> int MaxContentSize"
  by (simp_all add: hasRoom_def demoPolicy_def emptyIndex_def demoSet_def hostedBytes_def hasSet_def MaxContentSize_def)

lemma demo_exchange:
  obtains sent ix' m where
    "sendBlobs demoHashlib holderStore demoOffer (demoHash # csChunks demoSet) = Inr sent" "sent \<noteq> demoOffer"
    "handlePushStream demoHashlib demoJson demoPolicy (0, 0) (1, 1) ''p'' True sent emptyIndex = ([pushAccept, 1], ix')"
    "map_of (sets ix') demoHash = Some m"
proof -
  have "sendBlobs demoHashlib holderStore demoOffer (demoHash # csChunks demoSet) = Inr (demoOffer @ blobFrame demoHash [0])"
    using holder_blob by (simp add: storeOpen_def storeGet_Inr demoSet_def)
  then have sent: "sendBlobs demoHashlib holderStore (writePushOffer demoHash (word_of_int (csSize demoSet)) (numBlobs demoSet))
      (demoHash # csChunks demoSet) = Inr (demoOffer @ blobFrame demoHash [0])"
    unfolding demoOffer_def .
  have ne: "demoOffer @ blobFrame demoHash [0] \<noteq> demoOffer" by (simp add: blobFrame_def)
  obtain s2 ix' m where "sendBlobs demoHashlib holderStore (writePushOffer demoHash (word_of_int (csSize demoSet)) (numBlobs demoSet))
      (demoHash # csChunks demoSet) = Inr s2"
    and h: "handlePushStream demoHashlib demoJson demoPolicy (0, 0) (1, 1) ''p'' True s2 emptyIndex = ([pushAccept, 1], ix')"
      "map_of (sets ix') demoHash = Some m"
    by (rule receive_honest [OF holder_holds holder_loads demo_room(3,1,2), of "(0, 0)" "(1, 1)" "''p''"])
  with sent have "s2 = demoOffer @ blobFrame demoHash [0]" by simp
  with sent ne h show thesis by (intro that [of s2]) (simp_all flip: demoOffer_def)
qed

text \<open>An accepted push, and the set it leaves.\<close>

lemma accepted_push:
  assumes "handlePushStream H J P t1 t2 peer ackOk inp ix = ([pushAccept, 1], ix')"
    and "hashlib_ok H" and "\<forall>h. 0 \<le> pending ix h" and "0 \<le> reserved ix"
  shows "(storeOk H (store ix) \<longrightarrow> storeOk H (store ix')) \<and>
     (\<exists>root sz nblobs rest m. readPushOffer H inp = Inr ((root, sz, nblobs), rest)
       \<and> map_of (sets ix') root = Some m \<and> \<not> Owned m \<and> Size m = uint sz \<and> From m = peer
       \<and> completeSet H J (store ix') root (Size m) (Chunks m)
       \<and> Size m \<le> maxPushSize P \<and> hostedBytes ix' \<le> hostBudget P
       \<and> reserved ix' = reserved ix \<and> pending ix' = pending ix)"
proof -
  obtain o1 acc ix1 where po: "pushOffer H P (fst t1) (snd t1) inp ix = (o1, acc, ix1)" by (metis prod_cases3)
  note pc = pushOffer_cases [OF po]
  have "acc \<noteq> None"
  proof
    assume "acc = None"
    with assms(1) po pc show False by (auto simp: handlePushStream_def)
  qed
  then obtain root sz nblobs rest where acc: "acc = Some (root, sz, nblobs, rest)" by auto
  with pc have o: "o1 = [pushAccept]" and offer: "readPushOffer H inp = Inr ((root, sz, nblobs), rest)"
    and fresh: "\<not> hasSet root ix" and mx: "uint sz \<le> maxPushSize P"
    and i1: "ix1 = ix\<lparr>reserved := reserved ix + uint sz\<rparr>" by auto
  have ack: ackOk using assms(1) po acc by (auto simp: handlePushStream_def split: if_splits)
  obtain ok ix2 where rs: "receiveSet H J P (fst t2) (snd t2) peer root sz nblobs rest ix1 = (ok, ix2)" by fastforce
  with assms(1) po acc ack o have ok: "ok = True" "ix' = ix2"
    by (auto simp: handlePushStream_def split: bool.splits)
  from receiveSet_cases [OF rs assms(2) _ readPushOffer_pos [OF offer]] assms(3) ok i1 obtain c i2 mid chunks where
    g: "grows H (BeginWrite, ix1) (c, i2)" and cs: "completeSet H J (store i2) root (uint sz) chunks"
    and cl: "set (root # chunks) \<subseteq> set c"
    and f: "fitLocked H (uint sz) (hostBudget P) (maxPushSize P) (hostTTL P) (snd t2) True (Release (uint sz) i2) = (True, mid)"
    and fin: "ix' = releaseClaims H False c (addHostedLocked (fst t2) root (uint sz) chunks peer mid)" by auto
  note fp = fitLocked_props [OF f]
  have p: "pending i2 h = pending ix h + int (count_list c h)" for h using g i1 by (auto simp: grows_def BeginWrite_def)
  have "sets i2 = sets ix" "reserved i2 = reserved ix + uint sz" using g i1 by (auto simp: grows_def)
  then have ss: "set (sets mid) \<subseteq> set (sets ix)" and rm: "reserved mid = reserved ix"
    using fp assms(4) by (auto simp: Release_frame2 Release_reserved)
  from fresh ss have none: "map_of (sets mid) root = None"
    by (auto simp: hasSet_def map_of_eq_None_iff)
  let ?m = "\<lparr>Owned = False, Size = uint sz, Chunks = chunks, StoredAt = fst t2, LastAccess = fst t2, From = peer\<rparr>"
  let ?ah = "addHostedLocked (fst t2) root (uint sz) chunks peer mid"
  have ah: "sets ?ah = sets mid @ [(root, ?m)]" "store ?ah = store mid" "pending ?ah = pending mid" "reserved ?ah = reserved mid"
    using none by (simp_all add: addHostedLocked_def Let_def reference_def putSet_def)
  note fr = releaseClaims_frame [of H False c ?ah]
  have m: "map_of (sets ix') root = Some ?m" using fin fr ah(1) none by (simp add: map_of_append map_add_def)
  have keep: "files (store mid) h \<noteq> None" if "h \<in> set (root # chunks)" "files (store i2) h \<noteq> None" for h
  proof -
    have "0 < count_list c h" using that(1) cl by (metis count_list_0_iff subsetD gr0I)
    then have "pending i2 h \<noteq> 0" using p [of h] assms(3) by (smt (verit) of_nat_0_less_iff)
    then have "files (store mid) h = files (store i2) h" using fp by (simp only: Release_frame2) blast
    with that(2) show ?thesis by simp
  qed
  have "store ix' = store mid" using fin fr ah(2) by simp
  with cs keep have "completeSet H J (store ix') root (uint sz) chunks" by (simp add: completeSet_def)
  moreover have "hostedBytes ix' \<le> hostBudget P"
  proof -
    have "hostedBytes ?ah = hostedBytes mid + uint sz" unfolding hostedBytes_def using ah by simp
    then show ?thesis using fin fp releaseClaims_hosted by simp
  qed
  moreover have "pending ix' = pending ix"
  proof
    fix h
    have "\<forall>h. int (count_list c h) \<le> pending ?ah h" using p assms(3) fp ah(3) by (simp add: Release_frame2)
    from releaseClaims_pending [OF this, of H False h] show "pending ix' h = pending ix h"
      using fin ah(3) fp p by (simp add: Release_frame2)
  qed
  moreover have "reserved ix' = reserved ix" using fin fr ah(4) rm by simp
  moreover have "storeOk H (store ix')" if "storeOk H (store ix)"
  proof -
    from that g i1 have "storeOk H (store (Release (uint sz) i2))" by (auto simp: grows_def Release_frame2)
    from storeOk_shrinks [OF fitLocked_shrinks [OF f] this] \<open>store ix' = store mid\<close> show ?thesis by simp
  qed
  ultimately show ?thesis using offer m mx by auto
qed

text \<open>C23: a push that is not accepted leaves nothing behind. Whatever the sender streams, if the
  receiver's last word is not an acceptance (and not that it has the set already), then claims and
  reservations are as before, no set was added, a blob that was written stays only if a recorded set
  or another transfer wants it, and a blob that was there goes only if nobody does.\<close>

theorem rejected_push_leaves_nothing:
  assumes "handlePushStream H J P t1 t2 peer ackOk inp ix = (out, ix')"
    and "out \<noteq> [pushAccept, 1]" and "out \<noteq> [pushHave]"
    and "hashlib_ok H" and "\<forall>h. 0 \<le> pending ix h" and "0 \<le> reserved ix"
  shows "leavesNothing ix ix' \<and> reserved ix' = reserved ix"
proof -
  obtain o1 acc ix1 where po: "pushOffer H P (fst t1) (snd t1) inp ix = (o1, acc, ix1)" by (metis prod_cases3)
  note pc = pushOffer_cases [OF po]
  show ?thesis
  proof (cases acc)
    case None
    with assms(1) po have "out = o1" "ix' = ix1" by (simp_all add: handlePushStream_def)
    with pc None assms(3) show ?thesis by auto
  next
    case (Some y)
    obtain root sz nblobs rest where y: "y = (root, sz, nblobs, rest)" by (metis surj_pair)
    from pc Some y have o: "o1 = [pushAccept]" and offer: "readPushOffer H inp = Inr ((root, sz, nblobs), rest)"
      and i1: "ix1 = ix\<lparr>reserved := reserved ix + uint sz\<rparr>" by auto
    show ?thesis
    proof (cases ackOk)
      case False
      with assms(1) po Some y have "ix' = Release (uint sz) ix1" by (simp add: handlePushStream_def releaseHosted_def)
      then have "ix' = ix" using i1 release_reserved [OF assms(6), of "uint sz"] by simp
      then show ?thesis by simp
    next
      case True
      obtain ok ix2 where rs: "receiveSet H J P (fst t2) (snd t2) peer root sz nblobs rest ix1 = (ok, ix2)" by fastforce
      with assms(1,2) po Some y True o have ok: "ok = False" "ix' = ix2"
        by (auto simp: handlePushStream_def split: bool.splits if_splits)
      have "leavesNothing ix1 ix2 \<and> reserved ix2 = max 0 (reserved ix1 - uint sz)"
        using receiveSet_cases [OF rs assms(4) _ readPushOffer_pos [OF offer]] assms(5) ok i1 by simp
      then show ?thesis using ok i1 assms(6) by (simp add: leavesNothing_reserved)
    qed
  qed
qed

theorem rejected_push_leaves_nothing_witness:
  "\<exists>ix'. handlePushStream demoHashlib demoJson demoPolicy (0, 0) (1, 1) ''p'' True demoOffer emptyIndex = ([pushAccept, 0], ix')
     \<and> leavesNothing emptyIndex ix' \<and> reserved ix' = 0"
proof -
  have "offerOk demoHashlib (demoHash, 1, 1)"
    using demoHash_request demoHash_content by (simp add: offerOk_def MaxContentSize_def)
  from offer.rd_enc [OF this, of "[]"] have "readPushOffer demoHashlib demoOffer = Inr ((demoHash, 1, 1), [])"
    by (simp add: demoOffer_def demoSet_def numBlobs_def)
  then have po: "pushOffer demoHashlib demoPolicy 0 0 demoOffer emptyIndex =
      ([pushAccept], Some (demoHash, 1, 1, []), emptyIndex\<lparr>reserved := 1\<rparr>)"
    using Reserve_room [of 1 100 100 emptyIndex demoHashlib 0 0]
    by (simp add: pushOffer_def reserveHosted_def demoPolicy_def hasSet_def) (simp add: emptyIndex_def hostedBytes_def)
  have e: "readRequest [] = Inl ErrEOF" by (simp add: readRequest_def readUvarint_def numeral_eq_Suc)
  have "pushLoop demoHashlib demoJson demoHash 1 1 (unat (1 :: 64 word)) 0 [] ps = (Some (PushHeader ErrEOF), ps)" for ps
    using e by (simp add: One_nat_def)
  then obtain ix' where "handlePushStream demoHashlib demoJson demoPolicy (0, 0) (1, 1) ''p'' True demoOffer emptyIndex = ([pushAccept, 0], ix')"
    using po by (simp add: handlePushStream_def receiveSet_def Let_def)
  moreover from rejected_push_leaves_nothing [OF this] have "leavesNothing emptyIndex ix' \<and> reserved ix' = 0"
    using demoHashlib_ok by (simp add: emptyIndex_def pushAccept_def pushHave_def)
  ultimately show ?thesis by blast
qed

text \<open>C22: what a push stores is complete and was checked. If the receiver accepts, the offered set is
  recorded as hosted with the offered size, within the operator's limits; the root's blob hashes to
  the root; if it is a manifest, every chunk it names is on disk; the sizes add up to the offer; and
  claims and reservations are as before.\<close>

theorem accepted_push_complete:
  assumes "handlePushStream H J P t1 t2 peer ackOk inp ix = ([pushAccept, 1], ix')"
    and "hashlib_ok H" and "\<forall>h. 0 \<le> pending ix h" and "0 \<le> reserved ix"
  shows "\<exists>root sz nblobs rest m. readPushOffer H inp = Inr ((root, sz, nblobs), rest)
       \<and> map_of (sets ix') root = Some m \<and> \<not> Owned m \<and> Size m = uint sz \<and> From m = peer
       \<and> completeSet H J (store ix') root (Size m) (Chunks m)
       \<and> Size m \<le> maxPushSize P \<and> hostedBytes ix' \<le> hostBudget P
       \<and> reserved ix' = reserved ix \<and> pending ix' = pending ix"
  using accepted_push [OF assms] by blast

theorem accepted_push_complete_witness:
  "\<exists>sent ix'. handlePushStream demoHashlib demoJson demoPolicy (0, 0) (1, 1) ''p'' True sent emptyIndex = ([pushAccept, 1], ix')
     \<and> hostedBytes ix' \<le> 100 \<and> reserved ix' = 0"
proof -
  obtain sent ix' m where h: "handlePushStream demoHashlib demoJson demoPolicy (0, 0) (1, 1) ''p'' True sent emptyIndex = ([pushAccept, 1], ix')"
    by (rule demo_exchange)
  from accepted_push_complete [OF h demoHashlib_ok] have "hostedBytes ix' \<le> 100 \<and> reserved ix' = 0"
    by (auto simp: emptyIndex_def demoPolicy_def)
  with h show ?thesis by blast
qed

text \<open>A set is handed on. If one peer holds a complete set and another has room for it, does not
  have it yet and can write, then a push over a stream that carries the bytes both ways is
  accepted, and the receiver records the set with the same root, size and chunks.\<close>

theorem honest_push_accepted:
  assumes "holdsSet H J st root" and "loadContentSet H J st root = Inr cset" and "csSize cset \<le> int MaxContentSize"
    and "hasRoom P ix (csSize cset)" and "\<not> hasSet root ix"
    and "T (writePushOffer root (word_of_int (csSize cset)) (numBlobs cset)) =
           Some (fst (pushOffer H P (fst t1) (snd t1) (writePushOffer root (word_of_int (csSize cset)) (numBlobs cset)) ix))"
    and "\<forall>sent. sendBlobs H st (writePushOffer root (word_of_int (csSize cset)) (numBlobs cset)) (root # csChunks cset) = Inr sent \<longrightarrow>
           T sent = Some (fst (handlePushStream H J P t1 t2 peer True sent ix))"
  shows "pushOnStream H st T cset = (pushAccept, None)
       \<and> (\<exists>sent ix' m. handlePushStream H J P t1 t2 peer True sent ix = ([pushAccept, 1], ix')
            \<and> map_of (sets ix') root = Some m \<and> Size m = csSize cset \<and> Chunks m = csChunks cset)"
proof -
  let ?offer = "writePushOffer root (word_of_int (csSize cset)) (numBlobs cset)"
  obtain sent ix' m where s: "sendBlobs H st ?offer (root # csChunks cset) = Inr sent"
    and o: "fst (pushOffer H P (fst t1) (snd t1) ?offer ix) = [pushAccept]"
    and h: "handlePushStream H J P t1 t2 peer True sent ix = ([pushAccept, 1], ix')"
    and m: "map_of (sets ix') root = Some m" "Size m = csSize cset" "Chunks m = csChunks cset"
    by (rule receive_honest [OF assms(1-5)])
  have "T ?offer = Some [pushAccept]" "T sent = Some [pushAccept, 1]" using assms(6,7) s o h by simp_all
  then have "pushOnStream H st T cset = (pushAccept, None)"
    using s loadContentSet_root [OF assms(2)] by (intro pushOnStream_accepted) simp_all
  with h m show ?thesis by blast
qed

theorem honest_push_accepted_witness:
  "\<exists>T. pushOnStream demoHashlib holderStore T demoSet = (pushAccept, None)"
proof -
  obtain sent ix' m where s: "sendBlobs demoHashlib holderStore demoOffer (demoHash # csChunks demoSet) = Inr sent" "sent \<noteq> demoOffer"
    by (rule demo_exchange)
  let ?T = "\<lambda>b. Some (if b = demoOffer then fst (pushOffer demoHashlib demoPolicy 0 0 b emptyIndex)
      else fst (handlePushStream demoHashlib demoJson demoPolicy (0, 0) (1, 1) ''p'' True b emptyIndex))"
  have "pushOnStream demoHashlib holderStore ?T demoSet = (pushAccept, None)
       \<and> (\<exists>sent ix' m. handlePushStream demoHashlib demoJson demoPolicy (0, 0) (1, 1) ''p'' True sent emptyIndex = ([pushAccept, 1], ix')
            \<and> map_of (sets ix') demoHash = Some m \<and> Size m = csSize demoSet \<and> Chunks m = csChunks demoSet)"
    by (rule honest_push_accepted [OF holder_holds holder_loads demo_room(3,1,2)])
      (use s in \<open>simp_all flip: demoOffer_def\<close>)
  then show ?thesis by blast
qed

end
