(* ===== verification/Placement.thy ===== *)
theory Placement
  imports PushHonest
begin

text \<open>
  How many copies a publish or a healing pass makes, and where (\<open>replicate\<close> and \<open>heal\<close> of
  \<open>internal/node/replicate.go\<close>).
\<close>

text \<open>How many of the pushes to \<open>ps\<close>, the first being number \<open>k\<close> of the pass, placed a copy.\<close>

fun placedCount :: "replicator \<Rightarrow> string \<Rightarrow> nat \<Rightarrow> peerID list \<Rightarrow> int" where
  "placedCount R root k [] = 0"
| "placedCount R root k (p # ps) = (if pushPlaced (rPush R k p root) then 1 else 0) + placedCount R root (Suc k) ps"

text \<open>What both loops share: candidates are tried in order until enough copies are placed.\<close>

definition triedEnough :: "peerID list \<Rightarrow> peerID list \<Rightarrow> bool \<Rightarrow> bool" where
  "triedEnough candidates tried enough \<longleftrightarrow> (\<exists>rest. candidates = tried @ rest \<and> (enough \<or> rest = []))"

lemma triedEnough_stop: "enough \<Longrightarrow> triedEnough ps [] enough"
  by (simp add: triedEnough_def)

lemma triedEnough_Nil [simp]: "triedEnough [] [] enough"
  by (simp add: triedEnough_def)

lemma triedEnough_Cons [simp]: "triedEnough (p # ps) (p # ts) enough = triedEnough ps ts enough"
  by (simp add: triedEnough_def)

lemma replicateLoop_spec:
  "replicateLoop R root placed k ps = (n, tried) \<Longrightarrow> placed \<le> replicas R \<Longrightarrow>
     n = placed + placedCount R root k tried \<and> n \<le> replicas R
       \<and> triedEnough (filter (\<lambda>p. p \<noteq> rSelf R) ps) tried (n = replicas R)"
proof (induction R root placed k ps arbitrary: n tried rule: replicateLoop.induct)
  case (2 R root placed k p ps)
  show ?case
  proof (cases "placed \<ge> replicas R \<or> p = rSelf R")
    case True
    with 2 show ?thesis by (auto intro: triedEnough_stop split: if_splits)
  next
    case False
    let ?q = "if pushPlaced (rPush R k p root) then placed + 1 else placed"
    obtain n' t where l: "replicateLoop R root ?q (Suc k) ps = (n', t)" by fastforce
    with 2(3) False have r: "n = n'" "tried = p # t" by auto
    have "?q \<le> replicas R" using False by simp
    from 2(2) [OF _ _ l this] False r show ?thesis by auto
  qed
qed simp

lemma topUp_spec:
  "topUp R root known need k ps = (n, tried) \<Longrightarrow> 0 \<le> need \<Longrightarrow>
     n = need - placedCount R root k tried \<and> 0 \<le> n \<and> triedEnough (filter (\<lambda>p. p \<notin> known) ps) tried (n = 0)"
proof (induction R root known need k ps arbitrary: n tried rule: topUp.induct)
  case (2 R root known need k p ps)
  show ?case
  proof (cases "need \<le> 0 \<or> p \<in> known")
    case True
    with 2 show ?thesis by (auto intro: triedEnough_stop split: if_splits)
  next
    case False
    let ?q = "if pushPlaced (rPush R k p root) then need - 1 else need"
    obtain n' t where l: "topUp R root known ?q (Suc k) ps = (n', t)" by fastforce
    with 2(3) False have r: "n = n'" "tried = p # t" by auto
    have "0 \<le> ?q" using False by simp
    from 2(2) [OF _ _ l this] False r show ?thesis by auto
  qed
qed simp

lemma countHolders_spec:
  "countHolders ps known h = (known', h') \<Longrightarrow> known' = known \<union> set ps \<and> h' = h + int (card (set ps - known))"
proof (induction ps known h rule: countHolders.induct)
  case (2 p ps known h)
  show ?case
  proof (cases "p \<in> known")
    case True
    with 2 show ?thesis by (auto simp: insert_Diff_if)
  next
    case False
    then have "set (p # ps) - known = insert p (set ps - insert p known)" by auto
    with False 2 show ?thesis by auto
  qed
qed simp

text \<open>Publishing places at most the configured number of copies, and never fewer than it can.
  Peers are tried in the order the DHT lists them, never this node itself; the pass ends when the
  configured number took or already had the set, or when every listed peer was asked.\<close>

theorem replicate_places:
  assumes "replicateSet R root = (n, tried)" and "0 \<le> replicas R" and "rClosest R root (replicas R * 2 + 2) = Inr peers"
  shows "n = placedCount R root 0 tried \<and> n \<le> replicas R \<and> rSelf R \<notin> set tried
       \<and> triedEnough (filter (\<lambda>p. p \<noteq> rSelf R) peers) tried (n = replicas R)"
proof -
  have "replicateLoop R root 0 0 peers = (n, tried)" using assms(1,3) by (simp add: replicateSet_def)
  from replicateLoop_spec [OF this assms(2)] have s: "n = placedCount R root 0 tried" "n \<le> replicas R"
    "triedEnough (filter (\<lambda>p. p \<noteq> rSelf R) peers) tried (n = replicas R)" by (simp only: add_0, blast)+
  moreover have "rSelf R \<notin> set tried"
  proof -
    from s(3) obtain rest where "filter (\<lambda>p. p \<noteq> rSelf R) peers = tried @ rest" by (auto simp: triedEnough_def)
    then have "set tried \<subseteq> set (filter (\<lambda>p. p \<noteq> rSelf R) peers)" by simp
    then show ?thesis by auto
  qed
  ultimately show ?thesis by blast
qed

theorem replicate_places_witness:
  "\<exists>R. replicateSet R demoHash = (1, [''a'', ''b'']) \<and> replicas R = 1
     \<and> triedEnough (filter (\<lambda>p. p \<noteq> rSelf R) [''s'', ''a'', ''b'', ''c'']) [''a'', ''b''] True"
proof -
  let ?R = "\<lparr>rSelf = ''s'', replicas = 1, rClosest = (\<lambda>_ _. Inr [''s'', ''a'', ''b'', ''c'']), rProviders = (\<lambda>_ _. Inr []),
      rPush = (\<lambda>k p root. if p = ''a'' then Inr pushDecline else Inr pushAccept)\<rparr>"
  have r: "replicateSet ?R demoHash = (1, [''a'', ''b''])"
    by (simp add: replicateSet_def pushPlaced_def pushDecline_def pushAccept_def pushHave_def)
  from replicate_places [OF r, of "[''s'', ''a'', ''b'', ''c'']"] r show ?thesis
    by (intro exI [of _ ?R]) simp
qed

text \<open>C24: a healing pass tops the holders up to the target and no further. Holders are this node and
  every distinct provider found. At the target nothing is pushed. Below it, only peers that are not
  holders are tried, in the DHT's order, until the missing number of copies is placed or every
  listed peer was asked; what is reported missing is exact.\<close>

theorem heal_tops_up:
  assumes "heal R root = Inr (missing, tried)" and "rProviders R root (replicas R + 3) = Inr found"
  shows "let holders = 1 + int (card (set found - {rSelf R})); target = replicas R + 1 in
       if holders \<ge> target then missing = 0 \<and> tried = []
       else \<exists>peers. rClosest R root (target * 2 + 2) = Inr peers
          \<and> missing = target - holders - placedCount R root 0 tried \<and> 0 \<le> missing
          \<and> set tried \<inter> insert (rSelf R) (set found) = {}
          \<and> triedEnough (filter (\<lambda>p. p \<notin> insert (rSelf R) (set found)) peers) tried (missing = 0)"
proof -
  obtain known holders where c: "countHolders found {rSelf R} 1 = (known, holders)" by fastforce
  from countHolders_spec [OF c] have k: "known = insert (rSelf R) (set found)"
    "holders = 1 + int (card (set found - {rSelf R}))" by auto
  show ?thesis
  proof (cases "holders \<ge> replicas R + 1")
    case True
    with assms c have "missing = 0" "tried = []" by (auto simp: heal_def Let_def add.assoc)
    with True k show ?thesis by (simp add: Let_def)
  next
    case False
    with assms c obtain peers where p: "rClosest R root ((replicas R + 1) * 2 + 2) = Inr peers"
      and t: "topUp R root known (replicas R + 1 - holders) 0 peers = (missing, tried)"
      by (auto simp: heal_def Let_def bindR_Inr_iff add.assoc)
    from topUp_spec [OF t] False have s: "missing = replicas R + 1 - holders - placedCount R root 0 tried" "0 \<le> missing"
      and e: "triedEnough (filter (\<lambda>p. p \<notin> known) peers) tried (missing = 0)" by auto
    from e obtain rest where "filter (\<lambda>p. p \<notin> known) peers = tried @ rest" by (auto simp: triedEnough_def)
    then have "set tried \<subseteq> set (filter (\<lambda>p. p \<notin> known) peers)" by simp
    then have "set tried \<inter> known = {}" by auto
    with s e p False show ?thesis unfolding k by (simp add: Let_def)
  qed
qed

theorem heal_tops_up_witness:
  "\<exists>R. heal R demoHash = Inr (1, [''c'', ''d'']) \<and> replicas R = 3"
proof -
  let ?R = "\<lparr>rSelf = ''s'', replicas = 3, rClosest = (\<lambda>_ _. Inr [''a'', ''c'', ''s'', ''d'']),
      rProviders = (\<lambda>_ _. Inr [''a'', ''s'', ''a'']),
      rPush = (\<lambda>k p root. if k = 0 then Inl PushIO else Inr pushHave)\<rparr>"
  have h: "heal ?R demoHash = Inr (1, [''c'', ''d''])"
    by (simp add: heal_def Let_def pushPlaced_def pushHave_def pushAccept_def)
  from heal_tops_up [OF h, of "[''a'', ''s'', ''a'']"] h show ?thesis by auto
qed

end
