(* ===== verification/Provide.thy ===== *)
theory Provide
  imports Push
begin

text \<open>
  Making stored content findable, and what that gives (\<open>announce\<close>, \<open>announceChunks\<close>, \<open>provideAll\<close> of
  \<open>internal/node/contentnet.go\<close>, \<open>newReplicator\<close> and \<open>pushTo\<close> of \<open>replicate.go\<close>): what one node publishes
  another one can fetch from it through the DHT, whatever the other providers of its hashes do.
\<close>

section \<open>Announcing\<close>

text \<open>The CIDs handed to the DHT's \<open>Provide\<close>, whose failures are only logged. Without a node nothing is
  announced.\<close>

definition announce :: "hashlib \<Rightarrow> bool \<Rightarrow> string \<Rightarrow> bytes list" where
  "announce H node hash =
     (if \<not> node then [] else case hashToCID H hash of Inl _ \<Rightarrow> [] | Inr c \<Rightarrow> [c])"

text \<open>\<open>stopped i\<close>: the node's context is done when the \<open>i\<close>-th hash's turn comes.\<close>

fun announceFrom :: "hashlib \<Rightarrow> (nat \<Rightarrow> bool) \<Rightarrow> nat \<Rightarrow> string list \<Rightarrow> bytes list" where
  "announceFrom H stopped i [] = []"
| "announceFrom H stopped i (h # hs) =
     (if stopped i then [] else announce H True h @ announceFrom H stopped (Suc i) hs)"

definition announceChunks :: "hashlib \<Rightarrow> bool \<Rightarrow> (nat \<Rightarrow> bool) \<Rightarrow> string list \<Rightarrow> bytes list" where
  "announceChunks H node stopped hashes = (if \<not> node then [] else announceFrom H stopped 0 hashes)"

definition provideAll :: "hashlib \<Rightarrow> (nat \<Rightarrow> bool) \<Rightarrow> blobStore \<Rightarrow> bytes list" where
  "provideAll H stopped st = announceFrom H stopped 0 (storeList H st)"

text \<open>\<open>PutStream\<close> with its announcements: the root, then in the background the chunks of the manifest,
  which are those the set was just recorded with.\<close>

definition publishContent ::
    "hashlib \<Rightarrow> manifestJson \<Rightarrow> bool \<Rightarrow> (nat \<Rightarrow> bool) \<Rightarrow> int \<Rightarrow> source \<Rightarrow> contentIndex
      \<Rightarrow> (netErr + string \<times> int) \<times> contentIndex \<times> bytes list" where
  "publishContent H J node stopped now s ix =
     (case PutStream H J now s ix of
        (Inl e, ix') \<Rightarrow> (Inl e, ix', [])
      | (Inr (hash, n), ix') \<Rightarrow>
          (Inr (hash, n), ix',
           announce H node hash @
             announceChunks H node stopped (case map_of (sets ix') hash of None \<Rightarrow> [] | Some m \<Rightarrow> Chunks m)))"

text \<open>\<open>handlePushStream\<close> with its announcements: a new holder makes the root and the chunks findable.\<close>

definition hostContent ::
    "hashlib \<Rightarrow> manifestJson \<Rightarrow> hostingPolicy \<Rightarrow> int \<times> int \<Rightarrow> int \<times> int \<Rightarrow> string \<Rightarrow> bool \<Rightarrow> bool \<Rightarrow> (nat \<Rightarrow> bool) \<Rightarrow> bytes
      \<Rightarrow> contentIndex \<Rightarrow> bytes \<times> contentIndex \<times> bytes list" where
  "hostContent H J P t1 t2 peer ackOk node stopped inp ix =
     (case handlePushStream H J P t1 t2 peer ackOk inp ix of (out, ix') \<Rightarrow>
        (out, ix',
         if out \<noteq> [pushAccept, 1] then []
         else case readPushOffer H inp of
           Inl _ \<Rightarrow> []
         | Inr ((root, _), _) \<Rightarrow>
             announce H node root @
               announceChunks H node stopped (case map_of (sets ix') root of None \<Rightarrow> [] | Some m \<Rightarrow> Chunks m)))"

section \<open>The replicator on the real network\<close>

text \<open>The DHT and the streams a \<open>replicator\<close> is wired to. \<open>kadStream k p\<close> is the stream opened for the
  \<open>k\<close>-th push of a pass; a provider without a peer id is one the DHT could not name.\<close>

record kadNet =
  kadClosest :: "bytes \<Rightarrow> netErr + peerID list"
  kadProviders :: "bytes \<Rightarrow> int \<Rightarrow> peerID list"
  kadStream :: "nat \<Rightarrow> peerID \<Rightarrow> transport option"

definition pushTo :: "hashlib \<Rightarrow> kadNet \<Rightarrow> blobStore \<Rightarrow> nat \<Rightarrow> peerID \<Rightarrow> contentSet \<Rightarrow> 8 word \<times> pushErr option" where
  "pushTo H K st k p cset =
     (case kadStream K k p of
        None \<Rightarrow> (pushDecline, Some PushIO)
      | Some T \<Rightarrow> pushOnStream H st T cset)"

definition newReplicator :: "hashlib \<Rightarrow> manifestJson \<Rightarrow> kadNet \<Rightarrow> peerID \<Rightarrow> blobStore \<Rightarrow> int \<Rightarrow> replicator" where
  "newReplicator H J K self st n =
     \<lparr>rSelf = self, replicas = n,
      rClosest = (\<lambda>root _. bindR (hashToCID H root) (kadClosest K)),
      rProviders = (\<lambda>root mx. bindR (hashToCID H root) (\<lambda>c. Inr (filter (\<lambda>p. p \<noteq> []) (kadProviders K c mx)))),
      rPush = (\<lambda>k p root.
        case loadContentSet H J st root of
          Inl e \<Rightarrow> Inl (PushLocal root e)
        | Inr cset \<Rightarrow> (case pushTo H K st k p cset of (_, Some e) \<Rightarrow> Inl e | (status, None) \<Rightarrow> Inr status))\<rparr>"

lemma announce_mem: "hashToCID H h = Inr c \<Longrightarrow> c \<in> set (announce H True h)"
  by (simp add: announce_def)

lemma announceFrom_mem:
  "\<forall>j. \<not> stopped j \<Longrightarrow> h \<in> set hs \<Longrightarrow> hashToCID H h = Inr c \<Longrightarrow> c \<in> set (announceFrom H stopped i hs)"
  by (induction hs arbitrary: i) (auto simp: announce_mem)

text \<open>A full pass announces every content blob of the store.\<close>

lemma provideAll_mem:
  assumes "\<forall>j. \<not> stopped j" and "finite (dom (files st))" and "storeHas H st h" and "hashToCID H h = Inr c"
  shows "c \<in> set (provideAll H stopped st)"
proof -
  have "h \<in> set (storeList H st)" using assms(2,3) by (auto simp: storeList_def storeHas_def)
  from announceFrom_mem [OF assms(1) this assms(4)] show ?thesis by (simp add: provideAll_def)
qed

lemma ContentHash_CID:
  assumes "hashlib_ok H" and "ContentHash H d = Inr h"
  shows "\<exists>c. hashToCID H h = Inr c"
  using IsContentHash_ContentHash [OF assms] by (auto simp: IsContentHash_def hashToCID_def split: option.splits)

section \<open>Fetching from a holder\<close>

text \<open>\<open>x\<close> is not mistaken for any of the blobs in \<open>D\<close>: if it hashes as one of them, it is that one.\<close>

definition exactBlob :: "hashlib \<Rightarrow> bytes set \<Rightarrow> bytes \<Rightarrow> bool" where
  "exactBlob H D x \<longleftrightarrow> (\<forall>d \<in> D. ContentHash H x = ContentHash H d \<longrightarrow> x = d)"

text \<open>No peer has other bytes with the hash of a blob in \<open>D\<close>. Peers may send anything else, or nothing.\<close>

definition noSubstitute :: "hashlib \<Rightarrow> contentNetwork \<Rightarrow> bytes set \<Rightarrow> bool" where
  "noSubstitute H N D \<longleftrightarrow> (\<forall>p h x. fetchFrom H N p h = Inr x \<longrightarrow> exactBlob H D x)"

definition cleanStore :: "hashlib \<Rightarrow> bytes set \<Rightarrow> blobStore \<Rightarrow> bool" where
  "cleanStore H D st \<longleftrightarrow> storeOk H st \<and> noCollision H st D"

lemma noCollision_alt: "noCollision H st D \<longleftrightarrow> (\<forall>e \<in> ran (files st). exactBlob H D e)"
  by (auto simp: noCollision_def exactBlob_def)

lemma cleanStore_get:
  assumes "cleanStore H D st" and "storeGet H st h = Inr x"
  shows "exactBlob H D x \<and> ContentHash H x = Inr h"
  using assms storeGet_addr by (auto simp: cleanStore_def noCollision_alt storeGet_Inr ran_def)

lemma cleanStore_shrinks: "shrinks ix ix' \<Longrightarrow> cleanStore H D (store ix) \<Longrightarrow> cleanStore H D (store ix')"
  using storeOk_shrinks [of ix ix' H]
  by (auto simp: cleanStore_def noCollision_alt shrinks_def ran_def) (metis option.distinct(1))

lemma cleanStore_cache:
  assumes "cleanStore H D (store ix)" and "exactBlob H D x"
  shows "cleanStore H D (store (cacheBlob H x ix))"
proof -
  have "ran (files (store (cacheBlob H x ix))) \<subseteq> insert x (ran (files (store ix)))"
    by (auto simp: cacheBlob_def storePut_def ran_def Let_def split: sum.splits if_splits)
  with assms cacheBlob_ok show ?thesis unfolding cleanStore_def noCollision_alt by blast
qed

lemma tryProviders_exact:
  "noSubstitute H N D \<Longrightarrow> tryProviders H N h e ps = Inr (x, p) \<Longrightarrow> exactBlob H D x"
  by (induction ps arbitrary: e) (auto simp: noSubstitute_def split: if_splits sum.splits)

lemma fetchBlob_exact:
  assumes "noSubstitute H N D" and "cleanStore H D (store ix)" and "fetchBlob H (Some N) ix h = Inr (x, src)"
  shows "exactBlob H D x"
  using assms by (auto simp: fetchBlob_def bindR_Inr_iff split: sum.splits dest: tryProviders_exact cleanStore_get)

text \<open>\<open>A\<close> is found as a provider of \<open>h\<close> and serves \<open>d\<close> for it.\<close>

definition holds :: "hashlib \<Rightarrow> contentNetwork \<Rightarrow> peerID \<Rightarrow> string \<Rightarrow> bytes \<Rightarrow> bool" where
  "holds H N A h d \<longleftrightarrow> A \<noteq> selfID N \<and> A \<in> set (providersOf N h) \<and> fetchFrom H N A h = Inr d"

lemma tryProviders_holder:
  assumes "A \<noteq> selfID N" and "fetchFrom H N A h = Inr d" and "\<forall>p x. fetchFrom H N p h = Inr x \<longrightarrow> x = d"
  shows "A \<in> set ps \<Longrightarrow> \<exists>p. tryProviders H N h e ps = Inr (d, p)"
proof (induction ps arbitrary: e)
  case (Cons q ps)
  show ?case
  proof (cases "fetchFrom H N q h")
    case (Inl e')
    with Cons.prems assms(2) have "A \<in> set ps" by auto
    from Cons.IH [OF this] Inl assms(1) show ?thesis by simp
  next
    case (Inr x)
    with assms(3) have "x = d" by blast
    with Inr assms(1) Cons.IH Cons.prems show ?thesis by auto
  qed
qed simp

lemma fetchBlob_holder:
  assumes "holds H N A h d" and "d \<in> D" and "noSubstitute H N D" and "cleanStore H D (store ix)"
  shows "\<exists>src. fetchBlob H (Some N) ix h = Inr (d, src)"
proof -
  have f: "fetchFrom H N A h = Inr d" and A: "A \<noteq> selfID N" "A \<in> set (providersOf N h)"
    using assms(1) by (simp_all add: holds_def)
  have h: "ContentHash H d = Inr h" using fetchFrom_hash [OF f] by simp
  show ?thesis
  proof (cases "storeGet H (store ix) h")
    case (Inr x)
    with cleanStore_get [OF assms(4) Inr] h assms(2) have "x = d" by (auto simp: exactBlob_def)
    with Inr show ?thesis by (simp add: fetchBlob_def)
  next
    case (Inl e)
    have "hashlib_ok H" using assms(4) by (simp add: cleanStore_def storeOk_def)
    from ContentHash_CID [OF this h] obtain c where "hashToCID H h = Inr c" by blast
    moreover have "\<forall>p x. fetchFrom H N p h = Inr x \<longrightarrow> x = d"
      using assms(2,3) h fetchFrom_hash by (fastforce simp: noSubstitute_def exactBlob_def)
    from tryProviders_holder [OF A(1) f this A(2)] obtain p
      where "tryProviders H N h (ErrContent ErrBlobNotFound) (providersOf N h) = Inr (d, p)" by blast
    ultimately show ?thesis using Inl by (simp add: fetchBlob_def)
  qed
qed

lemma delivers_holder:
  assumes "holds H N A h d" and "d \<in> D" and "noSubstitute H N D"
  shows "delivers H (Some N) (\<lambda>ix. cleanStore H D (store ix)) h d"
  unfolding delivers_def
proof (intro allI impI)
  fix src cache and ix :: contentIndex assume c: "cleanStore H D (store ix)"
  let ?G = "\<lambda>ix. cleanStore H D (store ix)"
  have h: "ContentHash H d = Inr h" using assms(1) fetchFrom_hash by (auto simp: holds_def)
  have ex: "exactBlob H D d" using assms by (auto simp: holds_def noSubstitute_def)
  have cached: "?G (if cache then cacheBlob H d ix else ix)" using c ex by (simp add: cleanStore_cache)
  have remote: "x = d" if "fetchFrom H N p h = Inr x" for p x
    using assms(2,3) h that fetchFrom_hash [OF that] by (auto simp: noSubstitute_def exactBlob_def)
  show "\<exists>ix'. fetchChunk H (Some N) h src cache ix = (Inr d, ix') \<and> ?G ix'"
  proof (cases "storeGet H (store ix) h")
    case (Inr x)
    with cleanStore_get [OF c Inr] h assms(2) have "x = d" by (auto simp: exactBlob_def)
    with Inr c show ?thesis by (simp add: fetchChunk_def)
  next
    case (Inl e)
    from fetchBlob_holder [OF assms c] obtain s where b: "fetchBlob H (Some N) ix h = Inr (d, s)" by blast
    from Inl b cached remote show ?thesis
      by (cases src; cases "fetchFrom H N (the src) h") (auto simp: fetchChunk_def)
  qed
qed

lemma chunksOf_pieces: "0 < n \<Longrightarrow> c \<in> set (chunksOf n xs) \<Longrightarrow> c \<noteq> [] \<and> length c \<le> n"
proof (induction n xs rule: chunksOf.induct)
  case (1 n xs)
  show ?case
  proof (cases "xs = []")
    case False
    with 1(2,3) have "c = take n xs \<or> c \<in> set (chunksOf n (drop n xs))" by (subst (asm) chunksOf.simps) auto
    with 1 False show ?thesis by auto
  qed (use 1(3) in simp)
qed

lemma contentBlobs_nonempty:
  assumes "data \<noteq> []" and "d \<in> contentBlobs H J data"
  shows "d \<noteq> []"
proof (cases "d = data \<or> d \<in> set (chunksOf ChunkSizeC data)")
  case True
  with assms(1) chunksOf_pieces [OF ChunkSizeC_pos(1)] show ?thesis by blast
next
  case False
  with assms(2) obtain m where "EncodeManifest J m = Inr d" by (auto simp: contentBlobs_def split: if_splits)
  then show ?thesis by (auto simp: EncodeManifest_def manifestMagic_def split: option.splits)
qed

text \<open>A fetch of published content from a network in which some holder serves its blobs.\<close>

lemma fetch_from_holder:
  assumes pub: "published H J data hash hs st" and st: "storeOk H st" "noCollision H st (contentBlobs H J data)"
    and J: "manifestJson_ok J" and plain: "length data \<le> ChunkSizeC \<Longrightarrow> DecodeManifest H J data = None"
    and held: "\<And>h d. h \<in> set (hash # hs) \<Longrightarrow> storeGet H st h = Inr d \<Longrightarrow> d \<in> contentBlobs H J data \<Longrightarrow> holds H N A h d"
    and net: "noSubstitute H N (contentBlobs H J data)"
    and mine: "cleanStore H (contentBlobs H J data) (store ix)"
  shows "fst (Fetch H J P now clock (Some N) bs hash ix) = Inr data"
proof (rule published_delivered [OF pub st(1) J st(2) plain])
  let ?D = "contentBlobs H J data"
  show "\<exists>src. fetchBlob H (Some N) ix hash = Inr (d, src)" if "storeGet H st hash = Inr d" "d \<in> ?D" for d
  proof -
    from that held have "holds H N A hash d" by simp
    from fetchBlob_holder [OF this that(2) net mine] show ?thesis .
  qed
  show "delivers H (Some N) (\<lambda>ix. cleanStore H ?D (store ix)) h d"
    if "h \<in> set hs" "storeGet H st h = Inr d" "d \<in> ?D" for h d
  proof -
    from that held have "holds H N A h d" by simp
    from delivers_holder [OF this that(3) net] show ?thesis .
  qed
  obtain r ix' where f: "FetchStream H J P now clock (Some N) hash ix = (r, ix')" by fastforce
  have "cleanStore H ?D (store ix')"
  proof (rule FetchStream_keeps [where Q = "cleanStore H ?D", OF mine f])
    show "cleanStore H ?D (store (cacheBlob H blob0 ix1))"
      if "fetchBlob H (Some N) ix hash = Inr (blob0, src)" "cleanStore H ?D (store ix1)" for blob0 src ix1
      using that(2) fetchBlob_exact [OF net mine that(1)] by (rule cleanStore_cache)
  qed (rule cleanStore_shrinks)
  with f show "cleanStore H ?D (store (snd (FetchStream H J P now clock (Some N) hash ix)))" by simp
qed

text \<open>Hashes are short enough to be asked for.\<close>

definition hashesFit :: "hashlib \<Rightarrow> bool" where
  "hashesFit H \<longleftrightarrow> (\<forall>d h. ContentHash H d = Inr h \<longrightarrow> requestOk h)"

text \<open>The stream to \<open>A\<close> carries a request to \<open>A\<close>'s handler and the answer back, \<open>A\<close>'s store being \<open>st\<close>.\<close>

definition servedBy :: "hashlib \<Rightarrow> contentNetwork \<Rightarrow> peerID \<Rightarrow> blobStore \<Rightarrow> bool" where
  "servedBy H N A st \<longleftrightarrow>
     (\<forall>h. \<exists>now peer. store peer = st \<and> onStream N A (writeRequest h) = Some (fst (handleStream H now (writeRequest h) peer)))"

lemma servedBy_holds:
  assumes "servedBy H N A st" and "A \<noteq> selfID N" and "A \<in> set (providersOf N h)"
    and "storeOk H st" and "hashesFit H" and "storeGet H st h = Inr d" and "d \<noteq> []" and "length d \<le> MaxBlobSize"
  shows "holds H N A h d"
proof -
  from assms(1) obtain now peer where p: "store peer = st"
    "onStream N A (writeRequest h) = Some (fst (handleStream H now (writeRequest h) peer))"
    unfolding servedBy_def by blast
  have rq: "requestOk h" using storeGet_addr [OF assms(4,6)] assms(5) by (auto simp: hashesFit_def)
  have sz: "\<forall>e. storeGet H (store peer) h = Inr e \<longrightarrow> length e \<le> MaxBlobSize" using assms(6,8) p(1) by simp
  have "fetchFrom H N A h = Inr d"
    using served_blob_arrives [OF p(2) rq _ sz] assms(4,6,7) p(1) by simp
  with assms(2,3) show ?thesis by (simp add: holds_def)
qed

text \<open>Who announced a set is found under each of its hashes.\<close>

lemma announced_found:
  assumes "\<forall>h c. hashToCID H h = Inr c \<and> c \<in> set announced \<longrightarrow> A \<in> set (providersOf N h)"
    and "announced = announce H True root @ announceChunks H True (\<lambda>_. False) chunks"
    and "hashlib_ok H" and "ContentHash H d = Inr h" and "h \<in> set (root # chunks)"
  shows "A \<in> set (providersOf N h)"
proof -
  from ContentHash_CID [OF assms(3,4)] obtain c where c: "hashToCID H h = Inr c" by blast
  with assms(5) announceFrom_mem [of "\<lambda>_. False" h chunks H c 0] announce_mem [OF c]
  have "c \<in> set announced" by (auto simp: assms(2) announceChunks_def)
  with c assms(1) show ?thesis by blast
qed

section \<open>Published content can be fetched\<close>

text \<open>C13: what one node publishes, another fetches from it byte for byte, whatever other peers do.
  A publish stores the content and announces its root and, chunked or not, every chunk. If the DHT
  finds the publisher under the hashes it announced and streams to it reach its handler, a fetch of
  the returned hash on any other node returns exactly the published bytes: providers listed
  before the publisher may refuse, fail or send wrong bytes, the fetching node may hold none, some or
  all of the blobs, and its hosting policy may admit the set or not. No peer or store may hold
  different bytes with the hash of one of the content's blobs, and the content is neither empty nor,
  if a single blob, itself a chunk manifest.\<close>

theorem published_content_reachable:
  assumes put: "publishContent H J True (\<lambda>_. False) now s ixA = (Inr (hash, n), ixA', announced)"
    and found: "\<forall>h c. hashToCID H h = Inr c \<and> c \<in> set announced \<longrightarrow> A \<in> set (providersOf N h)"
    and serves: "servedBy H N A (store ixA')" "A \<noteq> selfID N"
    and nodeA: "storeOk H (store ixA)" "noCollision H (store ixA') (contentBlobs H J (srcData s))"
      "\<forall>d \<in> ran (files (store ixA')). length d \<le> MaxBlobSize"
    and nodeB: "storeOk H (store ixB)" "noCollision H (store ixB) (contentBlobs H J (srcData s))"
    and net: "noSubstitute H N (contentBlobs H J (srcData s))"
    and lib: "hashesFit H" "manifestJson_ok J"
    and content: "srcData s \<noteq> []" "length (srcData s) \<le> ChunkSizeC \<longrightarrow> DecodeManifest H J (srcData s) = None"
  shows "n = int (length (srcData s)) \<and> fst (Fetch H J P later clock (Some N) bs hash ixB) = Inr (srcData s)"
proof -
  let ?data = "srcData s" and ?st = "store ixA'"
  have hl: "hashlib_ok H" using nodeA(1) by (simp add: storeOk_def)
  from put have p: "PutStream H J now s ixA = (Inr (hash, n), ixA')"
    and a: "announced = announce H True hash @ announceChunks H True (\<lambda>_. False)
        (case map_of (sets ixA') hash of None \<Rightarrow> [] | Some m \<Rightarrow> Chunks m)"
    by (auto simp: publishContent_def split: prod.splits sum.splits)
  from PutStream_Inr [OF p hl nodeA(1)] obtain m where r: "n = int (length ?data)" "storeOk H ?st"
    "map_of (sets ixA') hash = Some m" "published H J ?data hash (Chunks m) ?st" by auto
  have "fst (Fetch H J P later clock (Some N) bs hash ixB) = Inr ?data"
  proof (rule fetch_from_holder [OF r(4,2) nodeA(2) lib(2) _ _ net])
    fix h d assume h: "h \<in> set (hash # Chunks m)" "storeGet H ?st h = Inr d" "d \<in> contentBlobs H J ?data"
    have listed: "A \<in> set (providersOf N h)"
      using announced_found [OF found _ hl storeGet_addr [OF r(2) h(2)] h(1)] a r(3) by simp
    from h(2) have "length d \<le> MaxBlobSize" using nodeA(3) by (auto simp: storeGet_Inr ran_def)
    with servedBy_holds [OF serves listed r(2) lib(1) h(2) contentBlobs_nonempty [OF content(1) h(3)]]
    show "holds H N A h d" .
  qed (use content(2) nodeB in \<open>simp_all add: cleanStore_def\<close>)
  with r(1) show ?thesis by simp
qed

lemma demo_address: "ContentHash demoHashlib d = Inr (letters (0x12 # 32 # take 32 (d @ replicate 32 0)))"
proof -
  have "length (take 32 (d @ replicate 32 (0 :: 8 word))) = 32" by simp
  then show ?thesis
    by (simp add: ContentHash_def demoHashlib_def SHA2_256_def del: letters.simps take_append length_take)
qed

lemma demo_hashesFit: "hashesFit demoHashlib"
proof -
  have "length (letters b) = 2 * length b" for b by (induction b) simp_all
  then show ?thesis
    by (auto simp: hashesFit_def demo_address requestOk_def maxHashRequestLen_def simp del: letters.simps
        simp flip: length_greater_0_conv)
qed

lemma demo_nine: "ContentHash demoHashlib [9] \<noteq> ContentHash demoHashlib [1, 2, 3]"
proof
  assume "ContentHash demoHashlib [9] = ContentHash demoHashlib [1, 2, 3]"
  then have "unletters (letters (0x12 # 32 # take 32 ([9] @ replicate 32 0)))
      = unletters (letters (0x12 # 32 # take 32 ([1, 2, 3] @ replicate 32 0)))"
    unfolding demo_address by (simp only: sum.inject)
  then show False unfolding unletters_letters by (simp add: numeral_eq_Suc)
qed

text \<open>A network of two providers: one sends wrong bytes, the other one runs the handler on a store that
  holds one blob.\<close>

definition demoPair :: "hashlib \<Rightarrow> contentIndex \<Rightarrow> contentNetwork" where
  "demoPair H peer = \<lparr>selfID = ''b'', providersOf = (\<lambda>_. [''x'', ''a'']),
     onStream = (\<lambda>p req. Some (if p = ''a'' then fst (handleStream H 7 req peer) else writeBlob [9]))\<rparr>"

lemma demoPair_exact:
  assumes "ran (files (store peer)) \<subseteq> {d}" and "exactBlob H D d" and "exactBlob H D [9]"
    and "d \<noteq> []" and "length d \<le> MaxBlobSize"
  shows "noSubstitute H (demoPair H peer) D"
  unfolding noSubstitute_def
proof (intro allI impI)
  fix p h x assume f: "fetchFrom H (demoPair H peer) p h = Inr x"
  have rd: "readBlob (writeBlob b) = Inr (b, [])" if "b \<noteq> []" "length b \<le> MaxBlobSize" for b
    using that blob.rd_enc [of "of_nat MaxBlobSize" b "[]"] by (simp add: readBlob_def blobOk_def MaxBlobSize_word)
  have none: "\<exists>e. readBlob (writeBlobHeader 0) = Inl e"
    using varint.rd_enc [of 0 "[]"] by (simp add: readBlob_def readBlobMax_def writeBlobHeader_def Let_def)
  have empty: "\<exists>e. readBlob [] = Inl e" by (simp add: readBlob_def readBlobMax_def readUvarint_def Let_def numeral_eq_Suc)
  have nine: "readBlob (writeBlob [9]) = Inr ([9], [])" by (rule rd) (simp_all add: MaxBlobSize_def)
  obtain resp where resp: "onStream (demoPair H peer) p (writeRequest h) = Some resp"
    and cs: "resp = [] \<or> resp = writeBlobHeader 0 \<or> resp = writeBlob d \<or> resp = writeBlob [9]"
  proof (cases "p = ''a''")
    case True
    have "d' = d" if "files (store peer) h' = Some d'" for h' d' using assms(1) that by (auto simp: ran_def)
    with True that show thesis
      by (auto simp: demoPair_def handleStream_def storeOpen_def writeBlob_alt split: sum.splits if_splits option.splits)
  qed (use that in \<open>simp add: demoPair_def\<close>)
  from f resp obtain a rest where a: "readBlob resp = Inr (a, rest)"
    and c: "(case ContentHash H a of Inl e \<Rightarrow> Inl (ErrContent e)
       | Inr got \<Rightarrow> if got \<noteq> h then Inl (ErrWrongContent got) else Inr a) = Inr x"
    by (auto simp: fetchFrom_def bindR_Inr_iff)
  from c have "a = x" by (simp split: sum.splits if_splits)
  with a cs none empty nine rd [OF assms(4,5)] have "x = d \<or> x = [9]" by auto
  with assms(2,3) show "exactBlob H D x" by blast
qed

theorem published_content_reachable_witness:
  "\<exists>J N hash announced ixA'. publishContent demoHashlib J True (\<lambda>_. False) 9 \<lparr>srcData = [1, 2, 3], srcFails = False\<rparr>
        (demoIndex\<lparr>store := demoStore\<lparr>files := Map.empty\<rparr>\<rparr>) = (Inr (hash, 3), ixA', announced)
     \<and> providersOf N hash = [''x'', ''a''] \<and> onStream N ''x'' (writeRequest hash) = Some (writeBlob [9])
     \<and> fst (Fetch demoHashlib J \<lparr>hostBudget = 0, maxPushSize = 0, hostTTL = 0\<rparr> 0 0 (Some N) (\<lambda>_. 511) hash
          (demoIndex\<lparr>store := demoStore\<lparr>files := Map.empty\<rparr>\<rparr>)) = Inr [1, 2, 3]"
proof -
  let ?J = "\<lparr>jsonEncode = (\<lambda>_. None), jsonDecode = (\<lambda>_. None)\<rparr>"
  let ?ix = "demoIndex\<lparr>store := demoStore\<lparr>files := Map.empty\<rparr>\<rparr>"
  let ?s = "\<lparr>srcData = [1, 2, 3], srcFails = False\<rparr>"
  obtain hash ixA' where h: "ContentHash demoHashlib [1, 2, 3] = Inr hash"
    and put: "PutStream demoHashlib ?J 9 ?s ?ix = (Inr (hash, 3), ixA')"
    and st: "store ixA' = demoStore\<lparr>files := [hash \<mapsto> [1, 2, 3]]\<rparr>" using demo_put [of ?J] by blast
  let ?N = "demoPair demoHashlib ixA'"
  obtain announced where pub: "publishContent demoHashlib ?J True (\<lambda>_. False) 9 ?s ?ix = (Inr (hash, 3), ixA', announced)"
    using put by (simp add: publishContent_def)
  have blobs: "contentBlobs demoHashlib ?J (srcData ?s) = {[1, 2, 3]}" by (simp add: contentBlobs_def ChunkSizeC_def)
  have empty: "storeOk demoHashlib (store ?ix)" using demoHashlib_ok by (simp add: storeOk_def)
  have "(3 :: int) = int (length (srcData ?s)) \<and>
     fst (Fetch demoHashlib ?J \<lparr>hostBudget = 0, maxPushSize = 0, hostTTL = 0\<rparr> 0 0 (Some ?N) (\<lambda>_. 511) hash ?ix) = Inr (srcData ?s)"
  proof (rule published_content_reachable [OF pub])
    show "servedBy demoHashlib ?N ''a'' (store ixA')" by (auto simp: servedBy_def demoPair_def)
    show "noCollision demoHashlib (store ixA') (contentBlobs demoHashlib ?J (srcData ?s))"
      unfolding blobs by (simp add: st noCollision_def)
    show "noCollision demoHashlib (store ?ix) (contentBlobs demoHashlib ?J (srcData ?s))" by (simp add: noCollision_def)
    show "noSubstitute demoHashlib ?N (contentBlobs demoHashlib ?J (srcData ?s))"
      unfolding blobs by (rule demoPair_exact [of _ "[1, 2, 3]"])
        (use demo_nine in \<open>simp_all add: st exactBlob_def MaxBlobSize_def\<close>)
    show "length (srcData ?s) \<le> ChunkSizeC \<longrightarrow> DecodeManifest demoHashlib ?J (srcData ?s) = None"
      by (simp add: DecodeManifest_def hasPrefix_def manifestMagic_def)
  qed (use empty demo_hashesFit in \<open>simp_all add: demoPair_def manifestJson_ok_def st MaxBlobSize_def\<close>)
  then have f: "fst (Fetch demoHashlib ?J \<lparr>hostBudget = 0, maxPushSize = 0, hostTTL = 0\<rparr> 0 0 (Some ?N) (\<lambda>_. 511) hash ?ix) = Inr [1, 2, 3]"
    by (elim conjE) (simp only: source.select_convs)
  have n: "providersOf ?N hash = [''x'', ''a'']" "onStream ?N ''x'' (writeRequest hash) = Some (writeBlob [9])"
    by (simp_all add: demoPair_def)
  show ?thesis using pub f n by blast
qed

end
