(* ===== verification/Replicas.thy ===== *)
theory Replicas
  imports Provide PushHonest
begin

text \<open>
  A copy placed on another node stands in for the publisher: publishing, pushing, hosting,
  announcing and fetching put together (\<open>internal/node/contentnet.go\<close>, \<open>replicate.go\<close>).
\<close>

lemma published_copied:
  "published H J data hash hs st \<Longrightarrow> \<forall>h \<in> set (hash # hs). files st' h \<noteq> None \<Longrightarrow> published H J data hash hs st'"
  unfolding published_def storedAs_def by (auto split: if_splits elim!: list.rel_mono_strong)

text \<open>Published content is a set its holder can offer.\<close>

lemma published_offered:
  assumes pub: "published H J data hash hs st" and ok: "storeOk H st" "manifestJson_ok J" "hashesFit H"
    and nc: "noCollision H st (contentBlobs H J data)"
    and plain: "length data \<le> ChunkSizeC \<longrightarrow> DecodeManifest H J data = None"
    and small: "\<forall>d \<in> ran (files st). length d \<le> MaxBlobSize" and ne: "data \<noteq> []"
  shows "holdsSet H J st hash \<and> (\<forall>cset. loadContentSet H J st hash = Inr cset \<longrightarrow> csChunks cset = hs)"
proof -
  have fit: "requestOk h" if "storeGet H st h = Inr d" for h d
    using ok(3) storeGet_addr [OF ok(1) that] by (auto simp: hashesFit_def)
  have sz: "length d \<le> MaxBlobSize" if "storeGet H st h = Inr d" for h d
    using small that by (auto simp: storeGet_Inr ran_def)
  show ?thesis
  proof (rule published_cases [OF pub ok(1,2) nc plain], goal_cases one chunked)
    case one
    with fit sz ok(1) ne show ?case by (auto simp: holdsSet_def loadContentSet_def Let_def)
  next
    case chunked: (chunked blob m ds)
    have "blob \<noteq> []" using contentBlobs_nonempty [OF ne chunked(2)] .
    moreover have "list_all requestOk (mChunks m)"
      using chunked(5) fit by (auto simp: list_all_length pieces_def)
    ultimately show ?thesis
      using chunked fit sz ok(1) by (auto simp: holdsSet_def loadContentSet_def Let_def)
  qed
qed

text \<open>The stream \<open>T\<close> carries the push of \<open>cset\<close> to a peer's handler and its answers back: first the reply to
  the offer, then the last word on the whole transfer, which leaves the peer with \<open>ix'\<close> and the
  announcements made.\<close>

definition pushCarried ::
    "hashlib \<Rightarrow> manifestJson \<Rightarrow> hostingPolicy \<Rightarrow> int \<times> int \<Rightarrow> int \<times> int \<Rightarrow> string \<Rightarrow> blobStore \<Rightarrow> contentSet \<Rightarrow> transport
      \<Rightarrow> contentIndex \<Rightarrow> contentIndex \<Rightarrow> bytes list \<Rightarrow> bool" where
  "pushCarried H J P t1 t2 pusher st cset T ix ix' announced \<longleftrightarrow>
     (let offer = writePushOffer (csRoot cset) (word_of_int (csSize cset)) (numBlobs cset) in
      T offer = Some (fst (pushOffer H P (fst t1) (snd t1) offer ix)) \<and>
      (\<forall>sent. sendBlobs H st offer (csRoot cset # csChunks cset) = Inr sent \<longrightarrow>
         (\<exists>out. hostContent H J P t1 t2 pusher True True (\<lambda>_. False) sent ix = (out, ix', announced) \<and> T sent = Some out)))"

lemma sendBlobs_extends: "sendBlobs H st sent hs = Inr s \<Longrightarrow> \<exists>rest. s = sent @ rest"
proof (induction H st sent hs rule: sendBlobs.induct)
  case (2 H st sent h hs)
  then obtain data n where "storeOpen H st h = Inr (data, n)" "sendBlobs H st (sent @ blobFrame h data) hs = Inr s"
    by (auto split: sum.splits)
  with 2 show ?case by fastforce
qed simp

lemma offer_root:
  assumes "requestOk root" and "\<exists>rest. sent = writePushOffer root sz n @ rest"
    and "readPushOffer H sent = Inr ((r, sz', n'), rest')"
  shows "r = root"
proof -
  from assms(2) obtain rest where "sent = writeRequest root @ rest" by (auto simp: writePushOffer_def)
  with request.rd_enc [OF assms(1)] assms(3) show ?thesis by (auto simp: readPushOffer_def bindR_Inr_iff split: if_splits)
qed

text \<open>What the exchange leaves on the receiver.\<close>

lemma pushCarried_hosts:
  assumes carried: "pushCarried H J P t1 t2 pusher st cset T ix ix' announced"
    and held: "holdsSet H J st root" and ld: "loadContentSet H J st root = Inr cset"
    and small: "csSize cset \<le> int MaxContentSize" and room: "hasRoom P ix (csSize cset)" "\<not> hasSet root ix"
  shows "pushOnStream H st T cset = (pushAccept, None) \<and> (storeOk H (store ix) \<longrightarrow> storeOk H (store ix'))
       \<and> (\<forall>h \<in> set (root # csChunks cset). files (store ix') h \<noteq> None)
       \<and> announced = announce H True root @ announceChunks H True (\<lambda>_. False) (csChunks cset)
       \<and> blobsOf (store ix') \<subseteq> blobsOf (store ix) \<union> blobsOf st"
proof -
  let ?offer = "writePushOffer root (word_of_int (csSize cset)) (numBlobs cset)"
  have root: "csRoot cset = root" using loadContentSet_root [OF ld] .
  have hl: "hashlib_ok H" using held by (simp add: holdsSet_def storeOk_def)
  obtain sent ix1 m where s: "sendBlobs H st ?offer (root # csChunks cset) = Inr sent"
    and o: "fst (pushOffer H P (fst t1) (snd t1) ?offer ix) = [pushAccept]"
    and h: "handlePushStream H J P t1 t2 pusher True sent ix = ([pushAccept, 1], ix1)"
    and m: "map_of (sets ix1) root = Some m" "Chunks m = csChunks cset"
    and new: "blobsOf (store ix1) \<subseteq> blobsOf (store ix) \<union> blobsOf st"
    by (rule receive_honest [OF held ld small room])
  from carried root s h have T: "T ?offer = Some [pushAccept]" "T sent = Some [pushAccept, 1]" and i: "ix' = ix1"
    and a: "announced = (case readPushOffer H sent of Inl _ \<Rightarrow> [] | Inr ((r, _), _) \<Rightarrow>
        announce H True r @ announceChunks H True (\<lambda>_. False) (case map_of (sets ix1) r of None \<Rightarrow> [] | Some m \<Rightarrow> Chunks m))"
    using o by (auto simp: pushCarried_def hostContent_def Let_def)
  have "\<forall>h. 0 \<le> pending ix h" "0 \<le> reserved ix" using room(1) by (simp_all add: hasRoom_def)
  from accepted_push [OF h hl this] obtain r sz nb rest m' where
    r: "readPushOffer H sent = Inr ((r, sz, nb), rest)" "map_of (sets ix1) r = Some m'"
      "completeSet H J (store ix1) r (Size m') (Chunks m')"
    and ok: "storeOk H (store ix) \<longrightarrow> storeOk H (store ix1)" by auto
  have "r = root"
    using offer_root [OF _ sendBlobs_extends [OF s] r(1)] held by (simp add: holdsSet_def)
  with r m a i ok T s root new show ?thesis
    using pushOnStream_accepted [of T cset H st sent] by (auto simp: completeSet_def)
qed

section \<open>Content survives its publisher\<close>

text \<open>C14: a copy placed on a peer stands in for the publisher. Content is published, and its publisher
  pushes it to a peer that has room for it, does not have it yet and can write, over a stream that
  carries the bytes both ways. Then the push counts as placed, and any node that finds that peer
  under what the peer announced fetches exactly the published bytes from it, with the publisher gone
  and whatever other peers do. As before no store and no peer has different bytes with the hash of
  one of the content's blobs.\<close>

theorem placed_copy_serves:
  assumes put: "PutStream H J now s ixA = (Inr (hash, n), ixA')"
    and set_loaded: "loadContentSet H J (store ixA') hash = Inr cset" "csSize cset \<le> int MaxContentSize"
    and stream: "kadStream K k R = Some T" "pushCarried H J P t1 t2 A (store ixA') cset T ixR ixR' announced"
    and room: "hasRoom P ixR (csSize cset)" "\<not> hasSet hash ixR"
    and found: "\<forall>h c. hashToCID H h = Inr c \<and> c \<in> set announced \<longrightarrow> R \<in> set (providersOf N h)"
    and serves: "servedBy H N R (store ixR')" "R \<noteq> selfID N"
    and stores: "list_all (\<lambda>ix. storeOk H (store ix)) [ixA, ixR, ixB]"
      "list_all (\<lambda>ix. noCollision H (store ix) (contentBlobs H J (srcData s))) [ixA', ixR, ixB]"
      "list_all (\<lambda>ix. \<forall>d \<in> blobsOf (store ix). length d \<le> MaxBlobSize) [ixA', ixR]"
    and net: "noSubstitute H N (contentBlobs H J (srcData s))"
    and lib: "hashesFit H" "manifestJson_ok J"
    and content: "srcData s \<noteq> []" "length (srcData s) \<le> ChunkSizeC \<longrightarrow> DecodeManifest H J (srcData s) = None"
  shows "pushPlaced (rPush (newReplicator H J K A (store ixA') copies) k R hash)
       \<and> fst (Fetch H J PB later clock (Some N) bs hash ixB) = Inr (srcData s)"
proof -
  let ?data = "srcData s" and ?stA = "store ixA'" and ?stR = "store ixR'"
  have okA: "storeOk H (store ixA)" and hl: "hashlib_ok H" using stores(1) by (simp_all add: storeOk_def)
  from PutStream_Inr [OF put hl okA] obtain m :: contentMeta where r: "storeOk H ?stA" "published H J ?data hash (Chunks m) ?stA"
    by blast
  from published_offered [OF r(2,1) lib(2,1) _ content(2) _ content(1)] stores(2,3) set_loaded(1)
  have held: "holdsSet H J ?stA hash" and cs: "csChunks cset = Chunks m" by simp_all
  from pushCarried_hosts [OF stream(2) held set_loaded room] stores(1)
  have ok: "pushOnStream H ?stA T cset = (pushAccept, None)" "storeOk H ?stR"
    and have_all: "\<forall>h \<in> set (hash # Chunks m). files ?stR h \<noteq> None"
    and a: "announced = announce H True hash @ announceChunks H True (\<lambda>_. False) (Chunks m)"
    and new: "blobsOf ?stR \<subseteq> blobsOf (store ixR) \<union> blobsOf ?stA" by (simp_all add: cs)
  have nc: "noCollision H ?stR (contentBlobs H J ?data)" and small: "\<forall>d \<in> blobsOf ?stR. length d \<le> MaxBlobSize"
    using new stores(2,3) by (auto simp: noCollision_alt)
  have pub: "published H J ?data hash (Chunks m) ?stR" using published_copied [OF r(2) have_all] .
  have "fst (Fetch H J PB later clock (Some N) bs hash ixB) = Inr ?data"
  proof (rule fetch_from_holder [OF pub ok(2) nc lib(2) _ _ net])
    fix h d assume h: "h \<in> set (hash # Chunks m)" "storeGet H ?stR h = Inr d" "d \<in> contentBlobs H J ?data"
    have listed: "R \<in> set (providersOf N h)"
      using announced_found [OF found a hl storeGet_addr [OF ok(2) h(2)] h(1)] .
    from h(2) have "length d \<le> MaxBlobSize" using small by (auto simp: storeGet_Inr ran_def)
    with servedBy_holds [OF serves listed ok(2) lib(1) h(2) contentBlobs_nonempty [OF content(1) h(3)]]
    show "holds H N R h d" .
  qed (use content(2) stores in \<open>simp_all add: cleanStore_def\<close>)
  moreover have "rPush (newReplicator H J K A ?stA copies) k R hash = Inr pushAccept"
    using ok(1) stream(1) set_loaded(1) by (simp add: newReplicator_def pushTo_def)
  ultimately show ?thesis by (simp add: pushPlaced_def)
qed

theorem placed_copy_serves_witness:
  "\<exists>hash K N. pushPlaced (rPush (newReplicator demoHashlib demoJson K ''p'' (demoStore\<lparr>files := [hash \<mapsto> [1, 2, 3]]\<rparr>) 1) 0 ''a'' hash)
     \<and> providersOf N hash = [''x'', ''a''] \<and> onStream N ''x'' (writeRequest hash) = Some (writeBlob [9])
     \<and> fst (Fetch demoHashlib demoJson demoPolicy 0 0 (Some N) (\<lambda>_. 511) hash emptyIndex) = Inr [1, 2, 3]"
proof -
  let ?s = "\<lparr>srcData = [1, 2, 3], srcFails = False\<rparr>"
  let ?ix = "demoIndex\<lparr>store := demoStore\<lparr>files := Map.empty\<rparr>\<rparr>"
  obtain hash ixA where h: "ContentHash demoHashlib [1, 2, 3] = Inr hash"
    and put: "PutStream demoHashlib demoJson 9 ?s ?ix = (Inr (hash, 3), ixA)"
    and st: "store ixA = demoStore\<lparr>files := [hash \<mapsto> [1, 2, 3]]\<rparr>" using demo_put [of demoJson] by blast
  let ?stA = "demoStore\<lparr>files := [hash \<mapsto> [1, 2, 3]]\<rparr>"
  let ?set = "\<lparr>csRoot = hash, csSize = 3, csChunks = []\<rparr>"
  let ?offer = "writePushOffer hash (word_of_int 3) (numBlobs ?set)"
  have g: "storeGet demoHashlib ?stA hash = Inr [1, 2, 3]"
    using IsContentHash_ContentHash [OF demoHashlib_ok h] by (simp add: storeGet_Inr)
  then have ld: "loadContentSet demoHashlib demoJson ?stA hash = Inr ?set"
    by (simp add: loadContentSet_def demo_no_manifest Let_def)
  have s: "sendBlobs demoHashlib ?stA ?offer [hash] = Inr (?offer @ blobFrame hash [1, 2, 3])"
    using g by (simp add: storeOpen_def storeGet_Inr)
  let ?sent = "?offer @ blobFrame hash [1, 2, 3]"
  have ne: "?sent \<noteq> ?offer" by (simp add: blobFrame_def)
  obtain out ixR announced where host:
    "hostContent demoHashlib demoJson demoPolicy (0, 0) (1, 1) ''p'' True True (\<lambda>_. False) ?sent emptyIndex = (out, ixR, announced)"
    by (metis prod_cases3)
  let ?T = "\<lambda>b. if b = ?offer then Some (fst (pushOffer demoHashlib demoPolicy 0 0 ?offer emptyIndex)) else Some out"
  let ?K = "\<lparr>kadClosest = (\<lambda>_. Inr []), kadProviders = (\<lambda>_ _. []), kadStream = (\<lambda>_ _. Some ?T)\<rparr>"
  let ?N = "demoPair demoHashlib ixR"
  have carried: "pushCarried demoHashlib demoJson demoPolicy (0, 0) (1, 1) ''p'' ?stA ?set ?T emptyIndex ixR announced"
    using s host ne by (auto simp: pushCarried_def Let_def)
  have room: "hasRoom demoPolicy emptyIndex (csSize ?set)" "\<not> hasSet hash emptyIndex" "csSize ?set \<le> int MaxContentSize"
    by (simp_all add: hasRoom_def demoPolicy_def emptyIndex_def hostedBytes_def hasSet_def MaxContentSize_def)
  have blobs: "contentBlobs demoHashlib demoJson (srcData ?s) = {[1, 2, 3]}" by (simp add: contentBlobs_def ChunkSizeC_def)
  have okA: "storeOk demoHashlib ?stA" using demoHashlib_ok h by (simp add: storeOk_def)
  have ok0: "storeOk demoHashlib (store emptyIndex)" "storeOk demoHashlib (store ?ix)"
    using demoHashlib_ok by (simp_all add: storeOk_def emptyIndex_def)
  have "holdsSet demoHashlib demoJson ?stA hash"
    using g okA h demo_hashesFit by (auto simp: holdsSet_def demo_no_manifest hashesFit_def MaxBlobSize_def)
  from pushCarried_hosts [OF carried this ld room(3,1,2)]
  have "blobsOf (store ixR) \<subseteq> blobsOf (store emptyIndex) \<union> blobsOf ?stA" by blast
  also have "\<dots> = {[1, 2, 3]}" by (simp add: emptyIndex_def)
  finally have new: "blobsOf (store ixR) \<subseteq> {[1, 2, 3]}" .
  have "pushPlaced (rPush (newReplicator demoHashlib demoJson ?K ''p'' (store ixA) 1) 0 ''a'' hash)
       \<and> fst (Fetch demoHashlib demoJson demoPolicy 0 0 (Some ?N) (\<lambda>_. 511) hash emptyIndex) = Inr (srcData ?s)"
  proof (rule placed_copy_serves [OF put, where T = ?T and cset = ?set and announced = announced])
    show "servedBy demoHashlib ?N ''a'' (store ixR)" by (auto simp: servedBy_def demoPair_def)
    show "noSubstitute demoHashlib ?N (contentBlobs demoHashlib demoJson (srcData ?s))"
      unfolding blobs by (rule demoPair_exact [OF new]) (use demo_nine in \<open>simp_all add: exactBlob_def MaxBlobSize_def\<close>)
    show "list_all (\<lambda>ix. noCollision demoHashlib (store ix) (contentBlobs demoHashlib demoJson (srcData ?s))) [ixA, emptyIndex, emptyIndex]"
      unfolding blobs by (simp add: st noCollision_def emptyIndex_def)
    show "length (srcData ?s) \<le> ChunkSizeC \<longrightarrow> DecodeManifest demoHashlib demoJson (srcData ?s) = None"
      by (simp add: demo_no_manifest)
  qed (use ld carried room ok0 demo_hashesFit st in \<open>simp_all add: demoPair_def manifestJson_ok_def demoJson_def MaxBlobSize_def emptyIndex_def\<close>)
  then have f: "pushPlaced (rPush (newReplicator demoHashlib demoJson ?K ''p'' ?stA 1) 0 ''a'' hash)"
    "fst (Fetch demoHashlib demoJson demoPolicy 0 0 (Some ?N) (\<lambda>_. 511) hash emptyIndex) = Inr [1, 2, 3]"
    unfolding st by (elim conjE, simp only: source.select_convs)+
  have n: "providersOf ?N hash = [''x'', ''a'']" "onStream ?N ''x'' (writeRequest hash) = Some (writeBlob [9])"
    by (simp_all add: demoPair_def)
  show ?thesis using f n by blast
qed

end
