(* ===== verification/CashAddr.thy ===== *)
theory CashAddr
  imports Prelude
begin

text \<open>
  \<open>internal/bch/cashaddr.go\<close>: regrouping of bytes into 5-bit symbols, the BCH-code checksum
  and the address string. The lemmas treat the checksum as the linear code it is: one step of
  \<open>polymod\<close> is linear over exclusive or, so the eight checksum symbols cancel the remainder.
\<close>

section \<open>The code\<close>

definition cashAddrCharset :: string where
  "cashAddrCharset = ''qpzry9x8gf2tvdw0s3jn54khce6mua7l''"

definition cashAddrPrefix :: "string \<Rightarrow> string" where
  "cashAddrPrefix network = (if network = ''mainnet'' then ''bitcoincash'' else ''bchtest'')"

definition polymodStep :: "64 word \<Rightarrow> byte \<Rightarrow> 64 word" where
  "polymodStep c d =
     (let c0 = ucast (drop_bit 35 c) :: byte;
          c = push_bit 5 (c AND 0x07ffffffff) XOR ucast d;
          c = (if c0 AND 0x01 \<noteq> 0 then c XOR 0x98f2bc8e61 else c);
          c = (if c0 AND 0x02 \<noteq> 0 then c XOR 0x79b76d99e2 else c);
          c = (if c0 AND 0x04 \<noteq> 0 then c XOR 0xf33e5fb3c4 else c);
          c = (if c0 AND 0x08 \<noteq> 0 then c XOR 0xae2eabe2a8 else c);
          c = (if c0 AND 0x10 \<noteq> 0 then c XOR 0x1e4f43e470 else c)
      in c)"

definition polymod :: "bytes \<Rightarrow> 64 word" where
  "polymod data = foldl polymodStep 1 data XOR 1"

text \<open>The inner loop \<open>for bits >= to\<close>: the groups it emits and the number of bits left over
  (\<open>to\<close> is 5 or 8 in every call; with \<open>to = 0\<close> the Go loop would not end).\<close>

function emitGroups :: "32 word \<Rightarrow> nat \<Rightarrow> nat \<Rightarrow> bytes \<times> nat" where
  "emitGroups acc bits to =
     (if to \<le> bits \<and> 0 < to then
        (case emitGroups acc (bits - to) to of
           (gs, b) \<Rightarrow> (ucast (drop_bit (bits - to) acc AND mask to) # gs, b))
      else ([], bits))"
  by pat_completeness auto
termination
  by (relation "measure (\<lambda>(acc, bits, to). bits)") auto

declare emitGroups.simps [simp del]

fun convertLoop :: "nat \<Rightarrow> nat \<Rightarrow> 32 word \<Rightarrow> nat \<Rightarrow> bytes \<Rightarrow> bytes \<times> 32 word \<times> nat" where
  "convertLoop frm to acc bits [] = ([], acc, bits)"
| "convertLoop frm to acc bits (b # bs) =
     (let acc = push_bit frm acc OR ucast b;
          (gs, bits) = emitGroups acc (bits + frm) to;
          (rest, acc, bits) = convertLoop frm to acc bits bs
      in (gs @ rest, acc, bits))"

definition convertBits :: "bytes \<Rightarrow> nat \<Rightarrow> nat \<Rightarrow> bool \<Rightarrow> bytes" where
  "convertBits data frm to pad =
     (case convertLoop frm to 0 0 data of
        (out, acc, bits) \<Rightarrow>
          if pad \<and> bits > 0 then out @ [ucast (push_bit (to - bits) acc AND mask to)] else out)"

definition cashAddrData :: "byte \<Rightarrow> bytes \<Rightarrow> bytes" where
  "cashAddrData addrType hash160 = convertBits (push_bit 3 addrType # hash160) 8 5 True"

definition prefixSymbols :: "string \<Rightarrow> bytes" where
  "prefixSymbols prefix = map (\<lambda>c. of_char c AND 0x1f) prefix @ [0]"

definition cashAddrChecksum :: "string \<Rightarrow> bytes \<Rightarrow> bytes" where
  "cashAddrChecksum prefix data =
     (let m = polymod (prefixSymbols prefix @ data @ replicate 8 0)
      in map (\<lambda>i. ucast (drop_bit (5 * (7 - i)) m AND 0x1f)) [0..<8])"

definition encodeCashAddr :: "string \<Rightarrow> byte \<Rightarrow> bytes \<Rightarrow> string" where
  "encodeCashAddr network addrType hash160 =
     (let prefix = cashAddrPrefix network;
          data = cashAddrData addrType hash160;
          checksum = cashAddrChecksum prefix data
      in prefix @ '':'' @ map (\<lambda>d. cashAddrCharset ! unat d) data
           @ map (\<lambda>c. cashAddrCharset ! unat c) checksum)"

section \<open>Regrouping: the bit stream is preserved\<close>

text \<open>The low \<open>n\<close> bits of a word, most significant first.\<close>

definition bitsOf :: "nat \<Rightarrow> 'a::len word \<Rightarrow> bool list" where
  "bitsOf n w = map (\<lambda>i. bit w (n - 1 - i)) [0..<n]"

lemma length_bitsOf [simp]: "length (bitsOf n w) = n"
  by (simp add: bitsOf_def)

lemma bitsOf_0 [simp]: "bitsOf 0 w = []"
  by (simp add: bitsOf_def)

lemma nth_bitsOf: "i < n \<Longrightarrow> bitsOf n w ! i = bit w (n - 1 - i)"
  by (simp add: bitsOf_def)

lemma bitsOf_split: "k \<le> n \<Longrightarrow> bitsOf n w = bitsOf k (drop_bit (n - k) w) @ bitsOf (n - k) w"
  by (rule nth_equalityI) (auto simp: nth_append nth_bitsOf bit_simps)

lemma bitsOf_group:
  assumes "to \<le> 8" and "to \<le> LENGTH('a)"
  shows "bitsOf to (ucast ((w :: 'a::len word) AND mask to) :: byte) = bitsOf to w"
  using assms by (intro nth_equalityI) (auto simp: nth_bitsOf bit_simps)

lemma unat_group_less: "to \<le> 8 \<Longrightarrow> unat (ucast (w AND mask to :: 32 word) :: byte) < 2 ^ to"
  by (simp add: unsigned_ucast_eq flip: take_bit_eq_mask)
    (simp add: unsigned_take_bit_eq min_def)

lemma emitGroups_bits:
  "0 < to \<Longrightarrow> to \<le> 8 \<Longrightarrow> emitGroups acc bits to = (gs, b) \<Longrightarrow>
   bitsOf bits acc = concat (map (bitsOf to) gs) @ bitsOf b acc \<and> b < to \<and>
   list_all (\<lambda>g. unat g < 2 ^ to) gs"
proof (induction acc bits to arbitrary: gs b rule: emitGroups.induct)
  case (1 acc bits to)
  show ?case
  proof (cases "to \<le> bits")
    case True
    obtain gs' where e: "emitGroups acc (bits - to) to = (gs', b)"
      and gs: "gs = ucast (drop_bit (bits - to) acc AND mask to) # gs'"
      using "1.prems" True by (auto simp: emitGroups.simps [of acc bits to] split: prod.splits)
    have ih: "bitsOf (bits - to) acc = concat (map (bitsOf to) gs') @ bitsOf b acc \<and> b < to \<and>
        list_all (\<lambda>g. unat g < 2 ^ to) gs'"
      using "1.IH" [OF _ "1.prems"(1,2) e] True "1.prems"(1) by auto
    have "unat (ucast (drop_bit (bits - to) acc AND mask to) :: byte) < 2 ^ to"
      using "1.prems"(2) by (rule unat_group_less)
    with ih True "1.prems" show ?thesis
      using bitsOf_split [of to bits acc] by (simp add: gs bitsOf_group)
  next
    case False
    with "1.prems" show ?thesis by (simp add: emitGroups.simps [of acc bits to])
  qed
qed

lemma bitsOf_push:
  assumes "bits + frm \<le> 32" and "unat (b :: byte) < 2 ^ frm" "frm \<le> 8"
  shows "bitsOf (bits + frm) (push_bit frm acc OR ucast b :: 32 word) = bitsOf bits acc @ bitsOf frm b"
proof -
  have hi: "\<not> bit b n" if "frm \<le> n" for n
  proof -
    have "take_bit frm (unat b) = unat b" using assms(2) by (simp add: take_bit_nat_eq_self)
    then have "bit (unat b) n \<longleftrightarrow> bit (take_bit frm (unat b)) n" by simp
    with that show ?thesis by (simp add: bit_take_bit_iff bit_unsigned_iff)
  qed
  show ?thesis
    using assms hi by (intro nth_equalityI) (auto simp: nth_append nth_bitsOf bit_simps add.commute [of frm bits])
qed

lemma convertLoop_bits:
  "0 < to \<Longrightarrow> to \<le> 8 \<Longrightarrow> frm \<le> 8 \<Longrightarrow> bits < to \<Longrightarrow> list_all (\<lambda>b. unat b < 2 ^ frm) data \<Longrightarrow>
   convertLoop frm to acc bits data = (out, acc', bits') \<Longrightarrow>
   bitsOf bits acc @ concat (map (bitsOf frm) data) = concat (map (bitsOf to) out) @ bitsOf bits' acc' \<and>
   bits' < to \<and> list_all (\<lambda>g. unat g < 2 ^ to) out"
proof (induction data arbitrary: acc bits out)
  case (Cons b bs)
  let ?a = "push_bit frm acc OR ucast b"
  obtain gs bits1 where e: "emitGroups ?a (bits + frm) to = (gs, bits1)" by (cases "emitGroups ?a (bits + frm) to")
  obtain rest where r: "convertLoop frm to ?a bits1 bs = (rest, acc', bits')" and out: "out = gs @ rest"
    using Cons.prems e by (auto simp: Let_def split: prod.splits)
  have g: "bitsOf (bits + frm) ?a = concat (map (bitsOf to) gs) @ bitsOf bits1 ?a" "bits1 < to"
    "list_all (\<lambda>g. unat g < 2 ^ to) gs"
    using emitGroups_bits [OF _ _ e] Cons.prems by auto
  have p: "bitsOf (bits + frm) ?a = bitsOf bits acc @ bitsOf frm b"
    using Cons.prems by (intro bitsOf_push) auto
  from Cons.IH [OF Cons.prems(1-3) g(2) _ r] Cons.prems(5)
  have "bitsOf bits1 ?a @ concat (map (bitsOf frm) bs) = concat (map (bitsOf to) rest) @ bitsOf bits' acc' \<and>
      bits' < to \<and> list_all (\<lambda>g. unat g < 2 ^ to) rest" by simp
  with g p out show ?case by (simp flip: append_assoc) simp
qed simp

lemma bitsOf_pad:
  assumes "bits < to" "to \<le> 8"
  shows "bitsOf to (ucast (push_bit (to - bits) acc AND mask to :: 32 word) :: byte) =
     bitsOf bits acc @ replicate (to - bits) False"
  using assms by (intro nth_equalityI) (auto simp: nth_append nth_bitsOf bit_simps)

lemma convertBits_pad_bits:
  assumes "0 < to" "to \<le> 8" "frm \<le> 8" "list_all (\<lambda>b. unat b < 2 ^ frm) data"
  shows "\<exists>k < to. concat (map (bitsOf to) (convertBits data frm to True)) =
            concat (map (bitsOf frm) data) @ replicate k False"
    and "list_all (\<lambda>g. unat g < 2 ^ to) (convertBits data frm to True)"
proof -
  obtain out acc bits where c: "convertLoop frm to 0 0 data = (out, acc, bits)"
    by (cases "convertLoop frm to 0 0 data")
  from convertLoop_bits [OF assms(1-3,1) assms(4) c]
  have e: "concat (map (bitsOf frm) data) = concat (map (bitsOf to) out) @ bitsOf bits acc"
    and b: "bits < to" and l: "list_all (\<lambda>g. unat g < 2 ^ to) out" by auto
  have "concat (map (bitsOf to) (convertBits data frm to True)) =
      concat (map (bitsOf frm) data) @ replicate (if bits > 0 then to - bits else 0) False"
    using b assms by (simp add: convertBits_def c e bitsOf_pad)
  moreover have "(if bits > 0 then to - bits else 0) < to" using b assms by auto
  ultimately show "\<exists>k < to. concat (map (bitsOf to) (convertBits data frm to True)) =
      concat (map (bitsOf frm) data) @ replicate k False" by blast
  show "list_all (\<lambda>g. unat g < 2 ^ to) (convertBits data frm to True)"
    using l assms by (simp add: convertBits_def c unat_group_less)
qed

section \<open>The checksum is a linear code\<close>

definition gen :: "64 word \<Rightarrow> 64 word" where
  "gen c = ((((if bit c 35 then 0x98f2bc8e61 else 0) XOR (if bit c 36 then 0x79b76d99e2 else 0))
     XOR (if bit c 37 then 0xf33e5fb3c4 else 0)) XOR (if bit c 38 then 0xae2eabe2a8 else 0))
     XOR (if bit c 39 then 0x1e4f43e470 else 0)"

definition advance :: "64 word \<Rightarrow> 64 word" where
  "advance c = push_bit 5 (take_bit 35 c) XOR gen c"

lemma c0_bits:
  "ucast (drop_bit 35 (c :: 64 word)) AND (0x01 :: byte) \<noteq> 0 \<longleftrightarrow> bit c 35"
  "ucast (drop_bit 35 c) AND (0x02 :: byte) \<noteq> 0 \<longleftrightarrow> bit c 36"
  "ucast (drop_bit 35 c) AND (0x04 :: byte) \<noteq> 0 \<longleftrightarrow> bit c 37"
  "ucast (drop_bit 35 c) AND (0x08 :: byte) \<noteq> 0 \<longleftrightarrow> bit c 38"
  "ucast (drop_bit 35 c) AND (0x10 :: byte) \<noteq> 0 \<longleftrightarrow> bit c 39"
proof -
  have A: "w AND 2 ^ n \<noteq> 0 \<longleftrightarrow> bit w n" for w :: byte and n
    by (simp add: and_exp_eq_0_iff_not_bit)
  note B = A [of "ucast (drop_bit 35 c)"]
  show "ucast (drop_bit 35 c) AND (0x01 :: byte) \<noteq> 0 \<longleftrightarrow> bit c 35"
    using B [of 0] by (simp add: bit_ucast_iff bit_drop_bit_eq)
  show "ucast (drop_bit 35 c) AND (0x02 :: byte) \<noteq> 0 \<longleftrightarrow> bit c 36"
    using B [of 1] by (simp add: bit_ucast_iff bit_drop_bit_eq)
  show "ucast (drop_bit 35 c) AND (0x04 :: byte) \<noteq> 0 \<longleftrightarrow> bit c 37"
    using B [of 2] by (simp add: bit_ucast_iff bit_drop_bit_eq)
  show "ucast (drop_bit 35 c) AND (0x08 :: byte) \<noteq> 0 \<longleftrightarrow> bit c 38"
    using B [of 3] by (simp add: bit_ucast_iff bit_drop_bit_eq)
  show "ucast (drop_bit 35 c) AND (0x10 :: byte) \<noteq> 0 \<longleftrightarrow> bit c 39"
    using B [of 4] by (simp add: bit_ucast_iff bit_drop_bit_eq)
qed

lemma polymodStep_eq: "polymodStep c d = advance c XOR ucast d"
proof -
  have m: "c AND 0x07ffffffff = take_bit 35 c"
    by (simp add: take_bit_eq_mask mask_numeral)
  show ?thesis
    unfolding polymodStep_def Let_def c0_bits m advance_def gen_def
    by (simp add: ac_simps)
qed

lemma gen_xor: "gen (a XOR b) = gen a XOR gen b"
  by (simp add: gen_def bit_xor_iff ac_simps)

lemma advance_xor: "advance (a XOR b) = advance a XOR advance b"
  by (simp add: advance_def gen_xor take_bit_xor push_bit_xor ac_simps)

lemma advance_small: "take_bit 35 p = p \<Longrightarrow> advance p = push_bit 5 p"
proof -
  assume p: "take_bit 35 p = p"
  have "\<not> bit p n" if "35 \<le> n" for n
    using that by (subst p [symmetric]) (simp add: bit_take_bit_iff)
  then show ?thesis by (simp add: advance_def gen_def p)
qed

lemma bit_advance: "40 \<le> n \<Longrightarrow> \<not> bit (advance c) n"
proof -
  assume n: "40 \<le> n"
  have g: "take_bit 40 (gen c) = gen c"
    by (auto simp: gen_def take_bit_xor)
  then have "\<not> bit (gen c) n"
    using n by (metis bit_take_bit_iff not_le)
  moreover have "\<not> n - 5 < 35" using n by simp
  ultimately show ?thesis
    by (simp add: advance_def bit_xor_iff bit_push_bit_iff bit_take_bit_iff)
qed

text \<open>Eight symbols packed five bits each, most significant symbol first.\<close>

definition packed :: "bytes \<Rightarrow> 64 word" where
  "packed ds = foldl (\<lambda>p d. push_bit 5 p XOR ucast d) 0 ds"

lemma packed_snoc: "packed (ds @ [d]) = push_bit 5 (packed ds) XOR ucast d"
  by (simp add: packed_def)

lemma packed_small:
  "list_all (\<lambda>d. unat d < 32) ds \<Longrightarrow> length ds \<le> 7 \<Longrightarrow> take_bit (5 * length ds) (packed ds) = packed ds"
proof (induction ds rule: rev_induct)
  case Nil
  then show ?case by (simp add: packed_def)
next
  case (snoc d ds)
  then have ih: "take_bit (5 * length ds) (packed ds) = packed ds" by simp
  have d: "\<not> bit d n" if "5 \<le> n" for n
  proof -
    have "take_bit 5 (unat d) = unat d" using snoc.prems by (simp add: take_bit_nat_eq_self)
    then have "bit (unat d) n \<longleftrightarrow> bit (take_bit 5 (unat d)) n" by simp
    with that show ?thesis by (simp add: bit_take_bit_iff bit_unsigned_iff)
  qed
  have p: "\<not> bit (packed ds) n" if "5 * length ds \<le> n" for n
    using that by (subst ih [symmetric]) (simp add: bit_take_bit_iff)
  show ?case
  proof (rule bit_word_eqI)
    fix n assume "n < LENGTH(64)"
    show "bit (take_bit (5 * length (ds @ [d])) (packed (ds @ [d]))) n = bit (packed (ds @ [d])) n"
    proof (cases "n < 5 + 5 * length ds")
      case True
      then show ?thesis by (simp add: bit_take_bit_iff)
    next
      case False
      then have "\<not> bit (packed ds) (n - 5)" "\<not> bit d n" using p d by auto
      with False show ?thesis by (simp add: packed_snoc bit_simps)
    qed
  qed
qed

lemma foldl_step_packed:
  "list_all (\<lambda>d. unat d < 32) ds \<Longrightarrow> length ds \<le> 8 \<Longrightarrow>
   foldl polymodStep c ds = (advance ^^ length ds) c XOR packed ds"
proof (induction ds rule: rev_induct)
  case Nil
  then show ?case by (simp add: packed_def)
next
  case (snoc d ds)
  then have l: "list_all (\<lambda>d. unat d < 32) ds" "length ds \<le> 7" by simp_all
  have s: "take_bit 35 (packed ds) = packed ds"
  proof -
    have "min 35 (5 * length ds) = 5 * length ds" using l(2) by simp
    then show ?thesis using packed_small [OF l] by (metis take_bit_take_bit)
  qed
  from snoc.IH l have "foldl polymodStep c ds = (advance ^^ length ds) c XOR packed ds" by simp
  then have "foldl polymodStep c (ds @ [d]) = advance ((advance ^^ length ds) c XOR packed ds) XOR ucast d"
    by (simp only: foldl_append foldl.simps polymodStep_eq [of _ d])
  then show ?case
    by (simp add: advance_xor advance_small [OF s] packed_snoc ac_simps del: foldl_append)
qed

lemma packed_digits:
  "packed (map (\<lambda>i. ucast (drop_bit (5 * (n - Suc i)) m AND 0x1f)) [0..<n]) = take_bit (5 * n) m"
proof (induction n arbitrary: m)
  case 0
  then show ?case by (simp add: packed_def)
next
  case (Suc n)
  let ?f = "\<lambda>i. ucast (drop_bit (5 * (Suc n - Suc i)) m AND 0x1f) :: byte"
  let ?g = "\<lambda>i. ucast (drop_bit (5 * (n - Suc i)) (drop_bit 5 m) AND 0x1f) :: byte"
  have "map ?f [0..<n] = map ?g [0..<n]"
  proof (rule map_cong)
    fix i assume "i \<in> set [0..<n]"
    then have "5 * (Suc n - Suc i) = 5 * (n - Suc i) + 5" by auto
    then show "?f i = ?g i" by (simp only: drop_bit_drop_bit)
  qed simp
  then have "packed (map ?f [0..<Suc n]) = push_bit 5 (packed (map ?g [0..<n])) XOR ucast (?f n)"
    by (simp only: upt_Suc map_append packed_snoc list.map) (simp del: map_eq_conv add: packed_snoc)
  also have "packed (map ?g [0..<n]) = take_bit (5 * n) (drop_bit 5 m)" by (rule Suc.IH)
  also have "(ucast (?f n) :: 64 word) = take_bit 5 m"
  proof -
    have "m AND 0x1f = take_bit 5 m" by (simp add: take_bit_eq_mask mask_numeral)
    then show ?thesis by (intro bit_word_eqI) (auto simp: bit_simps)
  qed
  also have "push_bit 5 (take_bit (5 * n) (drop_bit 5 m)) XOR take_bit 5 m = take_bit (5 * Suc n) m"
    by (rule bit_word_eqI) (auto simp: bit_simps add.commute)
  finally show ?case .
qed

lemma advance_pow_small: "0 < n \<Longrightarrow> take_bit 40 ((advance ^^ n) c) = (advance ^^ n) c"
proof -
  assume "0 < n"
  then obtain k where "n = Suc k" by (cases n) auto
  then have "\<not> bit ((advance ^^ n) c) i" if "40 \<le> i" for i
    using that by (simp add: bit_advance)
  then show ?thesis by (intro bit_word_eqI) (auto simp: bit_take_bit_iff not_le [symmetric])
qed

lemma checksum_symbols:
  "list_all (\<lambda>d. unat d < 32) (cashAddrChecksum prefix data)" "length (cashAddrChecksum prefix data) = 8"
proof -
  have "unat (ucast (w AND 0x1f :: 64 word) :: byte) < 32" for w
  proof -
    have m: "w AND 0x1f = take_bit 5 w" by (simp add: take_bit_eq_mask mask_numeral)
    have "unat (ucast (take_bit 5 w) :: byte) = take_bit 5 (unat w)"
      by (simp add: unsigned_ucast_eq unsigned_take_bit_eq)
    also have "\<dots> < 2 ^ 5" by (rule take_bit_nat_less_exp)
    finally show ?thesis unfolding m by simp
  qed
  then show "list_all (\<lambda>d. unat d < 32) (cashAddrChecksum prefix data)"
    by (auto simp: cashAddrChecksum_def Let_def list_all_iff)
  show "length (cashAddrChecksum prefix data) = 8" by (simp add: cashAddrChecksum_def Let_def)
qed

text \<open>The packed checksum is the remainder the code computed with the zero template.\<close>

lemma checksum_packed:
  "packed (cashAddrChecksum prefix data) =
     (advance ^^ 8) (foldl polymodStep 1 (prefixSymbols prefix @ data)) XOR 1"
proof -
  let ?c = "foldl polymodStep 1 (prefixSymbols prefix @ data)"
  let ?m = "polymod (prefixSymbols prefix @ data @ replicate 8 0)"
  have z: "packed (replicate 8 0) = 0" by (simp add: packed_def numeral_eq_Suc)
  have "foldl polymodStep ?c (replicate 8 0) = (advance ^^ 8) ?c XOR packed (replicate 8 0)"
    using foldl_step_packed [of "replicate 8 0" ?c] by (simp add: list_all_iff)
  then have m: "?m = (advance ^^ 8) ?c XOR 1" by (simp add: polymod_def z)
  have "map (\<lambda>i. ucast (drop_bit (5 * (7 - i)) ?m AND 0x1f) :: byte) [0..<8] =
      map (\<lambda>i. ucast (drop_bit (5 * (8 - Suc i)) ?m AND 0x1f)) [0..<8]"
    by (rule map_cong) auto
  then have "packed (cashAddrChecksum prefix data) = take_bit (5 * 8) ?m"
    unfolding cashAddrChecksum_def Let_def by (simp only: packed_digits)
  also have "\<dots> = ?m" unfolding m by (simp add: take_bit_xor advance_pow_small)
  finally show ?thesis using m by simp
qed

section \<open>Properties\<close>

text \<open>Every address verifies. For every network prefix and payload, the checksum appended by
  \<open>encodeCashAddr\<close> makes the CashAddr verification polynomial of prefix, separator, payload and
  checksum zero: the test every wallet applies before paying to the address.\<close>

theorem cashaddr_checksum_verifies:
  "polymod (prefixSymbols prefix @ data @ cashAddrChecksum prefix data) = 0"
proof -
  let ?c = "foldl polymodStep 1 (prefixSymbols prefix @ data)"
  have "foldl polymodStep ?c (cashAddrChecksum prefix data) = (advance ^^ 8) ?c XOR packed (cashAddrChecksum prefix data)"
    using foldl_step_packed [OF checksum_symbols(1), of prefix data ?c] by (simp only: checksum_symbols(2) le_refl simp_thms)
  also have "\<dots> = 1" unfolding checksum_packed by (simp flip: xor.assoc)
  finally show ?thesis by (simp add: polymod_def)
qed

text \<open>The 5-bit regrouping of \<open>convertBits\<close> loses nothing. For every version byte and hash, the
  symbols of \<open>cashAddrData\<close> are below 32 (so the charset lookup is in range) and their bit stream is
  the bit stream of the payload followed by fewer than five zero bits.\<close>

theorem cashaddr_data_bits:
  "(\<exists>k < 5. concat (map (bitsOf 5) (cashAddrData addrType h)) =
      concat (map (bitsOf 8) (push_bit 3 addrType # h)) @ replicate k False)
   \<and> (\<forall>d \<in> set (cashAddrData addrType h). unat d < length cashAddrCharset)"
proof -
  have 8: "list_all (\<lambda>b :: byte. unat b < 2 ^ 8) (push_bit 3 addrType # h)"
    using unsigned_less [where ?'a = nat and ?'b = 8] by (simp add: list_all_iff)
  have "length cashAddrCharset = 32" by (simp add: cashAddrCharset_def)
  with convertBits_pad_bits [OF _ _ _ 8, of 5] show ?thesis
    by (simp add: cashAddrData_def list_all_iff)
qed

theorem cashaddr_data_bits_witness:
  "\<exists>k < 5. concat (map (bitsOf 5) (cashAddrData 0 (replicate 20 7))) =
      concat (map (bitsOf 8) (push_bit 3 (0 :: byte) # replicate 20 7)) @ replicate k False"
  by (rule cashaddr_data_bits [THEN conjunct1])

end
