(* ===== verification/Codec.thy ===== *)
theory Codec
  imports Prelude
begin

text \<open>
  The byte-level encoders and the byte reader of \<open>internal/bch/bchtx.go\<close>: little-endian
  integers (\<open>encoding/binary\<close>), CompactSize integers (\<open>putVarInt\<close>, \<open>readVarInt\<close>),
  length-prefixed strings (\<open>putVarBytes\<close>, \<open>readVarBytes\<close>). The interface between an
  encoder and the reader that undoes it is the locale \<open>wire_codec\<close>; its lemmas (reading a
  sequence, prefix-freeness, injectivity) are proved once and used by the transaction codec.
  The reader keeps Go's 64-bit index arithmetic, so a slice expression that Go would panic on
  is the error \<open>GoPanic\<close>.
\<close>

section \<open>Little-endian integers\<close>

fun le_bytes :: "nat \<Rightarrow> nat \<Rightarrow> bytes" where
  "le_bytes 0 v = []"
| "le_bytes (Suc n) v = of_nat v # le_bytes n (v div 256)"

fun le_val :: "bytes \<Rightarrow> nat" where
  "le_val [] = 0"
| "le_val (b # bs) = unat b + 256 * le_val bs"

lemma length_le_bytes [simp]: "length (le_bytes n v) = n"
  by (induction n v rule: le_bytes.induct) auto

lemma unat_byte_of_nat: "unat (of_nat v :: byte) = v mod 256"
  by (simp only: unat_of_nat byte_card)

lemma unat_byte_less: "unat (b :: byte) < 256"
  using unsigned_less [of b, where ?'a = nat] by (simp only: byte_card)

lemma le_val_bytes: "v < 256 ^ n \<Longrightarrow> le_val (le_bytes n v) = v"
proof (induction n v rule: le_bytes.induct)
  case (2 n v)
  then have "v div 256 < 256 ^ n"
    by (simp add: less_mult_imp_div_less mult.commute)
  with "2.IH" have "le_val (le_bytes n (v div 256)) = v div 256" by blast
  then show ?case by (simp only: le_bytes.simps le_val.simps unat_byte_of_nat) simp
qed simp

lemma le_val_less: "le_val b < 256 ^ length b"
proof (induction b)
  case (Cons x xs)
  have "unat x < 256" by (rule unat_byte_less)
  with Cons show ?case by simp
qed simp

lemma le_bytes_val: "le_bytes (length b) (le_val b) = b"
proof (induction b)
  case (Cons x xs)
  have x: "unat x < 256" by (rule unat_byte_less)
  have "(of_nat (unat x + 256 * le_val xs) :: byte) = x"
  proof (rule unsigned_word_eqI [where ?'a = nat])
    show "unat (of_nat (unat x + 256 * le_val xs) :: byte) = unat x"
      using x by (simp only: unat_byte_of_nat mod_mult_self2 mod_less)
  qed
  moreover have "(unat x + 256 * le_val xs) div 256 = le_val xs"
    using x by simp
  ultimately show ?case using Cons by (simp only: length_Cons le_val.simps le_bytes.simps)
qed simp

section \<open>CompactSize and length-prefixed byte strings: the writer\<close>

definition putVarInt :: "64 word \<Rightarrow> bytes" where
  "putVarInt n =
     (if n < 0xfd then [ucast n]
      else if n \<le> 0xffff then 0xfd # le_bytes 2 (unat n)
      else if n \<le> 0xffffffff then 0xfe # le_bytes 4 (unat n)
      else 0xff # le_bytes 8 (unat n))"

definition putVarBytes :: "bytes \<Rightarrow> bytes" where
  "putVarBytes b = putVarInt (of_nat (length b)) @ b"

section \<open>The byte reader\<close>

record byteReader =
  buf :: bytes
  pos :: nat

datatype txErr = ErrShortBuffer | ErrReservedBit | ErrCommitmentLen "64 word" | GoPanic

definition readByte :: "byteReader \<Rightarrow> txErr + byte \<times> byteReader" where
  "readByte r =
     (if pos r \<ge> length (buf r) then Inl ErrShortBuffer
      else Inr (buf r ! pos r, r\<lparr>pos := pos r + 1\<rparr>))"

text \<open>
  \<open>r.pos+n > len(r.buf)\<close> is computed in Go's \<open>int\<close>: for \<open>n\<close> near \<open>2^63\<close> the sum is negative,
  the check passes and the slice \<open>r.buf[r.pos:r.pos+n]\<close> panics.
\<close>

definition readBytes :: "byteReader \<Rightarrow> int \<Rightarrow> txErr + bytes \<times> byteReader" where
  "readBytes r n =
     (let e = int64 (int (pos r) + n) in
      if n < 0 \<or> e > int (length (buf r)) then Inl ErrShortBuffer
      else if e < int (pos r) then Inl GoPanic
      else Inr (take (nat n) (drop (pos r) (buf r)), r\<lparr>pos := pos r + nat n\<rparr>))"

definition readUint32 :: "byteReader \<Rightarrow> txErr + 32 word \<times> byteReader" where
  "readUint32 r = bindR (readBytes r 4) (\<lambda>(b, r). Inr (of_nat (le_val b), r))"

definition readInt64 :: "byteReader \<Rightarrow> txErr + 64 word \<times> byteReader" where
  "readInt64 r = bindR (readBytes r 8) (\<lambda>(b, r). Inr (of_nat (le_val b), r))"

definition readVarInt :: "byteReader \<Rightarrow> txErr + 64 word \<times> byteReader" where
  "readVarInt r = bindR (readByte r) (\<lambda>(b, r).
     if b = 0xfd then bindR (readBytes r 2) (\<lambda>(v, r). Inr (of_nat (le_val v), r))
     else if b = 0xfe then bindR (readBytes r 4) (\<lambda>(v, r). Inr (of_nat (le_val v), r))
     else if b = 0xff then bindR (readBytes r 8) (\<lambda>(v, r). Inr (of_nat (le_val v), r))
     else Inr (ucast b, r))"

text \<open>\<open>int(n)\<close> of a \<open>uint64\<close> is the two's complement reading \<open>sint\<close>.\<close>

definition readVarBytes :: "byteReader \<Rightarrow> txErr + bytes \<times> byteReader" where
  "readVarBytes r = bindR (readVarInt r) (\<lambda>(n, r). readBytes r (sint n))"

text \<open>A counted loop that reads \<open>n\<close> items and stops at the first error.\<close>

fun readN :: "(byteReader \<Rightarrow> txErr + 'a \<times> byteReader) \<Rightarrow> nat \<Rightarrow> byteReader \<Rightarrow> txErr + 'a list \<times> byteReader" where
  "readN rd 0 r = Inr ([], r)"
| "readN rd (Suc n) r =
     bindR (rd r) (\<lambda>(x, r). bindR (readN rd n r) (\<lambda>(xs, r). Inr (x # xs, r)))"

text \<open>The reader that has consumed \<open>xs\<close> and has \<open>t\<close> left.\<close>

definition rdAt :: "bytes \<Rightarrow> bytes \<Rightarrow> byteReader" where
  "rdAt xs t = \<lparr>buf = xs @ t, pos = length xs\<rparr>"

lemma readByte_at [codec_simps]: "readByte (rdAt xs (b # t)) = Inr (b, rdAt (xs @ [b]) t)"
  by (simp add: readByte_def rdAt_def)

lemma readByte_end: "readByte (rdAt xs []) = Inl ErrShortBuffer"
  by (simp add: readByte_def rdAt_def)

lemma readBytes_at [codec_simps]:
  assumes "n = int (length b)" and "length (xs @ b @ t) < 2 ^ 63"
  shows "readBytes (rdAt xs (b @ t)) n = Inr (b, rdAt (xs @ b) t)"
proof -
  have "int64 (int (length xs) + int (length b)) = int (length xs) + int (length b)"
    using assms(2) by (intro int64_id) auto
  then show ?thesis using assms(1) by (simp add: readBytes_def rdAt_def Let_def)
qed

text \<open>The reader never moves backwards or past the end, and never changes the buffer.\<close>

definition reader_ok :: "byteReader \<Rightarrow> bool" where
  "reader_ok r \<longleftrightarrow> pos r \<le> length (buf r)"

definition advances :: "(byteReader \<Rightarrow> txErr + 'a \<times> byteReader) \<Rightarrow> bool" where
  "advances rd \<longleftrightarrow> (\<forall>r x r'. reader_ok r \<longrightarrow> length (buf r) < 2 ^ 63 \<longrightarrow> rd r = Inr (x, r') \<longrightarrow>
     buf r' = buf r \<and> pos r \<le> pos r' \<and> reader_ok r')"

lemma advancesD:
  "advances rd \<Longrightarrow> rd r = Inr (x, r') \<Longrightarrow> reader_ok r \<Longrightarrow> length (buf r) < 2 ^ 63 \<Longrightarrow>
   buf r' = buf r \<and> pos r \<le> pos r' \<and> reader_ok r'"
  unfolding advances_def by blast

lemma advances_bind:
  assumes "advances rd" and "\<And>x. advances (f x)"
  shows "advances (\<lambda>r. bindR (rd r) (\<lambda>(x, r). f x r))"
  unfolding advances_def
proof (intro allI impI)
  fix r y r'
  assume ok: "reader_ok r" "length (buf r) < 2 ^ 63"
    and eq: "bindR (rd r) (\<lambda>(x, r). f x r) = Inr (y, r')"
  then obtain x r1 where 1: "rd r = Inr (x, r1)" and 2: "f x r1 = Inr (y, r')"
    by (auto simp: bindR_Inr_iff)
  from advancesD [OF assms(1) 1 ok] have a: "buf r1 = buf r" "pos r \<le> pos r1" "reader_ok r1" by auto
  with ok advancesD [OF assms(2) 2] show "buf r' = buf r \<and> pos r \<le> pos r' \<and> reader_ok r'"
    by (metis order_trans)
qed

lemma advances_return [intro, simp]: "advances (\<lambda>r. Inr (x, r))" "advances (\<lambda>r. Inl e)"
  by (auto simp: advances_def)

lemma advances_if [intro]: "(c \<Longrightarrow> advances f) \<Longrightarrow> (\<not> c \<Longrightarrow> advances g) \<Longrightarrow> advances (\<lambda>r. if c then f r else g r)"
  by (cases c) auto

lemma advances_readByte [intro, simp]: "advances readByte"
  by (auto simp: advances_def readByte_def reader_ok_def split: if_splits)

lemma advances_readBytes:
  assumes "n < 2 ^ 63"
  shows "advances (\<lambda>r. readBytes r n)"
  unfolding advances_def
proof (intro allI impI)
  fix r x r'
  assume ok: "reader_ok r" "length (buf r) < 2 ^ 63" and eq: "readBytes r n = Inr (x, r')"
  let ?p = "int (pos r)"
  from eq have c: "0 \<le> n" "int64 (?p + n) \<le> int (length (buf r))" "?p \<le> int64 (?p + n)"
    and r': "r' = r\<lparr>pos := pos r + nat n\<rparr>"
    by (auto simp: readBytes_def Let_def split: if_splits)
  have p: "0 \<le> ?p" "?p < 2 ^ 63" using ok by (auto simp: reader_ok_def)
  have "?p + n < 2 ^ 63"
  proof (rule ccontr)
    assume "\<not> ?p + n < 2 ^ 63"
    with p assms have "int64 (?p + n) = ?p + n - 2 ^ 64" by (intro int64_overflow) auto
    with assms c(3) show False by simp
  qed
  with p c(1) have "int64 (?p + n) = ?p + n" by (intro int64_id) auto
  with c have "pos r + nat n \<le> length (buf r)" by linarith
  with r' show "buf r' = buf r \<and> pos r \<le> pos r' \<and> reader_ok r'"
    by (simp add: reader_ok_def)
qed

lemma advances_readUint32 [intro, simp]: "advances readUint32"
  unfolding readUint32_def by (rule advances_bind) (simp_all add: advances_readBytes)

lemma advances_readInt64 [intro, simp]: "advances readInt64"
  unfolding readInt64_def by (rule advances_bind) (simp_all add: advances_readBytes)

lemma advances_readVarInt [intro, simp]: "advances readVarInt"
  unfolding readVarInt_def
  by (intro advances_bind advances_if advances_readByte advances_readBytes advances_return) simp_all

lemma sint64_less: "sint (n :: 64 word) < 2 ^ 63"
  using sint_lt [of n] by simp

lemma advances_readVarBytes [intro, simp]: "advances readVarBytes"
  unfolding readVarBytes_def
  by (intro advances_bind advances_readVarInt advances_readBytes sint64_less)

lemma advances_readN [intro]: "advances rd \<Longrightarrow> advances (readN rd n)"
proof (induction n)
  case (Suc n)
  have "advances (\<lambda>r. bindR (rd r) (\<lambda>(x, r). bindR (readN rd n r) (\<lambda>(xs, r). Inr (x # xs, r))))"
    by (intro advances_bind Suc advances_return)
  moreover have "readN rd (Suc n) =
      (\<lambda>r. bindR (rd r) (\<lambda>(x, r). bindR (readN rd n r) (\<lambda>(xs, r). Inr (x # xs, r))))"
    by (rule ext) simp
  ultimately show ?case by simp
next
  case 0
  have "readN rd 0 = (\<lambda>r. Inr ([], r))" by (rule ext) simp
  then show ?case by simp
qed

section \<open>Encoder and reader: the interface\<close>

text \<open>A reader that recovers from an encoding what it needs of the value (\<open>view\<close>).\<close>

locale wire_reader =
  fixes enc :: "'a \<Rightarrow> bytes"
    and rd :: "byteReader \<Rightarrow> txErr + 'b \<times> byteReader"
    and ok :: "'a \<Rightarrow> bool"
    and view :: "'a \<Rightarrow> 'b"
  assumes rd_enc: "ok a \<Longrightarrow> length (xs @ enc a @ t) < 2 ^ 63 \<Longrightarrow>
    rd (rdAt xs (enc a @ t)) = Inr (view a, rdAt (xs @ enc a) t)"
begin

lemma readN_enc:
  "list_all ok as \<Longrightarrow> length (xs @ concat (map enc as) @ t) < 2 ^ 63 \<Longrightarrow> n = length as \<Longrightarrow>
   readN rd n (rdAt xs (concat (map enc as) @ t)) =
     Inr (map view as, rdAt (xs @ concat (map enc as)) t)"
proof (induction as arbitrary: xs n)
  case (Cons a as)
  have 1: "rd (rdAt xs (enc a @ concat (map enc as) @ t)) =
      Inr (view a, rdAt (xs @ enc a) (concat (map enc as) @ t))"
    using Cons.prems by (intro rd_enc) auto
  have 2: "readN rd (length as) (rdAt (xs @ enc a) (concat (map enc as) @ t)) =
      Inr (map view as, rdAt ((xs @ enc a) @ concat (map enc as)) t)"
    using Cons.prems by (intro Cons.IH) auto
  from 1 2 Cons.prems show ?case by simp
qed simp

text \<open>Encodings are self-delimiting: no encoding is a proper prefix of another one's.\<close>

lemma enc_prefix_free:
  assumes "ok a" "ok b" "enc a @ t = enc b @ u" "length (enc a @ t) < 2 ^ 63"
  shows "view a = view b \<and> enc a = enc b \<and> t = u"
proof -
  from rd_enc [of a "[]" t] rd_enc [of b "[]" u] assms
  have eq: "Inr (view a, rdAt (enc a) t) = (Inr (view b, rdAt (enc b) u) :: txErr + _)"
    by simp
  then have "length (enc a) = length (enc b)" by (simp add: rdAt_def)
  with assms(3) eq show ?thesis by simp
qed

text \<open>Hence a concatenation of encodings can be cut up in one way only.\<close>

lemma concat_enc_unique:
  "list_all ok as \<Longrightarrow> list_all ok bs \<Longrightarrow> (\<And>a. enc a \<noteq> []) \<Longrightarrow>
   concat (map enc as) = concat (map enc bs) \<Longrightarrow> length (concat (map enc as)) < 2 ^ 63 \<Longrightarrow>
   map view as = map view bs"
proof (induction as arbitrary: bs)
  case Nil
  then show ?case by (cases bs) auto
next
  case (Cons a as)
  then obtain b bs' where bs: "bs = b # bs'" by (cases bs) auto
  have "view a = view b \<and> enc a = enc b \<and> concat (map enc as) = concat (map enc bs')"
    using Cons.prems bs by (intro enc_prefix_free) auto
  with Cons.IH [of bs'] Cons.prems bs show ?case by simp
qed

end

text \<open>A reader that recovers the whole value.\<close>

locale wire_codec = wire_reader enc rd ok "\<lambda>x. x"
  for enc :: "'a \<Rightarrow> bytes" and rd :: "byteReader \<Rightarrow> txErr + 'a \<times> byteReader" and ok :: "'a \<Rightarrow> bool"
begin

lemma enc_inj: "ok a \<Longrightarrow> ok b \<Longrightarrow> enc a = enc b \<Longrightarrow> length (enc a) < 2 ^ 63 \<Longrightarrow> a = b"
  using enc_prefix_free [of a b "[]" "[]"] by simp

lemma enc_cancel:
  "ok a \<Longrightarrow> ok b \<Longrightarrow> enc a @ t = enc b @ u \<Longrightarrow> length (enc a @ t) < 2 ^ 63 \<Longrightarrow> a = b \<and> t = u"
  using enc_prefix_free by blast

end

section \<open>The codecs of the code\<close>

definition encUint32 :: "32 word \<Rightarrow> bytes" where "encUint32 w = le_bytes 4 (unat w)"
definition encInt64 :: "64 word \<Rightarrow> bytes" where "encInt64 w = le_bytes 8 (unat w)"

lemma unat32_less: "unat (w :: 32 word) < 256 ^ 4"
  using unsigned_less [of w, where ?'a = nat] by simp

lemma unat64_less: "unat (w :: 64 word) < 256 ^ 8"
  using unsigned_less [of w, where ?'a = nat] by simp

lemma length_encUint32 [simp]: "length (encUint32 w) = 4"
  by (simp add: encUint32_def)

lemma length_encInt64 [simp]: "length (encInt64 w) = 8"
  by (simp add: encInt64_def)

interpretation u32: wire_codec encUint32 readUint32 "\<lambda>_. True"
proof unfold_locales
  fix a xs t assume "length (xs @ encUint32 a @ t) < 2 ^ 63"
  then show "readUint32 (rdAt xs (encUint32 a @ t)) = Inr (a, rdAt (xs @ encUint32 a) t)"
    using le_val_bytes [OF unat32_less, of a]
    by (simp add: readUint32_def readBytes_at encUint32_def)
qed

interpretation i64: wire_codec encInt64 readInt64 "\<lambda>_. True"
proof unfold_locales
  fix a xs t assume "length (xs @ encInt64 a @ t) < 2 ^ 63"
  then show "readInt64 (rdAt xs (encInt64 a @ t)) = Inr (a, rdAt (xs @ encInt64 a) t)"
    using le_val_bytes [OF unat64_less, of a]
    by (simp add: readInt64_def readBytes_at encInt64_def)
qed

lemma readVarInt_put:
  assumes len: "length (xs @ putVarInt a @ t) < 2 ^ 63"
  shows "readVarInt (rdAt xs (putVarInt a @ t)) = Inr (a, rdAt (xs @ putVarInt a) t)"
proof -
  have S: "readVarInt (rdAt xs (p # le_bytes n (unat a) @ t)) = Inr (a, rdAt (xs @ p # le_bytes n (unat a)) t)"
    if "p = 0xfd \<and> n = 2 \<or> p = 0xfe \<and> n = 4 \<or> p = 0xff \<and> n = 8" "unat a < 256 ^ n"
      "length (xs @ p # le_bytes n (unat a) @ t) < 2 ^ 63" for p n
  proof -
    have "readBytes (rdAt (xs @ [p]) (le_bytes n (unat a) @ t)) (int n) =
        Inr (le_bytes n (unat a), rdAt ((xs @ [p]) @ le_bytes n (unat a)) t)"
      using that by (intro readBytes_at) auto
    with that le_val_bytes [OF that(2)] show ?thesis
      by (auto simp: readVarInt_def readByte_at)
  qed
  show ?thesis
  proof (cases "a < 0xfd")
    case True
    then have u: "unat a < 253" by (simp add: word_less_nat_alt)
    then have "unat (ucast a :: byte) = unat a"
      by (simp add: unsigned_ucast_eq take_bit_eq_mod)
    then have "(ucast a :: byte) \<noteq> 0xfd" "(ucast a :: byte) \<noteq> 0xfe" "(ucast a :: byte) \<noteq> 0xff"
      and "(ucast (ucast a :: byte) :: 64 word) = a"
      using u by (auto simp: word_eq_iff_unsigned [where ?'a = nat] unsigned_ucast_eq take_bit_eq_mod unat_mod)
    with True show ?thesis by (simp add: putVarInt_def readVarInt_def readByte_at)
  next
    case False
    consider "a \<le> 0xffff" | "\<not> a \<le> 0xffff" "a \<le> 0xffffffff" | "\<not> a \<le> 0xffff" "\<not> a \<le> 0xffffffff"
      by blast
    then show ?thesis
    proof cases
      case 1
      then have "unat a < 256 ^ 2" by (simp add: word_le_nat_alt)
      with 1 False len S [where p = "0xfd" and n = 2] show ?thesis by (simp add: putVarInt_def)
    next
      case 2
      then have "unat a < 256 ^ 4" by (simp add: word_le_nat_alt)
      with 2 False len S [where p = "0xfe" and n = 4] show ?thesis by (simp add: putVarInt_def)
    next
      case 3
      with False len S [where p = "0xff" and n = 8] unat64_less [of a] show ?thesis by (simp add: putVarInt_def)
    qed
  qed
qed

interpretation varint: wire_codec putVarInt readVarInt "\<lambda>_. True"
  by unfold_locales (rule readVarInt_put)

interpretation varbytes: wire_codec putVarBytes readVarBytes "\<lambda>_. True"
proof unfold_locales
  fix a xs t assume len: "length (xs @ putVarBytes a @ t) < 2 ^ 63"
  let ?n = "of_nat (length a) :: 64 word"
  have "length a < 2 ^ 63" using len by (simp add: putVarBytes_def)
  then have n: "sint ?n = int (length a)"
    by (simp add: signed_of_nat signed_take_bit_int_eq_self)
  have "readVarInt (rdAt xs (putVarInt ?n @ a @ t)) = Inr (?n, rdAt (xs @ putVarInt ?n) (a @ t))"
    using len by (intro varint.rd_enc) (auto simp: putVarBytes_def)
  moreover have "readBytes (rdAt (xs @ putVarInt ?n) (a @ t)) (sint ?n) = Inr (a, rdAt ((xs @ putVarInt ?n) @ a) t)"
    using len n by (intro readBytes_at) (auto simp: putVarBytes_def)
  ultimately show "readVarBytes (rdAt xs (putVarBytes a @ t)) = Inr (a, rdAt (xs @ putVarBytes a) t)"
    by (simp add: readVarBytes_def putVarBytes_def)
qed

text \<open>CompactSize is minimal: 1, 3, 5 or 9 bytes.\<close>

lemma length_putVarInt:
  "length (putVarInt n) = (if n < 0xfd then 1 else if n \<le> 0xffff then 3 else if n \<le> 0xffffffff then 5 else 9)"
  by (simp add: putVarInt_def)

end
