(* ===== verification/BchTx.thy ===== *)
theory BchTx
  imports Codec
begin

text \<open>
  \<open>internal/bch/bchtx.go\<close>: scripts, CashTokens prefixes, outputs, the BIP143-style sighash,
  signing, serialization and parsing of Bitcoin Cash transactions. SHA-256, RIPEMD-160, ECDSA
  and public-key serialization come from other packages and are the fields of \<open>crypto\<close>.
\<close>

section \<open>Hashes and keys\<close>

record 'k crypto =
  sha256 :: "bytes \<Rightarrow> bytes"
  ripemd160 :: "bytes \<Rightarrow> bytes"
  ecdsaSign :: "'k \<Rightarrow> bytes \<Rightarrow> bytes"
  pubKeyCompressed :: "'k \<Rightarrow> bytes"

definition hash160 :: "'k crypto \<Rightarrow> bytes \<Rightarrow> bytes" where
  "hash160 C b = ripemd160 C (sha256 C b)"

definition sha256d :: "'k crypto \<Rightarrow> bytes \<Rightarrow> bytes" where
  "sha256d C b = sha256 C (sha256 C b)"

section \<open>Data\<close>

record tokenInfo =
  CategoryID :: bytes
  Capability :: byte
  Commitment :: bytes
  Amount :: "64 word"

record txInput =
  PrevTxID :: bytes
  PrevIndex :: "32 word"
  PrevScript :: bytes
  PrevValue :: "64 word"
  PrevToken :: "tokenInfo option"
  Sequence :: "32 word"

record txOutput =
  Value :: "64 word"
  Script :: bytes
  Token :: "tokenInfo option"

record transaction =
  Version :: "32 word"
  Inputs :: "txInput list"
  Outputs :: "txOutput list"
  LockTime :: "32 word"

record parsedInput =
  pPrevTxID :: bytes
  pPrevIndex :: "32 word"

record parsedOutput =
  pValue :: "64 word"
  pScript :: bytes
  pToken :: "tokenInfo option"

record parsedTx =
  pInputs :: "parsedInput list"
  pOutputs :: "parsedOutput list"

section \<open>Scripts\<close>

definition p2pkhScript :: "bytes \<Rightarrow> bytes" where
  "p2pkhScript pubKeyHash =
     [0x76, 0xa9, of_nat (length pubKeyHash)] @ pubKeyHash @ [0x88, 0xac]"

text \<open>\<open>appendPush(s, p)\<close> appends to \<open>s\<close>; \<open>byte(n)\<close> keeps the low 8 bits.\<close>

definition appendPush :: "bytes \<Rightarrow> bytes \<Rightarrow> bytes" where
  "appendPush s p =
     (if length p < 0x4c then s @ [of_nat (length p)]
      else if length p \<le> 0xff then s @ [0x4c, of_nat (length p)]
      else s @ [0x4d, of_nat (length p), of_nat (length p div 256)]) @ p"

definition opReturnScript :: "bytes list \<Rightarrow> bytes" where
  "opReturnScript pushes = foldl appendPush [0x6a] pushes"

definition p2pkhHash :: "bytes \<Rightarrow> bytes option" where
  "p2pkhHash script =
     (if length script = 25 \<and> script ! 0 = 0x76 \<and> script ! 1 = 0xa9 \<and> script ! 2 = 20 \<and>
         script ! 23 = 0x88 \<and> script ! 24 = 0xac
      then Some (take 20 (drop 3 script)) else None)"

text \<open>The length of the next push; \<open>None\<close> is a return from the loop (short or unknown opcode).\<close>

definition pushLen :: "byte \<Rightarrow> byteReader \<Rightarrow> (nat \<times> byteReader) option" where
  "pushLen op r =
     (if op < 0x4c then Some (unat op, r)
      else if op = 0x4c then
        (case readByte r of Inl _ \<Rightarrow> None | Inr (b, r) \<Rightarrow> Some (unat b, r))
      else if op = 0x4d then
        (case readByte r of Inl _ \<Rightarrow> None | Inr (lo, r) \<Rightarrow>
          (case readByte r of Inl _ \<Rightarrow> None | Inr (hi, r) \<Rightarrow> Some (unat lo + 256 * unat hi, r)))
      else None)"

lemma readByte_Inr: "readByte r = Inr (b, r') \<Longrightarrow> buf r' = buf r \<and> pos r' = Suc (pos r)"
  by (auto simp: readByte_def split: if_splits)

lemma readBytes_Inr: "readBytes r n = Inr (b, r') \<Longrightarrow> buf r' = buf r \<and> pos r \<le> pos r'"
  by (auto simp: readBytes_def Let_def split: if_splits)

lemma pushLen_Some: "pushLen op r = Some (n, r') \<Longrightarrow> buf r' = buf r \<and> pos r \<le> pos r'"
  by (auto simp: pushLen_def split: if_splits sum.splits dest!: readByte_Inr)

function parsePushes :: "byteReader \<Rightarrow> bytes list" where
  "parsePushes r =
     (if pos r < length (buf r) then
        (case readByte r of Inl _ \<Rightarrow> [] | Inr (op, r1) \<Rightarrow>
          (case pushLen op r1 of None \<Rightarrow> [] | Some (n, r2) \<Rightarrow>
            (case readBytes r2 (int n) of Inl _ \<Rightarrow> [] | Inr (data, r3) \<Rightarrow> data # parsePushes r3)))
      else [])"
  by pat_completeness auto
termination
  by (relation "measure (\<lambda>r. length (buf r) - pos r)")
    (auto dest!: readByte_Inr pushLen_Some readBytes_Inr)

declare parsePushes.simps [simp del]

definition parseOpReturn :: "bytes \<Rightarrow> bytes list" where
  "parseOpReturn script =
     (if script = [] \<or> hd script \<noteq> 0x6a then []
      else parsePushes \<lparr>buf = script, pos = 1\<rparr>)"

section \<open>CashTokens prefix\<close>

datatype tokenErr = BadCategoryLen nat | CommitmentTooLong nat | EmptyToken | BadCapability byte

definition hasNFT :: "tokenInfo \<Rightarrow> bool" where
  "hasNFT t \<longleftrightarrow> Capability t \<noteq> 0x00 \<or> length (Commitment t) > 0"

definition validate :: "tokenInfo \<Rightarrow> tokenErr option" where
  "validate t =
     (if length (CategoryID t) \<noteq> 32 then Some (BadCategoryLen (length (CategoryID t)))
      else if length (Commitment t) > 40 then Some (CommitmentTooLong (length (Commitment t)))
      else if \<not> hasNFT t \<and> Amount t = 0 then Some EmptyToken
      else if Capability t = 0x00 \<or> Capability t = 0x01 \<or> Capability t = 0x02 then None
      else Some (BadCapability (Capability t)))"

definition tokenBitfield :: "tokenInfo \<Rightarrow> byte" where
  "tokenBitfield t =
     (((if hasNFT t then 0x20 else 0)
       OR (if length (Commitment t) > 0 then 0x40 else 0))
       OR (if Amount t > 0 then 0x10 else 0))
       OR (Capability t AND 0x0f)"

definition encodeTokenPrefix :: "tokenInfo \<Rightarrow> bytes" where
  "encodeTokenPrefix t =
     [0xef] @ CategoryID t @ [tokenBitfield t]
     @ (if length (Commitment t) > 0
        then putVarInt (of_nat (length (Commitment t))) @ Commitment t else [])
     @ (if Amount t > 0 then putVarInt (Amount t) else [])"

definition splitTokenPrefix :: "bytes \<Rightarrow> txErr + tokenInfo option \<times> bytes" where
  "splitTokenPrefix wrapped =
     (if wrapped = [] \<or> hd wrapped \<noteq> 0xef then Inr (None, wrapped)
      else bindR (readBytes \<lparr>buf = wrapped, pos = 1\<rparr> 32) (\<lambda>(category, r).
       bindR (readByte r) (\<lambda>(bitfield, r).
       if bitfield AND 0x80 \<noteq> 0 then Inl ErrReservedBit
       else let cap = (if bitfield AND 0x20 \<noteq> 0 then bitfield AND 0x0f else 0) in
       bindR (if bitfield AND 0x40 \<noteq> 0
              then bindR (readVarInt r) (\<lambda>(n, r).
                     if n = 0 \<or> n > 40 then Inl (ErrCommitmentLen n)
                     else readBytes r (sint n))
              else Inr ([], r)) (\<lambda>(commitment, r).
       bindR (if bitfield AND 0x10 \<noteq> 0 then readVarInt r else Inr (0, r)) (\<lambda>(amt, r).
       Inr (Some \<lparr>CategoryID = category, Capability = cap, Commitment = commitment, Amount = amt\<rparr>,
            drop (pos r) wrapped))))))"

section \<open>Outputs, sighash, signing, serialization\<close>

definition tokenPrefix :: "tokenInfo option \<Rightarrow> bytes" where
  "tokenPrefix tok = (case tok of None \<Rightarrow> [] | Some t \<Rightarrow> encodeTokenPrefix t)"

definition encodeOutput :: "txOutput \<Rightarrow> bytes" where
  "encodeOutput out = encInt64 (Value out) @ putVarBytes (tokenPrefix (Token out) @ Script out)"

definition hashPrevouts :: "'k crypto \<Rightarrow> transaction \<Rightarrow> bytes" where
  "hashPrevouts C tx =
     sha256d C (concat (map (\<lambda>inp. PrevTxID inp @ encUint32 (PrevIndex inp)) (Inputs tx)))"

definition hashSequence :: "'k crypto \<Rightarrow> transaction \<Rightarrow> bytes" where
  "hashSequence C tx = sha256d C (concat (map (\<lambda>inp. encUint32 (Sequence inp)) (Inputs tx)))"

definition hashOutputs :: "'k crypto \<Rightarrow> transaction \<Rightarrow> bytes" where
  "hashOutputs C tx = sha256d C (concat (map encodeOutput (Outputs tx)))"

definition sigHashPreimage :: "'k crypto \<Rightarrow> transaction \<Rightarrow> nat \<Rightarrow> 32 word \<Rightarrow> txErr + bytes" where
  "sigHashPreimage C tx i sigHashType =
     (if i \<ge> length (Inputs tx) then Inl GoPanic
      else let inp = Inputs tx ! i; scriptCode = tokenPrefix (PrevToken inp) @ PrevScript inp in
       Inr (encUint32 (Version tx)
         @ hashPrevouts C tx
         @ hashSequence C tx
         @ PrevTxID inp
         @ encUint32 (PrevIndex inp)
         @ putVarBytes scriptCode
         @ encInt64 (PrevValue inp)
         @ encUint32 (Sequence inp)
         @ hashOutputs C tx
         @ encUint32 (LockTime tx)
         @ encUint32 sigHashType))"

definition sigHashDefault :: "32 word" where "sigHashDefault = 0x01 OR 0x40"

definition signInput :: "'k crypto \<Rightarrow> transaction \<Rightarrow> nat \<Rightarrow> 'k \<Rightarrow> txErr + bytes" where
  "signInput C tx i priv =
     bindR (sigHashPreimage C tx i sigHashDefault) (\<lambda>preimage.
       let digest = sha256d C preimage;
           sigBytes = ecdsaSign C priv digest @ [ucast sigHashDefault];
           pubKey = pubKeyCompressed C priv
       in Inr (appendPush (appendPush [] sigBytes) pubKey))"

datatype serializeErr = KeyCount nat nat | OutputToken nat tokenErr | SignErr txErr

fun firstBadToken :: "nat \<Rightarrow> txOutput list \<Rightarrow> (nat \<times> tokenErr) option" where
  "firstBadToken i [] = None"
| "firstBadToken i (out # outs) =
     (case Token out of
        None \<Rightarrow> firstBadToken (Suc i) outs
      | Some t \<Rightarrow> (case validate t of Some e \<Rightarrow> Some (i, e) | None \<Rightarrow> firstBadToken (Suc i) outs))"

fun signFrom :: "'k crypto \<Rightarrow> transaction \<Rightarrow> nat \<Rightarrow> 'k list \<Rightarrow> txErr + bytes list" where
  "signFrom C tx i [] = Inr []"
| "signFrom C tx i (priv # privs) =
     bindR (signInput C tx i priv) (\<lambda>u. bindR (signFrom C tx (Suc i) privs) (\<lambda>us. Inr (u # us)))"

definition encodeInput :: "txInput \<times> bytes \<Rightarrow> bytes" where
  "encodeInput = (\<lambda>(inp, unlocking).
     PrevTxID inp @ encUint32 (PrevIndex inp) @ putVarBytes unlocking @ encUint32 (Sequence inp))"

definition Serialize :: "'k crypto \<Rightarrow> transaction \<Rightarrow> 'k list \<Rightarrow> serializeErr + bytes" where
  "Serialize C tx privs =
     (if length privs \<noteq> length (Inputs tx) then Inl (KeyCount (length privs) (length (Inputs tx)))
      else case firstBadToken 0 (Outputs tx) of
        Some (i, e) \<Rightarrow> Inl (OutputToken i e)
      | None \<Rightarrow>
         (case signFrom C tx 0 privs of
            Inl e \<Rightarrow> Inl (SignErr e)
          | Inr unlocking \<Rightarrow>
             Inr (encUint32 (Version tx)
               @ putVarInt (of_nat (length (Inputs tx)))
               @ concat (map encodeInput (zip (Inputs tx) unlocking))
               @ putVarInt (of_nat (length (Outputs tx)))
               @ concat (map encodeOutput (Outputs tx))
               @ encUint32 (LockTime tx))))"

definition txID :: "'k crypto \<Rightarrow> bytes \<Rightarrow> bytes" where
  "txID C rawTx = sha256d C rawTx"

definition reverseBytes :: "bytes \<Rightarrow> bytes" where
  "reverseBytes b = rev b"

section \<open>Parsing\<close>

definition readInput :: "byteReader \<Rightarrow> txErr + parsedInput \<times> byteReader" where
  "readInput r =
     bindR (readBytes r 32) (\<lambda>(prevID, r).
     bindR (readUint32 r) (\<lambda>(idx, r).
     bindR (readVarBytes r) (\<lambda>(script, r).
     bindR (readUint32 r) (\<lambda>(sequence, r).
     Inr (\<lparr>pPrevTxID = prevID, pPrevIndex = idx\<rparr>, r)))))"

definition readOutput :: "byteReader \<Rightarrow> txErr + parsedOutput \<times> byteReader" where
  "readOutput r =
     bindR (readInt64 r) (\<lambda>(value, r).
     bindR (readVarBytes r) (\<lambda>(wrapped, r).
     bindR (splitTokenPrefix wrapped) (\<lambda>(token, script).
     Inr (\<lparr>pValue = value, pScript = script, pToken = token\<rparr>, r))))"

definition parseTx :: "bytes \<Rightarrow> txErr + parsedTx" where
  "parseTx raw =
     bindR (readUint32 \<lparr>buf = raw, pos = 0\<rparr>) (\<lambda>(version, r).
     bindR (readVarInt r) (\<lambda>(nIn, r).
     bindR (readN readInput (unat nIn) r) (\<lambda>(ins, r).
     bindR (readVarInt r) (\<lambda>(nOut, r).
     bindR (readN readOutput (unat nOut) r) (\<lambda>(outs, r).
     Inr \<lparr>pInputs = ins, pOutputs = outs\<rparr>)))))"

section \<open>Script facts\<close>

lemma p2pkhHash_p2pkhScript: "length h = 20 \<Longrightarrow> p2pkhHash (p2pkhScript h) = Some h"
  by (simp add: p2pkhHash_def p2pkhScript_def nth_append)

lemma p2pkhHash_Some: "p2pkhHash s = Some h \<Longrightarrow> length h = 20 \<and> s = p2pkhScript h"
proof -
  assume a: "p2pkhHash s = Some h"
  then have l: "length s = 25" and h: "h = take 20 (drop 3 s)"
    and e: "s ! 0 = 0x76" "s ! 1 = 0xa9" "s ! 2 = 20" "s ! 23 = 0x88" "s ! 24 = 0xac"
    by (auto simp: p2pkhHash_def split: if_splits)
  have "s = take 3 s @ drop 3 s" by simp
  moreover have "drop 3 s = take 20 (drop 3 s) @ drop 20 (drop 3 s)" by (rule append_take_drop_id [symmetric])
  moreover have "drop 20 (drop 3 s) = drop 23 s" by simp
  ultimately have "s = take 3 s @ take 20 (drop 3 s) @ drop 23 s" by metis
  moreover have "take 3 s = [0x76, 0xa9, 20]"
    using l e by (intro nth_equalityI) (auto simp: less_Suc_eq numeral_eq_Suc)
  moreover have "drop 23 s = [0x88, 0xac]"
    using l e by (intro nth_equalityI) (auto simp: less_Suc_eq numeral_eq_Suc)
  ultimately show ?thesis using l h by (simp add: p2pkhScript_def)
qed

definition pushHeader :: "nat \<Rightarrow> bytes" where
  "pushHeader n =
     (if n < 0x4c then [of_nat n] else if n \<le> 0xff then [0x4c, of_nat n]
      else [0x4d, of_nat n, of_nat (n div 256)])"

lemma appendPush_eq: "appendPush s p = s @ pushHeader (length p) @ p"
  by (simp add: appendPush_def pushHeader_def)

lemma opReturnScript_eq:
  "opReturnScript ps = 0x6a # concat (map (\<lambda>p. pushHeader (length p) @ p) ps)"
proof -
  have "foldl appendPush s ps = s @ concat (map (\<lambda>p. pushHeader (length p) @ p) ps)" for s
    by (induction ps arbitrary: s) (simp_all add: appendPush_eq)
  then show ?thesis by (simp add: opReturnScript_def)
qed

lemma unat_byte_of_nat_small: "n < 256 \<Longrightarrow> unat (of_nat n :: byte) = n"
  by (simp add: unat_byte_of_nat)

lemma pushHeader_read:
  assumes "n \<le> 0xffff" and "length (xs @ pushHeader n @ t) < 2 ^ 63"
  shows "\<exists>op u. pushHeader n = op # u \<and>
     pushLen op (rdAt (xs @ [op]) (u @ t)) = Some (n, rdAt (xs @ pushHeader n) t)"
proof -
  consider "n < 0x4c" | "0x4c \<le> n" "n \<le> 0xff" | "0xff < n" by linarith
  then show ?thesis
  proof cases
    case 1
    then show ?thesis
      by (auto simp: pushHeader_def pushLen_def word_less_nat_alt unat_byte_of_nat_small)
  next
    case 2
    then show ?thesis
      by (auto simp: pushHeader_def pushLen_def unat_byte_of_nat_small readByte_at)
  next
    case 3
    with assms(1) have "n div 256 < 256" by simp
    with 3 show ?thesis
      by (auto simp: pushHeader_def pushLen_def unat_byte_of_nat readByte_at)
  qed
qed

lemma parsePushes_concat:
  "list_all (\<lambda>p. length p \<le> 0xffff) ps \<Longrightarrow>
   length (xs @ concat (map (\<lambda>p. pushHeader (length p) @ p) ps)) < 2 ^ 63 \<Longrightarrow>
   parsePushes (rdAt xs (concat (map (\<lambda>p. pushHeader (length p) @ p) ps))) = ps"
proof (induction ps arbitrary: xs)
  case Nil
  show ?case by (simp add: parsePushes.simps rdAt_def)
next
  case (Cons p ps)
  let ?t = "concat (map (\<lambda>p. pushHeader (length p) @ p) ps)"
  let ?h = "pushHeader (length p)"
  have "length (xs @ ?h @ p @ ?t) < 2 ^ 63" using Cons.prems by simp
  then obtain op u where h: "?h = op # u"
    and l: "pushLen op (rdAt (xs @ [op]) (u @ p @ ?t)) = Some (length p, rdAt (xs @ ?h) (p @ ?t))"
    using pushHeader_read [of "length p" xs "p @ ?t"] Cons.prems by auto
  have d: "readBytes (rdAt (xs @ ?h) (p @ ?t)) (int (length p)) = Inr (p, rdAt ((xs @ ?h) @ p) ?t)"
    using Cons.prems by (intro readBytes_at) auto
  have r: "parsePushes (rdAt ((xs @ ?h) @ p) ?t) = ps"
    using Cons.prems by (intro Cons.IH) auto
  have b: "readByte (rdAt xs (op # u @ p @ ?t)) = Inr (op, rdAt (xs @ [op]) (u @ p @ ?t))"
    by (rule readByte_at)
  have "pos (rdAt xs (op # u @ p @ ?t)) < length (buf (rdAt xs (op # u @ p @ ?t)))"
    by (simp add: rdAt_def)
  with b l d r show ?case by (simp add: h parsePushes.simps [of "rdAt xs (op # u @ p @ ?t)"])
qed

lemma parseOpReturn_opReturnScript:
  assumes "list_all (\<lambda>p. length p \<le> 0xffff) ps" and "length (opReturnScript ps) < 2 ^ 63"
  shows "parseOpReturn (opReturnScript ps) = ps"
proof -
  have "\<lparr>buf = opReturnScript ps, pos = 1\<rparr> = rdAt [0x6a] (concat (map (\<lambda>p. pushHeader (length p) @ p) ps))"
    by (simp add: rdAt_def opReturnScript_eq)
  then show ?thesis
    using assms parsePushes_concat [of ps "[0x6a]"]
    by (simp add: parseOpReturn_def opReturnScript_eq)
qed

section \<open>Token prefix facts\<close>

definition bitfieldOf :: "bool \<Rightarrow> bool \<Rightarrow> bool \<Rightarrow> byte \<Rightarrow> byte" where
  "bitfieldOf nft com amt cap =
     (((if nft then 0x20 else 0) OR (if com then 0x40 else 0)) OR (if amt then 0x10 else 0)) OR (cap AND 0x0f)"

lemma bitfieldOf_bits:
  assumes "cap = 0 \<or> cap = 1 \<or> cap = 2"
  shows "bitfieldOf nft com amt cap AND 0x80 = 0"
    and "bitfieldOf nft com amt cap AND 0x20 \<noteq> 0 \<longleftrightarrow> nft"
    and "bitfieldOf nft com amt cap AND 0x40 \<noteq> 0 \<longleftrightarrow> com"
    and "bitfieldOf nft com amt cap AND 0x10 \<noteq> 0 \<longleftrightarrow> amt"
    and "bitfieldOf nft com amt cap AND 0x0f = cap"
  using assms by (cases nft; cases com; cases amt; auto simp: bitfieldOf_def)+

lemma tokenBitfield_eq:
  "tokenBitfield t = bitfieldOf (hasNFT t) (length (Commitment t) > 0) (Amount t > 0) (Capability t)"
  by (simp add: tokenBitfield_def bitfieldOf_def)

lemma validate_None:
  "validate t = None \<longleftrightarrow>
     length (CategoryID t) = 32 \<and> length (Commitment t) \<le> 40 \<and> (hasNFT t \<or> Amount t \<noteq> 0) \<and>
     (Capability t = 0 \<or> Capability t = 1 \<or> Capability t = 2)"
  by (auto simp: validate_def)

lemma splitTokenPrefix_encode:
  assumes v: "validate t = None" and len: "length (encodeTokenPrefix t @ script) < 2 ^ 63"
  shows "splitTokenPrefix (encodeTokenPrefix t @ script) = Inr (Some t, script)"
proof -
  let ?b = "tokenBitfield t" and ?c = "Commitment t"
  obtain cb where cb: "cb = (if length ?c > 0 then putVarInt (of_nat (length ?c)) @ ?c else [])" by blast
  obtain ab where ab: "ab = (if Amount t > 0 then putVarInt (Amount t) else [])" by blast
  from v have cat: "length (CategoryID t) = 32" and com: "length ?c \<le> 40"
    and cap: "Capability t = 0 \<or> Capability t = 1 \<or> Capability t = 2"
    by (auto simp: validate_None)
  note bits = bitfieldOf_bits [OF cap, of "hasNFT t" "length ?c > 0" "Amount t > 0", folded tokenBitfield_eq]
  have w: "encodeTokenPrefix t @ script = 0xef # CategoryID t @ [?b] @ cb @ ab @ script"
    by (simp add: encodeTokenPrefix_def cb ab)
  have 1: "readBytes (rdAt [0xef] (CategoryID t @ [?b] @ cb @ ab @ script)) 32 =
      Inr (CategoryID t, rdAt ([0xef] @ CategoryID t) ([?b] @ cb @ ab @ script))"
    using len cat unfolding w by (intro readBytes_at) simp_all
  let ?x2 = "([0xef] @ CategoryID t) @ [?b]"
  have 2: "readByte (rdAt ([0xef] @ CategoryID t) ([?b] @ cb @ ab @ script)) = Inr (?b, rdAt ?x2 (cb @ ab @ script))"
    by (simp add: readByte_at)
  have n: "sint (of_nat (length ?c) :: 64 word) = int (length ?c)"
    using com by (simp add: signed_of_nat signed_take_bit_int_eq_self)
  have u: "unat (of_nat (length ?c) :: 64 word) = length ?c"
    using com by (simp add: unsigned_of_nat take_bit_nat_eq_self)
  have 3: "(if ?b AND 0x40 \<noteq> 0
      then bindR (readVarInt (rdAt ?x2 (cb @ ab @ script))) (\<lambda>(n, r).
             if n = 0 \<or> n > 40 then Inl (ErrCommitmentLen n) else readBytes r (sint n))
      else Inr ([], rdAt ?x2 (cb @ ab @ script))) = Inr (?c, rdAt (?x2 @ cb) (ab @ script))"
  proof (cases "?c = []")
    case False
    then have nz: "(of_nat (length ?c) :: 64 word) \<noteq> 0" "\<not> (of_nat (length ?c) :: 64 word) > 40"
      using com u by (auto simp: word_less_nat_alt unat_eq_0 [symmetric])
    have "readVarInt (rdAt ?x2 (putVarInt (of_nat (length ?c)) @ ?c @ ab @ script)) =
        Inr (of_nat (length ?c), rdAt (?x2 @ putVarInt (of_nat (length ?c))) (?c @ ab @ script))"
      using len False unfolding w by (intro varint.rd_enc) (simp_all add: cb ab)
    moreover have "readBytes (rdAt (?x2 @ putVarInt (of_nat (length ?c))) (?c @ ab @ script)) (int (length ?c)) =
        Inr (?c, rdAt ((?x2 @ putVarInt (of_nat (length ?c))) @ ?c) (ab @ script))"
      using len False unfolding w by (intro readBytes_at) (simp_all add: cb)
    ultimately show ?thesis using False bits nz n by (simp add: cb)
  qed (use bits cb in simp)
  have 4: "(if ?b AND 0x10 \<noteq> 0 then readVarInt (rdAt (?x2 @ cb) (ab @ script)) else Inr (0, rdAt (?x2 @ cb) (ab @ script)))
      = Inr (Amount t, rdAt ((?x2 @ cb) @ ab) script)"
  proof (cases "Amount t > 0")
    case True
    have "readVarInt (rdAt (?x2 @ cb) (putVarInt (Amount t) @ script)) =
        Inr (Amount t, rdAt ((?x2 @ cb) @ putVarInt (Amount t)) script)"
      using len True unfolding w by (intro varint.rd_enc) (simp_all add: cb ab)
    then show ?thesis using True bits by (simp add: ab)
  next
    case False
    then have "Amount t = 0" by (simp add: word_gt_0)
    with bits show ?thesis by (simp add: ab)
  qed
  have nft: "(if ?b AND 0x20 \<noteq> 0 then ?b AND 0x0f else 0) = Capability t"
    using bits by (simp add: hasNFT_def)
  have r0: "\<lparr>buf = encodeTokenPrefix t @ script, pos = 1\<rparr> = rdAt [0xef] (CategoryID t @ [?b] @ cb @ ab @ script)"
    by (simp add: rdAt_def w)
  have rest: "drop (pos (rdAt ((?x2 @ cb) @ ab) script)) (encodeTokenPrefix t @ script) = script"
    by (simp add: rdAt_def w)
  have t: "\<lparr>CategoryID = CategoryID t, Capability = Capability t, Commitment = ?c, Amount = Amount t\<rparr> = t"
    by simp
  have guard: "\<not> (encodeTokenPrefix t @ script = [] \<or> hd (encodeTokenPrefix t @ script) \<noteq> 0xef)"
    by (simp add: w)
  show ?thesis
    unfolding splitTokenPrefix_def r0
    by (simp only: guard 1 2 3 4 nft rest bits(1) t bindR_simps prod.case Let_def if_False simp_thms)
qed

lemma splitTokenPrefix_plain:
  "script = [] \<or> hd script \<noteq> 0xef \<Longrightarrow> splitTokenPrefix script = Inr (None, script)"
  by (simp add: splitTokenPrefix_def)

section \<open>Transaction codec facts\<close>

definition viewOut :: "txOutput \<Rightarrow> parsedOutput" where
  "viewOut out = \<lparr>pValue = Value out, pScript = Script out, pToken = Token out\<rparr>"

definition viewIn :: "txInput \<Rightarrow> parsedInput" where
  "viewIn inp = \<lparr>pPrevTxID = PrevTxID inp, pPrevIndex = PrevIndex inp\<rparr>"

text \<open>An output the parser reads back: a valid token, or a script that is not mistaken for one.\<close>

definition outOk :: "txOutput \<Rightarrow> bool" where
  "outOk out = (case Token out of
     None \<Rightarrow> Script out = [] \<or> hd (Script out) \<noteq> 0xef
   | Some t \<Rightarrow> validate t = None)"

lemma viewOut_inj: "viewOut a = viewOut b \<longleftrightarrow> a = b"
  by (auto simp: viewOut_def)

lemma splitTokenPrefix_out:
  "outOk out \<Longrightarrow> length (tokenPrefix (Token out) @ Script out) < 2 ^ 63 \<Longrightarrow>
   splitTokenPrefix (tokenPrefix (Token out) @ Script out) = Inr (Token out, Script out)"
  by (cases "Token out")
    (auto simp: outOk_def tokenPrefix_def intro: splitTokenPrefix_plain splitTokenPrefix_encode)

interpretation outputs: wire_reader encodeOutput readOutput outOk viewOut
proof unfold_locales
  fix a xs t assume ok: "outOk a" and len: "length (xs @ encodeOutput a @ t) < 2 ^ 63"
  let ?w = "tokenPrefix (Token a) @ Script a"
  have 1: "readInt64 (rdAt xs (encInt64 (Value a) @ putVarBytes ?w @ t)) =
      Inr (Value a, rdAt (xs @ encInt64 (Value a)) (putVarBytes ?w @ t))"
    using len by (intro i64.rd_enc) (auto simp: encodeOutput_def)
  have 2: "readVarBytes (rdAt (xs @ encInt64 (Value a)) (putVarBytes ?w @ t)) =
      Inr (?w, rdAt ((xs @ encInt64 (Value a)) @ putVarBytes ?w) t)"
    using len by (intro varbytes.rd_enc) (auto simp: encodeOutput_def)
  have 3: "splitTokenPrefix ?w = Inr (Token a, Script a)"
    using len by (intro splitTokenPrefix_out ok) (auto simp: encodeOutput_def putVarBytes_def)
  from 1 2 3 show "readOutput (rdAt xs (encodeOutput a @ t)) = Inr (viewOut a, rdAt (xs @ encodeOutput a) t)"
    by (simp add: readOutput_def encodeOutput_def viewOut_def)
qed

interpretation inputs: wire_reader encodeInput readInput
  "\<lambda>p. length (PrevTxID (fst p)) = 32" "\<lambda>p. viewIn (fst p)"
proof unfold_locales
  fix a xs t assume ok: "length (PrevTxID (fst a)) = 32" and len: "length (xs @ encodeInput a @ t) < 2 ^ 63"
  obtain inp u where a: "a = (inp, u)" by (cases a)
  have e: "encodeInput a @ t = PrevTxID inp @ encUint32 (PrevIndex inp) @ putVarBytes u @ encUint32 (Sequence inp) @ t"
    by (simp add: a encodeInput_def)
  let ?x1 = "xs @ PrevTxID inp" let ?x2 = "?x1 @ encUint32 (PrevIndex inp)" let ?x3 = "?x2 @ putVarBytes u"
  have 1: "readBytes (rdAt xs (encodeInput a @ t)) 32 =
      Inr (PrevTxID inp, rdAt ?x1 (encUint32 (PrevIndex inp) @ putVarBytes u @ encUint32 (Sequence inp) @ t))"
    using ok len unfolding e by (intro readBytes_at) (simp_all add: a encodeInput_def)
  have 2: "readUint32 (rdAt ?x1 (encUint32 (PrevIndex inp) @ putVarBytes u @ encUint32 (Sequence inp) @ t)) =
      Inr (PrevIndex inp, rdAt ?x2 (putVarBytes u @ encUint32 (Sequence inp) @ t))"
    using len by (intro u32.rd_enc) (auto simp: a encodeInput_def)
  have 3: "readVarBytes (rdAt ?x2 (putVarBytes u @ encUint32 (Sequence inp) @ t)) = Inr (u, rdAt ?x3 (encUint32 (Sequence inp) @ t))"
    using len by (intro varbytes.rd_enc) (auto simp: a encodeInput_def)
  have 4: "readUint32 (rdAt ?x3 (encUint32 (Sequence inp) @ t)) = Inr (Sequence inp, rdAt (?x3 @ encUint32 (Sequence inp)) t)"
    using len by (intro u32.rd_enc) (auto simp: a encodeInput_def)
  have r: "rdAt (xs @ encodeInput a) t = rdAt (?x3 @ encUint32 (Sequence inp)) t"
    by (simp add: a encodeInput_def)
  show "readInput (rdAt xs (encodeInput a @ t)) = Inr (viewIn (fst a), rdAt (xs @ encodeInput a) t)"
    unfolding readInput_def r
    by (simp only: 1 2 3 4 bindR_simps prod.case) (simp add: a viewIn_def)
qed

lemma firstBadToken_None:
  "firstBadToken i outs = None \<Longrightarrow> out \<in> set outs \<Longrightarrow> Token out = Some t \<Longrightarrow> validate t = None"
  by (induction i outs rule: firstBadToken.induct) (auto split: option.splits)

lemma firstBadToken_Some:
  "firstBadToken i outs = Some (j, e) \<Longrightarrow>
   i \<le> j \<and> j - i < length outs \<and> (\<exists>t. Token (outs ! (j - i)) = Some t \<and> validate t = Some e)"
proof (induction i outs rule: firstBadToken.induct)
  case (2 i out outs)
  show ?case
  proof (cases "\<exists>t e. Token out = Some t \<and> validate t = Some e")
    case True
    with 2 show ?thesis by auto
  next
    case False
    with "2.prems" have "firstBadToken (Suc i) outs = Some (j, e)"
      by (auto split: option.splits)
    moreover have "firstBadToken (Suc i) outs = Some (j, e) \<longrightarrow>
        Suc i \<le> j \<and> j - Suc i < length outs \<and> (\<exists>t. Token (outs ! (j - Suc i)) = Some t \<and> validate t = Some e)"
      using False 2(1,2) by (cases "Token out") auto
    ultimately show ?thesis
      by (auto simp: nth_Cons' Suc_diff_Suc less_Suc_eq_0_disj split: if_splits)
        (metis Suc_diff_Suc Suc_le_lessD diff_Suc_1 nat.simps(3) Suc_less_eq)+
  qed
qed simp

lemma signFrom_length: "signFrom C tx i ps = Inr us \<Longrightarrow> length us = length ps"
  by (induction ps arbitrary: i us) (auto simp: bindR_Inr_iff)

lemma signFrom_total: "i + length ps \<le> length (Inputs tx) \<Longrightarrow> \<exists>us. signFrom C tx i ps = Inr us"
proof (induction ps arbitrary: i)
  case (Cons p ps)
  then obtain us where "signFrom C tx (Suc i) ps = Inr us" by (metis add_Suc_shift length_Cons)
  with Cons.prems show ?case by (simp add: signInput_def sigHashPreimage_def Let_def)
qed simp

text \<open>Serialization fails for a key-count mismatch or an invalid token, and for nothing else.\<close>

lemma Serialize_cases:
  "length privs \<noteq> length (Inputs tx) \<Longrightarrow> Serialize C tx privs = Inl (KeyCount (length privs) (length (Inputs tx)))"
  "length privs = length (Inputs tx) \<Longrightarrow> firstBadToken 0 (Outputs tx) = Some (i, e) \<Longrightarrow>
     Serialize C tx privs = Inl (OutputToken i e)"
  "length privs = length (Inputs tx) \<Longrightarrow> firstBadToken 0 (Outputs tx) = None \<Longrightarrow>
     \<exists>raw. Serialize C tx privs = Inr raw"
  using signFrom_total [of 0 privs tx C] by (auto simp: Serialize_def split: option.splits)

lemma Serialize_Inr:
  assumes "Serialize C tx privs = Inr raw"
  obtains us where "length us = length (Inputs tx)" "firstBadToken 0 (Outputs tx) = None"
    "raw = encUint32 (Version tx) @ putVarInt (of_nat (length (Inputs tx)))
       @ concat (map encodeInput (zip (Inputs tx) us))
       @ putVarInt (of_nat (length (Outputs tx))) @ concat (map encodeOutput (Outputs tx))
       @ encUint32 (LockTime tx)"
  using assms by (auto simp: Serialize_def split: if_splits option.splits sum.splits dest: signFrom_length)

lemma unat_of_nat64: "n < 2 ^ 64 \<Longrightarrow> unat (of_nat n :: 64 word) = n"
  by (simp add: unsigned_of_nat take_bit_nat_eq_self)

lemma length_concat_ge: "(\<And>x. x \<in> set xs \<Longrightarrow> 1 \<le> length (f x)) \<Longrightarrow> length xs \<le> length (concat (map f xs))"
proof (induction xs)
  case (Cons x xs)
  then have "length xs \<le> length (concat (map f xs))" "1 \<le> length (f x)" by simp_all
  then show ?case by simp
qed simp

lemma parseTx_layout:
  assumes len: "length raw < 2 ^ 63"
    and raw: "raw = encUint32 v @ putVarInt (of_nat (length ins)) @ concat (map encodeInput (zip ins us))
       @ putVarInt (of_nat (length outs)) @ concat (map encodeOutput outs) @ lt"
    and us: "length us = length ins"
    and ids: "\<forall>inp \<in> set ins. length (PrevTxID inp) = 32" and ok: "list_all outOk outs"
  shows "parseTx raw = Inr \<lparr>pInputs = map viewIn ins, pOutputs = map viewOut outs\<rparr>"
proof -
  let ?ni = "of_nat (length ins) :: 64 word" and ?no = "of_nat (length outs) :: 64 word"
  let ?I = "concat (map encodeInput (zip ins us))" and ?O = "concat (map encodeOutput outs)"
  have "length (zip ins us) \<le> length ?I"
    by (rule length_concat_ge) (auto simp: encodeInput_def)
  then have ni: "unat ?ni = length (zip ins us)"
    using len us by (subst unat_of_nat64) (simp_all add: raw)
  have "length outs \<le> length ?O"
    by (rule length_concat_ge) (simp add: encodeOutput_def)
  then have no: "unat ?no = length outs"
    using len by (subst unat_of_nat64) (simp_all add: raw)
  let ?x1 = "encUint32 v" let ?x2 = "?x1 @ putVarInt ?ni" let ?x3 = "?x2 @ ?I" let ?x4 = "?x3 @ putVarInt ?no"
  have 0: "\<lparr>buf = raw, pos = 0\<rparr> = rdAt [] (encUint32 v @ putVarInt ?ni @ ?I @ putVarInt ?no @ ?O @ lt)"
    by (simp add: rdAt_def raw)
  have 1: "readUint32 (rdAt [] (encUint32 v @ putVarInt ?ni @ ?I @ putVarInt ?no @ ?O @ lt)) =
      Inr (v, rdAt ([] @ ?x1) (putVarInt ?ni @ ?I @ putVarInt ?no @ ?O @ lt))"
    using len by (intro u32.rd_enc) (auto simp: raw)
  have 2: "readVarInt (rdAt ([] @ ?x1) (putVarInt ?ni @ ?I @ putVarInt ?no @ ?O @ lt)) =
      Inr (?ni, rdAt (([] @ ?x1) @ putVarInt ?ni) (?I @ putVarInt ?no @ ?O @ lt))"
    using len by (intro varint.rd_enc) (auto simp: raw)
  have 3: "readN readInput (unat ?ni) (rdAt (([] @ ?x1) @ putVarInt ?ni) (?I @ putVarInt ?no @ ?O @ lt)) =
      Inr (map (\<lambda>p. viewIn (fst p)) (zip ins us), rdAt ((([] @ ?x1) @ putVarInt ?ni) @ ?I) (putVarInt ?no @ ?O @ lt))"
    using len ids by (intro inputs.readN_enc ni) (auto simp: raw list_all_iff dest: set_zip_leftD)
  have 4: "readVarInt (rdAt ((([] @ ?x1) @ putVarInt ?ni) @ ?I) (putVarInt ?no @ ?O @ lt)) =
      Inr (?no, rdAt (((([] @ ?x1) @ putVarInt ?ni) @ ?I) @ putVarInt ?no) (?O @ lt))"
    using len by (intro varint.rd_enc) (auto simp: raw)
  have 5: "readN readOutput (unat ?no) (rdAt (((([] @ ?x1) @ putVarInt ?ni) @ ?I) @ putVarInt ?no) (?O @ lt)) =
      Inr (map viewOut outs, rdAt ((((([] @ ?x1) @ putVarInt ?ni) @ ?I) @ putVarInt ?no) @ ?O) lt)"
    using len ok by (intro outputs.readN_enc no) (auto simp: raw)
  have m: "map (\<lambda>p. viewIn (fst p)) (zip ins us) = map viewIn ins"
    using us [symmetric] by (induction ins us rule: list_induct2) simp_all
  show ?thesis
    unfolding parseTx_def 0
    by (simp only: 1 2 3 4 5 m bindR_simps prod.case)
qed

section \<open>Properties\<close>

text \<open>A concrete instance of the external functions, with digests of the right length, used by
  the witnesses below.\<close>

definition demoCrypto :: "unit crypto" where
  "demoCrypto = \<lparr>sha256 = \<lambda>b. take 32 (b @ replicate 32 0), ripemd160 = \<lambda>b. take 20 (b @ replicate 20 0),
     ecdsaSign = \<lambda>k d. [3, 1, 4], pubKeyCompressed = \<lambda>k. [2, 7]\<rparr>"

definition demoTx :: transaction where
  "demoTx = \<lparr>Version = 2,
     Inputs = [\<lparr>PrevTxID = replicate 32 5, PrevIndex = 0, PrevScript = p2pkhScript [1, 2], PrevValue = 5000,
                PrevToken = None, Sequence = 0xffffffff\<rparr>],
     Outputs = [\<lparr>Value = 1000, Script = p2pkhScript [1, 2],
                 Token = Some \<lparr>CategoryID = replicate 32 5, Capability = 1, Commitment = [9, 9], Amount = 0\<rparr>\<rparr>,
                \<lparr>Value = 546, Script = opReturnScript [[70]], Token = None\<rparr>],
     LockTime = 0\<rparr>"

text \<open>C9: Parsing undoes serialization. If \<open>Serialize\<close> produces a raw transaction (of addressable
  length) from inputs with 32-byte outpoint ids and from outputs whose token-free scripts do not
  begin with the token prefix byte, then \<open>parseTx\<close> returns exactly the outpoints of its inputs and
  the value, locking script and CashTokens prefix of its outputs, in order.\<close>

theorem parse_serialize:
  assumes "Serialize C tx privs = Inr raw" and "length raw < 2 ^ 63"
    and "\<forall>inp \<in> set (Inputs tx). length (PrevTxID inp) = 32"
    and "\<forall>out \<in> set (Outputs tx). Token out = None \<longrightarrow> Script out = [] \<or> hd (Script out) \<noteq> 0xef"
  shows "parseTx raw = Inr \<lparr>pInputs = map viewIn (Inputs tx), pOutputs = map viewOut (Outputs tx)\<rparr>"
proof -
  from assms(1) obtain us where us: "length us = length (Inputs tx)"
    and none: "firstBadToken 0 (Outputs tx) = None"
    and raw: "raw = encUint32 (Version tx) @ putVarInt (of_nat (length (Inputs tx)))
       @ concat (map encodeInput (zip (Inputs tx) us))
       @ putVarInt (of_nat (length (Outputs tx))) @ concat (map encodeOutput (Outputs tx))
       @ encUint32 (LockTime tx)"
    by (rule Serialize_Inr)
  have "list_all outOk (Outputs tx)"
    using assms(4) firstBadToken_None [OF none] by (auto simp: list_all_iff outOk_def split: option.splits)
  with assms(2,3) raw us show ?thesis by (intro parseTx_layout)
qed

lemma demoCrypto_simps [simp]:
  "ecdsaSign demoCrypto k d = [3, 1, 4]" "pubKeyCompressed demoCrypto k = [2, 7]"
  "length (sha256 demoCrypto b) = 32" "length (ripemd160 demoCrypto b) = 20"
  by (simp_all add: demoCrypto_def)

lemma demo_raw: "\<exists>raw. Serialize demoCrypto demoTx [()] = Inr raw \<and> length raw < 2 ^ 63"
  by (simp add: Serialize_def demoTx_def validate_def hasNFT_def signInput_def sigHashPreimage_def
      appendPush_def encodeInput_def encodeOutput_def Let_def putVarBytes_def length_putVarInt
      tokenPrefix_def encodeTokenPrefix_def opReturnScript_def p2pkhScript_def)

theorem parse_serialize_witness:
  "\<exists>raw. Serialize demoCrypto demoTx [()] = Inr raw \<and>
     parseTx raw = Inr \<lparr>pInputs = map viewIn (Inputs demoTx), pOutputs = map viewOut (Outputs demoTx)\<rparr>"
proof -
  obtain raw where raw: "Serialize demoCrypto demoTx [()] = Inr raw" "length raw < 2 ^ 63"
    using demo_raw by blast
  have "\<forall>inp \<in> set (Inputs demoTx). length (PrevTxID inp) = 32"
    by (simp add: demoTx_def)
  moreover have "\<forall>out \<in> set (Outputs demoTx). Token out = None \<longrightarrow> Script out = [] \<or> hd (Script out) \<noteq> 0xef"
    by (simp add: demoTx_def opReturnScript_def appendPush_def)
  ultimately show ?thesis using raw parse_serialize [OF raw] by blast
qed

text \<open>Serialization is total and checks every token. \<open>Serialize\<close> returns a transaction exactly when
  there is one key per input and every output token passes \<open>validate\<close>; so nothing with a malformed
  CashTokens prefix is ever signed for broadcast, and nothing well-formed is refused.\<close>

theorem Serialize_ok_iff:
  "isOk (Serialize C tx privs) \<longleftrightarrow>
     length privs = length (Inputs tx) \<and>
     (\<forall>out \<in> set (Outputs tx). case Token out of None \<Rightarrow> True | Some t \<Rightarrow> validate t = None)"
proof (cases "length privs = length (Inputs tx)")
  case True
  show ?thesis
  proof (cases "firstBadToken 0 (Outputs tx)")
    case None
    with True Serialize_cases(3) [of privs tx C] firstBadToken_None [OF None] show ?thesis
      by (auto split: option.splits)
  next
    case (Some p)
    obtain j e where p: "p = (j, e)" by (cases p)
    from firstBadToken_Some [of 0 "Outputs tx" j e] Some p obtain t
      where "j < length (Outputs tx)" "Token (Outputs tx ! j) = Some t" "validate t = Some e" by auto
    then have "\<not> (\<forall>out \<in> set (Outputs tx). case Token out of None \<Rightarrow> True | Some t \<Rightarrow> validate t = None)"
      using nth_mem [of j "Outputs tx"] by (auto intro!: bexI [of _ "Outputs tx ! j"])
    with True Some p Serialize_cases(2) show ?thesis by (simp add: Serialize_def)
  qed
next
  case False
  then show ?thesis by (simp add: Serialize_def)
qed

theorem Serialize_ok_iff_witness:
  "isOk (Serialize demoCrypto demoTx [()]) \<and> \<not> isOk (Serialize demoCrypto demoTx [])"
  using Serialize_ok_iff [of demoCrypto demoTx "[()]"] Serialize_ok_iff [of demoCrypto demoTx "[]"]
  by (simp add: demoTx_def validate_def hasNFT_def)

text \<open>C30: The signed preimage commits to the transaction. If two inputs (of possibly different
  transactions) have the same sighash preimage, they agree on version, outpoint, covered bytecode
  (token prefix and locking script), value, sequence, locktime, hash type, and on the digests of all
  prevouts and sequences; and unless the two output serializations are a double-SHA-256 collision,
  the transactions have the same outputs. The digest length and the 32-byte outpoint ids are the
  hypotheses.\<close>

theorem sigHashPreimage_commits:
  assumes p: "sigHashPreimage C tx i ht = Inr p" and q: "sigHashPreimage C tx' i' ht' = Inr p"
    and len: "length p < 2 ^ 63" and sha: "\<And>b. length (sha256 C b) = 32"
    and ids: "length (PrevTxID (Inputs tx ! i)) = 32" "length (PrevTxID (Inputs tx' ! i')) = 32"
    and outs: "list_all outOk (Outputs tx)" "list_all outOk (Outputs tx')"
      "length (concat (map encodeOutput (Outputs tx))) < 2 ^ 63"
  shows "Version tx = Version tx' \<and> ht = ht' \<and> LockTime tx = LockTime tx' \<and>
     PrevTxID (Inputs tx ! i) = PrevTxID (Inputs tx' ! i') \<and>
     PrevIndex (Inputs tx ! i) = PrevIndex (Inputs tx' ! i') \<and>
     PrevValue (Inputs tx ! i) = PrevValue (Inputs tx' ! i') \<and>
     Sequence (Inputs tx ! i) = Sequence (Inputs tx' ! i') \<and>
     tokenPrefix (PrevToken (Inputs tx ! i)) @ PrevScript (Inputs tx ! i) =
       tokenPrefix (PrevToken (Inputs tx' ! i')) @ PrevScript (Inputs tx' ! i') \<and>
     hashPrevouts C tx = hashPrevouts C tx' \<and> hashSequence C tx = hashSequence C tx' \<and>
     (Outputs tx = Outputs tx' \<or>
      (concat (map encodeOutput (Outputs tx)) \<noteq> concat (map encodeOutput (Outputs tx')) \<and>
       sha256d C (concat (map encodeOutput (Outputs tx))) = sha256d C (concat (map encodeOutput (Outputs tx')))))"
proof -
  let ?a = "Inputs tx ! i" and ?b = "Inputs tx' ! i'"
  let ?sa = "tokenPrefix (PrevToken ?a) @ PrevScript ?a" and ?sb = "tokenPrefix (PrevToken ?b) @ PrevScript ?b"
  have sd: "length (sha256d C x) = 32" for x by (simp add: sha256d_def sha)
  have hs: "length (hashPrevouts C t) = 32" "length (hashSequence C t) = 32" "length (hashOutputs C t) = 32" for t
    by (simp_all add: hashPrevouts_def hashSequence_def hashOutputs_def sd)
  let ?ra = "encInt64 (PrevValue ?a) @ encUint32 (Sequence ?a) @ hashOutputs C tx @ encUint32 (LockTime tx) @ encUint32 ht"
  let ?rb = "encInt64 (PrevValue ?b) @ encUint32 (Sequence ?b) @ hashOutputs C tx' @ encUint32 (LockTime tx') @ encUint32 ht'"
  have pa: "p = encUint32 (Version tx) @ hashPrevouts C tx @ hashSequence C tx @ PrevTxID ?a @
      encUint32 (PrevIndex ?a) @ putVarBytes ?sa @ ?ra"
    using p by (simp add: sigHashPreimage_def Let_def split: if_splits)
  have pb: "p = encUint32 (Version tx') @ hashPrevouts C tx' @ hashSequence C tx' @ PrevTxID ?b @
      encUint32 (PrevIndex ?b) @ putVarBytes ?sb @ ?rb"
    using q by (simp add: sigHashPreimage_def Let_def split: if_splits)
  have fixed: "encUint32 (Version tx) = encUint32 (Version tx') \<and> hashPrevouts C tx = hashPrevouts C tx' \<and>
      hashSequence C tx = hashSequence C tx' \<and> PrevTxID ?a = PrevTxID ?b \<and>
      encUint32 (PrevIndex ?a) = encUint32 (PrevIndex ?b) \<and> putVarBytes ?sa @ ?ra = putVarBytes ?sb @ ?rb"
    using pa pb hs ids by (simp add: append_eq_append_conv)
  have s: "?sa = ?sb \<and> ?ra = ?rb"
    using fixed len pa by (intro varbytes.enc_cancel) auto
  then have tail: "encInt64 (PrevValue ?a) = encInt64 (PrevValue ?b) \<and> encUint32 (Sequence ?a) = encUint32 (Sequence ?b) \<and>
      hashOutputs C tx = hashOutputs C tx' \<and> encUint32 (LockTime tx) = encUint32 (LockTime tx') \<and> encUint32 ht = encUint32 ht'"
    using hs by (simp add: append_eq_append_conv)
  have u: "v = w" if "encUint32 v = encUint32 w" for v w using that by (intro u32.enc_inj) auto
  have v: "PrevValue ?a = PrevValue ?b" using tail by (intro i64.enc_inj) auto
  have outputs_eq: "Outputs tx = Outputs tx'"
    if "concat (map encodeOutput (Outputs tx)) = concat (map encodeOutput (Outputs tx'))"
  proof -
    have "encodeOutput x \<noteq> []" for x by (simp add: encodeOutput_def flip: length_greater_0_conv)
    from outputs.concat_enc_unique [OF outs(1,2) this that outs(3)]
    have "map viewOut (Outputs tx) = map viewOut (Outputs tx')" .
    then show ?thesis by (simp add: viewOut_inj inj_map_eq_map inj_def)
  qed
  from fixed tail u v s outputs_eq show ?thesis by (auto simp: hashOutputs_def)
qed

theorem sigHashPreimage_commits_witness:
  "\<exists>p. sigHashPreimage demoCrypto demoTx 0 sigHashDefault = Inr p \<and>
     tokenPrefix (PrevToken (Inputs demoTx ! 0)) @ PrevScript (Inputs demoTx ! 0) = p2pkhScript [1, 2] \<and>
     (Outputs demoTx = Outputs demoTx \<or>
      concat (map encodeOutput (Outputs demoTx)) \<noteq> concat (map encodeOutput (Outputs demoTx)))"
proof -
  obtain p where p: "sigHashPreimage demoCrypto demoTx 0 sigHashDefault = Inr p" and l: "length p < 2 ^ 63"
    by (simp add: sigHashPreimage_def demoTx_def Let_def hashPrevouts_def hashSequence_def hashOutputs_def
        sha256d_def putVarBytes_def length_putVarInt tokenPrefix_def p2pkhScript_def)
  have "length (sha256 demoCrypto b) = 32" for b by simp
  moreover have "length (PrevTxID (Inputs demoTx ! 0)) = 32" by (simp add: demoTx_def)
  moreover have "list_all outOk (Outputs demoTx)"
    by (simp add: demoTx_def outOk_def validate_def hasNFT_def opReturnScript_def appendPush_def)
  moreover have "length (concat (map encodeOutput (Outputs demoTx))) < 2 ^ 63"
    by (simp add: demoTx_def encodeOutput_def putVarBytes_def length_putVarInt tokenPrefix_def
        encodeTokenPrefix_def opReturnScript_def appendPush_def p2pkhScript_def)
  ultimately have "Outputs demoTx = Outputs demoTx \<or>
      concat (map encodeOutput (Outputs demoTx)) \<noteq> concat (map encodeOutput (Outputs demoTx))"
    using sigHashPreimage_commits [OF p p l] by blast
  with p show ?thesis by (auto simp: demoTx_def tokenPrefix_def)
qed

text \<open>A crafted transaction crashes the parser. Whatever version, outpoint and trailing bytes a
  server sends, an input whose script length is announced as the CompactSize \<open>2^63 - 1\<close> makes the
  reader's \<open>r.pos+n\<close> wrap around to a negative number; the length check passes and the slice
  expression panics instead of returning \<open>errShortBuffer\<close>.\<close>

theorem parseTx_length_overflow_panics:
  assumes "length txid = 32" and "length rest < 2 ^ 62"
  shows "parseTx (encUint32 v @ [1] @ txid @ encUint32 idx @ [0xff] @ le_bytes 8 (2 ^ 63 - 1) @ rest) = Inl GoPanic"
proof -
  let ?L = "le_bytes 8 (2 ^ 63 - 1)"
  let ?x1 = "[] @ encUint32 v" let ?x2 = "?x1 @ putVarInt 1" let ?x3 = "?x2 @ txid" let ?x4 = "?x3 @ encUint32 idx"
  let ?n = "2 ^ 63 - 1 :: 64 word"
  have pv: "putVarInt 1 = [1]" by (simp add: putVarInt_def)
  have un: "unat ?n = 2 ^ 63 - 1" by simp
  have pn: "putVarInt ?n = 0xff # ?L" unfolding putVarInt_def un by simp
  have sn: "sint ?n = 2 ^ 63 - 1" by simp
  have 0: "\<lparr>buf = encUint32 v @ [1] @ txid @ encUint32 idx @ [0xff] @ ?L @ rest, pos = 0\<rparr> =
      rdAt [] (encUint32 v @ putVarInt 1 @ txid @ encUint32 idx @ putVarInt ?n @ rest)"
    by (simp only: rdAt_def pv pn append.simps list.size)
  have small: "length (encUint32 v @ putVarInt 1 @ txid @ encUint32 idx @ putVarInt ?n @ rest) < 2 ^ 63"
    using assms by (simp only: pv pn) simp
  have 1: "readUint32 (rdAt [] (encUint32 v @ putVarInt 1 @ txid @ encUint32 idx @ putVarInt ?n @ rest)) =
      Inr (v, rdAt ?x1 (putVarInt 1 @ txid @ encUint32 idx @ putVarInt ?n @ rest))"
    using small by (intro u32.rd_enc) (simp_all only: append.simps)
  have 2: "readVarInt (rdAt ?x1 (putVarInt 1 @ txid @ encUint32 idx @ putVarInt ?n @ rest)) =
      Inr (1, rdAt ?x2 (txid @ encUint32 idx @ putVarInt ?n @ rest))"
    using small by (intro varint.rd_enc) (simp_all only: append.simps append_assoc)
  have 3: "readBytes (rdAt ?x2 (txid @ encUint32 idx @ putVarInt ?n @ rest)) 32 =
      Inr (txid, rdAt ?x3 (encUint32 idx @ putVarInt ?n @ rest))"
    using small assms by (intro readBytes_at) (simp, simp only: append.simps append_assoc)
  have 4: "readUint32 (rdAt ?x3 (encUint32 idx @ putVarInt ?n @ rest)) =
      Inr (idx, rdAt ?x4 (putVarInt ?n @ rest))"
    using small by (intro u32.rd_enc) (simp_all only: append.simps append_assoc)
  have 5: "readVarInt (rdAt ?x4 (putVarInt ?n @ rest)) = Inr (?n, rdAt (?x4 @ putVarInt ?n) rest)"
    using small by (intro varint.rd_enc) (simp_all only: append.simps append_assoc)
  have lx: "length (?x4 @ putVarInt ?n) = 50"
    using assms(1) by (simp only: pv pn) simp
  have 6: "readBytes (rdAt (?x4 @ putVarInt ?n) rest) (2 ^ 63 - 1) = Inl GoPanic"
  proof -
    have "int64 (50 + (2 ^ 63 - 1)) = 49 - 2 ^ 63" by (simp add: int64_def)
    then show ?thesis
      using lx assms(2) by (simp only: readBytes_def rdAt_def byteReader.simps Let_def) simp
  qed
  have "readInput (rdAt ?x2 (txid @ encUint32 idx @ putVarInt ?n @ rest)) = Inl GoPanic"
    unfolding readInput_def readVarBytes_def
    by (simp only: 3 4 5 6 sn bindR_simps prod.case)
  then have "readN readInput (unat (1 :: 64 word)) (rdAt ?x2 (txid @ encUint32 idx @ putVarInt ?n @ rest)) = Inl GoPanic"
    by (simp only: unsigned_1 One_nat_def readN.simps bindR_simps)
  then show ?thesis
    unfolding parseTx_def 0 by (simp only: 1 2 bindR_simps prod.case)
qed

theorem parseTx_length_overflow_panics_witness:
  "parseTx (encUint32 2 @ [1] @ replicate 32 7 @ encUint32 0 @ [0xff] @ le_bytes 8 (2 ^ 63 - 1) @ [0]) = Inl GoPanic"
  by (rule parseTx_length_overflow_panics) simp_all

end
