(* ===== verification/Net.thy ===== *)
theory Net
  imports GoStrings
begin

text \<open>
  \<open>net.ParseIP\<close> and \<open>IP.To4\<close> of Go's standard library, which decide what an A or AAAA value is:
  dotted-quad IPv4, and IPv6 with an ellipsis and an optional IPv4 tail. An address is its
  16-byte form, IPv4 being mapped into \<open>::ffff:0:0/96\<close>; a zone is refused.
\<close>

type_synonym goIP = "nat list"

definition isDigitC :: "char \<Rightarrow> bool" where
  "isDigitC c \<longleftrightarrow> CHR ''0'' \<le> c \<and> c \<le> CHR ''9''"

definition decVal :: "string \<Rightarrow> nat" where
  "decVal s = foldl (\<lambda>v c. 10 * v + (of_char c - 48)) 0 s"

definition ipv4Field :: "string \<Rightarrow> nat option" where
  "ipv4Field s =
     (if s = [] \<or> \<not> list_all isDigitC s then None
      else if length s > 1 \<and> hd s = CHR ''0'' then None
      else if decVal s > 255 then None else Some (decVal s))"

fun traverseO :: "('a \<Rightarrow> 'b option) \<Rightarrow> 'a list \<Rightarrow> 'b list option" where
  "traverseO f [] = Some []"
| "traverseO f (x # xs) =
     (case f x of None \<Rightarrow> None | Some y \<Rightarrow> map_option ((#) y) (traverseO f xs))"

definition parseIPv4 :: "string \<Rightarrow> nat list option" where
  "parseIPv4 s =
     (let parts = splitOn (CHR ''.'') s in
      if length parts \<noteq> 4 then None else traverseO ipv4Field parts)"

definition hexVal :: "char \<Rightarrow> nat option" where
  "hexVal c =
     (if isDigitC c then Some (of_char c - 48)
      else if CHR ''a'' \<le> c \<and> c \<le> CHR ''f'' then Some (of_char c - 87)
      else if CHR ''A'' \<le> c \<and> c \<le> CHR ''F'' then Some (of_char c - 55)
      else None)"

text \<open>The 16-bit groups of an IPv6 address: \<open>ip\<close> is what is read so far, \<open>ell\<close> the position of the
  ellipsis. Eight rounds read at most 16 bytes.\<close>

fun ipv6Groups :: "nat \<Rightarrow> nat option \<Rightarrow> nat list \<Rightarrow> string \<Rightarrow> (nat list \<times> nat option) option" where
  "ipv6Groups 0 ell ip s = (if s = [] then Some (ip, ell) else None)"
| "ipv6Groups (Suc k) ell ip s =
     (let ds = takeWhile (\<lambda>c. hexVal c \<noteq> None) s;
          rest = drop (length ds) s;
          acc = foldl (\<lambda>v c. 16 * v + the (hexVal c)) 0 ds in
      if length ds > 4 \<or> ds = [] then None
      else if rest \<noteq> [] \<and> hd rest = CHR ''.'' then
        (if ell = None \<and> length ip \<noteq> 12 then None
         else if length ip + 4 > 16 then None
         else case parseIPv4 s of None \<Rightarrow> None | Some q \<Rightarrow> Some (ip @ q, ell))
      else
        (let ip' = ip @ [acc div 256, acc mod 256] in
         case rest of
           [] \<Rightarrow> Some (ip', ell)
         | c # t \<Rightarrow>
             if c \<noteq> CHR '':'' \<or> t = [] then None
             else if hd t = CHR '':'' then
               (if ell \<noteq> None then None
                else if tl t = [] then Some (ip', Some (length ip'))
                else ipv6Groups k (Some (length ip')) ip' (tl t))
             else ipv6Groups k ell ip' t))"

definition parseIPv6 :: "string \<Rightarrow> nat list option" where
  "parseIPv6 s =
     (let dbl = hasPrefix s ''::''; s' = (if dbl then drop 2 s else s) in
      if dbl \<and> s' = [] then Some (replicate 16 0)
      else case ipv6Groups 8 (if dbl then Some 0 else None) [] s' of
        None \<Rightarrow> None
      | Some (ip, ell) \<Rightarrow>
          if length ip < 16 then
            (case ell of None \<Rightarrow> None
             | Some e \<Rightarrow> Some (take e ip @ replicate (16 - length ip) 0 @ drop e ip))
          else if ell \<noteq> None then None else Some ip)"

definition v4Prefix :: "nat list" where
  "v4Prefix = replicate 10 0 @ [255, 255]"

text \<open>The first of \<open>.\<close>, \<open>:\<close> and \<open>%\<close> in the string chooses the syntax.\<close>

definition parseIP :: "string \<Rightarrow> goIP option" where
  "parseIP s =
     (case dropWhile (\<lambda>c. c \<notin> {CHR ''.'', CHR '':'', CHR ''%''}) s of
        [] \<Rightarrow> None
      | c # _ \<Rightarrow>
          if c = CHR ''.'' then map_option (\<lambda>q. v4Prefix @ q) (parseIPv4 s)
          else if c = CHR '':'' \<and> CHR ''%'' \<notin> set s then parseIPv6 s
          else None)"

definition to4 :: "goIP \<Rightarrow> nat list option" where
  "to4 ip = (if length ip = 16 \<and> take 12 ip = v4Prefix then Some (drop 12 ip) else None)"

lemma traverseO_Some:
  "traverseO f xs = Some ys \<longleftrightarrow> list_all2 (\<lambda>x y. f x = Some y) xs ys"
  by (induction xs arbitrary: ys) (auto simp: list_all2_Cons1 split: option.splits)

lemma ipv4Field_byte: "ipv4Field s = Some b \<Longrightarrow> b < 256"
  by (simp add: ipv4Field_def split: if_splits)

lemma parseIPv4_bytes:
  assumes "parseIPv4 s = Some q"
  shows "length q = 4 \<and> (\<forall>b \<in> set q. b < 256)"
proof -
  from assms have q: "list_all2 (\<lambda>x y. ipv4Field x = Some y) (splitOn (CHR ''.'') s) q"
    and l: "length (splitOn (CHR ''.'') s) = 4"
    by (auto simp: parseIPv4_def Let_def traverseO_Some split: if_splits)
  from q l have "length q = 4" by (metis list_all2_lengthD)
  moreover have "\<forall>b \<in> set q. b < 256"
  proof
    fix b assume "b \<in> set q"
    then obtain i where i: "i < length q" "b = q ! i" by (auto simp: in_set_conv_nth)
    with q have "ipv4Field (splitOn (CHR ''.'') s ! i) = Some b"
      by (simp add: list_all2_conv_all_nth)
    then show "b < 256" by (rule ipv4Field_byte)
  qed
  ultimately show ?thesis ..
qed

text \<open>Every dotted quad is an IPv4 address.\<close>

lemma parseIP_v4:
  assumes "parseIPv4 s = Some q"
  shows "parseIP s = Some (v4Prefix @ q) \<and> to4 (v4Prefix @ q) = Some q"
proof -
  from assms have l: "length (splitOn (CHR ''.'') s) = 4"
    and all: "\<forall>p \<in> set (splitOn (CHR ''.'') s). ipv4Field p \<noteq> None"
    by (auto simp: parseIPv4_def Let_def traverseO_Some list_all2_conv_all_nth in_set_conv_nth split: if_splits)
  have digits: "list_all isDigitC p" if "p \<in> set (splitOn (CHR ''.'') s)" for p
    using all that by (auto simp: ipv4Field_def split: if_splits)
  obtain p ps where ps: "splitOn (CHR ''.'') s = p # ps" "ps \<noteq> []"
    using l by (cases "splitOn (CHR ''.'') s") (simp_all, metis length_0_conv numeral_3_eq_3 nat.distinct(1))
  then have s: "s = p @ CHR ''.'' # joinWith (CHR ''.'') ps"
    by (metis joinWith_Cons_nonempty joinWith_splitOn)
  have "\<forall>c \<in> set p. c \<notin> {CHR ''.'', CHR '':'', CHR ''%''}"
    using digits [of p] ps by (auto simp: list_all_iff isDigitC_def less_eq_char_def)
  then have "dropWhile (\<lambda>c. c \<notin> {CHR ''.'', CHR '':'', CHR ''%''}) s = CHR ''.'' # joinWith (CHR ''.'') ps"
    unfolding s by (subst dropWhile_append2) auto
  with assms parseIPv4_bytes [OF assms] show ?thesis
    by (simp add: parseIP_def to4_def v4Prefix_def)
qed

end
