(* ===== verification/Electrum.thy ===== *)
theory Electrum
  imports BchTx Net
begin

text \<open>
  \<open>internal/bch/electrum.go\<close>: the Electrum client. The network is the environment: \<open>dialer\<close> says
  what opening a connection yields (nothing, or the lines the server will send and whether writes
  go through), and the JSON decoding of a response line is the function \<open>decodeResp\<close>. The typed
  methods of a connected client, as the registry and the wallet call them, are the record
  \<open>chainView\<close>.
\<close>

section \<open>Hexadecimal\<close>

definition hexDigit :: "nat \<Rightarrow> char" where
  "hexDigit n = (if n < 10 then char_of (48 + n) else char_of (87 + n))"

fun hexEncode :: "bytes \<Rightarrow> string" where
  "hexEncode [] = []"
| "hexEncode (b # bs) = hexDigit (unat b div 16) # hexDigit (unat b mod 16) # hexEncode bs"

fun hexDecode :: "string \<Rightarrow> bytes option" where
  "hexDecode [] = Some []"
| "hexDecode [c] = None"
| "hexDecode (c # d # cs) =
     (case (hexVal c, hexVal d) of
        (Some x, Some y) \<Rightarrow> map_option (\<lambda>bs. of_nat (16 * x + y) # bs) (hexDecode cs)
      | _ \<Rightarrow> None)"

lemma hexVal_digit: "n < 16 \<Longrightarrow> hexVal (hexDigit n) = Some n"
proof -
  assume "n < 16"
  then have "n \<in> set [0..<16]" by simp
  moreover have "list_all (\<lambda>n. hexVal (hexDigit n) = Some n) [0..<16]" by code_simp
  ultimately show ?thesis by (simp add: list_all_iff)
qed

lemma hexDecode_Encode [simp]: "hexDecode (hexEncode b) = Some b"
proof (induction b)
  case (Cons x xs)
  have "unat x div 16 < 16" using unat_byte_less [of x] by simp
  with Cons show ?case
    by (simp add: hexVal_digit)
qed simp

lemma hexEncode_inj [simp]: "hexEncode a = hexEncode b \<longleftrightarrow> a = b"
  by (metis hexDecode_Encode option.inject)

definition scriptHash :: "'k crypto \<Rightarrow> bytes \<Rightarrow> string" where
  "scriptHash C script = hexEncode (rev (sha256 C script))"

definition reverseBytesHex :: "string \<Rightarrow> bytes" where
  "reverseBytesHex h = (case hexDecode h of None \<Rightarrow> [] | Some b \<Rightarrow> reverseBytes b)"

section \<open>The client\<close>

datatype electrumErr =
    NoEndpoints | AllEndpointsFailed | UnknownScheme string | ConnectFailed | WriteFailed
  | ReadFailed | ResponseTooLong | RpcError int string | BadResult | BadHex

text \<open>An open connection: whether writes succeed and the lines still to come, each with its
  newline; the end of the list is a read error (closed, timed out).\<close>

record connection =
  writeOk :: bool
  incoming :: "bytes list"

record electrumClient =
  endpoints :: "string list"
  conn :: "connection option"
  nextID :: "64 word"
  lastGood :: nat

text \<open>What a response line decodes to: the id and either an error or the result, \<open>None\<close> when it
  does not unmarshal into the type asked for.\<close>

type_synonym 'r decodeResp = "bytes \<Rightarrow> (64 word \<times> ((int \<times> string) + 'r option)) option"

definition maxElectrumResponse :: nat where "maxElectrumResponse = 8 * 2 ^ 20"

fun readResponse ::
    "'r decodeResp \<Rightarrow> 64 word \<Rightarrow> bytes list \<Rightarrow> (electrumErr + 'r) \<times> bytes list" where
  "readResponse dec rid [] = (Inl ReadFailed, [])"
| "readResponse dec rid (line # rest) =
     (if length line > maxElectrumResponse then (Inl ResponseTooLong, rest)
      else case dec line of
        None \<Rightarrow> readResponse dec rid rest
      | Some (i, body) \<Rightarrow>
          if i \<noteq> rid then readResponse dec rid rest
          else (case body of
                   Inl (code, msg) \<Rightarrow> (Inl (RpcError code msg), rest)
                 | Inr None \<Rightarrow> (Inl BadResult, rest)
                 | Inr (Some r) \<Rightarrow> (Inr r, rest)))"

definition callLocked ::
    "'r decodeResp \<Rightarrow> electrumClient \<Rightarrow> (electrumErr + 'r) \<times> electrumClient" where
  "callLocked dec c =
     (let c = c\<lparr>nextID := nextID c + 1\<rparr> in
      case conn c of
        None \<Rightarrow> (Inl WriteFailed, c)
      | Some k \<Rightarrow>
          if \<not> writeOk k then (Inl WriteFailed, c)
          else (case readResponse dec (nextID c) (incoming k) of
             (r, rest) \<Rightarrow> (r, c\<lparr>conn := Some (k\<lparr>incoming := rest\<rparr>)\<rparr>)))"

definition closeLocked :: "electrumClient \<Rightarrow> electrumClient" where
  "closeLocked c = c\<lparr>conn := None\<rparr>"

text \<open>\<open>strings.Cut(s, "://")\<close>.\<close>

fun cutScheme :: "string \<Rightarrow> (string \<times> string) option" where
  "cutScheme [] = None"
| "cutScheme (x # xs) =
     (if hasPrefix (x # xs) ''://'' then Some ([], drop 3 (x # xs))
      else map_option (\<lambda>(a, b). (x # a, b)) (cutScheme xs))"

type_synonym dialer = "64 word \<Rightarrow> string \<Rightarrow> string \<Rightarrow> connection option"

definition dial ::
    "dialer \<Rightarrow> 'r decodeResp \<Rightarrow> electrumClient \<Rightarrow> string \<Rightarrow> (electrumErr + unit) \<times> electrumClient" where
  "dial net ver c endpoint =
     (let (scheme, addr) = (case cutScheme endpoint of None \<Rightarrow> (''ssl'', endpoint) | Some p \<Rightarrow> p) in
      if scheme \<notin> {''ssl'', ''tls'', ''tcp''} then (Inl (UnknownScheme scheme), c)
      else case net (nextID c) scheme addr of
        None \<Rightarrow> (Inl ConnectFailed, c)
      | Some k \<Rightarrow>
          (case callLocked ver (c\<lparr>conn := Some k\<rparr>) of
             (Inl e, c') \<Rightarrow> (Inl e, closeLocked c')
           | (Inr _, c') \<Rightarrow> (Inr (), c')))"

fun connectFrom ::
    "dialer \<Rightarrow> 'r decodeResp \<Rightarrow> nat list \<Rightarrow> electrumClient \<Rightarrow> (electrumErr + unit) \<times> electrumClient" where
  "connectFrom net ver [] c = (Inl AllEndpointsFailed, c)"
| "connectFrom net ver (i # is) c =
     (case dial net ver c (endpoints c ! i) of
        (Inl e, c') \<Rightarrow> connectFrom net ver is c'
      | (Inr _, c') \<Rightarrow> (Inr (), c'\<lparr>lastGood := i\<rparr>))"

definition connect ::
    "dialer \<Rightarrow> 'r decodeResp \<Rightarrow> electrumClient \<Rightarrow> (electrumErr + unit) \<times> electrumClient" where
  "connect net ver c =
     (if endpoints c = [] then (Inl NoEndpoints, c)
      else let n = length (endpoints c) in
        connectFrom net ver (map (\<lambda>off. (lastGood c + off) mod n) [0..<n]) c)"

definition isElectrumRPCError :: "electrumErr \<Rightarrow> bool" where
  "isElectrumRPCError e = (case e of RpcError _ _ \<Rightarrow> True | _ \<Rightarrow> False)"

text \<open>\<open>call\<close>: connect if needed, one request, and drop the connection on a transport error.\<close>

definition electrumCall ::
    "dialer \<Rightarrow> 'v decodeResp \<Rightarrow> 'r decodeResp \<Rightarrow> electrumClient \<Rightarrow> (electrumErr + 'r) \<times> electrumClient" where
  "electrumCall net ver dec c =
     (let go = (\<lambda>c. case callLocked dec c of
           (Inl e, c') \<Rightarrow> (Inl e, if isElectrumRPCError e then c' else closeLocked c')
         | (Inr r, c') \<Rightarrow> (Inr r, c')) in
      if conn c = None then
        (case connect net ver c of
           (Inl e, c') \<Rightarrow> (Inl e, c')
         | (Inr _, c') \<Rightarrow> go c')
      else go c)"

lemma readResponse_Inr:
  "readResponse dec rid ls = (Inr x, rest) \<Longrightarrow>
     \<exists>line \<in> set ls. length line \<le> maxElectrumResponse \<and> dec line = Some (rid, Inr (Some x))"
  by (induction ls) (fastforce split: if_splits option.splits sum.splits)+

lemma callLocked_frame:
  "callLocked dec c = (r, c') \<Longrightarrow> endpoints c' = endpoints c \<and> lastGood c' = lastGood c
     \<and> nextID c' = nextID c + 1 \<and> (conn c' = None \<longleftrightarrow> conn c = None)"
  by (auto simp: callLocked_def Let_def split: option.splits if_splits prod.splits)

lemma callLocked_Inr:
  assumes "callLocked dec c = (Inr x, c')"
  shows "\<exists>k. conn c = Some k \<and> (\<exists>line \<in> set (incoming k).
     length line \<le> maxElectrumResponse \<and> dec line = Some (nextID c', Inr (Some x)))"
proof -
  from assms obtain k where k: "conn c = Some k" "writeOk k"
    by (auto simp: callLocked_def Let_def split: option.splits if_splits)
  obtain r rest where rr: "readResponse dec (nextID c + 1) (incoming k) = (r, rest)" by fastforce
  with assms k have "r = Inr x" "nextID c' = nextID c + 1"
    by (auto simp: callLocked_def Let_def)
  with readResponse_Inr rr k show ?thesis by fastforce
qed

text \<open>What dialling an endpoint comes to when the request counter stands at \<open>t\<close>: the connection the
  network gives for its scheme and address, and what is left of it once the server has answered the
  version request, number \<open>t + 1\<close>. An endpoint works when there is such an answer. Every connection
  given costs a request number.\<close>

definition opened :: "dialer \<Rightarrow> 64 word \<Rightarrow> string \<Rightarrow> connection option" where
  "opened net t ep =
     (case (case cutScheme ep of None \<Rightarrow> (''ssl'', ep) | Some p \<Rightarrow> p) of (scheme, addr) \<Rightarrow>
        if scheme = ''ssl'' \<or> scheme = ''tls'' \<or> scheme = ''tcp'' then net t scheme addr else None)"

definition greeted :: "dialer \<Rightarrow> 'r decodeResp \<Rightarrow> 64 word \<Rightarrow> string \<Rightarrow> connection option" where
  "greeted net ver t ep =
     (case opened net t ep of
        None \<Rightarrow> None
      | Some k \<Rightarrow>
          (case readResponse ver (t + 1) (incoming k) of
             (Inl _, _) \<Rightarrow> None
           | (Inr _, rest) \<Rightarrow> if writeOk k then Some (k\<lparr>incoming := rest\<rparr>) else None))"

primrec counterAt :: "dialer \<Rightarrow> (nat \<Rightarrow> string) \<Rightarrow> 64 word \<Rightarrow> nat \<Rightarrow> 64 word" where
  "counterAt net ep t 0 = t"
| "counterAt net ep t (Suc j) =
     (if opened net (counterAt net ep t j) (ep j) = None then counterAt net ep t j else counterAt net ep t j + 1)"

lemma counterAt_shift:
  "counterAt net ep t (Suc j) =
     counterAt net (\<lambda>i. ep (Suc i)) (if opened net t (ep 0) = None then t else t + 1) j"
  by (induction j) simp_all

lemma dial_result:
  assumes "dial net ver c ep = (r, c')" and "conn c = None"
  shows "endpoints c' = endpoints c \<and> lastGood c' = lastGood c
    \<and> nextID c' = (if opened net (nextID c) ep = None then nextID c else nextID c + 1)
    \<and> conn c' = greeted net ver (nextID c) ep \<and> (isOk r \<longleftrightarrow> conn c' \<noteq> None)"
proof -
  obtain scheme addr where sa: "(case cutScheme ep of None \<Rightarrow> (''ssl'', ep) | Some p \<Rightarrow> p) = (scheme, addr)"
    by fastforce
  show ?thesis
  proof (cases "scheme \<in> {''ssl'', ''tls'', ''tcp''}")
    case ok: True
    then have o: "opened net (nextID c) ep = net (nextID c) scheme addr" by (auto simp: opened_def sa)
    show ?thesis
    proof (cases "net (nextID c) scheme addr")
      case None
      with assms sa ok o show ?thesis by (auto simp: dial_def Let_def greeted_def)
    next
      case (Some k)
      obtain q rest where q: "readResponse ver (nextID c + 1) (incoming k) = (q, rest)" by fastforce
      from assms sa ok Some q show ?thesis
        by (cases q) (auto simp: dial_def Let_def closeLocked_def callLocked_def greeted_def o split: if_splits)
    qed
  next
    case False
    then have "opened net (nextID c) ep = None" by (auto simp: opened_def sa)
    with False assms sa show ?thesis by (auto simp: dial_def Let_def greeted_def)
  qed
qed

text \<open>Trying the endpoints in the order given: those before the first that works, that one, and no more.\<close>

lemma connectFrom_result:
  "connectFrom net ver is c = (r, c') \<Longrightarrow> conn c = None \<Longrightarrow> ep = (\<lambda>j. endpoints c ! (is ! j)) \<Longrightarrow>
     t = counterAt net ep (nextID c) \<Longrightarrow>
     endpoints c' = endpoints c \<and>
     (case r of
        Inr _ \<Rightarrow> \<exists>k < length is. (\<forall>j < k. greeted net ver (t j) (ep j) = None)
                   \<and> conn c' = greeted net ver (t k) (ep k) \<and> conn c' \<noteq> None
                   \<and> lastGood c' = is ! k \<and> nextID c' = t (Suc k)
      | Inl _ \<Rightarrow> (\<forall>j < length is. greeted net ver (t j) (ep j) = None)
                   \<and> conn c' = None \<and> lastGood c' = lastGood c \<and> nextID c' = t (length is))"
proof (induction "is" arbitrary: c ep t)
  case (Cons i js)
  obtain q d where q: "dial net ver c (endpoints c ! i) = (q, d)" by fastforce
  note d = dial_result [OF q Cons.prems(2)]
  have e0: "ep 0 = endpoints c ! i" "t 0 = nextID c" using Cons.prems(3,4) by simp_all
  show ?case
  proof (cases q)
    case (Inr u)
    with Cons.prems(1) q have "r = Inr ()" "c' = d\<lparr>lastGood := i\<rparr>" by auto
    moreover have "nextID d = t (Suc 0)" using d Cons.prems(3,4) by simp
    moreover have "conn d = greeted net ver (t 0) (ep 0)" using d e0 by simp
    moreover have "conn d \<noteq> None" using d Inr by (metis isOk_simps(2))
    ultimately show ?thesis using d by (auto intro!: exI [of _ 0] simp del: not_None_eq)
  next
    case (Inl e)
    from d Inl have dn: "conn d = None" "endpoints d = endpoints c" "lastGood d = lastGood c" by (auto simp: isOk_def)
    from Inl Cons.prems(1) q have rec: "connectFrom net ver js d = (r, c')" by simp
    have ep: "(\<lambda>j. ep (Suc j)) = (\<lambda>j. endpoints d ! (js ! j))" using Cons.prems(3) dn by simp
    have t: "(\<lambda>j. t (Suc j)) = counterAt net (\<lambda>j. ep (Suc j)) (nextID d)"
      unfolding Cons.prems(4) using d e0 by (intro ext, subst counterAt_shift) simp
    have fail: "greeted net ver (t 0) (ep 0) = None" using d dn(1) e0 by simp
    note ih = Cons.IH [OF rec dn(1) ep t, unfolded dn(2,3)]
    show ?thesis
    proof (cases r)
      case (Inr u)
      from ih [unfolded Inr sum.case] obtain k where k: "k < length js"
        "\<forall>j < k. greeted net ver (t (Suc j)) (ep (Suc j)) = None"
        "conn c' = greeted net ver (t (Suc k)) (ep (Suc k))" "conn c' \<noteq> None" "lastGood c' = js ! k"
        "nextID c' = t (Suc (Suc k))" by blast
      have "\<forall>j < Suc k. greeted net ver (t j) (ep j) = None" using k(2) fail by (auto simp: less_Suc_eq_0_disj)
      with k have "\<exists>k < length (i # js). (\<forall>j < k. greeted net ver (t j) (ep j) = None)
                   \<and> conn c' = greeted net ver (t k) (ep k) \<and> conn c' \<noteq> None
                   \<and> lastGood c' = (i # js) ! k \<and> nextID c' = t (Suc k)" by (intro exI [of _ "Suc k"]) simp
      with ih show ?thesis unfolding Inr sum.case by blast
    next
      case (Inl x)
      with ih have "\<forall>j < length js. greeted net ver (t (Suc j)) (ep (Suc j)) = None" by simp
      with fail have "\<forall>j < Suc (length js). greeted net ver (t j) (ep j) = None" by (auto simp: less_Suc_eq_0_disj)
      with ih Inl show ?thesis by simp
    qed
  qed
qed auto

section \<open>The typed methods\<close>

record historyItem =
  hHeight :: int
  hTxHash :: string

record nftData =
  nftCapability :: string
  nftCommitment :: string

record tokenData =
  tdCategory :: string
  tdAmount :: string
  tdNFT :: "nftData option"

record electrumUTXO =
  uHeight :: int
  uTxPos :: "32 word"
  uTxHash :: string
  uValue :: "64 word"
  uTokenData :: "tokenData option"

record chainView =
  BlockHeight :: "electrumErr + int"
  GetHistory :: "string \<Rightarrow> electrumErr + historyItem list"
  ListUnspent :: "string \<Rightarrow> electrumErr + electrumUTXO list"
  transactionGet :: "string \<Rightarrow> electrumErr + string"
  transactionBroadcast :: "string \<Rightarrow> electrumErr + string"

definition GetRawTransaction :: "chainView \<Rightarrow> string \<Rightarrow> electrumErr + bytes" where
  "GetRawTransaction V txid =
     bindR (transactionGet V txid) (\<lambda>rawHex.
       case hexDecode rawHex of None \<Rightarrow> Inl BadHex | Some raw \<Rightarrow> Inr raw)"

definition Broadcast :: "chainView \<Rightarrow> bytes \<Rightarrow> electrumErr + string" where
  "Broadcast V rawTx = transactionBroadcast V (hexEncode rawTx)"

section \<open>Properties\<close>

lemma rotation_bij:
  assumes "0 < (n :: nat)"
  shows "bij_betw (\<lambda>j. (s + j) mod n) {..<n} {..<n}"
proof -
  have "inj_on (\<lambda>j. (s + j) mod n) {..<n}"
  proof (rule inj_onI)
    fix i j assume ij: "i \<in> {..<n}" "j \<in> {..<n}" "(s + i) mod n = (s + j) mod n"
    then have "int n dvd int i - int j"
      by (metis add_diff_cancel_left mod_eq_dvd_iff of_nat_add of_nat_mod)
    moreover have "\<bar>int i - int j\<bar> < int n" using ij by auto
    ultimately show "i = j" by (metis abs_of_nat dvd_imp_le_int eq_iff_diff_eq_0 not_less of_nat_eq_iff)
  qed
  moreover have "(\<lambda>j. (s + j) mod n) ` {..<n} \<subseteq> {..<n}" using assms by auto
  ultimately show ?thesis by (simp add: bij_betw_def endo_inj_surj)
qed

text \<open>C31: failover. From a disconnected state \<open>connect\<close> goes through the endpoints in rotation, from
  the last good one on: a permutation of all of them, so each is dialled at most once. It succeeds
  exactly when one of them works, and then it is connected to the first that does: those before it in
  the rotation were dialled and did not work, none after it is dialled (each connection opened takes
  one request number, and no more were taken), it becomes the last good one, and the connection left
  open is its own, the version answered. Otherwise all were dialled, none works, no connection is open
  and the last good one is kept.\<close>

theorem connect_failover:
  assumes "connect net ver c = (r, c')" and "conn c = None" and n: "n = length (endpoints c)" "0 < n"
    and ep: "ep = (\<lambda>j. endpoints c ! ((lastGood c + j) mod n))" and t: "t = counterAt net ep (nextID c)"
  shows "bij_betw (\<lambda>j. (lastGood c + j) mod n) {..<n} {..<n} \<and> endpoints c' = endpoints c
    \<and> (isOk r \<longleftrightarrow> (\<exists>k < n. greeted net ver (t k) (ep k) \<noteq> None))
    \<and> (case r of
      Inr _ \<Rightarrow> \<exists>k < n. (\<forall>j < k. greeted net ver (t j) (ep j) = None)
         \<and> greeted net ver (t k) (ep k) \<noteq> None \<and> conn c' = greeted net ver (t k) (ep k)
         \<and> lastGood c' = (lastGood c + k) mod n \<and> nextID c' = t (Suc k)
    | Inl _ \<Rightarrow> conn c' = None \<and> lastGood c' = lastGood c \<and> nextID c' = t n)"
proof -
  let ?is = "map (\<lambda>off. (lastGood c + off) mod n) [0..<n]"
  have cf: "connectFrom net ver ?is c = (r, c')" using assms(1) n by (simp add: connect_def Let_def)
  define E where "E = (\<lambda>j. endpoints c ! (?is ! j))"
  define T where "T = counterAt net E (nextID c)"
  have e: "E j = ep j" "?is ! j = (lastGood c + j) mod n" if "j < n" for j using that ep by (simp_all add: E_def)
  have t: "T j = t j" if "j \<le> n" for j
    using that unfolding T_def t by (induction j) (simp_all add: e)
  note f = connectFrom_result [OF cf assms(2) E_def T_def]
  have main: "endpoints c' = endpoints c \<and> (case r of
      Inr _ \<Rightarrow> \<exists>k < n. (\<forall>j < k. greeted net ver (t j) (ep j) = None)
         \<and> greeted net ver (t k) (ep k) \<noteq> None \<and> conn c' = greeted net ver (t k) (ep k)
         \<and> lastGood c' = (lastGood c + k) mod n \<and> nextID c' = t (Suc k)
    | Inl _ \<Rightarrow> (\<forall>j < n. greeted net ver (t j) (ep j) = None)
         \<and> conn c' = None \<and> lastGood c' = lastGood c \<and> nextID c' = t n)"
  proof (cases r)
    case (Inr u)
    from f [unfolded Inr sum.case] obtain k where k': "k < length ?is"
      and g: "\<forall>j < k. greeted net ver (T j) (E j) = None"
      and o: "conn c' = greeted net ver (T k) (E k)" "conn c' \<noteq> None" "lastGood c' = ?is ! k" "nextID c' = T (Suc k)"
      by blast
    from k' have k: "k < n" by simp
    have "\<forall>j < k. greeted net ver (t j) (ep j) = None" using g k t e(1) by simp
    moreover have "conn c' = greeted net ver (t k) (ep k)" "nextID c' = t (Suc k)" "lastGood c' = (lastGood c + k) mod n"
      using o k t [of k] t [of "Suc k"] e [OF k] by simp_all
    ultimately show ?thesis using k o(2) f unfolding Inr sum.case by metis
  next
    case (Inl x)
    with f t e(1) show ?thesis by simp
  qed
  moreover have "isOk r \<longleftrightarrow> (\<exists>k < n. greeted net ver (t k) (ep k) \<noteq> None)"
    using main by (cases r) (auto simp: isOk_def)
  ultimately show ?thesis using rotation_bij [OF n(2)] by (cases r) simp_all
qed

definition demoNet :: dialer where
  "demoNet t scheme addr =
     (if addr = ''b'' then Some \<lparr>writeOk = True, incoming = [[7], [1], [2]]\<rparr> else None)"

definition demoDec :: "byte decodeResp" where
  "demoDec line =
     (if line = [] \<or> hd line = 7 then None else Some (ucast (hd line), Inr (Some (hd line))))"

definition demoClient :: electrumClient where
  "demoClient = \<lparr>endpoints = [''tcp://a'', ''tcp://b''], conn = None, nextID = 0, lastGood = 0\<rparr>"

definition demoConnected :: electrumClient where
  "demoConnected = demoClient\<lparr>conn := Some \<lparr>writeOk = True, incoming = [[2]]\<rparr>, nextID := 1, lastGood := 1\<rparr>"

lemma demo_dial:
  "dial demoNet demoDec demoClient ''tcp://a'' = (Inl ConnectFailed, demoClient)"
  "dial demoNet demoDec demoClient ''tcp://b'' = (Inr (), demoConnected\<lparr>lastGood := 0\<rparr>)"
  by (simp_all add: dial_def demoNet_def demoDec_def demoClient_def demoConnected_def hasPrefix_def
      callLocked_def maxElectrumResponse_def)

lemma demo_connect: "connect demoNet demoDec demoClient = (Inr (), demoConnected)"
proof -
  have e: "endpoints demoClient = [''tcp://a'', ''tcp://b'']" "lastGood demoClient = 0"
    by (simp_all add: demoClient_def)
  have "[0..<2] = [0, 1 :: nat]" by code_simp
  then show ?thesis
    by (simp add: connect_def Let_def e demo_dial) (simp add: demoConnected_def demoClient_def)
qed

theorem connect_failover_witness:
  "(\<exists>k < 2. lastGood demoConnected = (0 + k) mod 2
     \<and> conn demoConnected = greeted demoNet demoDec 0 ((endpoints demoClient) ! k))
   \<and> greeted demoNet demoDec 0 ''tcp://a'' = None"
proof -
  have e: "length (endpoints demoClient) = 2" "lastGood demoClient = 0" "conn demoClient = None" "nextID demoClient = 0"
    "endpoints demoClient = [''tcp://a'', ''tcp://b'']"
    by (simp_all add: demoClient_def)
  let ?ep = "\<lambda>j. endpoints demoClient ! ((lastGood demoClient + j) mod 2)"
  have o: "opened demoNet t ''tcp://a'' = None" for t
    by (simp add: opened_def demoNet_def hasPrefix_def)
  then have g: "greeted demoNet demoDec t ''tcp://a'' = None" for t by (simp add: greeted_def)
  have t: "counterAt demoNet ?ep 0 0 = 0" "counterAt demoNet ?ep 0 (Suc 0) = 0" using o by (simp_all add: e)
  from connect_failover [OF demo_connect e(3) e(1) [symmetric] _ refl refl] obtain k where
    k: "k < 2" "conn demoConnected = greeted demoNet demoDec (counterAt demoNet ?ep 0 k) (?ep k)"
      "lastGood demoConnected = (0 + k) mod 2" by (auto simp: e)
  from k(1) have "k = 0 \<or> k = Suc 0" by auto
  with k g t show ?thesis by (auto simp: e)
qed

text \<open>A call returns only an answer to its own request, a line within the size cap that carries
  the request's fresh id, read on the connection still open afterwards; stale lines and
  notifications are skipped. After a failed call the connection is open exactly when the failure is
  the server's own RPC error, so a transport failure always leads to a reconnect.\<close>

theorem electrumCall_answer:
  assumes "electrumCall net ver dec c = (r, c')"
  shows "case r of
      Inr x \<Rightarrow> conn c' \<noteq> None \<and> (\<exists>line. length line \<le> maxElectrumResponse \<and> dec line = Some (nextID c', Inr (Some x)))
    | Inl e \<Rightarrow> conn c' \<noteq> None \<longleftrightarrow> isElectrumRPCError e"
proof -
  let ?go = "\<lambda>c. case callLocked dec c of
           (Inl e, c') \<Rightarrow> (Inl e, if isElectrumRPCError e then c' else closeLocked c')
         | (Inr r, c') \<Rightarrow> (Inr r, c')"
  have go: "case r of
      Inr x \<Rightarrow> conn c' \<noteq> None \<and> (\<exists>line. length line \<le> maxElectrumResponse \<and> dec line = Some (nextID c', Inr (Some x)))
    | Inl e \<Rightarrow> conn c' \<noteq> None \<longleftrightarrow> isElectrumRPCError e"
    if g: "?go d = (r, c')" and o: "conn d \<noteq> None" for d
  proof -
    obtain q d' where q: "callLocked dec d = (q, d')" by fastforce
    from callLocked_frame [OF q] o have o': "conn d' \<noteq> None" by auto
    show ?thesis
    proof (cases q)
      case (Inl e)
      with g q have "r = Inl e" "c' = (if isElectrumRPCError e then d' else closeLocked d')" by auto
      with o' show ?thesis by (simp add: closeLocked_def)
    next
      case (Inr x)
      with g q have rc: "r = Inr x" "c' = d'" by auto
      with callLocked_Inr [OF q [unfolded Inr]] o' show ?thesis by auto
    qed
  qed
  show ?thesis
  proof (cases "conn c = None")
    case False
    with assms go [of c] show ?thesis by (simp add: electrumCall_def Let_def)
  next
    case True
    obtain q d where q: "connect net ver c = (q, d)" by fastforce
    show ?thesis
    proof (cases q)
      case (Inr u)
      have "conn d \<noteq> None"
      proof (cases "endpoints c = []")
        case True with q Inr show ?thesis by (simp add: connect_def)
      next
        case False
        with q have "connectFrom net ver (map (\<lambda>off. (lastGood c + off) mod length (endpoints c)) [0..<length (endpoints c)]) c = (q, d)"
          by (simp add: connect_def Let_def)
        from connectFrom_result [OF this True] Inr show ?thesis by auto
      qed
      with assms q Inr True go [of d] show ?thesis by (simp add: electrumCall_def Let_def)
    next
      case (Inl e)
      with assms q True have rc: "r = Inl e" "c' = d" by (auto simp: electrumCall_def Let_def)
      have "conn d = None \<and> \<not> isElectrumRPCError e"
      proof (cases "endpoints c = []")
        case True with q Inl \<open>conn c = None\<close> show ?thesis by (auto simp: connect_def isElectrumRPCError_def)
      next
        case False
        let ?is = "map (\<lambda>off. (lastGood c + off) mod length (endpoints c)) [0..<length (endpoints c)]"
        from False q have cf: "connectFrom net ver ?is c = (q, d)" by (simp add: connect_def Let_def)
        have "connectFrom net ver js a = (Inl e, b) \<Longrightarrow> e = AllEndpointsFailed" for js a b
          by (induction js arbitrary: a) (auto split: prod.splits sum.splits)
        with cf Inl have "e = AllEndpointsFailed" by blast
        with connectFrom_result [OF cf True] Inl show ?thesis by (simp add: isElectrumRPCError_def)
      qed
      with rc show ?thesis by simp
    qed
  qed
qed

theorem electrumCall_answer_witness:
  "\<exists>c'. electrumCall demoNet demoDec demoDec demoClient = (Inr 2, c') \<and> conn c' \<noteq> None"
proof -
  have "callLocked demoDec demoConnected =
      (Inr 2, demoConnected\<lparr>nextID := 2, conn := Some \<lparr>writeOk = True, incoming = []\<rparr>\<rparr>)"
    by (simp add: callLocked_def demoConnected_def demoDec_def maxElectrumResponse_def)
  moreover have "conn demoClient = None" by (simp add: demoClient_def)
  ultimately have call: "electrumCall demoNet demoDec demoDec demoClient =
      (Inr 2, demoConnected\<lparr>nextID := 2, conn := Some \<lparr>writeOk = True, incoming = []\<rparr>\<rparr>)"
    by (simp add: electrumCall_def demo_connect)
  from electrumCall_answer [OF this] call show ?thesis by auto
qed

end
