(* ===== verification/ElectrumRead.thy ===== *)
theory ElectrumRead
  imports Electrum
begin

text \<open>
  How \<open>internal/bch/electrum.go\<close> reads its socket (\<open>readLineLimited\<close>, the loop of \<open>callLocked\<close>): bytes
  through a \<open>bufio.Reader\<close>, in slices of its buffer's size. The theory \<open>Electrum\<close> sees a connection as
  the lines still to come; here that view is justified, and the memory a server can make the
  client use is bounded.
\<close>

section \<open>Reading a line\<close>

datatype sliceEnd = SliceDelim | SliceFull | SliceEOF

text \<open>\<open>ReadSlice\<close> with a buffer of \<open>Suc bs\<close> bytes on the bytes still to come; the end of the list is the end
  of the stream or a read error.\<close>

definition newline :: "8 word" where "newline = 10"

definition readSlice :: "nat \<Rightarrow> bytes \<Rightarrow> bytes \<times> sliceEnd \<times> bytes" where
  "readSlice bs inp =
     (let i = length (takeWhile (\<lambda>b. b \<noteq> newline) inp) in
      if i < length inp \<and> i < Suc bs then (take (Suc i) inp, SliceDelim, drop (Suc i) inp)
      else if Suc bs \<le> length inp then (take (Suc bs) inp, SliceFull, drop (Suc bs) inp)
      else (inp, SliceEOF, []))"

function readLineLimited :: "nat \<Rightarrow> nat \<Rightarrow> bytes \<Rightarrow> bytes \<Rightarrow> (electrumErr + bytes) \<times> bytes" where
  "readLineLimited bs mx line inp =
     (case readSlice bs inp of (chunk, e, rest) \<Rightarrow>
        let line = line @ chunk in
        if length line > mx then (Inl ResponseTooLong, rest)
        else case e of
          SliceFull \<Rightarrow> readLineLimited bs mx line rest
        | SliceDelim \<Rightarrow> (Inr line, rest)
        | SliceEOF \<Rightarrow> (Inl ReadFailed, rest))"
  by auto
termination
  by (relation "measure (\<lambda>(bs, mx, line, inp). length inp)") (auto simp: readSlice_def Let_def split: if_splits)

declare readLineLimited.simps [simp del]

abbreviation upToNewline :: "bytes \<Rightarrow> bytes" where
  "upToNewline \<equiv> takeWhile (\<lambda>b. b \<noteq> newline)"

lemma upToNewline_drop:
  "n \<le> length (upToNewline inp) \<Longrightarrow> upToNewline (drop n inp) = drop n (upToNewline inp)"
proof (induction inp arbitrary: n)
  case (Cons b inp)
  then show ?case by (cases n) auto
qed simp

lemma upToNewline_take: "upToNewline inp = take (length (upToNewline inp)) inp"
  by (metis takeWhile_eq_take)

lemma upToNewline_less:
  assumes "length (upToNewline inp) < length inp"
  shows "take (Suc (length (upToNewline inp))) inp = upToNewline inp @ [newline]"
proof -
  have "inp ! length (upToNewline inp) = newline" using nth_length_takeWhile [OF assms] by simp
  then show ?thesis using assms by (simp add: take_Suc_conv_app_nth flip: upToNewline_take)
qed

text \<open>Whatever the buffer, a line is returned exactly when it ends and fits the limit.\<close>

lemma readLineLimited_spec:
  "length line \<le> mx \<Longrightarrow>
     (if length (upToNewline inp) < length inp \<and> length line + length (upToNewline inp) < mx
      then readLineLimited bs mx line inp =
             (Inr (line @ upToNewline inp @ [newline]), drop (Suc (length (upToNewline inp))) inp)
      else if length (upToNewline inp) = length inp \<and> length line + length inp \<le> mx
      then readLineLimited bs mx line inp = (Inl ReadFailed, [])
      else fst (readLineLimited bs mx line inp) = Inl ResponseTooLong)"
proof (induction bs mx line inp rule: readLineLimited.induct)
  case (1 bs mx line inp)
  let ?a = "upToNewline inp"
  have le: "length ?a \<le> length inp" by (rule length_takeWhile_le)
  consider (delim) "length ?a < length inp" "length ?a < Suc bs"
    | (full) "\<not> (length ?a < length inp \<and> length ?a < Suc bs)" "Suc bs \<le> length inp"
    | (ends) "\<not> (length ?a < length inp \<and> length ?a < Suc bs)" "\<not> Suc bs \<le> length inp" by blast
  then show ?case
  proof cases
    case delim
    then have "readSlice bs inp = (?a @ [newline], SliceDelim, drop (Suc (length ?a)) inp)"
      by (simp add: readSlice_def Let_def upToNewline_less)
    with delim show ?thesis by (subst (1 2 3) readLineLimited.simps) auto
  next
    case full
    then have s: "readSlice bs inp = (take (Suc bs) inp, SliceFull, drop (Suc bs) inp)"
      by (simp add: readSlice_def Let_def)
    have a: "Suc bs \<le> length ?a" using full le by auto
    let ?line = "line @ take (Suc bs) inp" and ?rest = "drop (Suc bs) inp"
    have len: "length ?line = length line + Suc bs" using full by simp
    have pos: "Suc (length ?a - Suc 0) = length ?a" using a by simp
    have d: "length (upToNewline ?rest) = length ?a - Suc bs" "length ?rest = length inp - Suc bs"
      using upToNewline_drop [OF a] by simp_all
    have "take (Suc bs) ?a = take (Suc bs) (take (length ?a) inp)" by (rule arg_cong [OF upToNewline_take])
    also have "\<dots> = take (Suc bs) inp" using a by (simp add: min_absorb1)
    finally have "take (Suc bs) inp = take (Suc bs) ?a" ..
    then have join: "take (Suc bs) inp @ upToNewline ?rest = ?a" using upToNewline_drop [OF a] by simp
    show ?thesis
    proof (cases "length ?line > mx")
      case True
      with s have "readLineLimited bs mx line inp = (Inl ResponseTooLong, ?rest)"
        by (subst readLineLimited.simps) simp
      with True len a le show ?thesis by auto
    next
      case False
      with s have r: "readLineLimited bs mx line inp = readLineLimited bs mx ?line ?rest"
        by (subst readLineLimited.simps) simp
      from 1(1) [OF s [symmetric] refl refl False refl] False show ?thesis
        unfolding r d len using a le join full(2) pos by (auto simp: len split: if_splits)
    qed
  next
    case ends
    then have "readSlice bs inp = (inp, SliceEOF, [])" "length ?a = length inp" using le
      by (auto simp: readSlice_def Let_def)
    then show ?thesis by (subst (1 2 3) readLineLimited.simps) auto
  qed
qed

lemma readLineLimited_shorter:
  "readLineLimited bs mx line inp = (r, rest) \<Longrightarrow> inp \<noteq> [] \<Longrightarrow> length rest < length inp"
proof (induction bs mx line inp rule: readLineLimited.induct)
  case (1 bs mx line inp)
  obtain chunk e rest' where s: "readSlice bs inp = (chunk, e, rest')" by (metis prod_cases3)
  then have l: "length rest' < length inp" using 1(3) by (auto simp: readSlice_def Let_def split: if_splits)
  show ?case
  proof (cases "\<not> mx < length (line @ chunk) \<and> e = SliceFull \<and> rest' \<noteq> []")
    case True
    with 1(2) s have "readLineLimited bs mx (line @ chunk) rest' = (r, rest)" by (subst (asm) readLineLimited.simps) simp
    with 1(1) [OF s [symmetric] refl refl] True l show ?thesis by auto
  next
    case False
    show ?thesis
    proof (cases "\<not> mx < length (line @ chunk) \<and> e = SliceFull")
      case True
      with False have "rest' = []" by simp
      moreover have "readLineLimited bs mx (line @ chunk) [] = (r, rest)"
        using 1(2) s True \<open>rest' = []\<close> by (subst (asm) readLineLimited.simps) simp
      then have "rest = []" by (subst (asm) readLineLimited.simps) (auto simp: readSlice_def Let_def split: if_splits)
      ultimately show ?thesis using 1(3) by simp
    next
      case no: False
      with 1(2) s have "rest = rest'" by (subst (asm) readLineLimited.simps) (auto simp: Let_def split: if_splits sliceEnd.splits)
      with l show ?thesis by simp
    qed
  qed
qed

lemma readLineLimited_Nil: "readLineLimited bs mx [] [] = (Inl ReadFailed, [])"
  by (subst readLineLimited.simps) (simp add: readSlice_def)

section \<open>Waiting for a response\<close>

text \<open>The loop of \<open>callLocked\<close> on the bytes of the socket.\<close>

function readReply :: "'r decodeResp \<Rightarrow> 64 word \<Rightarrow> nat \<Rightarrow> bytes \<Rightarrow> (electrumErr + 'r) \<times> bytes" where
  "readReply dec rid bs inp =
     (case readLineLimited bs maxElectrumResponse [] inp of
        (Inl e, rest) \<Rightarrow> (Inl e, rest)
      | (Inr line, rest) \<Rightarrow>
          (case dec line of
             None \<Rightarrow> readReply dec rid bs rest
           | Some (i, body) \<Rightarrow>
               if i \<noteq> rid then readReply dec rid bs rest
               else (case body of
                       Inl (code, msg) \<Rightarrow> (Inl (RpcError code msg), rest)
                     | Inr None \<Rightarrow> (Inl BadResult, rest)
                     | Inr (Some r) \<Rightarrow> (Inr r, rest))))"
  by auto
termination
  by (relation "measure (\<lambda>(dec, rid, bs, inp). length inp)")
    (auto dest: readLineLimited_shorter simp: readLineLimited_Nil, (metis readLineLimited_Nil readLineLimited_shorter sum.distinct(1) prod.inject)+)

declare readReply.simps [simp del]

text \<open>The lines of a stream, each with its newline; an unfinished line counts only if it is over the limit.\<close>

function linesOf :: "nat \<Rightarrow> bytes \<Rightarrow> bytes list" where
  "linesOf mx inp =
     (if length (upToNewline inp) < length inp
      then (upToNewline inp @ [newline]) # linesOf mx (drop (Suc (length (upToNewline inp))) inp)
      else if mx < length inp then [inp] else [])"
  by auto
termination by (relation "measure (\<lambda>(mx, inp). length inp)") auto

declare linesOf.simps [simp del]

text \<open>One line takes at most the limit and one buffer of memory, whatever the server sends.\<close>

lemma readLineLimited_bounded:
  "readLineLimited bs mx line inp = (r, rest) \<Longrightarrow> length line \<le> mx \<Longrightarrow>
     length rest \<le> length inp \<and> length line + (length inp - length rest) \<le> mx + Suc bs"
proof (induction bs mx line inp rule: readLineLimited.induct)
  case (1 bs mx line inp)
  obtain chunk e rest' where s: "readSlice bs inp = (chunk, e, rest')" by (metis prod_cases3)
  then have l: "length inp = length chunk + length rest'" "length chunk \<le> Suc bs"
    by (auto simp: readSlice_def Let_def min_def split: if_splits)
  show ?case
  proof (cases "\<not> mx < length (line @ chunk) \<and> e = SliceFull")
    case True
    with 1(2) s have r: "readLineLimited bs mx (line @ chunk) rest' = (r, rest)"
      by (subst (asm) readLineLimited.simps) simp
    have "length (line @ chunk) \<le> mx" using True by simp
    from 1(1) [OF s [symmetric] refl refl _ _ r this] True l show ?thesis by auto
  next
    case False
    with 1(2) s have "rest = rest'" by (subst (asm) readLineLimited.simps) (auto simp: Let_def split: if_splits sliceEnd.splits)
    with l 1(3) show ?thesis by simp
  qed
qed

lemma readLineLimited_line:
  assumes "readLineLimited bs maxElectrumResponse [] inp = (r, rest)"
  shows "case r of
       Inr line \<Rightarrow> linesOf maxElectrumResponse inp = line # linesOf maxElectrumResponse rest \<and> length line \<le> maxElectrumResponse
     | Inl ReadFailed \<Rightarrow> linesOf maxElectrumResponse inp = [] \<and> rest = []
     | Inl e \<Rightarrow> e = ResponseTooLong \<and> (\<exists>line ls. linesOf maxElectrumResponse inp = line # ls \<and> maxElectrumResponse < length line)"
proof -
  let ?a = "upToNewline inp"
  note sp = readLineLimited_spec [of "[]" maxElectrumResponse inp bs, simplified]
  have le: "length ?a \<le> length inp" by (rule length_takeWhile_le)
  consider (line) "length ?a < length inp" "length ?a < maxElectrumResponse"
    | (long) "length ?a < length inp" "\<not> length ?a < maxElectrumResponse"
    | (tail) "length ?a = length inp" "length inp \<le> maxElectrumResponse"
    | (big) "length ?a = length inp" "\<not> length inp \<le> maxElectrumResponse" using le by linarith
  then show ?thesis
  proof cases
    case line
    with sp assms show ?thesis by (subst linesOf.simps) auto
  next
    case long
    with sp assms have "r = Inl ResponseTooLong" by auto
    with long show ?thesis by (subst linesOf.simps) auto
  next
    case tail
    with sp assms have "r = Inl ReadFailed" "rest = []" by auto
    with tail show ?thesis by (subst linesOf.simps) auto
  next
    case big
    with sp assms have "r = Inl ResponseTooLong" by auto
    with big show ?thesis by (subst linesOf.simps) auto
  qed
qed

section \<open>The view by lines\<close>

text \<open>C40: reading the socket byte by byte is reading it line by line. Whatever the size of the reader's
  buffer and however the server's bytes are cut, waiting for a response on the bytes gives the result
  that waiting gives on the lines of the stream, and unless the limit on a line was exceeded, after
  which the connection is dropped, what is left to read is the lines of what is left.\<close>

theorem bytes_refine_lines:
  "fst (readReply dec rid bs inp) = fst (readResponse dec rid (linesOf maxElectrumResponse inp))
     \<and> (fst (readReply dec rid bs inp) \<noteq> Inl ResponseTooLong \<longrightarrow>
          snd (readResponse dec rid (linesOf maxElectrumResponse inp)) = linesOf maxElectrumResponse (snd (readReply dec rid bs inp)))"
proof (induction dec rid bs inp rule: readReply.induct)
  case (1 dec rid bs inp)
  obtain r rest where r: "readLineLimited bs maxElectrumResponse [] inp = (r, rest)" by fastforce
  note ln = readLineLimited_line [OF r]
  have nil: "linesOf n [] = []" for n by (subst linesOf.simps) simp
  show ?case
  proof (cases r)
    case (Inl e)
    with r have "readReply dec rid bs inp = (Inl e, rest)" by (subst readReply.simps) simp
    with Inl ln nil show ?thesis by (cases e) auto
  next
    case (Inr line)
    with ln have l: "linesOf maxElectrumResponse inp = line # linesOf maxElectrumResponse rest"
      "\<not> maxElectrumResponse < length line" by auto
    show ?thesis
    proof (cases "dec line")
      case None
      with r Inr have "readReply dec rid bs inp = readReply dec rid bs rest" by (subst readReply.simps) simp
      with 1(1) [OF r [symmetric] Inr None] l None show ?thesis by simp
    next
      case (Some x)
      obtain i body where x: "x = (i, body)" by fastforce
      show ?thesis
      proof (cases "i = rid")
        case False
        with r Inr Some x have "readReply dec rid bs inp = readReply dec rid bs rest" by (subst readReply.simps) simp
        with 1(2) [OF r [symmetric] Inr Some x [symmetric] False] l Some x False show ?thesis by simp
      next
        case True
        then have "readReply dec rid bs inp =
            ((case body of Inl (code, msg) \<Rightarrow> Inl (RpcError code msg) | Inr None \<Rightarrow> Inl BadResult | Inr (Some a) \<Rightarrow> Inr a), rest)"
          using r Inr Some x by (subst readReply.simps) (auto split: sum.splits option.splits)
        moreover have "readResponse dec rid (linesOf maxElectrumResponse inp) =
            ((case body of Inl (code, msg) \<Rightarrow> Inl (RpcError code msg) | Inr None \<Rightarrow> Inl BadResult | Inr (Some a) \<Rightarrow> Inr a),
             linesOf maxElectrumResponse rest)"
          using l Some x True by (auto split: sum.splits option.splits)
        ultimately show ?thesis by simp
      qed
    qed
  qed
qed

theorem bytes_refine_lines_witness:
  "\<exists>dec :: bytes decodeResp. readReply dec 7 0 [1, 10, 7, 10, 9] = (Inr [7, 10], [9])
     \<and> readResponse dec 7 (linesOf maxElectrumResponse [1, 10, 7, 10, 9]) = (Inr [7, 10], [])"
proof -
  let ?dec = "\<lambda>line :: bytes. Some (ucast (hd line) :: 64 word, Inr (Some line) :: (int \<times> string) + bytes option)"
  let ?inp = "[1, 10, 7, 10, 9] :: bytes"
  have "readLineLimited 0 maxElectrumResponse [] ?inp = (Inr [1, 10], [7, 10, 9])"
    "readLineLimited 0 maxElectrumResponse [] [7, 10, 9] = (Inr [7, 10], [9])"
    using readLineLimited_spec [of "[]" maxElectrumResponse ?inp 0]
      readLineLimited_spec [of "[]" maxElectrumResponse "[7, 10, 9]" 0]
    by (simp_all add: newline_def maxElectrumResponse_def)
  then have r: "readReply ?dec 7 0 ?inp = (Inr [7, 10], [9])"
    by (subst readReply.simps, simp) (subst readReply.simps, simp)
  have "linesOf maxElectrumResponse [9] = []"
    by (subst linesOf.simps) (simp add: newline_def maxElectrumResponse_def)
  with bytes_refine_lines [of ?dec 7 0 ?inp] r
  have "fst (readResponse ?dec 7 (linesOf maxElectrumResponse ?inp)) = Inr [7, 10]"
    "snd (readResponse ?dec 7 (linesOf maxElectrumResponse ?inp)) = []" by simp_all
  then have "readResponse ?dec 7 (linesOf maxElectrumResponse ?inp) = (Inr [7, 10], [])" by (simp add: prod_eq_iff)
  with r show ?thesis by blast
qed

end
