(* ===== verification/Names.thy ===== *)
theory Names
  imports Content
begin

text \<open>
  Names: the parsing and key derivation of \<open>internal/record/record.go\<close>, the bare-name test of
  \<open>internal/registry/registry.go\<close> and the on-chain normal form of \<open>internal/bch/marker.go\<close>. A name
  is a byte string; \<open>uni\<close> is what \<open>strings.ToLower\<close> does to a string with non-ASCII bytes.
\<close>

datatype nameErr = ErrNotFNName | ErrHashKey

definition dhtNamespace :: string where "dhtNamespace = ''fn''"
definition TLD :: string where "TLD = ''fn''"

section \<open>Key identifiers\<close>

definition PubKeyID :: "hashlib \<Rightarrow> bytes \<Rightarrow> nameErr + string" where
  "PubKeyID H pub =
     (case mhSum H pub SHA2_256 of None \<Rightarrow> Inl ErrHashKey | Some h \<Rightarrow> Inr (b36Encode H h))"

definition IsPubKeyID :: "hashlib \<Rightarrow> string \<Rightarrow> bool" where
  "IsPubKeyID H s =
     (case b36Decode H s of None \<Rightarrow> False
      | Some raw \<Rightarrow> (case mhDecode H raw of None \<Rightarrow> False | Some (code, _) \<Rightarrow> code = SHA2_256))"

definition DHTKeyForPubKey :: "hashlib \<Rightarrow> bytes \<Rightarrow> nameErr + string" where
  "DHTKeyForPubKey H pub =
     bindR (PubKeyID H pub) (\<lambda>i. Inr (''/'' @ dhtNamespace @ ''/'' @ i))"

section \<open>Human names\<close>

definition CanonicalName :: "(string \<Rightarrow> string) \<Rightarrow> string \<Rightarrow> string" where
  "CanonicalName uni name = trimSuffix (toLower uni name) ''.''"

definition ParseName :: "(string \<Rightarrow> string) \<Rightarrow> string \<Rightarrow> nameErr + string \<times> string" where
  "ParseName uni name =
     (let parts = splitOn (CHR ''.'') (CanonicalName uni name); n = length parts in
      if n < 3 \<or> parts ! (n - 1) \<noteq> TLD then Inl ErrNotFNName
      else
        let keyID = parts ! (n - 2); label = joinWith (CHR ''.'') (take (n - 2) parts) in
        if label = [] \<or> keyID = [] then Inl ErrNotFNName else Inr (label, keyID))"

definition DHTKeyForName :: "(string \<Rightarrow> string) \<Rightarrow> string \<Rightarrow> nameErr + string" where
  "DHTKeyForName uni name =
     bindR (ParseName uni name) (\<lambda>(label, keyID). Inr (''/'' @ dhtNamespace @ ''/'' @ keyID))"

definition IsBareName :: "hashlib \<Rightarrow> (string \<Rightarrow> string) \<Rightarrow> string \<Rightarrow> bool" where
  "IsBareName H uni name =
     (if \<not> hasSuffix (CanonicalName uni name) (''.'' @ TLD) then False
      else case ParseName uni name of
        Inl _ \<Rightarrow> True
      | Inr (_, keyID) \<Rightarrow> \<not> IsPubKeyID H keyID)"

text \<open>The name of an owner's record, \<open>FNRecord.FullName\<close>, by its label and public key.\<close>

definition fullName :: "hashlib \<Rightarrow> string \<Rightarrow> bytes \<Rightarrow> nameErr + string" where
  "fullName H label pub = bindR (PubKeyID H pub) (\<lambda>i. Inr (label @ ''.'' @ i @ ''.'' @ TLD))"

section \<open>On-chain labels\<close>

definition labelChar :: "char \<Rightarrow> bool" where
  "labelChar c \<longleftrightarrow> CHR ''a'' \<le> c \<and> c \<le> CHR ''z'' \<or> CHR ''0'' \<le> c \<and> c \<le> CHR ''9'' \<or> c = CHR ''-''"

definition NormalizeName :: "(string \<Rightarrow> string) \<Rightarrow> string \<Rightarrow> nameErr + string" where
  "NormalizeName uni name =
     (let label = trimSuffix (CanonicalName uni name) (''.'' @ TLD) in
      if label = [] then Inl ErrNotFNName
      else if length label > 63 then Inl ErrNotFNName
      else if containsStr label ''.'' then Inl ErrNotFNName
      else if hd label = CHR ''-'' \<or> last label = CHR ''-'' then Inl ErrNotFNName
      else if \<not> list_all labelChar label then Inl ErrNotFNName
      else Inr label)"

section \<open>Facts\<close>

lemma PubKeyID_ok:
  assumes "hashlib_ok H"
  shows "\<exists>i. PubKeyID H pub = Inr i \<and> IsPubKeyID H i \<and> i \<noteq> [] \<and> list_all alnumLower i"
proof -
  from assms obtain h where "mhSum H pub 0x12 = Some h" "h \<noteq> []"
      "mhDecode H h = Some (0x12, hSha256 H pub)" "b36Decode H (b36Encode H h) = Some h"
      "list_all alnumLower (b36Encode H h)" "b36Encode H h \<noteq> []"
    unfolding hashlib_ok_def by metis
  then show ?thesis by (simp add: PubKeyID_def IsPubKeyID_def SHA2_256_def)
qed

lemma ContentHash_PubKeyID:
  "hashlib_ok H \<Longrightarrow> ContentHash H d = Inr h \<longleftrightarrow> PubKeyID H d = Inr h"
  by (auto simp: hashlib_ok_def ContentHash_def PubKeyID_def SHA2_256_def split: option.splits)

lemma toLower_ascii: "isASCII s \<Longrightarrow> toLower uni s = map lowerChar s"
  by (simp add: toLower_def)

lemma of_char_of_less: "n < 256 \<Longrightarrow> (of_char (char_of n) :: nat) = n"
  by simp

lemma lowerChar_dot [simp]: "lowerChar c = CHR ''.'' \<longleftrightarrow> c = CHR ''.''"
proof (cases "CHR ''A'' \<le> c \<and> c \<le> CHR ''Z''")
  case True
  then have b: "65 \<le> (of_char c :: nat)" "(of_char c :: nat) \<le> 90"
    by (simp_all add: less_eq_char_def)
  then have "(of_char (lowerChar c) :: nat) = of_char c + 32" using True by (simp add: lowerChar_def)
  with b have "(of_char (lowerChar c) :: nat) \<noteq> of_char (CHR ''.'')" by simp
  moreover have "(of_char c :: nat) \<noteq> of_char (CHR ''.'')" using b by simp
  ultimately show ?thesis by metis
qed (auto simp: lowerChar_def)

lemma alnumLower_nameChar: "alnumLower c \<Longrightarrow> nameChar c"
  by (simp add: nameChar_def)

lemma lowerChar_nameChar: "nameChar c \<Longrightarrow> lowerChar c = c"
  by (simp add: lowerChar_lower nameChar_facts)

lemma map_lowerChar_nameChar: "list_all nameChar s \<Longrightarrow> map lowerChar s = s"
  by (simp add: map_idI list_all_iff lowerChar_nameChar)

lemma alnumLower_no_dot: "list_all alnumLower s \<Longrightarrow> CHR ''.'' \<notin> set s"
  by (auto simp: list_all_iff alnumLower_def less_eq_char_def)

text \<open>Parsing a name already split into its three parts.\<close>

lemma ParseName_parts:
  assumes can: "CanonicalName uni name = label @ ''.'' @ i @ ''.'' @ TLD"
    and "label \<noteq> []" "i \<noteq> []" "CHR ''.'' \<notin> set i"
  shows "ParseName uni name = Inr (label, i)"
proof -
  let ?ls = "splitOn (CHR ''.'') label"
  have "splitOn (CHR ''.'') (label @ ''.'' @ i @ ''.'' @ TLD) = ?ls @ [i, TLD]"
    using assms(4) by (simp add: splitOn_append_sep splitOn_single TLD_def)
  moreover have "length ?ls > 0" by simp
  ultimately show ?thesis
    using assms by (simp add: ParseName_def Let_def nth_append)
qed

lemma CanonicalName_full:
  assumes "isASCII label" and "list_all alnumLower i"
    and "name = label @ ''.'' @ i @ ''.'' @ TLD \<or> name = label @ ''.'' @ i @ ''.'' @ TLD @ ''.''"
  shows "CanonicalName uni name = map lowerChar label @ ''.'' @ i @ ''.'' @ TLD"
proof -
  have i: "list_all nameChar i" using assms(2) alnumLower_nameChar by (auto simp: list_all_iff)
  then have "isASCII i" by (auto simp: isASCII_def list_all_iff nameChar_facts)
  then have "isASCII name" using assms by (auto simp: isASCII_def TLD_def)
  then have t: "toLower uni name = map lowerChar name" by (rule toLower_ascii)
  have tld: "map lowerChar TLD = TLD" "lowerChar (CHR ''.'') = CHR ''.''"
    by (simp_all add: TLD_def lowerChar_def less_eq_char_def)
  let ?n = "map lowerChar label @ ''.'' @ i @ ''.'' @ TLD"
  have m: "map lowerChar name = ?n \<or> map lowerChar name = ?n @ ''.''"
    using assms(3) tld map_lowerChar_nameChar [OF i] by auto
  have "\<not> hasSuffix ?n ''.''" by (simp add: hasSuffix_single TLD_def)
  then have "trimSuffix ?n ''.'' = ?n" by (simp only: trimSuffix_def if_False)
  with m t show ?thesis
    unfolding CanonicalName_def using trimSuffix_append [of ?n "''.''"] by metis
qed

lemma NormalizeName_Inr:
  assumes "NormalizeName uni name = Inr l"
  shows "l = trimSuffix (CanonicalName uni name) (''.'' @ TLD)"
    and "l \<noteq> []" "length l \<le> 63" "list_all labelChar l" "CHR ''.'' \<notin> set l"
    and "hd l \<noteq> CHR ''-''" "last l \<noteq> CHR ''-''"
proof -
  let ?l = "trimSuffix (CanonicalName uni name) (''.'' @ TLD)"
  have b: "?l \<noteq> [] \<and> length ?l \<le> 63 \<and> \<not> containsStr ?l ''.'' \<and> hd ?l \<noteq> CHR ''-''
      \<and> last ?l \<noteq> CHR ''-'' \<and> list_all labelChar ?l \<and> l = ?l"
    using assms by (simp add: NormalizeName_def Let_def del: append_Cons append_Nil split: if_splits)
  then show "l = ?l" by blast
  with b show "l \<noteq> []" "length l \<le> 63" "list_all labelChar l" "CHR ''.'' \<notin> set l"
     "hd l \<noteq> CHR ''-''" "last l \<noteq> CHR ''-''"
    by (simp_all add: containsStr_single)
qed

lemma labelChar_nameChar: "labelChar c \<Longrightarrow> nameChar c"
  by (auto simp: labelChar_def nameChar_def alnumLower_def)

lemma CanonicalName_label:
  assumes "list_all labelChar l" and "l \<noteq> []"
  shows "CanonicalName uni l = l" and "CanonicalName uni (l @ ''.'' @ TLD) = l @ ''.'' @ TLD"
proof -
  have n: "\<forall>c \<in> set l. nameChar c" using assms(1) by (auto simp: list_all_iff labelChar_nameChar)
  have "last l \<noteq> CHR ''.''"
    using assms by (auto simp: list_all_iff labelChar_def less_eq_char_def dest!: last_in_set)
  then have "\<not> hasSuffix l ''.''" by (auto simp: hasSuffix_iff)
  then show "CanonicalName uni l = l"
    by (simp add: CanonicalName_def trimSuffix_def toLower_nameChars [OF n])
  have n2: "\<forall>c \<in> set (l @ ''.'' @ TLD). nameChar c"
    using n by (auto simp: TLD_def nameChar_def alnumLower_def less_eq_char_def)
  have "\<not> hasSuffix (l @ ''.'' @ TLD) ''.''" by (simp add: hasSuffix_def TLD_def)
  then show "CanonicalName uni (l @ ''.'' @ TLD) = l @ ''.'' @ TLD"
    by (simp add: CanonicalName_def trimSuffix_def toLower_nameChars [OF n2] del: append_Cons append_Nil)
qed

section \<open>Properties\<close>

text \<open>The human name of a key leads back to that key. For an ASCII label, with or without the
  trailing dot of a fully qualified name, the DHT key derived from the name is the DHT key of the
  public key, the parsed label is the lower-case label, and the name is not taken for a bare one.\<close>

theorem name_roundtrip:
  assumes H: "hashlib_ok H" and "isASCII label" "label \<noteq> []"
    and full: "fullName H label pub = Inr full" and n: "name = full \<or> name = full @ ''.''"
  shows "\<exists>i. PubKeyID H pub = Inr i \<and> ParseName uni name = Inr (map lowerChar label, i)
       \<and> DHTKeyForName uni name = DHTKeyForPubKey H pub \<and> \<not> IsBareName H uni name"
proof -
  from PubKeyID_ok [OF H] obtain i where i: "PubKeyID H pub = Inr i" "IsPubKeyID H i" "i \<noteq> []"
    "list_all alnumLower i" by blast
  with full n have "name = label @ ''.'' @ i @ ''.'' @ TLD \<or> name = label @ ''.'' @ i @ ''.'' @ TLD @ ''.''"
    by (auto simp: fullName_def)
  from CanonicalName_full [OF assms(2) i(4) this]
  have "ParseName uni name = Inr (map lowerChar label, i)"
    using ParseName_parts i(3) alnumLower_no_dot [OF i(4)] assms(3) by simp
  with i show ?thesis
    by (simp add: DHTKeyForName_def DHTKeyForPubKey_def IsBareName_def)
qed

theorem name_roundtrip_witness:
  "\<exists>full. fullName demoHashlib ''My.Site'' [1,2,3] = Inr full \<and>
     (\<exists>i. PubKeyID demoHashlib [1,2,3] = Inr i
       \<and> ParseName id (full @ ''.'') = Inr (map lowerChar ''My.Site'', i)
       \<and> DHTKeyForName id (full @ ''.'') = DHTKeyForPubKey demoHashlib [1,2,3]
       \<and> \<not> IsBareName demoHashlib id (full @ ''.''))"
proof -
  obtain full where "fullName demoHashlib ''My.Site'' [1,2,3] = Inr full"
    using PubKeyID_ok [OF demoHashlib_ok] by (metis bindR_simps(2) fullName_def)
  then show ?thesis
    using name_roundtrip [of demoHashlib "''My.Site''" "[1,2,3]" full "full @ ''.''" id] demoHashlib_ok
    by (simp add: isASCII_def)
qed

definition legalLabel :: "string \<Rightarrow> bool" where
  "legalLabel l \<longleftrightarrow> 1 \<le> length l \<and> length l \<le> 63 \<and> list_all labelChar l
     \<and> hd l \<noteq> CHR ''-'' \<and> last l \<noteq> CHR ''-''"

lemma legalLabel_fixpoint:
  assumes "legalLabel l"
  shows "NormalizeName uni l = Inr l" "NormalizeName uni (l @ ''.'' @ TLD) = Inr l"
proof -
  have l: "l \<noteq> []" "list_all labelChar l" using assms by (auto simp: legalLabel_def)
  then have "CHR ''.'' \<notin> set l" by (auto simp: list_all_iff labelChar_def less_eq_char_def)
  then have nd: "\<not> containsStr l ''.''" "\<not> hasSuffix l (''.'' @ TLD)"
    by (auto simp: containsStr_single hasSuffix_iff)
  have t: "trimSuffix l (''.'' @ TLD) = l" using nd(2) by (simp only: trimSuffix_def if_False)
  have t2: "trimSuffix (l @ ''.'' @ TLD) (''.'' @ TLD) = l" by (rule trimSuffix_append)
  show "NormalizeName uni l = Inr l" "NormalizeName uni (l @ ''.'' @ TLD) = Inr l"
    using assms nd(1) l CanonicalName_label [OF l(2,1)]
    by (simp_all only: NormalizeName_def Let_def t t2 legalLabel_def) auto
qed

text \<open>On-chain normalisation yields exactly the legal labels: 1 to 63 characters of \<open>a-z0-9-\<close>
  with no hyphen at either end. Normalising such a label, bare or followed by \<open>.fn\<close>, returns it
  unchanged, so every spelling of a name has one registered form.\<close>

theorem NormalizeName_canonical:
  "(NormalizeName uni name = Inr l \<longrightarrow>
      legalLabel l \<and> NormalizeName uni l = Inr l \<and> NormalizeName uni (l @ ''.'' @ TLD) = Inr l)
   \<and> (legalLabel l \<longrightarrow> NormalizeName uni l = Inr l)"
proof -
  have "legalLabel l" if "NormalizeName uni name = Inr l"
    using NormalizeName_Inr(2-) [OF that] by (cases l) (simp_all add: legalLabel_def)
  then show ?thesis using legalLabel_fixpoint by blast
qed

theorem NormalizeName_canonical_witness:
  "NormalizeName id ''My-Site.FN.'' = Inr ''my-site'' \<and>
   legalLabel ''my-site'' \<and> NormalizeName id ''my-site.fn'' = Inr ''my-site''"
proof -
  have a: "NormalizeName id ''My-Site.FN.'' = Inr ''my-site''" by code_simp
  then show ?thesis
    using NormalizeName_canonical [of id "''My-Site.FN.''" "''my-site''"] by (simp add: TLD_def)
qed

end
