(* ===== verification/Records.thy ===== *)
theory Records
  imports Names Net Codec "HOL-Library.Product_Lexorder"
begin

text \<open>
  Signed records: \<open>internal/record/record.go\<close>, \<open>build.go\<close> and \<open>validator.go\<close>. libp2p keys, the
  JSON form of a record and the DHT key splitter are other packages' functions, gathered in the
  record \<open>recordLib\<close>; the clock is an argument.
\<close>

section \<open>Records\<close>

record RR =
  rrType :: string
  rrValue :: string
  rrTTL :: "32 word"

record FNRecord =
  Label :: string
  Records :: "RR list"
  Seq :: "64 word"
  EOL :: "64 word"
  PubKey :: bytes
  Sig :: bytes

record recordLib =
  hashes :: hashlib
  getPublic :: "bytes \<Rightarrow> bytes"
  marshalPub :: "bytes \<Rightarrow> bytes option"
  unmarshalPub :: "bytes \<Rightarrow> bytes option"
  privSign :: "bytes \<Rightarrow> bytes \<Rightarrow> bytes option"
  pubVerify :: "bytes \<Rightarrow> bytes \<Rightarrow> bytes \<Rightarrow> bool option"
  recEncode :: "FNRecord \<Rightarrow> bytes option"
  recDecode :: "bytes \<Rightarrow> FNRecord option"
  splitKey :: "string \<Rightarrow> (string \<times> string) option"

datatype recErr =
    NoPubKey | NoSig | BadPubKey | VerifyFailed | InvalidSignature | Expired
  | NoRecords | TooManyRecords nat | LabelTooLong nat | BadIPv4 string | BadIPv6 string
  | EmptyCNAME | CNAMETooLong nat | BadContentHash string | TXTTooLong nat | BadType string
  | MarshalKey | SignFailed | BadKey | BadNamespace | BadJson | HashKey | KeyMismatch
  | NoValues | NoValidValues

definition RecordTypeA :: string where "RecordTypeA = ''A''"
definition RecordTypeAAAA :: string where "RecordTypeAAAA = ''AAAA''"
definition RecordTypeTXT :: string where "RecordTypeTXT = ''TXT''"
definition RecordTypeCNAME :: string where "RecordTypeCNAME = ''CNAME''"
definition RecordTypeCONTENT :: string where "RecordTypeCONTENT = ''CONTENT''"

lemmas recordTypes =
  RecordTypeA_def RecordTypeAAAA_def RecordTypeTXT_def RecordTypeCNAME_def RecordTypeCONTENT_def

section \<open>The signed bytes\<close>

definition be_bytes :: "nat \<Rightarrow> nat \<Rightarrow> bytes" where
  "be_bytes n v = rev (le_bytes n v)"

text \<open>\<open>sort.Slice\<close> by type and value; below 13 elements it is an insertion sort, which keeps the
  order of elements that compare equal.\<close>

definition sortRRs :: "RR list \<Rightarrow> RR list" where
  "sortRRs recs = sort_key (\<lambda>rr. (rrType rr, rrValue rr)) recs"

definition encodeRR :: "RR \<Rightarrow> bytes" where
  "encodeRR rr =
     bytes_of_string (rrType rr) @ [0] @ bytes_of_string (rrValue rr) @ [0] @ be_bytes 4 (unat (rrTTL rr))"

definition canonicalBytes :: "FNRecord \<Rightarrow> bytes" where
  "canonicalBytes r =
     bytes_of_string (Label r) @ [0] @ concat (map encodeRR (sortRRs (Records r)))
       @ be_bytes 8 (unat (Seq r)) @ be_bytes 8 (unat (EOL r)) @ PubKey r"

definition Sign :: "recordLib \<Rightarrow> bytes \<Rightarrow> FNRecord \<Rightarrow> recErr + FNRecord" where
  "Sign L priv r =
     (case marshalPub L (getPublic L priv) of
        None \<Rightarrow> Inl MarshalKey
      | Some pubBytes \<Rightarrow>
          (let r' = r\<lparr>PubKey := pubBytes\<rparr> in
           case privSign L priv (canonicalBytes r') of
             None \<Rightarrow> Inl SignFailed
           | Some sig \<Rightarrow> Inr (r'\<lparr>Sig := sig\<rparr>)))"

section \<open>Validation of the resource records\<close>

definition maxRRsPerRecord :: nat where "maxRRsPerRecord = 32"
definition MaxLabelLen :: nat where "MaxLabelLen = 190"
definition maxTXTLen :: nat where "maxTXTLen = 255"
definition maxDNSNameLen :: nat where "maxDNSNameLen = 253"

lemmas recordLimits = maxRRsPerRecord_def MaxLabelLen_def maxTXTLen_def maxDNSNameLen_def

definition checkRR :: "hashlib \<Rightarrow> RR \<Rightarrow> recErr + unit" where
  "checkRR H rr =
     (let v = rrValue rr in
      if rrType rr = RecordTypeA then
        (case parseIP v of None \<Rightarrow> Inl (BadIPv4 v)
         | Some ip \<Rightarrow> if to4 ip = None then Inl (BadIPv4 v) else Inr ())
      else if rrType rr = RecordTypeAAAA then
        (case parseIP v of None \<Rightarrow> Inl (BadIPv6 v)
         | Some ip \<Rightarrow> if to4 ip \<noteq> None then Inl (BadIPv6 v) else Inr ())
      else if rrType rr = RecordTypeCNAME then
        (if v = [] then Inl EmptyCNAME
         else if length v > maxDNSNameLen then Inl (CNAMETooLong (length v)) else Inr ())
      else if rrType rr = RecordTypeCONTENT then
        (if \<not> IsContentHash H v then Inl (BadContentHash v) else Inr ())
      else if rrType rr = RecordTypeTXT then
        (if length v > maxTXTLen then Inl (TXTTooLong (length v)) else Inr ())
      else Inl (BadType (rrType rr)))"

fun checkRRs :: "hashlib \<Rightarrow> RR list \<Rightarrow> recErr + unit" where
  "checkRRs H [] = Inr ()"
| "checkRRs H (rr # rrs) = bindR (checkRR H rr) (\<lambda>_. checkRRs H rrs)"

definition ValidateRecords :: "hashlib \<Rightarrow> FNRecord \<Rightarrow> recErr + unit" where
  "ValidateRecords H r =
     (if Records r = [] then Inl NoRecords
      else if length (Records r) > maxRRsPerRecord then Inl (TooManyRecords (length (Records r)))
      else if length (Label r) > MaxLabelLen then Inl (LabelTooLong (length (Label r)))
      else checkRRs H (Records r))"

definition Verify :: "recordLib \<Rightarrow> int \<Rightarrow> FNRecord \<Rightarrow> recErr + unit" where
  "Verify L now r =
     (if PubKey r = [] then Inl NoPubKey
      else if Sig r = [] then Inl NoSig
      else case unmarshalPub L (PubKey r) of
        None \<Rightarrow> Inl BadPubKey
      | Some pub \<Rightarrow>
          (case pubVerify L pub (canonicalBytes r) (Sig r) of
             None \<Rightarrow> Inl VerifyFailed
           | Some False \<Rightarrow> Inl InvalidSignature
           | Some True \<Rightarrow>
               if EOL r \<noteq> 0 \<and> now > sint (EOL r) then Inl Expired
               else ValidateRecords (hashes L) r))"

definition recordDHTKey :: "recordLib \<Rightarrow> FNRecord \<Rightarrow> nameErr + string" where
  "recordDHTKey L r = DHTKeyForPubKey (hashes L) (PubKey r)"

definition defaultRecordTTL :: int where "defaultRecordTTL = 7 * 24 * 3600"

definition BuildAndSignRecord ::
    "recordLib \<Rightarrow> int \<Rightarrow> bytes \<Rightarrow> string \<Rightarrow> RR list \<Rightarrow> 64 word \<Rightarrow> recErr + FNRecord" where
  "BuildAndSignRecord L now priv label recs sq =
     Sign L priv
       \<lparr>Label = label, Records = recs, Seq = sq, EOL = word_of_int (now + defaultRecordTTL),
        PubKey = [], Sig = []\<rparr>"

section \<open>The DHT validator\<close>

definition Validate :: "recordLib \<Rightarrow> int \<Rightarrow> string \<Rightarrow> bytes \<Rightarrow> recErr + unit" where
  "Validate L now key val =
     (case splitKey L key of
        None \<Rightarrow> Inl BadKey
      | Some (ns, keyID) \<Rightarrow>
          if ns \<noteq> dhtNamespace then Inl BadNamespace
          else case recDecode L val of
            None \<Rightarrow> Inl BadJson
          | Some r \<Rightarrow>
              (case PubKeyID (hashes L) (PubKey r) of
                 Inl _ \<Rightarrow> Inl HashKey
               | Inr wantID \<Rightarrow> if wantID \<noteq> keyID then Inl KeyMismatch else Verify L now r))"

definition betterRecord :: "FNRecord \<Rightarrow> FNRecord \<Rightarrow> bytes \<Rightarrow> bytes \<Rightarrow> bool" where
  "betterRecord candidate current candidateRaw currentRaw =
     (if Seq candidate \<noteq> Seq current then Seq candidate > Seq current
      else if EOL candidate \<noteq> EOL current then sint (EOL candidate) > sint (EOL current)
      else candidateRaw > currentRaw)"

type_synonym entry = "nat \<times> FNRecord \<times> bytes"

definition decodedValues :: "recordLib \<Rightarrow> bytes list \<Rightarrow> entry list" where
  "decodedValues L vals =
     List.map_filter (\<lambda>(i, v). map_option (\<lambda>r. (i, r, v)) (recDecode L v)) (enumerate 0 vals)"

fun betterEntry :: "entry \<Rightarrow> entry \<Rightarrow> bool" where
  "betterEntry (i, r, v) (j, r', v') = betterRecord r r' v v'"

definition Select :: "recordLib \<Rightarrow> bytes list \<Rightarrow> recErr + nat" where
  "Select L vals =
     (if vals = [] then Inl NoValues
      else case scanBest betterEntry None (decodedValues L vals) of
        None \<Rightarrow> Inl NoValidValues
      | Some (best, _, _) \<Rightarrow> Inr best)"

section \<open>The documented behaviour of the libraries\<close>

text \<open>libp2p: a marshaled public key is not empty and unmarshals to the key; a signature is not
  empty and verifies under the signer's public key. go-libp2p-record: a key \<open>/ns/path\<close> splits.\<close>

definition recordLib_ok :: "recordLib \<Rightarrow> bool" where
  "recordLib_ok L \<longleftrightarrow>
     hashlib_ok (hashes L) \<and>
     (\<forall>p pb. marshalPub L p = Some pb \<longrightarrow> pb \<noteq> [] \<and> unmarshalPub L pb = Some p) \<and>
     (\<forall>k m s. privSign L k m = Some s \<longrightarrow> s \<noteq> [] \<and> pubVerify L (getPublic L k) m s = Some True) \<and>
     (\<forall>ns path. CHR ''/'' \<notin> set ns \<and> ns \<noteq> [] \<longrightarrow>
        splitKey L (''/'' @ ns @ ''/'' @ path) = Some (ns, path))"

section \<open>Facts\<close>

lemma recordLib_ok_splitKey:
  assumes "recordLib_ok L" and "CHR ''/'' \<notin> set ns" "ns \<noteq> []"
  shows "splitKey L (''/'' @ ns @ ''/'' @ path) = Some (ns, path)"
  using assms unfolding recordLib_ok_def by blast

lemma length_be_bytes [simp]: "length (be_bytes n v) = n"
  by (simp add: be_bytes_def)

lemma be_bytes_inj: "v < 256 ^ n \<Longrightarrow> w < 256 ^ n \<Longrightarrow> be_bytes n v = be_bytes n w \<Longrightarrow> v = w"
  unfolding be_bytes_def by (metis le_val_bytes rev_is_rev_conv)

lemma be8_inj: "be_bytes 8 (unat (v :: 64 word)) = be_bytes 8 (unat w) \<longleftrightarrow> v = w"
  using be_bytes_inj [OF unat64_less unat64_less] word_unat_eq_iff by blast

lemma be4_inj: "be_bytes 4 (unat (v :: 32 word)) = be_bytes 4 (unat w) \<longleftrightarrow> v = w"
  using be_bytes_inj [OF unat32_less unat32_less] word_unat_eq_iff by blast

lemma checkRRs_Inr: "checkRRs H rrs = Inr () \<longleftrightarrow> (\<forall>rr \<in> set rrs. checkRR H rr = Inr ())"
  by (induction rrs) (auto simp: bindR_Inr_iff)

lemma ValidateRecords_Inr:
  "ValidateRecords H r = Inr () \<longleftrightarrow>
     Records r \<noteq> [] \<and> length (Records r) \<le> 32 \<and> length (Label r) \<le> 190
     \<and> (\<forall>rr \<in> set (Records r). checkRR H rr = Inr ())"
  by (auto simp: ValidateRecords_def recordLimits checkRRs_Inr)

lemma Sign_Inr:
  assumes "Sign L priv r = Inr r'"
  shows "\<exists>pb sig. marshalPub L (getPublic L priv) = Some pb
      \<and> privSign L priv (canonicalBytes r') = Some sig \<and> r' = r\<lparr>PubKey := pb, Sig := sig\<rparr>"
  using assms by (auto simp: Sign_def Let_def canonicalBytes_def split: option.splits)

lemma canonicalBytes_Sig [simp]: "canonicalBytes (r\<lparr>Sig := s\<rparr>) = canonicalBytes r"
  by (simp add: canonicalBytes_def)

lemma Sign_verifies:
  assumes L: "recordLib_ok L" and s: "Sign L priv r = Inr r'"
    and "EOL r = 0 \<or> now \<le> sint (EOL r)"
  shows "Verify L now r' = ValidateRecords (hashes L) r"
proof -
  from Sign_Inr [OF s] obtain pb sig where p: "marshalPub L (getPublic L priv) = Some pb"
    "privSign L priv (canonicalBytes r') = Some sig" "r' = r\<lparr>PubKey := pb, Sig := sig\<rparr>" by blast
  with L have "pb \<noteq> []" "sig \<noteq> []" "unmarshalPub L pb = Some (getPublic L priv)"
    "pubVerify L (getPublic L priv) (canonicalBytes r') sig = Some True"
    unfolding recordLib_ok_def by blast+
  moreover have "ValidateRecords (hashes L) r' = ValidateRecords (hashes L) r"
    using p by (simp add: ValidateRecords_def)
  ultimately show ?thesis
    using assms(3) p by (auto simp: Verify_def)
qed

text \<open>Selection is a scan with the lexicographic order on sequence number, expiry and raw bytes.\<close>

definition entryRank :: "entry \<Rightarrow> (64 word \<times> int) \<times> bytes" where
  "entryRank e = (case e of (i, r, v) \<Rightarrow> ((Seq r, sint (EOL r)), v))"

lemma sint_eq_iff: "sint (a :: 64 word) = sint b \<longleftrightarrow> a = b"
  by (metis signed_word_eqI)

lemma set_map_filter_iff: "y \<in> set (List.map_filter f xs) \<longleftrightarrow> (\<exists>x \<in> set xs. f x = Some y)"
  by (induction xs) (auto simp: List.map_filter_simps split: option.splits)

lemma betterEntry_rank: "betterEntry x y \<longleftrightarrow> entryRank x > entryRank y"
  by (cases x; cases y)
    (auto simp: betterRecord_def entryRank_def less_prod_def' sint_eq_iff)

interpretation select: best_scan betterEntry
  by unfold_locales (auto simp: betterEntry_rank)

lemma decodedValues_mem:
  "(i, r, v) \<in> set (decodedValues L vals) \<longleftrightarrow> i < length vals \<and> vals ! i = v \<and> recDecode L v = Some r"
  by (auto simp: decodedValues_def set_map_filter_iff in_set_enumerate_eq Bex_def split: prod.splits)

lemma Select_Inr:
  "Select L vals = Inr i \<longleftrightarrow>
     (\<exists>r v. scanBest betterEntry None (decodedValues L vals) = Some (i, r, v))"
  by (auto simp: Select_def decodedValues_def map_filter_simps split: option.splits)

lemma Select_best:
  assumes "Select L vals = Inr i"
  shows "\<exists>r. i < length vals \<and> recDecode L (vals ! i) = Some r
     \<and> (\<forall>v \<in> set vals. \<forall>q. recDecode L v = Some q \<longrightarrow> \<not> betterRecord q r v (vals ! i))"
proof -
  from assms obtain r v where s: "scanBest betterEntry None (decodedValues L vals) = Some (i, r, v)"
    by (auto simp: Select_Inr)
  from select.scan_maximal [OF s] have m: "(i, r, v) \<in> set (decodedValues L vals)"
    "\<And>e. e \<in> set (decodedValues L vals) \<Longrightarrow> \<not> betterEntry e (i, r, v)" by auto
  then have "\<not> betterRecord q r w v" if "w \<in> set vals" "recDecode L w = Some q" for w q
    using that by (metis betterEntry.simps decodedValues_mem in_set_conv_nth)
  with m(1) show ?thesis by (auto simp: decodedValues_mem)
qed

text \<open>NUL-delimited fields are read back unambiguously.\<close>

definition nulFree :: "string \<Rightarrow> bool" where
  "nulFree s \<longleftrightarrow> CHR 0x00 \<notin> set s"

lemma nulFree_bytes: "nulFree s \<longleftrightarrow> 0 \<notin> set (bytes_of_string s)"
proof -
  have "(of_char c :: byte) = 0 \<longleftrightarrow> c = CHR 0x00" for c
  proof
    assume "(of_char c :: byte) = 0"
    then have "unat (of_char c :: byte) = 0" by simp
    then have "of_char c = (of_char (CHR 0x00) :: nat)" by simp
    then show "c = CHR 0x00" by (simp only: of_char_eq_iff)
  qed simp
  then show ?thesis by (force simp: nulFree_def bytes_of_string_def)
qed

lemma nul_split:
  "0 \<notin> set x \<Longrightarrow> 0 \<notin> set y \<Longrightarrow> x @ (0 :: byte) # u = y @ 0 # v \<Longrightarrow> x = y \<and> u = v"
proof (induction x arbitrary: y)
  case Nil
  then show ?case by (cases y) auto
next
  case (Cons a x)
  then show ?case by (cases y) auto
qed

definition nulFreeRR :: "RR \<Rightarrow> bool" where
  "nulFreeRR rr \<longleftrightarrow> nulFree (rrType rr) \<and> nulFree (rrValue rr)"

lemma encodeRR_cancel:
  assumes "nulFreeRR a" "nulFreeRR b" "encodeRR a @ s = encodeRR b @ t"
  shows "a = b \<and> s = t"
proof -
  from assms(3) have eq: "bytes_of_string (rrType a) @ 0 # (bytes_of_string (rrValue a) @ 0 # (be_bytes 4 (unat (rrTTL a)) @ s))
      = bytes_of_string (rrType b) @ 0 # (bytes_of_string (rrValue b) @ 0 # (be_bytes 4 (unat (rrTTL b)) @ t))"
    by (simp add: encodeRR_def)
  from nul_split [OF _ _ this] assms have t: "bytes_of_string (rrType a) = bytes_of_string (rrType b)"
    and eq2: "bytes_of_string (rrValue a) @ 0 # (be_bytes 4 (unat (rrTTL a)) @ s)
      = bytes_of_string (rrValue b) @ 0 # (be_bytes 4 (unat (rrTTL b)) @ t)"
    by (auto simp: nulFreeRR_def nulFree_bytes)
  from nul_split [OF _ _ eq2] assms have v: "bytes_of_string (rrValue a) = bytes_of_string (rrValue b)"
    and eq3: "be_bytes 4 (unat (rrTTL a)) @ s = be_bytes 4 (unat (rrTTL b)) @ t"
    by (auto simp: nulFreeRR_def nulFree_bytes)
  from eq3 have "rrTTL a = rrTTL b \<and> s = t" by (simp add: be4_inj)
  with t v show ?thesis by (simp add: RR.equality)
qed

lemma encodeRRs_cancel:
  assumes "list_all nulFreeRR xs" "list_all nulFreeRR ys" "length s = length t"
    and "concat (map encodeRR xs) @ s = concat (map encodeRR ys) @ t"
  shows "xs = ys \<and> s = t"
  using assms
proof (induction xs arbitrary: ys)
  case Nil
  show ?case
  proof (cases ys)
    case (Cons y ys')
    have "length (encodeRR y) > 0" by (simp add: encodeRR_def)
    moreover from Nil Cons have "length s = length (encodeRR y @ concat (map encodeRR ys') @ t)" by simp
    ultimately show ?thesis using Nil(3) by simp
  qed (use Nil in simp)
next
  case (Cons x xs)
  show ?case
  proof (cases ys)
    case Nil
    have "length (encodeRR x) > 0" by (simp add: encodeRR_def)
    moreover from Cons.prems Nil have "length (encodeRR x @ concat (map encodeRR xs) @ s) = length t" by simp
    ultimately show ?thesis using Cons.prems(3) by simp
  next
    case ys: (Cons y ys')
    with Cons.prems have "encodeRR x @ (concat (map encodeRR xs) @ s) = encodeRR y @ (concat (map encodeRR ys') @ t)"
      by simp
    with encodeRR_cancel Cons.prems(1,2) ys have "x = y"
      "concat (map encodeRR xs) @ s = concat (map encodeRR ys') @ t" by (metis list.pred_inject(2))+
    with Cons.IH [of ys'] Cons.prems ys show ?thesis by simp
  qed
qed

lemma set_sortRRs [simp]: "set (sortRRs rs) = set rs"
  by (simp add: sortRRs_def)

lemma mset_sortRRs [simp]: "mset (sortRRs rs) = mset rs"
  by (simp add: sortRRs_def)

section \<open>A concrete library\<close>

text \<open>A library with the documented behaviour: public key and private key coincide, a signature
  quotes the key and the message, and two byte strings are the JSON form of two signed records.\<close>

definition demoSplit :: "string \<Rightarrow> (string \<times> string) option" where
  "demoSplit key =
     (case key of
        [] \<Rightarrow> None
      | c # rest \<Rightarrow>
          (let ns = takeWhile (\<lambda>d. d \<noteq> CHR ''/'') rest; tail = dropWhile (\<lambda>d. d \<noteq> CHR ''/'') rest in
           if c \<noteq> CHR ''/'' \<or> ns = [] \<or> tail = [] then None else Some (ns, tl tail)))"

definition demoRec :: "64 word \<Rightarrow> FNRecord" where
  "demoRec sq =
     (let r = \<lparr>Label = ''mysite'', Records = [\<lparr>rrType = ''A'', rrValue = ''10.0.0.1'', rrTTL = 300\<rparr>],
               Seq = sq, EOL = word_of_int (1000 + defaultRecordTTL), PubKey = [1, 9], Sig = []\<rparr>
      in r\<lparr>Sig := 7 # [9] @ canonicalBytes r\<rparr>)"

definition demoLib :: recordLib where
  "demoLib =
     \<lparr>hashes = demoHashlib, getPublic = (\<lambda>k. k), marshalPub = (\<lambda>p. Some (1 # p)),
      unmarshalPub = (\<lambda>b. if b \<noteq> [] \<and> hd b = 1 then Some (tl b) else None),
      privSign = (\<lambda>k m. Some (7 # k @ m)), pubVerify = (\<lambda>p m s. Some (s = 7 # p @ m)),
      recEncode = (\<lambda>r. if r = demoRec 1 then Some [1] else if r = demoRec 2 then Some [2] else None),
      recDecode = (\<lambda>v. if v = [1] then Some (demoRec 1) else if v = [2] then Some (demoRec 2) else None),
      splitKey = demoSplit\<rparr>"

lemma demoLib_ok: "recordLib_ok demoLib"
proof -
  have "demoSplit (''/'' @ ns @ ''/'' @ path) = Some (ns, path)"
    if "CHR ''/'' \<notin> set ns" "ns \<noteq> []" for ns path
  proof -
    have "\<forall>d \<in> set ns. d \<noteq> CHR ''/''" using that by blast
    with that show ?thesis by (simp add: demoSplit_def)
  qed
  then show ?thesis
    unfolding recordLib_ok_def using demoHashlib_ok by (simp add: demoLib_def)
qed

lemma demo_built:
  "BuildAndSignRecord demoLib 1000 [9] ''mysite'' [\<lparr>rrType = ''A'', rrValue = ''10.0.0.1'', rrTTL = 300\<rparr>] 1
     = Inr (demoRec 1)"
  by (simp add: BuildAndSignRecord_def Sign_def demoLib_def demoRec_def Let_def)

lemma demo_valid: "ValidateRecords H (demoRec sq) = Inr ()"
proof -
  have "checkRR H \<lparr>rrType = ''A'', rrValue = ''10.0.0.1'', rrTTL = 300\<rparr> = Inr ()"
  proof -
    have "parseIPv4 ''10.0.0.1'' = Some [10, 0, 0, 1]" by code_simp
    from parseIP_v4 [OF this] show ?thesis by (simp add: checkRR_def recordTypes)
  qed
  then show ?thesis by (simp add: ValidateRecords_Inr demoRec_def Let_def)
qed

lemma demo_key: "\<exists>key. recordDHTKey demoLib (demoRec sq) = Inr key"
proof -
  have "hashes demoLib = demoHashlib" by (simp add: demoLib_def)
  moreover obtain i where "PubKeyID demoHashlib (PubKey (demoRec sq)) = Inr i"
    using PubKeyID_ok [OF demoHashlib_ok] by blast
  ultimately show ?thesis by (simp add: recordDHTKey_def DHTKeyForPubKey_def)
qed

lemma demo_EOL: "sint (EOL (demoRec sq)) = 605800"
  by (simp add: demoRec_def Let_def defaultRecordTTL_def)

lemma demo_decode: "recDecode demoLib [1] = Some (demoRec 1)" "recDecode demoLib [2] = Some (demoRec 2)"
  by (simp_all add: demoLib_def)

section \<open>Properties\<close>

text \<open>What an owner builds and signs is what the DHT accepts under the owner's key. If the
  record's JSON form decodes to it, its resource records are valid and it has not expired, then
  \<open>Validate\<close> accepts the stored bytes under the DHT key derived from the signer's public key.\<close>

theorem signed_record_accepted:
  assumes L: "recordLib_ok L" and b: "BuildAndSignRecord L t0 priv label recs sq = Inr r"
    and key: "recordDHTKey L r = Inr key" and dec: "recDecode L val = Some r"
    and fresh: "EOL r = 0 \<or> now \<le> sint (EOL r)"
  shows "Validate L now key val = ValidateRecords (hashes L) r"
proof -
  obtain r0 where s: "Sign L priv r0 = Inr r" and r0: "EOL r0 = EOL r"
      "ValidateRecords (hashes L) r0 = ValidateRecords (hashes L) r"
  proof -
    let ?r0 = "\<lparr>Label = label, Records = recs, Seq = sq, EOL = word_of_int (t0 + defaultRecordTTL),
        PubKey = [], Sig = []\<rparr>"
    from b have s: "Sign L priv ?r0 = Inr r" by (simp add: BuildAndSignRecord_def)
    with Sign_Inr [OF s] show thesis by (intro that [OF s]) (auto simp: ValidateRecords_def)
  qed
  from L have H: "hashlib_ok (hashes L)" by (simp add: recordLib_ok_def)
  from PubKeyID_ok [OF H] obtain i where i: "PubKeyID (hashes L) (PubKey r) = Inr i" by blast
  with key have k: "key = ''/'' @ dhtNamespace @ ''/'' @ i"
    by (simp add: recordDHTKey_def DHTKeyForPubKey_def)
  have "splitKey L key = Some (dhtNamespace, i)"
    using recordLib_ok_splitKey [OF L, of dhtNamespace i] unfolding k by (simp add: dhtNamespace_def)
  with i dec Sign_verifies [OF L s] fresh r0 show ?thesis
    by (simp add: Validate_def)
qed

theorem signed_record_accepted_witness:
  "\<exists>key. recordDHTKey demoLib (demoRec 1) = Inr key \<and> Validate demoLib 2000 key [1] = Inr ()"
proof -
  obtain key where k: "recordDHTKey demoLib (demoRec 1) = Inr key" using demo_key by blast
  have "Validate demoLib 2000 key [1] = ValidateRecords (hashes demoLib) (demoRec 1)"
    by (rule signed_record_accepted [OF demoLib_ok demo_built k]) (simp_all add: demo_decode demo_EOL)
  with k show ?thesis by (simp add: demo_valid)
qed

text \<open>C1: a value \<open>Validate\<close> accepts proves ownership. It decodes to a record whose public key
  hashes to the key it is stored under, whose signature over its canonical bytes verifies under
  that public key, that has not expired, and whose resource records are within the limits and
  individually well formed.\<close>

theorem Validate_sound:
  assumes "Validate L now key val = Inr ()"
  shows "\<exists>r keyID pub. recDecode L val = Some r \<and> splitKey L key = Some (dhtNamespace, keyID)
     \<and> PubKeyID (hashes L) (PubKey r) = Inr keyID
     \<and> unmarshalPub L (PubKey r) = Some pub \<and> pubVerify L pub (canonicalBytes r) (Sig r) = Some True
     \<and> (EOL r \<noteq> 0 \<longrightarrow> now \<le> sint (EOL r))
     \<and> Records r \<noteq> [] \<and> length (Records r) \<le> 32 \<and> length (Label r) \<le> 190
     \<and> (\<forall>rr \<in> set (Records r). checkRR (hashes L) rr = Inr ())"
proof -
  from assms obtain keyID r where v: "splitKey L key = Some (dhtNamespace, keyID)" "recDecode L val = Some r"
    "PubKeyID (hashes L) (PubKey r) = Inr keyID" "Verify L now r = Inr ()"
    by (auto simp: Validate_def split: option.splits sum.splits if_splits)
  from v(4) obtain pub where "unmarshalPub L (PubKey r) = Some pub"
      "pubVerify L pub (canonicalBytes r) (Sig r) = Some True"
      "EOL r \<noteq> 0 \<longrightarrow> now \<le> sint (EOL r)" "ValidateRecords (hashes L) r = Inr ()"
    by (auto simp: Verify_def split: option.splits if_splits bool.splits)
  with v show ?thesis by (auto simp: ValidateRecords_Inr)
qed

theorem Validate_sound_witness:
  "\<exists>r keyID. recDecode demoLib [1] = Some r \<and> PubKeyID (hashes demoLib) (PubKey r) = Inr keyID
     \<and> length (Records r) \<le> 32"
proof -
  from PubKeyID_ok [OF demoHashlib_ok] obtain i where i: "PubKeyID (hashes demoLib) [1, 9] = Inr i"
    by (auto simp: demoLib_def)
  have pk: "PubKey (demoRec 1) = [1, 9]" by (simp add: demoRec_def Let_def)
  have sk: "splitKey demoLib (''/'' @ dhtNamespace @ ''/'' @ i) = Some (dhtNamespace, i)"
    by (rule recordLib_ok_splitKey [OF demoLib_ok]) (simp_all add: dhtNamespace_def)
  have "Verify demoLib 2000 (demoRec 1) = Inr ()"
  proof -
    have "\<exists>r0. Sign demoLib [9] r0 = Inr (demoRec 1)" using demo_built by (auto simp: BuildAndSignRecord_def)
    then obtain r0 where s: "Sign demoLib [9] r0 = Inr (demoRec 1)" ..
    from Sign_Inr [OF s] have "EOL r0 = EOL (demoRec 1)" by auto
    moreover have "ValidateRecords (hashes demoLib) r0 = ValidateRecords (hashes demoLib) (demoRec 1)"
      using Sign_Inr [OF s] by (auto simp: ValidateRecords_def)
    ultimately show ?thesis
      using Sign_verifies [OF demoLib_ok s, of 2000] by (simp add: demo_valid demo_EOL)
  qed
  then have "Validate demoLib 2000 (''/'' @ dhtNamespace @ ''/'' @ i) [1] = Inr ()"
    by (simp only: Validate_def sk i pk demo_decode option.case prod.case sum.case simp_thms if_False)
  from Validate_sound [OF this] show ?thesis by blast
qed

text \<open>C26: among competing values \<open>Select\<close> picks a decodable one that no other decodable value
  beats, and the choice does not depend on the order or multiplicity in which the DHT delivers
  them.\<close>

theorem Select_order_independent:
  assumes "Select L vals = Inr i"
  shows "(\<exists>r. i < length vals \<and> recDecode L (vals ! i) = Some r
       \<and> (\<forall>v \<in> set vals. \<forall>q. recDecode L v = Some q \<longrightarrow> \<not> betterRecord q r v (vals ! i)))
     \<and> (\<forall>vals'. set vals' = set vals \<longrightarrow> (\<exists>j. Select L vals' = Inr j \<and> vals' ! j = vals ! i))"
proof (intro conjI allI impI)
  show best: "\<exists>r. i < length vals \<and> recDecode L (vals ! i) = Some r
       \<and> (\<forall>v \<in> set vals. \<forall>q. recDecode L v = Some q \<longrightarrow> \<not> betterRecord q r v (vals ! i))"
    by (rule Select_best [OF assms])
  fix vals' assume eq: "set vals' = set vals"
  from best obtain r where r: "i < length vals" "recDecode L (vals ! i) = Some r"
    "\<And>v q. v \<in> set vals \<Longrightarrow> recDecode L v = Some q \<Longrightarrow> \<not> betterRecord q r v (vals ! i)" by blast
  then obtain k where k: "k < length vals'" "vals' ! k = vals ! i"
    using eq by (metis in_set_conv_nth nth_mem)
  then have "(k, r, vals ! i) \<in> set (decodedValues L vals')" using r by (simp add: decodedValues_mem)
  then obtain e where e: "scanBest betterEntry None (decodedValues L vals') = Some e"
    by (cases "scanBest betterEntry None (decodedValues L vals')") auto
  obtain j q v where "e = (j, q, v)" by (cases e)
  with e have j: "Select L vals' = Inr j" by (auto simp: Select_Inr)
  from Select_best [OF this] obtain q where q: "j < length vals'" "recDecode L (vals' ! j) = Some q"
    "\<And>v p. v \<in> set vals' \<Longrightarrow> recDecode L v = Some p \<Longrightarrow> \<not> betterRecord p q v (vals' ! j)" by blast
  have "vals' ! j \<in> set vals" using nth_mem [OF q(1)] eq by simp
  with r q have "\<not> betterRecord q r (vals' ! j) (vals ! i)" by blast
  moreover have "vals ! i \<in> set vals'" using r(1) eq by simp
  with q(3) r(2) have "\<not> betterRecord r q (vals ! i) (vals' ! j)" by blast
  ultimately have "vals' ! j = vals ! i"
    by (auto simp: betterRecord_def not_less sint_eq_iff split: if_splits)
  with j show "\<exists>j. Select L vals' = Inr j \<and> vals' ! j = vals ! i" by blast
qed

theorem Select_order_independent_witness:
  "\<exists>j. Select demoLib [[0], [2], [1], [2]] = Inr j \<and> [[0], [2], [1], [2]] ! j = ([2] :: bytes)"
proof -
  have s: "Select demoLib [[1], [0], [2]] = Inr 2"
    by (simp add: Select_def decodedValues_def List.map_filter_simps demoLib_def betterRecord_def demoRec_def Let_def)
  have "set [[0], [2], [1], [2]] = set [[1], [0], [2 :: byte]]" by auto
  with Select_order_independent [OF s] have
    "\<exists>j. Select demoLib [[0], [2], [1], [2]] = Inr j \<and> [[0], [2], [1], [2]] ! j = [[1], [0], [2 :: byte]] ! 2"
    by blast
  then show ?thesis by simp
qed

text \<open>C27: the signed bytes determine the record: two records of one owner whose labels, types and
  values contain no NUL byte have the same canonical bytes only if they agree on the label, the
  sequence number, the expiry and the multiset of resource records, TTLs included. So a signature
  on one of them cannot be moved to the other.\<close>

theorem canonicalBytes_determines:
  assumes "nulFree (Label r)" "nulFree (Label s)"
    and "list_all nulFreeRR (Records r)" "list_all nulFreeRR (Records s)"
    and "PubKey r = PubKey s" and eq: "canonicalBytes r = canonicalBytes s"
  shows "Label r = Label s \<and> Seq r = Seq s \<and> EOL r = EOL s \<and> mset (Records r) = mset (Records s)"
proof -
  let ?t = "\<lambda>r. be_bytes 8 (unat (Seq r)) @ be_bytes 8 (unat (EOL r)) @ PubKey r"
  let ?b = "\<lambda>r. concat (map encodeRR (sortRRs (Records r))) @ ?t r"
  from eq have "bytes_of_string (Label r) @ 0 # ?b r = bytes_of_string (Label s) @ 0 # ?b s"
    by (simp add: canonicalBytes_def)
  from nul_split [OF _ _ this] assms(1,2)
  have l: "bytes_of_string (Label r) = bytes_of_string (Label s)" and b: "?b r = ?b s"
    by (auto simp: nulFree_bytes)
  have "sortRRs (Records r) = sortRRs (Records s) \<and> ?t r = ?t s"
    by (rule encodeRRs_cancel [OF _ _ _ b]) (use assms in \<open>auto simp: list_all_iff\<close>)
  moreover from this have "mset (Records r) = mset (Records s)" by (metis mset_sortRRs)
  ultimately show ?thesis using l by (auto simp: be8_inj)
qed

theorem canonicalBytes_determines_witness:
  "Label (demoRec 1) = Label ((demoRec 1)\<lparr>Sig := []\<rparr>)
     \<and> mset (Records (demoRec 1)) = mset (Records ((demoRec 1)\<lparr>Sig := []\<rparr>))"
proof -
  have "nulFree (Label (demoRec 1))" "list_all nulFreeRR (Records (demoRec 1))"
    by (simp_all add: demoRec_def Let_def nulFree_def nulFreeRR_def)
  then show ?thesis
    using canonicalBytes_determines [of "demoRec 1" "(demoRec 1)\<lparr>Sig := []\<rparr>"] by simp
qed

definition twoTXT :: "RR list" where
  "twoTXT = [\<lparr>rrType = ''TXT'', rrValue = ''a'', rrTTL = 60\<rparr>, \<lparr>rrType = ''TXT'', rrValue = ''b'', rrTTL = 60\<rparr>]"

definition mergedTXT :: "RR list" where
  "mergedTXT = [\<lparr>rrType = ''TXT'',
     rrValue = ''a'' @ [CHR 0x00] @ [CHR 0x00, CHR 0x00, CHR 0x00, CHR 0x3C] @ ''TXT'' @ [CHR 0x00] @ ''b'', rrTTL = 60\<rparr>]"

lemma be4_60: "be_bytes 4 60 = [0, 0, 0, 60]"
proof -
  have "le_bytes (Suc (Suc (Suc (Suc 0)))) 60 = [60, 0, 0, 0]" by simp
  moreover have "(4 :: nat) = Suc (Suc (Suc (Suc 0)))" by simp
  ultimately show ?thesis by (simp only: be_bytes_def rev.simps append.simps)
qed

lemma merged_bytes: "canonicalBytes (r\<lparr>Records := twoTXT\<rparr>) = canonicalBytes (r\<lparr>Records := mergedTXT\<rparr>)"
  by (simp add: canonicalBytes_def sortRRs_def twoTXT_def mergedTXT_def encodeRR_def be4_60
      bytes_of_string_def)

lemma merged_valid:
  "ValidateRecords H (r\<lparr>Records := twoTXT\<rparr>) = ValidateRecords H (r\<lparr>Records := mergedTXT\<rparr>)"
  by (simp add: ValidateRecords_def twoTXT_def mergedTXT_def checkRR_def recordTypes recordLimits)

text \<open>Without the restriction to NUL-free values the signed bytes do not determine the record.
  Two TXT records and one TXT record whose value spells out the separator between them are both
  valid record sets, and a signature made for one verifies for the other.\<close>

theorem canonicalBytes_malleable:
  "mset twoTXT \<noteq> mset mergedTXT
   \<and> Verify L now (r\<lparr>Records := twoTXT\<rparr>) = Verify L now (r\<lparr>Records := mergedTXT\<rparr>)"
proof
  have "size (mset twoTXT) \<noteq> size (mset mergedTXT)" by (simp add: twoTXT_def mergedTXT_def)
  then show "mset twoTXT \<noteq> mset mergedTXT" by metis
  show "Verify L now (r\<lparr>Records := twoTXT\<rparr>) = Verify L now (r\<lparr>Records := mergedTXT\<rparr>)"
    unfolding Verify_def merged_bytes merged_valid by (simp cong: option.case_cong bool.case_cong)
qed

end
