(* ===== verification/Publish.thy ===== *)
theory Publish
  imports Records "HOL-Library.AList"
begin

text \<open>
  The node's record operations: \<open>internal/node/publish.go\<close> and the parts of \<open>node.go\<close> that decide
  something (DHT reads and writes, the bootstrap list, the identity key file). The DHT is the
  record \<open>dhtNet\<close>: what it answers may depend on everything this node has put into it, the
  list \<open>puts\<close>. The owned records are an association list, the Go map in its iteration order.
\<close>

section \<open>The DHT\<close>

datatype dhtErr = DHTNotInitialized | DHTNotFound | DHTDeadline | DHTFailed

type_synonym puts = "(string \<times> bytes) list"

record dhtNet =
  dhtPut :: "puts \<Rightarrow> string \<Rightarrow> bytes \<Rightarrow> dhtErr option"
  dhtGet :: "puts \<Rightarrow> string \<Rightarrow> dhtErr + bytes"

record fnNode =
  kadDHT :: bool
  owned :: "(string \<times> FNRecord) list"

datatype pubErr = PubName nameErr | PubMarshal | PubDHT dhtErr | PubJson

definition IsInitialized :: "fnNode \<Rightarrow> bool" where
  "IsInitialized n = kadDHT n"

datatype dhtMode = ModeAuto | ModeClient | ModeServer | ModeAutoServer | ModeOther

definition GetMode :: "dhtMode \<Rightarrow> fnNode \<Rightarrow> string" where
  "GetMode mode n =
     (if kadDHT n then
        (case mode of ModeAuto \<Rightarrow> ''Auto'' | ModeClient \<Rightarrow> ''Client'' | ModeServer \<Rightarrow> ''Server''
         | ModeAutoServer \<Rightarrow> ''AutoServer'' | ModeOther \<Rightarrow> ''Unknown'')
      else ''Not initialized'')"

definition PutValue :: "dhtNet \<Rightarrow> fnNode \<Rightarrow> string \<Rightarrow> bytes \<Rightarrow> puts \<Rightarrow> dhtErr option \<times> puts" where
  "PutValue D n key val ps =
     (if kadDHT n then (dhtPut D ps key val, ps @ [(key, val)]) else (Some DHTNotInitialized, ps))"

definition GetValue :: "dhtNet \<Rightarrow> fnNode \<Rightarrow> puts \<Rightarrow> string \<Rightarrow> dhtErr + bytes" where
  "GetValue D n ps key = (if kadDHT n then dhtGet D ps key else Inl DHTNotInitialized)"

section \<open>Publishing and resolving\<close>

definition PublishRecord ::
    "recordLib \<Rightarrow> dhtNet \<Rightarrow> FNRecord \<Rightarrow> fnNode \<Rightarrow> puts \<Rightarrow> (pubErr + unit) \<times> fnNode \<times> puts" where
  "PublishRecord L D r n ps =
     (case recordDHTKey L r of
        Inl e \<Rightarrow> (Inl (PubName e), n, ps)
      | Inr key \<Rightarrow>
          (case recEncode L r of
             None \<Rightarrow> (Inl PubMarshal, n, ps)
           | Some val \<Rightarrow>
               (case PutValue D n key val ps of
                  (Some e, ps') \<Rightarrow> (Inl (PubDHT e), n, ps')
                | (None, ps') \<Rightarrow> (Inr (), n\<lparr>owned := AList.update key r (owned n)\<rparr>, ps'))))"

definition ResolveRecord :: "recordLib \<Rightarrow> dhtNet \<Rightarrow> fnNode \<Rightarrow> puts \<Rightarrow> string \<Rightarrow> pubErr + FNRecord" where
  "ResolveRecord L D n ps key =
     (if \<not> kadDHT n then Inl (PubDHT DHTNotInitialized)
      else case dhtGet D ps key of
        Inl e \<Rightarrow> Inl (PubDHT e)
      | Inr v \<Rightarrow> (case recDecode L v of None \<Rightarrow> Inl PubJson | Some r \<Rightarrow> Inr r))"

section \<open>Republishing\<close>

definition pastEOL :: "int \<Rightarrow> FNRecord \<Rightarrow> bool" where
  "pastEOL now r \<longleftrightarrow> EOL r \<noteq> 0 \<and> now > sint (EOL r)"

text \<open>The first loop, under the lock: records past their signed EOL are deleted, the rest copied.\<close>

fun pruneOwned :: "int \<Rightarrow> (string \<times> FNRecord) list \<Rightarrow> (string \<times> FNRecord) list" where
  "pruneOwned now [] = []"
| "pruneOwned now ((key, r) # rest) =
     (if pastEOL now r then pruneOwned now rest else (key, r) # pruneOwned now rest)"

text \<open>The second loop, over the copy.\<close>

fun republishAll :: "recordLib \<Rightarrow> dhtNet \<Rightarrow> fnNode \<Rightarrow> (string \<times> FNRecord) list \<Rightarrow> puts \<Rightarrow> puts" where
  "republishAll L D n [] ps = ps"
| "republishAll L D n ((key, r) # rest) ps =
     (case recEncode L r of
        None \<Rightarrow> republishAll L D n rest ps
      | Some val \<Rightarrow> republishAll L D n rest (snd (PutValue D n key val ps)))"

text \<open>\<open>order\<close> is the iteration order of the new map \<open>live\<close>.\<close>

definition republishOwned ::
    "recordLib \<Rightarrow> dhtNet \<Rightarrow> int \<Rightarrow> ((string \<times> FNRecord) list \<Rightarrow> (string \<times> FNRecord) list)
      \<Rightarrow> fnNode \<Rightarrow> puts \<Rightarrow> fnNode \<times> puts" where
  "republishOwned L D now order n ps =
     (let live = pruneOwned now (owned n);
          n' = n\<lparr>owned := live\<rparr>
      in (n', republishAll L D n' (order live) ps))"

section \<open>The bootstrap list\<close>

record addrInfo =
  infoID :: string
  infoAddrs :: "string list"

text \<open>\<open>parse\<close> is the multiaddr library: the peer and transport addresses of one entry, or an error.\<close>

fun bootstrapLoop ::
    "(string \<Rightarrow> addrInfo option) \<Rightarrow> string list \<Rightarrow> addrInfo list \<Rightarrow> (string \<rightharpoonup> nat) \<Rightarrow> addrInfo list" where
  "bootstrapLoop parse [] infos index = infos"
| "bootstrapLoop parse (s # rest) infos index =
     (case parse s of
        None \<Rightarrow> bootstrapLoop parse rest infos index
      | Some info \<Rightarrow>
          (case index (infoID info) of
             Some at \<Rightarrow>
               bootstrapLoop parse rest
                 (infos[at := (infos ! at)\<lparr>infoAddrs := infoAddrs (infos ! at) @ infoAddrs info\<rparr>]) index
           | None \<Rightarrow>
               bootstrapLoop parse rest (infos @ [info]) (index(infoID info \<mapsto> length infos))))"

definition BootstrapPeerInfos :: "(string \<Rightarrow> addrInfo option) \<Rightarrow> string list \<Rightarrow> addrInfo list" where
  "BootstrapPeerInfos parse addrs = bootstrapLoop parse addrs [] Map.empty"

definition countAddrs :: "addrInfo list \<Rightarrow> nat" where
  "countAddrs infos = foldl (\<lambda>total info. total + length (infoAddrs info)) 0 infos"

section \<open>The identity key file\<close>

datatype keyPlace = LegacyKey | HomeKey

record keyDisk =
  legacyFile :: "bytes option"
  homeFile :: "bytes option"
  homeDir :: bool
  canMkdir :: bool

definition nodeKeyPath :: "keyDisk \<Rightarrow> keyPlace" where
  "nodeKeyPath d =
     (if legacyFile d \<noteq> None then LegacyKey
      else if \<not> homeDir d then LegacyKey
      else if \<not> canMkdir d then LegacyKey
      else HomeKey)"

definition keyFileAt :: "keyPlace \<Rightarrow> keyDisk \<Rightarrow> bytes option" where
  "keyFileAt p d = (case p of LegacyKey \<Rightarrow> legacyFile d | HomeKey \<Rightarrow> homeFile d)"

definition writeKeyAt :: "keyPlace \<Rightarrow> bytes \<Rightarrow> keyDisk \<Rightarrow> keyDisk" where
  "writeKeyAt p b d = (case p of LegacyKey \<Rightarrow> d\<lparr>legacyFile := Some b\<rparr> | HomeKey \<Rightarrow> d\<lparr>homeFile := Some b\<rparr>)"

text \<open>\<open>unmarshal\<close>, \<open>generate\<close> and \<open>marshal\<close> are the key library, \<open>readable\<close> and \<open>written\<close> whether the
  file operation succeeds; a failed write leaves the bytes \<open>partial\<close> behind, if any.\<close>

record 'k keyLib =
  unmarshalKey :: "bytes \<Rightarrow> 'k option"
  marshalKey :: "'k \<Rightarrow> bytes option"
  generateKey :: "'k option"

datatype keyErr = KeyRead | KeyDecode | KeyGenerate | KeyMarshal | KeyWrite

definition loadOrGenerateKey ::
    "'k keyLib \<Rightarrow> bool \<Rightarrow> bool \<Rightarrow> bytes option \<Rightarrow> keyDisk \<Rightarrow> (keyErr + 'k) \<times> keyDisk" where
  "loadOrGenerateKey K readable written partial d =
     (let p = nodeKeyPath d in
      case keyFileAt p d of
        Some b \<Rightarrow>
          (if \<not> readable then Inl KeyRead
           else case unmarshalKey K b of None \<Rightarrow> Inl KeyDecode | Some k \<Rightarrow> Inr k, d)
      | None \<Rightarrow>
          (case generateKey K of
             None \<Rightarrow> (Inl KeyGenerate, d)
           | Some k \<Rightarrow>
               (case marshalKey K k of
                  None \<Rightarrow> (Inl KeyMarshal, d)
                | Some b \<Rightarrow>
                    if written then (Inr k, writeKeyAt p b d)
                    else (Inl KeyWrite, case partial of None \<Rightarrow> d | Some q \<Rightarrow> writeKeyAt p q d))))"

section \<open>Facts\<close>

lemma pruneOwned_filter: "pruneOwned now xs = filter (\<lambda>(_, r). \<not> pastEOL now r) xs"
  by (induction now xs rule: pruneOwned.induct) auto

lemma kadDHT_owned [simp]: "kadDHT (n\<lparr>owned := xs\<rparr>) = kadDHT n"
  by simp

lemma republishAll_puts:
  "republishAll L D n xs ps =
     (if kadDHT n then ps @ List.map_filter (\<lambda>(k, r). map_option (Pair k) (recEncode L r)) xs else ps)"
  by (induction L D n xs ps rule: republishAll.induct)
    (auto simp: PutValue_def List.map_filter_simps split: option.splits)

text \<open>What a published record leads to: the key is owned, and the record's bytes were put under it.\<close>

lemma PublishRecord_Inr:
  assumes "PublishRecord L D r n ps = (Inr (), n', ps')"
  obtains key val where "recordDHTKey L r = Inr key" "recEncode L r = Some val" "kadDHT n"
    "dhtPut D ps key val = None" "ps' = ps @ [(key, val)]" "kadDHT n' = kadDHT n"
    "map_of (owned n') = (map_of (owned n))(key \<mapsto> r)"
  using assms
  by (auto simp: PublishRecord_def PutValue_def update_conv' split: sum.splits option.splits prod.splits if_splits)

lemma PublishRecord_Inl:
  assumes "PublishRecord L D r n ps = (Inl e, n', ps')"
  shows "n' = n"
  using assms
  by (auto simp: PublishRecord_def split: sum.splits option.splits prod.splits)

text \<open>The peers named by the entries that parse, in order.\<close>

definition parsedInfos :: "(string \<Rightarrow> addrInfo option) \<Rightarrow> string list \<Rightarrow> addrInfo list" where
  "parsedInfos parse addrs = List.map_filter parse addrs"

definition addrsOf :: "string \<Rightarrow> addrInfo list \<Rightarrow> string list" where
  "addrsOf p infos = concat (map infoAddrs (filter (\<lambda>i. infoID i = p) infos))"

definition firstSeen :: "'a list \<Rightarrow> 'a list" where
  "firstSeen xs = rev (remdups (rev xs))"

lemma firstSeen_simps [simp]:
  "firstSeen [] = []"
  "firstSeen (xs @ [x]) = (if x \<in> set xs then firstSeen xs else firstSeen xs @ [x])"
  "set (firstSeen xs) = set xs" "distinct (firstSeen xs)"
  by (simp_all add: firstSeen_def)

text \<open>The loop invariant: \<open>infos\<close> is the merge of the entries \<open>seen\<close>, and \<open>index\<close> its reverse map.\<close>

definition merged :: "addrInfo list \<Rightarrow> addrInfo list \<Rightarrow> (string \<rightharpoonup> nat) \<Rightarrow> bool" where
  "merged seen infos index \<longleftrightarrow>
     map infoID infos = firstSeen (map infoID seen)
     \<and> (\<forall>i < length infos. infoAddrs (infos ! i) = addrsOf (infoID (infos ! i)) seen)
     \<and> (\<forall>p i. index p = Some i \<longleftrightarrow> i < length infos \<and> infoID (infos ! i) = p)"

lemma addrsOf_snoc [simp]:
  "addrsOf p (seen @ [info]) = addrsOf p seen @ (if infoID info = p then infoAddrs info else [])"
  by (simp add: addrsOf_def)

lemma addrsOf_absent: "p \<notin> infoID ` set seen \<Longrightarrow> addrsOf p seen = []"
  by (auto simp: addrsOf_def filter_empty_conv)

lemma merged_ids:
  assumes "merged seen infos index"
  shows "distinct (map infoID infos)" "infoID ` set infos = infoID ` set seen"
  using assms unfolding merged_def by (simp, metis firstSeen_simps(3) list.set_map)

lemma merged_new:
  assumes m: "merged seen infos index" and new: "index (infoID info) = None"
  shows "merged (seen @ [info]) (infos @ [info]) (index(infoID info \<mapsto> length infos))"
proof -
  have none: "\<not> (i < length infos \<and> infoID (infos ! i) = infoID info)" for i
    using m new unfolding merged_def by (metis option.distinct(1))
  then have n: "infoID info \<notin> infoID ` set infos"
    by (metis imageE in_set_conv_nth)
  with m have "infoID info \<notin> infoID ` set seen" by (simp add: merged_ids(2) [OF m])
  with m have ids: "map infoID (infos @ [info]) = firstSeen (map infoID (seen @ [info]))"
    by (simp add: merged_def)
  have other: "infoID (infos ! i) \<noteq> infoID info" if "i < length infos" for i
    using n that by (metis imageI nth_mem)
  show ?thesis
    unfolding merged_def
  proof (intro conjI allI impI)
    fix i assume i: "i < length (infos @ [info])"
    show "infoAddrs ((infos @ [info]) ! i) = addrsOf (infoID ((infos @ [info]) ! i)) (seen @ [info])"
    proof (cases "i = length infos")
      case True
      with \<open>infoID info \<notin> infoID ` set seen\<close> show ?thesis by (simp add: addrsOf_absent)
    next
      case False
      with i have "i < length infos" by simp
      with m other [of i] show ?thesis by (auto simp: nth_append merged_def)
    qed
  next
    fix p i
    show "((index(infoID info \<mapsto> length infos)) p = Some i)
        = (i < length (infos @ [info]) \<and> infoID ((infos @ [info]) ! i) = p)"
    proof (cases "i < length infos")
      case True
      with m other [OF True] show ?thesis by (auto simp: nth_append merged_def)
    next
      case False
      with m show ?thesis by (auto simp: nth_append merged_def)
    qed
  qed (rule ids)
qed

lemma merged_again:
  assumes m: "merged seen infos index" and old: "index (infoID info) = Some at"
  shows "merged (seen @ [info])
    (infos[at := (infos ! at)\<lparr>infoAddrs := infoAddrs (infos ! at) @ infoAddrs info\<rparr>]) index"
proof -
  let ?new = "(infos ! at)\<lparr>infoAddrs := infoAddrs (infos ! at) @ infoAddrs info\<rparr>"
  from m old have at: "at < length infos" "infoID (infos ! at) = infoID info"
    by (auto simp: merged_def)
  have id: "infoID (infos[at := ?new] ! i) = infoID (infos ! i)" if "i < length infos" for i
    using that by (cases "i = at") simp_all
  have ids: "map infoID (infos[at := ?new]) = map infoID infos"
    by (rule nth_equalityI) (simp_all add: id)
  have "infoID info \<in> infoID ` set infos" using at by (metis imageI nth_mem)
  then have seen: "infoID info \<in> infoID ` set seen" by (simp add: merged_ids(2) [OF m])
  have uniq: "i = at" if "i < length infos" "infoID (infos ! i) = infoID info" for i
    using merged_ids(1) [OF m] at that by (metis length_map nth_eq_iff_index_eq nth_map)
  show ?thesis
    unfolding merged_def
  proof (intro conjI allI impI)
    show "map infoID (infos[at := ?new]) = firstSeen (map infoID (seen @ [info]))"
      using m seen unfolding ids merged_def by auto
    fix i assume i: "i < length (infos[at := ?new])"
    then show "infoAddrs (infos[at := ?new] ! i) = addrsOf (infoID (infos[at := ?new] ! i)) (seen @ [info])"
    proof (cases "i = at")
      case True
      with m at show ?thesis by (simp add: merged_def)
    next
      case False
      with i uniq [of i] have "infoID (infos ! i) \<noteq> infoID info" by auto
      with m i False show ?thesis by (simp add: merged_def)
    qed
  next
    fix p i
    show "(index p = Some i) = (i < length (infos[at := ?new]) \<and> infoID (infos[at := ?new] ! i) = p)"
      using m id unfolding merged_def by auto
  qed
qed

lemma bootstrapLoop_merged:
  "merged seen infos index \<Longrightarrow>
     \<exists>index'. merged (seen @ parsedInfos parse addrs) (bootstrapLoop parse addrs infos index) index'"
proof (induction addrs arbitrary: seen infos index)
  case Nil
  then show ?case by (auto simp: parsedInfos_def List.map_filter_simps)
next
  case (Cons s rest)
  show ?case
  proof (cases "parse s")
    case None
    with Cons show ?thesis by (simp add: parsedInfos_def List.map_filter_simps)
  next
    case (Some info)
    then have p: "seen @ parsedInfos parse (s # rest) = (seen @ [info]) @ parsedInfos parse rest"
      by (simp add: parsedInfos_def List.map_filter_simps)
    show ?thesis
    proof (cases "index (infoID info)")
      case None
      from Cons.IH [OF merged_new [OF Cons.prems None]] show ?thesis
        unfolding p by (simp add: Some None del: fun_upd_apply append_assoc)
    next
      case (Some at)
      from Cons.IH [OF merged_again [OF Cons.prems Some]] show ?thesis
        unfolding p by (simp add: \<open>parse s = Some info\<close> Some del: append_assoc)
    qed
  qed
qed

lemma countAddrs_sum: "countAddrs infos = sum_list (map (length \<circ> infoAddrs) infos)"
proof -
  have "foldl (\<lambda>t i. t + length (infoAddrs i)) k infos = k + sum_list (map (length \<circ> infoAddrs) infos)" for k
    by (induction infos arbitrary: k) auto
  then show ?thesis by (simp add: countAddrs_def)
qed

section \<open>Properties\<close>

text \<open>The bootstrap list is merged by peer. There is one entry per peer, in the order in which
  the peers are first named, and it carries every address the peer was listed under, in order;
  an entry that does not parse costs only that address.\<close>

theorem bootstrap_merge:
  "BootstrapPeerInfos parse addrs =
     map (\<lambda>p. \<lparr>infoID = p, infoAddrs = addrsOf p (parsedInfos parse addrs)\<rparr>)
       (firstSeen (map infoID (parsedInfos parse addrs)))"
proof -
  have "merged [] [] Map.empty" by (simp add: merged_def)
  from bootstrapLoop_merged [OF this, of parse addrs] obtain index where
    m: "merged (parsedInfos parse addrs) (BootstrapPeerInfos parse addrs) index"
    by (auto simp: BootstrapPeerInfos_def)
  let ?is = "BootstrapPeerInfos parse addrs"
  have ids: "map infoID ?is = firstSeen (map infoID (parsedInfos parse addrs))"
    using m by (simp add: merged_def)
  have "?is = map (\<lambda>p. \<lparr>infoID = p, infoAddrs = addrsOf p (parsedInfos parse addrs)\<rparr>) (map infoID ?is)"
  proof (rule nth_equalityI)
    fix i assume "i < length ?is"
    moreover from this m have "infoAddrs (?is ! i) = addrsOf (infoID (?is ! i)) (parsedInfos parse addrs)"
      by (simp add: merged_def)
    ultimately show "?is ! i = map (\<lambda>p. \<lparr>infoID = p, infoAddrs = addrsOf p (parsedInfos parse addrs)\<rparr>)
        (map infoID ?is) ! i"
      by (cases "?is ! i") simp
  qed simp
  then show ?thesis unfolding ids .
qed

text \<open>A republishing pass forgets exactly the owned records whose signed expiry has passed and
  puts every other one, unchanged, under its own key, once each, whatever the iteration order of
  the map; a record that does not marshal or whose put fails does not stop the others.\<close>

theorem republish_exact:
  assumes ord: "\<And>xs. mset (order xs) = mset xs" and up: "kadDHT n"
    and rep: "republishOwned L D now order n ps = (n', ps')"
  shows "owned n' = filter (\<lambda>(_, r). \<not> (EOL r \<noteq> 0 \<and> now > sint (EOL r))) (owned n)
     \<and> (\<exists>new. ps' = ps @ new
          \<and> mset new = mset (List.map_filter (\<lambda>(k, r). map_option (Pair k) (recEncode L r)) (owned n')))"
proof -
  let ?live = "pruneOwned now (owned n)"
  let ?f = "\<lambda>(k, r). map_option (Pair k) (recEncode L r)"
  from rep have n': "n' = n\<lparr>owned := ?live\<rparr>" and ps': "ps' = republishAll L D n' (order ?live) ps"
    by (auto simp: republishOwned_def Let_def)
  have "ps' = ps @ List.map_filter ?f (order ?live)"
    using up n' ps' by (simp add: republishAll_puts)
  moreover have "mset (List.map_filter ?f (order ?live)) = mset (List.map_filter ?f ?live)"
    unfolding List.map_filter_def mset_map mset_filter ord ..
  ultimately show ?thesis
    using n' by (auto simp: pruneOwned_filter pastEOL_def)
qed

definition demoPutNet :: dhtNet where
  "demoPutNet = \<lparr>dhtPut = (\<lambda>ps k v. None),
     dhtGet = (\<lambda>ps k. case map_of (rev ps) k of None \<Rightarrow> Inl DHTNotFound | Some v \<Rightarrow> Inr v)\<rparr>"

definition demoNode :: fnNode where
  "demoNode = \<lparr>kadDHT = True, owned = [(''/fn/a'', demoRec 1), (''/fn/b'', (demoRec 2)\<lparr>EOL := 5\<rparr>)]\<rparr>"

theorem republish_exact_witness:
  "owned (fst (republishOwned demoLib demoPutNet 2000 rev demoNode [])) = [(''/fn/a'', demoRec 1)]"
proof -
  obtain n' ps' where r: "republishOwned demoLib demoPutNet 2000 rev demoNode [] = (n', ps')"
    by (cases "republishOwned demoLib demoPutNet 2000 rev demoNode []")
  have "sint (EOL (demoRec 1)) = 605800" by (rule demo_EOL)
  moreover have "owned n' = filter (\<lambda>(_, r). \<not> (EOL r \<noteq> 0 \<and> 2000 > sint (EOL r))) (owned demoNode)"
    using republish_exact [OF _ _ r] by (simp add: demoNode_def)
  ultimately show ?thesis using r by (simp add: demoNode_def)
qed

text \<open>The node's identity key survives restarts. Whatever place the key file is looked for in,
  a start that succeeded leaves a disk on which the next start returns the same key and changes
  nothing, and a key file that exists is never replaced, even when it cannot be read.\<close>

theorem identity_key_stable:
  assumes "\<And>k b. marshalKey K k = Some b \<Longrightarrow> unmarshalKey K b = Some k"
    and "loadOrGenerateKey K r w partial d = (Inr k, d')"
  shows "loadOrGenerateKey K True w' partial' d' = (Inr k, d')
     \<and> (keyFileAt (nodeKeyPath d) d \<noteq> None \<longrightarrow> d' = d)"
proof (cases "keyFileAt (nodeKeyPath d) d")
  case (Some b)
  with assms(2) have "d' = d" "unmarshalKey K b = Some k"
    by (auto simp: loadOrGenerateKey_def split: if_splits option.splits)
  with Some show ?thesis by (simp add: loadOrGenerateKey_def)
next
  case None
  with assms(2) obtain b where "marshalKey K k = Some b" and d': "d' = writeKeyAt (nodeKeyPath d) b d"
    by (auto simp: loadOrGenerateKey_def Let_def split: if_splits option.splits)
  then have "unmarshalKey K b = Some k" using assms(1) by blast
  moreover have "nodeKeyPath d' = nodeKeyPath d" "keyFileAt (nodeKeyPath d) d' = Some b"
    using None by (auto simp: d' nodeKeyPath_def keyFileAt_def writeKeyAt_def split: keyPlace.splits)
  ultimately show ?thesis using None by (simp add: loadOrGenerateKey_def)
qed

definition demoKeys :: "bytes keyLib" where
  "demoKeys = \<lparr>unmarshalKey = Some, marshalKey = Some, generateKey = Some [7]\<rparr>"

theorem identity_key_stable_witness:
  "\<exists>d'. loadOrGenerateKey demoKeys True True None \<lparr>legacyFile = None, homeFile = None, homeDir = True, canMkdir = True\<rparr>
       = (Inr [7], d')
     \<and> loadOrGenerateKey demoKeys True False None d' = (Inr [7], d')"
proof -
  let ?d = "\<lparr>legacyFile = None, homeFile = None, homeDir = True, canMkdir = True\<rparr>"
  have g: "loadOrGenerateKey demoKeys True True None ?d = (Inr [7], ?d\<lparr>homeFile := Some [7]\<rparr>)"
    by (simp add: loadOrGenerateKey_def demoKeys_def nodeKeyPath_def keyFileAt_def writeKeyAt_def)
  have "marshalKey demoKeys k = Some b \<Longrightarrow> unmarshalKey demoKeys b = Some k" for k b
    by (simp add: demoKeys_def)
  from identity_key_stable [OF this g] g show ?thesis by blast
qed

end
