(* ===== verification/Registry.thy ===== *)
theory Registry
  imports Electrum Names "HOL-Library.AList"
begin

text \<open>
  The on-chain name registry: \<open>internal/bch/registry_bch.go\<close> and the discovery marker of
  \<open>marker.go\<close>. A lookup reads one view \<open>V\<close> of the chain through the Electrum client; \<open>ok\<close> is
  libp2p's check that a byte string unmarshals as a public key. A panic in the transaction
  parser is the error \<open>RegPanic\<close>. The owner cache is an association list in the iteration order
  of the Go map; the clock readings are arguments, in nanoseconds.
\<close>

section \<open>Markers and metadata\<close>

definition fnClaimTag :: string where "fnClaimTag = ''FN01''"
definition fnRebindTag :: string where "fnRebindTag = ''FN02''"

definition markerPubKeyHash :: "'k crypto \<Rightarrow> string \<Rightarrow> bytes" where
  "markerPubKeyHash C name = hash160 C (bytes_of_string (''FN:'' @ name))"

definition markerScript :: "'k crypto \<Rightarrow> string \<Rightarrow> bytes" where
  "markerScript C name = p2pkhScript (markerPubKeyHash C name)"

datatype registryErr =
    ErrRegistryNotFound | ErrHistoryTruncated | ChainErr electrumErr | TxErr txErr
  | RegName nameErr | RegPanic

text \<open>\<open>parseFNMetadata\<close>: the first output whose pushes are a known tag, the label and a parsable
  public key.\<close>

fun fnMetadataOuts :: "(bytes \<Rightarrow> bool) \<Rightarrow> string \<Rightarrow> parsedOutput list \<Rightarrow> (string \<times> bytes) option" where
  "fnMetadataOuts ok label [] = None"
| "fnMetadataOuts ok label (o1 # os) =
     (let pushes = parseOpReturn (pScript o1) in
      if length pushes < 3 then fnMetadataOuts ok label os
      else let t = string_of_bytes (pushes ! 0) in
        if t \<noteq> fnClaimTag \<and> t \<noteq> fnRebindTag then fnMetadataOuts ok label os
        else if string_of_bytes (pushes ! 1) \<noteq> label then fnMetadataOuts ok label os
        else if \<not> ok (pushes ! 2) then fnMetadataOuts ok label os
        else Some (t, pushes ! 2))"

definition parseFNMetadata :: "(bytes \<Rightarrow> bool) \<Rightarrow> parsedTx \<Rightarrow> string \<Rightarrow> (string \<times> bytes) option" where
  "parseFNMetadata ok tx label = fnMetadataOuts ok label (pOutputs tx)"

definition genesisCategory :: "parsedTx \<Rightarrow> bytes option" where
  "genesisCategory tx = map_option pPrevTxID (find (\<lambda>inp. pPrevIndex inp = 0) (pInputs tx))"

section \<open>Histories\<close>

definition maxHistoryScan :: nat where "maxHistoryScan = 512"
definition maxCustodyHops :: nat where "maxCustodyHops = 64"

definition oldestHistory :: "historyItem list \<Rightarrow> historyItem list \<times> bool" where
  "oldestHistory history =
     (if length history \<le> maxHistoryScan then (history, False) else (take maxHistoryScan history, True))"

definition newestHistory :: "historyItem list \<Rightarrow> historyItem list \<times> bool" where
  "newestHistory history =
     (let truncated = length history > maxHistoryScan;
          h = (if truncated then drop (length history - maxHistoryScan) history else history)
      in (rev h, truncated))"

definition confirmed :: "int \<Rightarrow> int \<Rightarrow> int \<Rightarrow> bool" where
  "confirmed height tip minConf = (if height \<le> 0 then False else int64 (tip - height + 1) \<ge> minConf)"

definition fetchTx :: "chainView \<Rightarrow> string \<Rightarrow> registryErr + (parsedTx \<times> bytes) option" where
  "fetchTx V txid =
     (case GetRawTransaction V txid of
        Inl e \<Rightarrow> Inl (ChainErr e)
      | Inr raw \<Rightarrow>
          (case parseTx raw of
             Inl GoPanic \<Rightarrow> Inl RegPanic
           | Inl _ \<Rightarrow> Inr None
           | Inr tx \<Rightarrow> Inr (Some (tx, raw))))"

section \<open>The winning claim\<close>

record claim =
  claimTx :: parsedTx
  claimTxID :: bytes
  claimHeight :: int

definition claimBefore :: "claim \<Rightarrow> claim \<Rightarrow> bool" where
  "claimBefore x y \<longleftrightarrow>
     claimHeight x < claimHeight y \<or> claimHeight x = claimHeight y \<and> claimTxID x < claimTxID y"

definition betterClaim :: "claim \<Rightarrow> claim option \<Rightarrow> claim option" where
  "betterClaim x best =
     (case best of None \<Rightarrow> Some x | Some y \<Rightarrow> if claimBefore x y then Some x else Some y)"

definition claimOf :: "historyItem \<Rightarrow> parsedTx \<Rightarrow> claim" where
  "claimOf h tx = \<lparr>claimTx = tx, claimTxID = reverseBytesHex (hTxHash h), claimHeight = hHeight h\<rparr>"

fun scanClaims ::
    "(bytes \<Rightarrow> bool) \<Rightarrow> chainView \<Rightarrow> string \<Rightarrow> int \<Rightarrow> int \<Rightarrow> historyItem list \<Rightarrow> claim option
      \<Rightarrow> registryErr + claim option" where
  "scanClaims ok V label tip minConf [] best = Inr best"
| "scanClaims ok V label tip minConf (h # hs) best =
     (if \<not> confirmed (hHeight h) tip minConf then scanClaims ok V label tip minConf hs best
      else case fetchTx V (hTxHash h) of
        Inl e \<Rightarrow> Inl e
      | Inr None \<Rightarrow> scanClaims ok V label tip minConf hs best
      | Inr (Some (tx, _)) \<Rightarrow>
          (case parseFNMetadata ok tx label of
             None \<Rightarrow> scanClaims ok V label tip minConf hs best
           | Some (tag, _) \<Rightarrow>
               if tag \<noteq> fnClaimTag then scanClaims ok V label tip minConf hs best
               else scanClaims ok V label tip minConf hs (betterClaim (claimOf h tx) best)))"

definition winningClaim ::
    "'k crypto \<Rightarrow> (bytes \<Rightarrow> bool) \<Rightarrow> chainView \<Rightarrow> int \<Rightarrow> string \<Rightarrow> registryErr + (parsedTx \<times> bytes)" where
  "winningClaim C ok V minConf label =
     (case BlockHeight V of Inl e \<Rightarrow> Inl (ChainErr e) | Inr tip \<Rightarrow>
     (case GetHistory V (scriptHash C (markerScript C label)) of Inl e \<Rightarrow> Inl (ChainErr e) | Inr history \<Rightarrow>
       (let (scan, truncated) = oldestHistory history in
        bindR (scanClaims ok V label tip minConf scan None) (\<lambda>best.
          case best of
            None \<Rightarrow> if truncated then Inl ErrHistoryTruncated else Inl ErrRegistryNotFound
          | Some cl \<Rightarrow>
              (case genesisCategory (claimTx cl) of
                 None \<Rightarrow> Inl ErrRegistryNotFound
               | Some category \<Rightarrow> Inr (claimTx cl, category))))))"

definition CategoryFor ::
    "'k crypto \<Rightarrow> (bytes \<Rightarrow> bool) \<Rightarrow> chainView \<Rightarrow> int \<Rightarrow> string \<Rightarrow> registryErr + bytes" where
  "CategoryFor C ok V minConf label = bindR (winningClaim C ok V minConf label) (\<lambda>(tx, category). Inr category)"

section \<open>The custody walk\<close>

text \<open>The first output that carries the category's token.\<close>

fun findToken :: "bytes \<Rightarrow> nat \<Rightarrow> parsedOutput list \<Rightarrow> (nat \<times> tokenInfo \<times> bytes) option" where
  "findToken category i [] = None"
| "findToken category i (o1 # os) =
     (case pToken o1 of
        Some t \<Rightarrow> if CategoryID t = category then Some (i, t, pScript o1) else findToken category (Suc i) os
      | None \<Rightarrow> findToken category (Suc i) os)"

definition spends :: "parsedTx \<Rightarrow> bytes \<Rightarrow> 32 word \<Rightarrow> bool" where
  "spends tx txid vout \<longleftrightarrow> (\<exists>inp \<in> set (pInputs tx). pPrevIndex inp = vout \<and> pPrevTxID inp = txid)"

fun scanSpender ::
    "chainView \<Rightarrow> bytes \<Rightarrow> 32 word \<Rightarrow> historyItem list \<Rightarrow> registryErr + (parsedTx \<times> bytes) option" where
  "scanSpender V txid vout [] = Inr None"
| "scanSpender V txid vout (h # hs) =
     (case fetchTx V (hTxHash h) of
        Inl e \<Rightarrow> Inl e
      | Inr None \<Rightarrow> scanSpender V txid vout hs
      | Inr (Some (tx, raw)) \<Rightarrow>
          if spends tx txid vout then Inr (Some (tx, raw)) else scanSpender V txid vout hs)"

definition findSpender ::
    "'k crypto \<Rightarrow> chainView \<Rightarrow> bytes \<Rightarrow> bytes \<Rightarrow> 32 word \<Rightarrow> registryErr + (parsedTx \<times> bytes) option" where
  "findSpender C V script txid vout =
     (case GetHistory V (scriptHash C script) of
        Inl e \<Rightarrow> Inl (ChainErr e)
      | Inr history \<Rightarrow>
          (let (scan, truncated) = newestHistory history in
           bindR (scanSpender V txid vout scan) (\<lambda>r.
             case r of
               Some p \<Rightarrow> Inr (Some p)
             | None \<Rightarrow> if truncated then Inl ErrHistoryTruncated else Inr None)))"

record custody =
  curTxID :: bytes
  curVout :: nat
  curCommitment :: bytes
  curScript :: bytes

fun custodyWalk :: "'k crypto \<Rightarrow> chainView \<Rightarrow> bytes \<Rightarrow> nat \<Rightarrow> custody \<Rightarrow> registryErr + bytes" where
  "custodyWalk C V category 0 s = Inr (curCommitment s)"
| "custodyWalk C V category (Suc hops) s =
     (case findSpender C V (curScript s) (curTxID s) (of_nat (curVout s)) of
        Inl e \<Rightarrow> Inl e
      | Inr None \<Rightarrow> Inr (curCommitment s)
      | Inr (Some (spendTx, spendRaw)) \<Rightarrow>
          (case findToken category 0 (pOutputs spendTx) of
             None \<Rightarrow> Inr (curCommitment s)
           | Some (i, t, script) \<Rightarrow>
               custodyWalk C V category hops
                 \<lparr>curTxID = txID C spendRaw, curVout = i, curCommitment = Commitment t, curScript = script\<rparr>))"

definition currentCommitment ::
    "'k crypto \<Rightarrow> chainView \<Rightarrow> bytes \<Rightarrow> bytes \<Rightarrow> registryErr + bytes" where
  "currentCommitment C V claimID category =
     (case GetRawTransaction V (hexEncode (reverseBytes claimID)) of
        Inl e \<Rightarrow> Inl (ChainErr e)
      | Inr raw \<Rightarrow>
          (case parseTx raw of
             Inl GoPanic \<Rightarrow> Inl RegPanic
           | Inl e \<Rightarrow> Inl (TxErr e)
           | Inr tx \<Rightarrow>
               (case findToken category 0 (pOutputs tx) of
                  None \<Rightarrow> Inl ErrRegistryNotFound
                | Some (mintVout, t, script) \<Rightarrow>
                    custodyWalk C V category maxCustodyHops
                      \<lparr>curTxID = claimID, curVout = mintVout, curCommitment = Commitment t, curScript = script\<rparr>)))"

section \<open>Resolution\<close>

type_synonym bindings = "string \<rightharpoonup> bytes"

fun scanBindings ::
    "'k crypto \<Rightarrow> (bytes \<Rightarrow> bool) \<Rightarrow> chainView \<Rightarrow> string \<Rightarrow> int \<Rightarrow> int \<Rightarrow> historyItem list
      \<Rightarrow> bindings \<Rightarrow> claim option \<Rightarrow> registryErr + (bindings \<times> claim option)" where
  "scanBindings C ok V label tip minConf [] b best = Inr (b, best)"
| "scanBindings C ok V label tip minConf (h # hs) b best =
     (if \<not> confirmed (hHeight h) tip minConf then scanBindings C ok V label tip minConf hs b best
      else case fetchTx V (hTxHash h) of
        Inl e \<Rightarrow> Inl e
      | Inr None \<Rightarrow> scanBindings C ok V label tip minConf hs b best
      | Inr (Some (tx, _)) \<Rightarrow>
          (case parseFNMetadata ok tx label of
             None \<Rightarrow> scanBindings C ok V label tip minConf hs b best
           | Some (tag, pubKey) \<Rightarrow>
               (let b' = b(hexEncode (hash160 C pubKey) \<mapsto> pubKey) in
                scanBindings C ok V label tip minConf hs b'
                  (if tag = fnClaimTag then betterClaim (claimOf h tx) best else best))))"

text \<open>The part of \<open>resolve\<close> after its loop: from the bindings and the winning claim to the owner.\<close>

definition ownerFrom ::
    "'k crypto \<Rightarrow> chainView \<Rightarrow> bool \<Rightarrow> bindings \<Rightarrow> claim option \<Rightarrow> registryErr + bytes" where
  "ownerFrom C V truncated b best =
     (case best of
        None \<Rightarrow> if truncated then Inl ErrHistoryTruncated else Inl ErrRegistryNotFound
      | Some cl \<Rightarrow>
          (case genesisCategory (claimTx cl) of
             None \<Rightarrow> Inl ErrRegistryNotFound
           | Some category \<Rightarrow>
               bindR (currentCommitment C V (claimTxID cl) category) (\<lambda>commitment.
                 case b (hexEncode commitment) of
                   Some pub \<Rightarrow> Inr pub
                 | None \<Rightarrow> if truncated then Inl ErrHistoryTruncated else Inl ErrRegistryNotFound)))"

definition resolve ::
    "'k crypto \<Rightarrow> (bytes \<Rightarrow> bool) \<Rightarrow> chainView \<Rightarrow> int \<Rightarrow> string \<Rightarrow> registryErr + bytes" where
  "resolve C ok V minConf label =
     (case BlockHeight V of Inl e \<Rightarrow> Inl (ChainErr e) | Inr tip \<Rightarrow>
     (case GetHistory V (scriptHash C (markerScript C label)) of Inl e \<Rightarrow> Inl (ChainErr e) | Inr history \<Rightarrow>
       if history = [] then Inl ErrRegistryNotFound
       else let (scan, truncated) = oldestHistory history in
         bindR (scanBindings C ok V label tip minConf scan Map.empty None)
           (\<lambda>(b, best). ownerFrom C V truncated b best)))"

section \<open>The owner cache\<close>

record ownerEntry =
  oePubKey :: bytes
  oeNotFound :: bool
  oeExpires :: int

type_synonym ownerCache = "(string \<times> ownerEntry) list"

definition ownerCacheTTL :: int where "ownerCacheTTL = 5 * 60 * 10 ^ 9"
definition notFoundCacheTTL :: int where "notFoundCacheTTL = 30 * 10 ^ 9"
definition maxOwnerCacheEntries :: nat where "maxOwnerCacheEntries = 4096"

definition soonerEntry :: "string \<times> ownerEntry \<Rightarrow> string \<times> ownerEntry \<Rightarrow> bool" where
  "soonerEntry x y \<longleftrightarrow> oeExpires (snd x) < oeExpires (snd y)"

function evictOwners :: "ownerCache \<Rightarrow> ownerCache" where
  "evictOwners c =
     (if length c \<ge> maxOwnerCacheEntries then
        (case scanBest soonerEntry None c of
           None \<Rightarrow> c
         | Some (oldest, _) \<Rightarrow> evictOwners (filter (\<lambda>(k, _). k \<noteq> oldest) c))
      else c)"
  by auto
termination
proof (relation "measure length", simp)
  fix c :: ownerCache and x :: "string \<times> ownerEntry" and k e
  assume "scanBest soonerEntry None c = Some x" and x: "(k, e) = x"
  then have "(k, e) \<in> set c" using scanBest_mem by fastforce
  then have "length (filter (\<lambda>(k', _). k' \<noteq> k) c) < length c"
    by (rule length_filter_less) simp
  then show "(filter (\<lambda>(k', _). k' \<noteq> k) c, c) \<in> measure length" by simp
qed

declare evictOwners.simps [simp del]

definition cacheStore :: "int \<Rightarrow> string \<Rightarrow> ownerEntry \<Rightarrow> ownerCache \<Rightarrow> ownerCache" where
  "cacheStore now label entry c =
     (let c1 = (if length c \<ge> maxOwnerCacheEntries then filter (\<lambda>(_, e). \<not> now > oeExpires e) c else c);
          c2 = evictOwners c1
      in AList.update label entry c2)"

definition ResolveOwner ::
    "'k crypto \<Rightarrow> (bytes \<Rightarrow> bool) \<Rightarrow> chainView \<Rightarrow> (string \<Rightarrow> string) \<Rightarrow> int \<Rightarrow> int \<Rightarrow> int
      \<Rightarrow> string \<Rightarrow> ownerCache \<Rightarrow> (registryErr + bytes) \<times> ownerCache" where
  "ResolveOwner C ok V uni minConf now later name cache =
     (case NormalizeName uni name of
        Inl e \<Rightarrow> (Inl (RegName e), cache)
      | Inr label \<Rightarrow>
          (let fresh = (case map_of cache label of
                          None \<Rightarrow> None
                        | Some e \<Rightarrow> if now < oeExpires e then Some e else None) in
           case fresh of
             Some e \<Rightarrow> (if oeNotFound e then Inl ErrRegistryNotFound else Inr (oePubKey e), cache)
           | None \<Rightarrow>
               (case resolve C ok V minConf label of
                  Inl ErrRegistryNotFound \<Rightarrow>
                    (Inl ErrRegistryNotFound,
                     cacheStore later label
                       \<lparr>oePubKey = [], oeNotFound = True, oeExpires = later + notFoundCacheTTL\<rparr> cache)
                | Inl e \<Rightarrow> (Inl e, cache)
                | Inr pub \<Rightarrow>
                    (Inr pub,
                     cacheStore later label
                       \<lparr>oePubKey = pub, oeNotFound = False, oeExpires = later + ownerCacheTTL\<rparr> cache))))"

section \<open>Facts about the scans\<close>

definition bindsName ::
    "(bytes \<Rightarrow> bool) \<Rightarrow> chainView \<Rightarrow> string \<Rightarrow> int \<Rightarrow> int \<Rightarrow> historyItem \<Rightarrow> (parsedTx \<times> string \<times> bytes) option" where
  "bindsName ok V label tip minConf h =
     (if \<not> confirmed (hHeight h) tip minConf then None
      else case fetchTx V (hTxHash h) of
        Inr (Some (tx, _)) \<Rightarrow> map_option (\<lambda>(tag, pub). (tx, tag, pub)) (parseFNMetadata ok tx label)
      | _ \<Rightarrow> None)"

text \<open>The confirmed claims of a history, in its order.\<close>

definition claimsIn ::
    "(bytes \<Rightarrow> bool) \<Rightarrow> chainView \<Rightarrow> string \<Rightarrow> int \<Rightarrow> int \<Rightarrow> historyItem list \<Rightarrow> claim list" where
  "claimsIn ok V label tip minConf hs =
     List.map_filter (\<lambda>h. case bindsName ok V label tip minConf h of
        Some (tx, tag, pub) \<Rightarrow> if tag = fnClaimTag then Some (claimOf h tx) else None
      | None \<Rightarrow> None) hs"

interpretation earliest: best_scan claimBefore
  by unfold_locales (auto simp: claimBefore_def)

lemma betterClaim_scan: "scanBest claimBefore (betterClaim x best) xs = scanBest claimBefore best (x # xs)"
  by (cases best) (simp_all add: betterClaim_def)

lemma claimsIn_simps:
  "claimsIn ok V label tip minConf [] = []"
  "claimsIn ok V label tip minConf (h # hs) =
     (case bindsName ok V label tip minConf h of
        Some (tx, tag, pub) \<Rightarrow>
          if tag = fnClaimTag then claimOf h tx # claimsIn ok V label tip minConf hs
          else claimsIn ok V label tip minConf hs
      | None \<Rightarrow> claimsIn ok V label tip minConf hs)"
  by (simp_all add: claimsIn_def List.map_filter_simps split: option.splits prod.splits)

lemma scanClaims_cases:
  "scanClaims ok V label tip minConf (h # hs) best =
     (if confirmed (hHeight h) tip minConf \<and> (\<exists>e. fetchTx V (hTxHash h) = Inl e)
      then Inl (projl (fetchTx V (hTxHash h)))
      else case bindsName ok V label tip minConf h of
        Some (tx, tag, pub) \<Rightarrow> scanClaims ok V label tip minConf hs
          (if tag = fnClaimTag then betterClaim (claimOf h tx) best else best)
      | None \<Rightarrow> scanClaims ok V label tip minConf hs best)"
  by (auto simp: bindsName_def split: sum.splits option.splits)

lemma scanBindings_cases:
  "scanBindings C ok V label tip minConf (h # hs) b best =
     (if confirmed (hHeight h) tip minConf \<and> (\<exists>e. fetchTx V (hTxHash h) = Inl e)
      then Inl (projl (fetchTx V (hTxHash h)))
      else case bindsName ok V label tip minConf h of
        Some (tx, tag, pub) \<Rightarrow> scanBindings C ok V label tip minConf hs
          (b(hexEncode (hash160 C pub) \<mapsto> pub))
          (if tag = fnClaimTag then betterClaim (claimOf h tx) best else best)
      | None \<Rightarrow> scanBindings C ok V label tip minConf hs b best)"
  by (auto simp: bindsName_def Let_def split: sum.splits option.splits)

declare scanClaims.simps(2) [simp del] scanBindings.simps(2) [simp del]

lemma scanClaims_ok:
  "(\<exists>r. scanClaims ok V label tip minConf hs best = Inr r) \<longleftrightarrow>
     (\<forall>h \<in> set hs. confirmed (hHeight h) tip minConf \<longrightarrow> (\<exists>r. fetchTx V (hTxHash h) = Inr r))"
proof (induction hs arbitrary: best)
  case (Cons h hs)
  show ?case
  proof (cases "confirmed (hHeight h) tip minConf \<and> (\<exists>e. fetchTx V (hTxHash h) = Inl e)")
    case False
    then have "confirmed (hHeight h) tip minConf \<longrightarrow> (\<exists>r. fetchTx V (hTxHash h) = Inr r)"
      by (cases "fetchTx V (hTxHash h)") auto
    with False Cons show ?thesis
      by (cases "bindsName ok V label tip minConf h") (auto simp: scanClaims_cases)
  qed (auto simp: scanClaims_cases)
qed simp

lemma scanClaims_Inr:
  "scanClaims ok V label tip minConf hs best = Inr r \<Longrightarrow>
     r = scanBest claimBefore best (claimsIn ok V label tip minConf hs)"
proof (induction hs arbitrary: best)
  case (Cons h hs)
  from Cons.prems have nf: "\<not> (confirmed (hHeight h) tip minConf \<and> (\<exists>e. fetchTx V (hTxHash h) = Inl e))"
    by (auto simp: scanClaims_cases)
  show ?case
  proof (cases "bindsName ok V label tip minConf h")
    case None
    with Cons nf show ?thesis by (simp add: scanClaims_cases claimsIn_simps)
  next
    case (Some p)
    obtain tx tag pub where "p = (tx, tag, pub)" by (cases p)
    with Some Cons nf show ?thesis
      by (auto simp: scanClaims_cases claimsIn_simps betterClaim_scan [symmetric] simp del: scanBest.simps split: if_splits)
  qed
qed (simp add: claimsIn_simps)

text \<open>The resolver's scan finds the same claim as the wallet's.\<close>

lemma scanBindings_scanClaims:
  "map_sum id snd (scanBindings C ok V label tip minConf hs b best) = scanClaims ok V label tip minConf hs best"
proof (induction hs arbitrary: b best)
  case (Cons h hs)
  then show ?case
    by (cases "bindsName ok V label tip minConf h") (auto simp: scanClaims_cases scanBindings_cases)
qed simp

lemma scanBindings_binding:
  "scanBindings C ok V label tip minConf hs b best = Inr (b', r) \<Longrightarrow> b' k = Some pub \<Longrightarrow>
     b k = Some pub \<or> k = hexEncode (hash160 C pub) \<and>
       (\<exists>h \<in> set hs. \<exists>tx tag. bindsName ok V label tip minConf h = Some (tx, tag, pub))"
proof (induction hs arbitrary: b best)
  case (Cons h hs)
  from Cons.prems have nf: "\<not> (confirmed (hHeight h) tip minConf \<and> (\<exists>e. fetchTx V (hTxHash h) = Inl e))"
    by (auto simp: scanBindings_cases)
  show ?case
  proof (cases "bindsName ok V label tip minConf h")
    case None
    with Cons nf show ?thesis by (fastforce simp: scanBindings_cases)
  next
    case (Some p)
    obtain tx tag q where p: "p = (tx, tag, q)" by (cases p)
    let ?b = "b(hexEncode (hash160 C q) \<mapsto> q)"
    from Cons.prems nf Some p have "scanBindings C ok V label tip minConf hs ?b
        (if tag = fnClaimTag then betterClaim (claimOf h tx) best else best) = Inr (b', r)"
      by (simp add: scanBindings_cases)
    from Cons.IH [OF this Cons.prems(2)] Some p show ?thesis
      by (auto split: if_splits)
  qed
qed auto

lemma oldestHistory_sub: "oldestHistory hs = (sc, tr) \<Longrightarrow> set sc \<subseteq> set hs \<and> (tr \<longleftrightarrow> length hs > maxHistoryScan)"
  by (auto simp: oldestHistory_def dest: in_set_takeD split: if_splits)

lemma newestHistory_sub:
  "newestHistory hs = (sc, tr) \<Longrightarrow> set sc \<subseteq> set hs \<and> (tr \<longleftrightarrow> length hs > maxHistoryScan)
     \<and> (\<not> tr \<longrightarrow> set sc = set hs)"
  by (auto simp: newestHistory_def Let_def dest: in_set_dropD split: if_splits)

lemma scanSpender_result:
  "case scanSpender V txid vout hs of
     Inl e \<Rightarrow> \<exists>h \<in> set hs. fetchTx V (hTxHash h) = Inl e
   | Inr None \<Rightarrow> \<forall>h \<in> set hs. \<forall>tx raw. fetchTx V (hTxHash h) = Inr (Some (tx, raw)) \<longrightarrow> \<not> spends tx txid vout
   | Inr (Some (tx, raw)) \<Rightarrow> spends tx txid vout \<and> (\<exists>h \<in> set hs. fetchTx V (hTxHash h) = Inr (Some (tx, raw)))"
proof (induction hs)
  case (Cons h hs)
  then show ?case
    by (cases "fetchTx V (hTxHash h)"; cases "scanSpender V txid vout hs")
      (auto split: option.splits prod.splits)
qed simp

lemma ownerFrom_Inr:
  assumes "ownerFrom C V tr b best = Inr pub"
  shows "\<exists>cl category com. best = Some cl \<and> genesisCategory (claimTx cl) = Some category
     \<and> currentCommitment C V (claimTxID cl) category = Inr com \<and> b (hexEncode com) = Some pub"
proof -
  from assms obtain cl where cl: "best = Some cl" by (cases best) (auto simp: ownerFrom_def split: if_splits)
  with assms obtain category where cat: "genesisCategory (claimTx cl) = Some category"
    by (cases "genesisCategory (claimTx cl)") (auto simp: ownerFrom_def)
  with cl assms show ?thesis
    by (auto simp: ownerFrom_def bindR_Inr_iff split: option.splits if_splits)
qed

lemma ownerFrom_notFound:
  assumes "ownerFrom C V tr b best = Inl ErrRegistryNotFound" and "tr"
  shows "\<exists>cl. best = Some cl \<and> (genesisCategory (claimTx cl) = None
     \<or> (\<exists>category. genesisCategory (claimTx cl) = Some category
          \<and> currentCommitment C V (claimTxID cl) category = Inl ErrRegistryNotFound))"
proof -
  from assms obtain cl where cl: "best = Some cl" by (cases best) (auto simp: ownerFrom_def)
  show ?thesis
  proof (cases "genesisCategory (claimTx cl)")
    case (Some category)
    with cl assms show ?thesis
      by (auto simp: ownerFrom_def bindR_Inl_iff split: option.splits)
  qed (use cl in auto)
qed

section \<open>Custody\<close>

text \<open>The abstract custody chain: each step follows the transaction that spends the current output
  to the first output that carries the token.\<close>

inductive custodyPath :: "'k crypto \<Rightarrow> chainView \<Rightarrow> bytes \<Rightarrow> nat \<Rightarrow> custody \<Rightarrow> custody \<Rightarrow> bool"
  for C V category where
  custody_here: "custodyPath C V category 0 s s"
| custody_hop:
    "findSpender C V (curScript s) (curTxID s) (of_nat (curVout s)) = Inr (Some (tx, raw)) \<Longrightarrow>
     findToken category 0 (pOutputs tx) = Some (i, t, script) \<Longrightarrow>
     custodyPath C V category n
       \<lparr>curTxID = txID C raw, curVout = i, curCommitment = Commitment t, curScript = script\<rparr> u \<Longrightarrow>
     custodyPath C V category (Suc n) s u"

inductive_simps custodyPath_0 [simp]: "custodyPath C V category 0 s u"
inductive_simps custodyPath_Suc: "custodyPath C V category (Suc n) s u"

text \<open>The chain ends where the output is unspent or its spender carries the token no further.\<close>

definition custodyEnd :: "'k crypto \<Rightarrow> chainView \<Rightarrow> bytes \<Rightarrow> custody \<Rightarrow> bool" where
  "custodyEnd C V category u \<longleftrightarrow>
     (case findSpender C V (curScript u) (curTxID u) (of_nat (curVout u)) of
        Inr None \<Rightarrow> True
      | Inr (Some (tx, raw)) \<Rightarrow> findToken category 0 (pOutputs tx) = None
      | Inl _ \<Rightarrow> False)"

text \<open>The cases of one more hop.\<close>

lemma custody_step_cases:
  obtains (failed) e where "findSpender C V (curScript s) (curTxID s) (of_nat (curVout s)) = Inl e"
  | (ended) "custodyEnd C V category s"
  | (moved) tx raw i t script where
      "findSpender C V (curScript s) (curTxID s) (of_nat (curVout s)) = Inr (Some (tx, raw))"
      "findToken category 0 (pOutputs tx) = Some (i, t, script)"
proof (cases "findSpender C V (curScript s) (curTxID s) (of_nat (curVout s))")
  case (Inr r)
  show thesis
  proof (cases r)
    case None
    with Inr ended show thesis by (simp add: custodyEnd_def)
  next
    case (Some p)
    obtain tx raw where p: "p = (tx, raw)" by (cases p)
    show thesis
    proof (cases "findToken category 0 (pOutputs tx)")
      case None
      with Some p Inr ended show thesis by (simp add: custodyEnd_def)
    next
      case (Some q)
      obtain i t script where "q = (i, t, script)" by (cases q)
      with Some p Inr \<open>r = Some p\<close> moved show thesis by blast
    qed
  qed
qed (rule failed)

lemma custodyWalk_ended:
  "custodyEnd C V category s \<Longrightarrow> custodyWalk C V category n s = Inr (curCommitment s)
     \<and> (custodyPath C V category k s u \<longrightarrow> k = 0 \<and> u = s)"
  by (cases n; cases k)
    (auto simp: custodyEnd_def custodyPath_Suc split: sum.splits option.splits)

lemma custodyWalk_chain:
  "custodyWalk C V category n s = Inr c \<longleftrightarrow>
     (\<exists>k u. custodyPath C V category k s u \<and> c = curCommitment u
        \<and> (k < n \<and> custodyEnd C V category u \<or> k = n))"
proof (induction n arbitrary: s)
  case 0
  show ?case by auto
next
  case (Suc n)
  show ?case
  proof (cases rule: custody_step_cases [where C = C and V = V and s = s and category = category])
    case (failed e)
    then have "\<not> custodyEnd C V category s" by (simp add: custodyEnd_def)
    moreover have "custodyPath C V category k s u \<Longrightarrow> k = 0 \<and> u = s" for k u
      using failed by (cases k) (auto simp: custodyPath_Suc)
    ultimately show ?thesis using failed by auto
  next
    case ended
    note e = custodyWalk_ended [OF ended]
    show ?thesis
    proof
      assume "custodyWalk C V category (Suc n) s = Inr c"
      with e [of "Suc n"] ended show "\<exists>k u. custodyPath C V category k s u \<and> c = curCommitment u
        \<and> (k < Suc n \<and> custodyEnd C V category u \<or> k = Suc n)"
        by (intro exI [of _ 0] exI [of _ s]) auto
    next
      assume "\<exists>k u. custodyPath C V category k s u \<and> c = curCommitment u
        \<and> (k < Suc n \<and> custodyEnd C V category u \<or> k = Suc n)"
      then show "custodyWalk C V category (Suc n) s = Inr c" using e by blast
    qed
  next
    case (moved tx raw i t script)
    let ?s = "\<lparr>curTxID = txID C raw, curVout = i, curCommitment = Commitment t, curScript = script\<rparr>"
    have ne: "\<not> custodyEnd C V category s" using moved by (simp add: custodyEnd_def)
    have path: "custodyPath C V category k s u \<longleftrightarrow>
        k = 0 \<and> u = s \<or> (\<exists>j. k = Suc j \<and> custodyPath C V category j ?s u)" for k u
      using moved by (cases k) (auto simp: custodyPath_Suc)
    have "custodyWalk C V category (Suc n) s = custodyWalk C V category n ?s" using moved by simp
    with Suc.IH [of ?s] ne show ?thesis by (auto simp: path)
  qed
qed

text \<open>Custody as the chain shows it, whatever way it is walked. The token's output in a transaction is
  the first that carries a token of the category; an output is spent by a transaction listed in the
  history of its script's address, and is unspent when that history is complete and nothing in it
  spends the output.\<close>

definition tokenAt :: "bytes \<Rightarrow> parsedTx \<Rightarrow> nat \<Rightarrow> tokenInfo \<Rightarrow> bytes \<Rightarrow> bool" where
  "tokenAt category tx i t script \<longleftrightarrow>
     i < length (pOutputs tx) \<and> pToken (pOutputs tx ! i) = Some t \<and> CategoryID t = category
     \<and> pScript (pOutputs tx ! i) = script
     \<and> (\<forall>j < i. \<forall>u. pToken (pOutputs tx ! j) = Some u \<longrightarrow> CategoryID u \<noteq> category)"

definition onChain :: "chainView \<Rightarrow> string \<Rightarrow> parsedTx \<Rightarrow> bytes \<Rightarrow> bool" where
  "onChain V txid tx raw \<longleftrightarrow>
     (\<exists>rawHex. transactionGet V txid = Inr rawHex \<and> hexDecode rawHex = Some raw \<and> parseTx raw = Inr tx)"

definition spentBy :: "'k crypto \<Rightarrow> chainView \<Rightarrow> custody \<Rightarrow> parsedTx \<Rightarrow> bytes \<Rightarrow> bool" where
  "spentBy C V s tx raw \<longleftrightarrow>
     (\<exists>history h. GetHistory V (scriptHash C (curScript s)) = Inr history \<and> h \<in> set history
        \<and> onChain V (hTxHash h) tx raw
        \<and> (\<exists>inp \<in> set (pInputs tx). pPrevIndex inp = of_nat (curVout s) \<and> pPrevTxID inp = curTxID s))"

definition unspent :: "'k crypto \<Rightarrow> chainView \<Rightarrow> custody \<Rightarrow> bool" where
  "unspent C V s \<longleftrightarrow>
     (\<exists>history. GetHistory V (scriptHash C (curScript s)) = Inr history \<and> length history \<le> 512
        \<and> (\<forall>h \<in> set history. \<exists>rawHex. transactionGet V (hTxHash h) = Inr rawHex))
     \<and> (\<forall>tx raw. \<not> spentBy C V s tx raw)"

inductive tokenMoves :: "'k crypto \<Rightarrow> chainView \<Rightarrow> bytes \<Rightarrow> nat \<Rightarrow> custody \<Rightarrow> custody \<Rightarrow> bool"
  for C V category where
  stays: "tokenMoves C V category 0 s s"
| moves: "spentBy C V s tx raw \<Longrightarrow> tokenAt category tx i t script \<Longrightarrow>
     tokenMoves C V category n
       \<lparr>curTxID = txID C raw, curVout = i, curCommitment = Commitment t, curScript = script\<rparr> u \<Longrightarrow>
     tokenMoves C V category (Suc n) s u"

text \<open>The token rests where it is unspent, or was spent into a transaction that no longer carries it.\<close>

definition tokenRests :: "'k crypto \<Rightarrow> chainView \<Rightarrow> bytes \<Rightarrow> custody \<Rightarrow> bool" where
  "tokenRests C V category u \<longleftrightarrow>
     unspent C V u \<or> (\<exists>tx raw. spentBy C V u tx raw
       \<and> (\<forall>out \<in> set (pOutputs tx). \<forall>t. pToken out = Some t \<longrightarrow> CategoryID t \<noteq> category))"

lemma findToken_Some:
  "findToken category k os = Some (i, t, script) \<Longrightarrow>
     k \<le> i \<and> i - k < length os \<and> pToken (os ! (i - k)) = Some t \<and> CategoryID t = category \<and> pScript (os ! (i - k)) = script
     \<and> (\<forall>j < i - k. \<forall>u. pToken (os ! j) = Some u \<longrightarrow> CategoryID u \<noteq> category)"
proof (induction category k os rule: findToken.induct)
  case (2 category k o1 os)
  show ?case
  proof (cases "\<exists>u. pToken o1 = Some u \<and> CategoryID u = category")
    case True
    with 2 show ?thesis by auto
  next
    case False
    with 2(3) have f: "findToken category (Suc k) os = Some (i, t, script)" by (auto split: option.splits)
    from False 2(1,2) f have ih: "Suc k \<le> i \<and> i - Suc k < length os \<and> pToken (os ! (i - Suc k)) = Some t
        \<and> CategoryID t = category \<and> pScript (os ! (i - Suc k)) = script
        \<and> (\<forall>j < i - Suc k. \<forall>u. pToken (os ! j) = Some u \<longrightarrow> CategoryID u \<noteq> category)"
      by (cases "pToken o1") auto
    then have "Suc k \<le> i" by blast
    then have "i - k = Suc (i - Suc k)" by arith
    with ih False show ?thesis by (auto simp: less_Suc_eq_0_disj)
  qed
qed simp

lemma findToken_at: "findToken category 0 (pOutputs tx) = Some (i, t, script) \<Longrightarrow> tokenAt category tx i t script"
  using findToken_Some [of category 0 "pOutputs tx" i t script] by (simp add: tokenAt_def)

lemma findToken_None:
  "findToken category k os = None \<longleftrightarrow> (\<forall>out \<in> set os. \<forall>t. pToken out = Some t \<longrightarrow> CategoryID t \<noteq> category)"
  by (induction category k os rule: findToken.induct) (auto split: option.splits)

lemma fetchTx_onChain: "fetchTx V txid = Inr (Some (tx, raw)) \<longleftrightarrow> onChain V txid tx raw"
  by (auto simp: fetchTx_def onChain_def GetRawTransaction_def bindR_Inr_iff bindR_Inl_iff
      split: sum.splits option.splits txErr.splits)

lemma findSpender_Some:
  assumes "findSpender C V (curScript s) (curTxID s) (of_nat (curVout s)) = Inr (Some (tx, raw))"
  shows "spentBy C V s tx raw"
proof -
  from assms obtain history sc tr where h: "GetHistory V (scriptHash C (curScript s)) = Inr history"
    "newestHistory history = (sc, tr)" "scanSpender V (curTxID s) (of_nat (curVout s)) sc = Inr (Some (tx, raw))"
    by (auto simp: findSpender_def Let_def bindR_Inr_iff split: sum.splits prod.splits option.splits if_splits)
  with scanSpender_result [where V = V and txid = "curTxID s" and vout = "of_nat (curVout s)" and hs = sc] newestHistory_sub [OF h(2)] show ?thesis
    by (auto simp: spentBy_def spends_def fetchTx_onChain)
qed

lemma scanSpender_fetched: "scanSpender V txid vout hs = Inr None \<Longrightarrow> h \<in> set hs \<Longrightarrow> \<exists>rawHex. transactionGet V (hTxHash h) = Inr rawHex"
proof (induction hs)
  case (Cons g hs)
  then obtain r where "fetchTx V (hTxHash g) = Inr r" "scanSpender V txid vout hs = Inr None"
    by (auto split: sum.splits option.splits if_splits)
  moreover from this(1) have "\<exists>rawHex. transactionGet V (hTxHash g) = Inr rawHex"
    by (auto simp: fetchTx_def GetRawTransaction_def bindR_def split: sum.splits)
  ultimately show ?case using Cons by auto
qed simp

lemma findSpender_None:
  assumes "findSpender C V (curScript s) (curTxID s) (of_nat (curVout s)) = Inr None"
  shows "unspent C V s"
proof -
  from assms obtain history sc where h: "GetHistory V (scriptHash C (curScript s)) = Inr history"
    "newestHistory history = (sc, False)" "scanSpender V (curTxID s) (of_nat (curVout s)) sc = Inr None"
    by (auto simp: findSpender_def Let_def bindR_Inr_iff split: sum.splits prod.splits option.splits if_splits) force
  from newestHistory_sub [OF h(2)] have sc: "set sc = set history" "length history \<le> 512" by (auto simp: maxHistoryScan_def)
  with h scanSpender_result [where V = V and txid = "curTxID s" and vout = "of_nat (curVout s)" and hs = sc] scanSpender_fetched [OF h(3)]
  show ?thesis by (auto simp: unspent_def spentBy_def spends_def fetchTx_onChain)
qed

lemma custodyPath_moves: "custodyPath C V category k s u \<Longrightarrow> tokenMoves C V category k s u"
  by (induction rule: custodyPath.induct) (blast intro: stays moves findSpender_Some findToken_at)+

lemma custodyEnd_rests: "custodyEnd C V category u \<Longrightarrow> tokenRests C V category u"
  by (auto simp: custodyEnd_def tokenRests_def findToken_None split: sum.splits option.splits
      dest!: findSpender_None findSpender_Some)

text \<open>A commitment the code reads is that of an output the token has come to from the claim's mint.\<close>

lemma currentCommitment_Inr:
  assumes "currentCommitment C V claimID category = Inr com"
  shows "\<exists>tx raw i t script k u. onChain V (hexEncode (rev claimID)) tx raw \<and> tokenAt category tx i t script
    \<and> tokenMoves C V category k \<lparr>curTxID = claimID, curVout = i, curCommitment = Commitment t, curScript = script\<rparr> u
    \<and> (k < 64 \<and> tokenRests C V category u \<or> k = 64) \<and> com = curCommitment u"
proof -
  from assms obtain raw tx where r: "GetRawTransaction V (hexEncode (rev claimID)) = Inr raw" "parseTx raw = Inr tx"
    by (auto simp: currentCommitment_def reverseBytes_def split: sum.splits txErr.splits)
  with assms obtain i t script where f: "findToken category 0 (pOutputs tx) = Some (i, t, script)"
    and w: "custodyWalk C V category maxCustodyHops
        \<lparr>curTxID = claimID, curVout = i, curCommitment = Commitment t, curScript = script\<rparr> = Inr com"
    by (auto simp: currentCommitment_def reverseBytes_def split: option.splits)
  have "onChain V (hexEncode (rev claimID)) tx raw"
    using r by (auto simp: onChain_def GetRawTransaction_def bindR_Inr_iff split: option.splits)
  with f w custodyPath_moves custodyEnd_rests findToken_at show ?thesis
    unfolding custodyWalk_chain maxCustodyHops_def by metis
qed

section \<open>A concrete chain\<close>

text \<open>A chain with one transaction, the claim of \<open>abc\<close> by the key \<open>[5]\<close>: metadata, marker and the name
  NFT, whose commitment is the hash of the key.\<close>

definition demoClaimTx :: transaction where
  "demoClaimTx =
     \<lparr>Version = 2,
      Inputs = [\<lparr>PrevTxID = replicate 32 5, PrevIndex = 0, PrevScript = p2pkhScript [1, 2], PrevValue = 5000,
                 PrevToken = None, Sequence = 0xffffffff\<rparr>],
      Outputs = [\<lparr>Value = 0, Script = opReturnScript [bytes_of_string fnClaimTag, bytes_of_string ''abc'', [5]], Token = None\<rparr>,
                 \<lparr>Value = 546, Script = markerScript demoCrypto ''abc'', Token = None\<rparr>,
                 \<lparr>Value = 1000, Script = p2pkhScript (replicate 20 3),
                  Token = Some \<lparr>CategoryID = replicate 32 5, Capability = 1,
                               Commitment = hash160 demoCrypto [5], Amount = 0\<rparr>\<rparr>],
      LockTime = 0\<rparr>"

definition demoChain :: "bytes \<Rightarrow> chainView" where
  "demoChain raw =
     \<lparr>BlockHeight = Inr 100,
      GetHistory = (\<lambda>sh. if sh = scriptHash demoCrypto (markerScript demoCrypto ''abc'')
                        then Inr [\<lparr>hHeight = 90, hTxHash = hexEncode (replicate 32 1)\<rparr>] else Inr []),
      ListUnspent = (\<lambda>_. Inr []),
      transactionGet = (\<lambda>txid. if txid = hexEncode (replicate 32 1) then Inr (hexEncode raw) else Inl BadResult),
      transactionBroadcast = (\<lambda>_. Inl BadResult)\<rparr>"

lemma length_hash160_demo [simp]: "length (hash160 demoCrypto b) = 20"
  by (simp add: hash160_def)

lemma demoClaim_raw:
  "\<exists>raw. parseTx raw = Inr \<lparr>pInputs = map viewIn (Inputs demoClaimTx), pOutputs = map viewOut (Outputs demoClaimTx)\<rparr>"
proof -
  obtain us :: "bytes list" where us: "us = [[1]]" by blast
  let ?raw = "encUint32 2 @ putVarInt (of_nat (length (Inputs demoClaimTx)))
     @ concat (map encodeInput (zip (Inputs demoClaimTx) us))
     @ putVarInt (of_nat (length (Outputs demoClaimTx))) @ concat (map encodeOutput (Outputs demoClaimTx)) @ encUint32 0"
  have len: "length ?raw < 2 ^ 63"
    by (simp add: us demoClaimTx_def encodeInput_def encodeOutput_def putVarBytes_def length_putVarInt tokenPrefix_def
        encodeTokenPrefix_def opReturnScript_def appendPush_def p2pkhScript_def markerScript_def markerPubKeyHash_def
        fnClaimTag_def)
  have ok: "list_all outOk (Outputs demoClaimTx)"
    by (simp add: demoClaimTx_def outOk_def opReturnScript_def appendPush_def p2pkhScript_def markerScript_def
        validate_def hasNFT_def)
  have "length us = length (Inputs demoClaimTx)" "\<forall>inp \<in> set (Inputs demoClaimTx). length (PrevTxID inp) = 32"
    by (simp_all add: us demoClaimTx_def)
  from parseTx_layout [OF len refl this ok] show ?thesis by blast
qed

lemma demo_metadata:
  "parseFNMetadata (\<lambda>_. True) \<lparr>pInputs = ins, pOutputs = map viewOut (Outputs demoClaimTx)\<rparr> ''abc'' = Some (fnClaimTag, [5])"
proof -
  let ?ps = "[bytes_of_string fnClaimTag, bytes_of_string ''abc'', [5]]"
  have "parseOpReturn (opReturnScript ?ps) = ?ps"
    by (rule parseOpReturn_opReturnScript) (simp_all add: fnClaimTag_def opReturnScript_def appendPush_def)
  then show ?thesis
    by (simp add: parseFNMetadata_def demoClaimTx_def viewOut_def)
qed

lemma demo_token:
  "findToken (replicate 32 5) 0 (map viewOut (Outputs demoClaimTx)) =
     Some (2, \<lparr>CategoryID = replicate 32 5, Capability = 1, Commitment = hash160 demoCrypto [5], Amount = 0\<rparr>,
           p2pkhScript (replicate 20 3))"
  by (simp add: demoClaimTx_def viewOut_def)

lemma demo_holder_unspent:
  "GetHistory (demoChain raw) (scriptHash demoCrypto (p2pkhScript (replicate 20 3))) = Inr []"
proof -
  have "p2pkhScript (replicate 20 3) ! 3 \<noteq> markerScript demoCrypto ''abc'' ! 3"
    by (simp add: p2pkhScript_def markerScript_def markerPubKeyHash_def nth_append hash160_def demoCrypto_def
        bytes_of_string_def)
  moreover have "sha256 demoCrypto (p2pkhScript h) = p2pkhScript h @ replicate 7 0" if "length h = 20" for h
    using that by (simp add: demoCrypto_def p2pkhScript_def)
  ultimately show ?thesis
    by (auto simp: demoChain_def scriptHash_def markerScript_def markerPubKeyHash_def)
qed

lemma demo_lookup:
  assumes raw: "parseTx raw = Inr \<lparr>pInputs = map viewIn (Inputs demoClaimTx), pOutputs = map viewOut (Outputs demoClaimTx)\<rparr>"
  shows "resolve demoCrypto (\<lambda>_. True) (demoChain raw) 1 ''abc'' = Inr [5]"
proof -
  let ?V = "demoChain raw" let ?h = "\<lparr>hHeight = 90, hTxHash = hexEncode (replicate 32 1)\<rparr> :: historyItem"
  let ?tx = "\<lparr>pInputs = map viewIn (Inputs demoClaimTx), pOutputs = map viewOut (Outputs demoClaimTx)\<rparr>"
  have get: "GetRawTransaction ?V (hexEncode (replicate 32 1)) = Inr raw"
    by (simp add: GetRawTransaction_def demoChain_def)
  then have f: "fetchTx ?V (hTxHash ?h) = Inr (Some (?tx, raw))"
    by (simp add: fetchTx_def raw)
  have conf: "confirmed 90 100 1" by (simp add: confirmed_def int64_id)
  have b: "bindsName (\<lambda>_. True) ?V ''abc'' 100 1 ?h = Some (?tx, fnClaimTag, [5])"
    using f conf by (simp add: bindsName_def demo_metadata)
  have scan: "scanBindings demoCrypto (\<lambda>_. True) ?V ''abc'' 100 1 [?h] Map.empty None =
      Inr ([hexEncode (hash160 demoCrypto [5]) \<mapsto> [5]], Some (claimOf ?h ?tx))"
    using f b by (simp add: scanBindings_cases betterClaim_def)
  have cat: "genesisCategory ?tx = Some (replicate 32 5)"
    by (simp add: genesisCategory_def demoClaimTx_def viewIn_def)
  let ?s = "\<lparr>curTxID = replicate 32 1, curVout = 2, curCommitment = hash160 demoCrypto [5],
      curScript = p2pkhScript (replicate 20 3)\<rparr>"
  have "custodyEnd demoCrypto ?V (replicate 32 5) ?s"
    using demo_holder_unspent [of raw]
    by (simp add: custodyEnd_def findSpender_def newestHistory_def maxHistoryScan_def)
  then have walk: "custodyWalk demoCrypto ?V (replicate 32 5) maxCustodyHops ?s = Inr (hash160 demoCrypto [5])"
    using custodyWalk_ended by fastforce
  have id: "claimTxID (claimOf ?h ?tx) = replicate 32 1" "claimTx (claimOf ?h ?tx) = ?tx"
    by (simp_all add: claimOf_def reverseBytesHex_def reverseBytes_def)
  have cur: "currentCommitment demoCrypto ?V (replicate 32 1) (replicate 32 5) = Inr (hash160 demoCrypto [5])"
    by (simp add: currentCommitment_def reverseBytes_def get raw demo_token walk)
  have hist: "GetHistory ?V (scriptHash demoCrypto (markerScript demoCrypto ''abc'')) = Inr [?h]" "BlockHeight ?V = Inr 100"
    by (simp_all add: demoChain_def)
  have old: "oldestHistory [?h] = ([?h], False)" by (simp add: oldestHistory_def maxHistoryScan_def)
  have "ownerFrom demoCrypto ?V False [hexEncode (hash160 demoCrypto [5]) \<mapsto> [5]] (Some (claimOf ?h ?tx)) = Inr [5]"
    by (simp add: ownerFrom_def id cat cur)
  then show ?thesis
    by (simp add: resolve_def hist old scan)
qed

section \<open>Properties\<close>

text \<open>C25: the walk from an output returns exactly the commitment at the end of the custody chain:
  it returns \<open>c\<close> if and only if some chain of at most \<open>n\<close> hops leads from the output to one with
  commitment \<open>c\<close> that is unspent or whose spender drops the token, or that is \<open>n\<close> hops away. The last
  case is not checked against the chain: after the hop cap the commitment is returned whether or
  not that output has been spent.\<close>

theorem custodyWalk_iff:
  "custodyWalk C V category n s = Inr c \<longleftrightarrow>
     (\<exists>k u. custodyPath C V category k s u \<and> c = curCommitment u
        \<and> (k < n \<and> custodyEnd C V category u \<or> k = n))"
  by (rule custodyWalk_chain)

text \<open>C6: the owner a lookup returns holds the name. The winning claim is a confirmed claim of this very
  label that none of the scanned claims precedes in height and transaction id, and it has a genesis
  input, whose transaction is the category. The claim's own transaction, as the chain has it, mints the
  category's token in its first output of that category; from there the token moved \<open>k\<close> times, each time
  spent by a transaction in the history of the address that held it, into that transaction's first
  output of the category; and the returned key hashes to the commitment of the output reached. That
  output is where the token rests: it is unspent, by a complete history of its address, or its spender
  carries the token no further. The exception is a token moved \<open>k = 64\<close> times, the cap on hops: whether
  that output is still unspent is not looked at. The returned key was revealed for this label by a
  confirmed transaction of the marker's history.\<close>

theorem resolve_sound:
  assumes "resolve C ok V minConf label = Inr pub"
  shows "\<exists>tip history cl category.
     BlockHeight V = Inr tip \<and> GetHistory V (scriptHash C (markerScript C label)) = Inr history
     \<and> cl \<in> set (claimsIn ok V label tip minConf (fst (oldestHistory history)))
     \<and> (\<forall>d \<in> set (claimsIn ok V label tip minConf (fst (oldestHistory history))). \<not> claimBefore d cl)
     \<and> genesisCategory (claimTx cl) = Some category
     \<and> (\<exists>tx raw i t script k u. onChain V (hexEncode (rev (claimTxID cl))) tx raw \<and> tokenAt category tx i t script
          \<and> tokenMoves C V category k
               \<lparr>curTxID = claimTxID cl, curVout = i, curCommitment = Commitment t, curScript = script\<rparr> u
          \<and> (k < 64 \<and> tokenRests C V category u \<or> k = 64) \<and> hash160 C pub = curCommitment u)
     \<and> (\<exists>h \<in> set history. \<exists>tx tag. bindsName ok V label tip minConf h = Some (tx, tag, pub))"
proof -
  from assms obtain tip history where th: "BlockHeight V = Inr tip"
    "GetHistory V (scriptHash C (markerScript C label)) = Inr history" "history \<noteq> []"
    by (auto simp: resolve_def split: sum.splits if_splits)
  obtain sc tr where o: "oldestHistory history = (sc, tr)" by fastforce
  from assms th o obtain b best where
    sb: "scanBindings C ok V label tip minConf sc Map.empty None = Inr (b, best)"
    and ow: "ownerFrom C V tr b best = Inr pub"
    by (auto simp: resolve_def bindR_Inr_iff)
  from ownerFrom_Inr [OF ow] sb obtain cl category com where r:
    "scanBindings C ok V label tip minConf sc Map.empty None = Inr (b, Some cl)"
    "genesisCategory (claimTx cl) = Some category"
    "currentCommitment C V (claimTxID cl) category = Inr com" "b (hexEncode com) = Some pub"
    by blast
  from r(1) scanBindings_scanClaims [of C ok V label tip minConf sc Map.empty None]
  have "scanClaims ok V label tip minConf sc None = Inr (Some cl)" by simp
  then have "scanBest claimBefore None (claimsIn ok V label tip minConf sc) = Some cl"
    using scanClaims_Inr by metis
  note win = earliest.scan_maximal [OF this]
  from scanBindings_binding [OF r(1,4)] have "com = hash160 C pub"
    "\<exists>h \<in> set sc. \<exists>tx tag. bindsName ok V label tip minConf h = Some (tx, tag, pub)" by auto
  moreover note currentCommitment_Inr [OF r(3)]
  moreover have f: "fst (oldestHistory history) = sc" using o by simp
  moreover have "set sc \<subseteq> set history" using oldestHistory_sub [OF o] by blast
  ultimately show ?thesis
    using win r(2) th(1,2) f
    by (intro exI [of _ tip] exI [of _ history] exI [of _ cl] exI [of _ category]) (simp only: f, blast)
qed

theorem resolve_sound_witness:
  "\<exists>V (cl :: claim) tx raw i t script k u category. resolve demoCrypto (\<lambda>_. True) V 1 ''abc'' = Inr [5]
     \<and> genesisCategory (claimTx cl) = Some category \<and> tokenAt category tx i t script
     \<and> tokenMoves demoCrypto V category k
          \<lparr>curTxID = claimTxID cl, curVout = i, curCommitment = Commitment t, curScript = script\<rparr> u
     \<and> (k < 64 \<and> tokenRests demoCrypto V category u \<or> k = 64) \<and> hash160 demoCrypto [5] = curCommitment u"
proof -
  obtain raw where "parseTx raw = Inr \<lparr>pInputs = map viewIn (Inputs demoClaimTx), pOutputs = map viewOut (Outputs demoClaimTx)\<rparr>"
    using demoClaim_raw by blast
  then have r: "resolve demoCrypto (\<lambda>_. True) (demoChain raw) 1 ''abc'' = Inr [5]" by (rule demo_lookup)
  from resolve_sound [OF r] r show ?thesis by blast
qed

text \<open>The winning claim does not depend on the order in which the server lists the history. If
  two listings contain the same entries, with transaction ids in canonical hexadecimal, and the
  scan of one succeeds, the scan of the other finds the same claim.\<close>

theorem winning_claim_order_independent:
  assumes "scanClaims ok V label tip minConf hs None = Inr r" and eq: "set hs = set hs'"
    and canon: "\<forall>h \<in> set hs. \<exists>b. hTxHash h = hexEncode b"
  shows "scanClaims ok V label tip minConf hs' None = Inr r"
proof -
  from assms(1) eq obtain r' where r': "scanClaims ok V label tip minConf hs' None = Inr r'"
    using scanClaims_ok by metis
  let ?cs = "claimsIn ok V label tip minConf"
  have mem: "c \<in> set (?cs xs) \<longleftrightarrow> (\<exists>h \<in> set xs. \<exists>tx pub.
      bindsName ok V label tip minConf h = Some (tx, fnClaimTag, pub) \<and> c = claimOf h tx)" for c xs
    by (induction xs) (auto simp: claimsIn_simps split: option.splits)
  have "set (?cs hs) = set (?cs hs')" using eq mem by blast
  moreover have "c = d" if "c \<in> set (?cs hs)" "d \<in> set (?cs hs)" "\<not> claimBefore c d" "\<not> claimBefore d c" for c d
  proof -
    from that(1,2) obtain h tx pub h2 tx2 pub2 where
      c: "h \<in> set hs" "bindsName ok V label tip minConf h = Some (tx, fnClaimTag, pub)" "c = claimOf h tx"
      and d: "h2 \<in> set hs" "bindsName ok V label tip minConf h2 = Some (tx2, fnClaimTag, pub2)" "d = claimOf h2 tx2"
      by (auto simp: mem)
    from that(3,4) have "claimTxID c = claimTxID d" "claimHeight c = claimHeight d"
      by (auto simp: claimBefore_def)
    then have "reverseBytesHex (hTxHash h) = reverseBytesHex (hTxHash h2)" "hHeight h = hHeight h2"
      using c(3) d(3) by (simp_all add: claimOf_def)
    with canon c(1) d(1) have "hTxHash h = hTxHash h2"
      by (metis hexDecode_Encode option.case(2) reverseBytesHex_def reverseBytes_def rev_is_rev_conv)
    with \<open>hHeight h = hHeight h2\<close> have "h = h2" by (simp add: historyItem.equality)
    with c d show "c = d" by simp
  qed
  ultimately have "scanBest claimBefore None (?cs hs) = scanBest claimBefore None (?cs hs')"
    using earliest.scan_set_unique by metis
  with scanClaims_Inr [OF assms(1)] scanClaims_Inr [OF r'] r' show ?thesis by simp
qed

theorem winning_claim_order_independent_witness:
  "scanClaims (\<lambda>_. True) (demoChain []) ''abc'' 100 1
     [\<lparr>hHeight = 0, hTxHash = hexEncode [2]\<rparr>, \<lparr>hHeight = -1, hTxHash = hexEncode [1]\<rparr>] None = Inr None"
proof -
  have "scanClaims (\<lambda>_. True) (demoChain []) ''abc'' 100 1
     [\<lparr>hHeight = -1, hTxHash = hexEncode [1]\<rparr>, \<lparr>hHeight = 0, hTxHash = hexEncode [2]\<rparr>] None = Inr None"
    by (simp add: scanClaims_cases confirmed_def bindsName_def)
  then show ?thesis
    by (rule winning_claim_order_independent) (auto intro: exI [of _ "[1]"] exI [of _ "[2]"])
qed

lemma evictOwners_bound: "length (evictOwners c) < maxOwnerCacheEntries \<and> set (evictOwners c) \<subseteq> set c"
proof (induction c rule: evictOwners.induct)
  case (1 c)
  show ?case
  proof (cases "length c \<ge> maxOwnerCacheEntries")
    case True
    then have "c \<noteq> []" by (auto simp: maxOwnerCacheEntries_def)
    then obtain k e where s: "scanBest soonerEntry None c = Some (k, e)"
      by (cases "scanBest soonerEntry None c") auto
    from 1 [OF True s] True s show ?thesis
      by (subst (1 2) evictOwners.simps) auto
  qed (subst (1 2) evictOwners.simps, auto)
qed

lemma evictOwners_distinct: "distinct (map fst c) \<Longrightarrow> distinct (map fst (evictOwners c))"
proof (induction c rule: evictOwners.induct)
  case (1 c)
  show ?case
  proof (cases "length c \<ge> maxOwnerCacheEntries")
    case True
    then have "c \<noteq> []" by (auto simp: maxOwnerCacheEntries_def)
    then obtain k e where s: "scanBest soonerEntry None c = Some (k, e)"
      by (cases "scanBest soonerEntry None c") auto
    have "distinct (map fst (filter (\<lambda>(k', _). k' \<noteq> k) c))"
      using 1(2) by (rule distinct_map_filter)
    from 1(1) [OF True s refl this] True s show ?thesis by (subst evictOwners.simps) simp
  qed (use 1 in \<open>subst evictOwners.simps, simp\<close>)
qed

lemma evictOwners_small: "length c < maxOwnerCacheEntries \<Longrightarrow> evictOwners c = c"
  by (subst evictOwners.simps) simp

text \<open>The owner cache stays bounded whatever names are looked up. Storing an entry leaves at most
  4096 entries, records the new one, invents nothing, keeps one entry per label, and below the cap
  leaves every other label's entry alone.\<close>

theorem cacheStore_bounded:
  "length (cacheStore now label entry c) \<le> maxOwnerCacheEntries
   \<and> map_of (cacheStore now label entry c) label = Some entry
   \<and> (\<forall>l e. (l, e) \<in> set (cacheStore now label entry c) \<longrightarrow> (l, e) = (label, entry) \<or> (l, e) \<in> set c)
   \<and> (distinct (map fst c) \<longrightarrow> distinct (map fst (cacheStore now label entry c)))
   \<and> (length c < maxOwnerCacheEntries \<longrightarrow>
        (\<forall>l. l \<noteq> label \<longrightarrow> map_of (cacheStore now label entry c) l = map_of c l))"
proof -
  let ?c1 = "if length c \<ge> maxOwnerCacheEntries then filter (\<lambda>(_, e). \<not> now > oeExpires e) c else c"
  have cs: "cacheStore now label entry c = AList.update label entry (evictOwners ?c1)"
    by (simp add: cacheStore_def Let_def)
  have len: "length (AList.update k v al) \<le> Suc (length al)" for k :: string and v :: ownerEntry and al
    by (induction al) auto
  have mem: "(l, e) \<in> set (AList.update k v al) \<Longrightarrow> (l, e) = (k, v) \<or> (l, e) \<in> set al"
    for k l :: string and v e :: ownerEntry and al
    by (induction al) (auto split: if_splits)
  note b = evictOwners_bound [of ?c1]
  have "length (cacheStore now label entry c) \<le> maxOwnerCacheEntries"
    unfolding cs using b len [of label entry "evictOwners ?c1"] by linarith
  moreover have "map_of (cacheStore now label entry c) label = Some entry"
    unfolding cs by (simp add: update_conv')
  moreover have "\<forall>l e. (l, e) \<in> set (cacheStore now label entry c) \<longrightarrow> (l, e) = (label, entry) \<or> (l, e) \<in> set c"
  proof (intro allI impI)
    fix l e assume "(l, e) \<in> set (cacheStore now label entry c)"
    then have "(l, e) = (label, entry) \<or> (l, e) \<in> set (evictOwners ?c1)"
      unfolding cs by (rule mem)
    with b have "(l, e) = (label, entry) \<or> (l, e) \<in> set ?c1" by blast
    then show "(l, e) = (label, entry) \<or> (l, e) \<in> set c" by (auto split: if_splits)
  qed
  moreover have "distinct (map fst c) \<longrightarrow> distinct (map fst (cacheStore now label entry c))"
  proof
    assume "distinct (map fst c)"
    then have "distinct (map fst ?c1)" by (simp add: distinct_map_filter)
    then show "distinct (map fst (cacheStore now label entry c))"
      unfolding cs by (intro distinct_update evictOwners_distinct)
  qed
  moreover have "length c < maxOwnerCacheEntries \<longrightarrow>
        (\<forall>l. l \<noteq> label \<longrightarrow> map_of (cacheStore now label entry c) l = map_of c l)"
    unfolding cs by (simp add: evictOwners_small update_conv')
  ultimately show ?thesis by blast
qed

theorem cacheStore_bounded_witness:
  "let e = \<lparr>oePubKey = [1], oeNotFound = False, oeExpires = 9\<rparr> in
     distinct (map fst (cacheStore 5 ''new'' e [(''old'', e)])) \<and> map_of (cacheStore 5 ''new'' e [(''old'', e)]) ''old'' = Some e"
  using cacheStore_bounded [of 5 "''new''" "\<lparr>oePubKey = [1], oeNotFound = False, oeExpires = 9\<rparr>"
      "[(''old'', \<lparr>oePubKey = [1], oeNotFound = False, oeExpires = 9\<rparr>)]"]
  by (simp add: maxOwnerCacheEntries_def Let_def)

lemma resolve_notFound:
  assumes "resolve C ok V minConf label = Inl ErrRegistryNotFound"
  shows "\<exists>tip history. BlockHeight V = Inr tip \<and> GetHistory V (scriptHash C (markerScript C label)) = Inr history
     \<and> (length history \<le> maxHistoryScan
         \<or> (\<exists>cl. cl \<in> set (claimsIn ok V label tip minConf history)
              \<and> (\<forall>category. genesisCategory (claimTx cl) = Some category \<longrightarrow>
                    currentCommitment C V (claimTxID cl) category = Inl ErrRegistryNotFound)))"
proof -
  from assms obtain tip history where th: "BlockHeight V = Inr tip"
    "GetHistory V (scriptHash C (markerScript C label)) = Inr history"
    by (auto simp: resolve_def split: sum.splits if_splits)
  show ?thesis
  proof (cases "length history \<le> maxHistoryScan")
    case False
    then have ne: "history \<noteq> []" by auto
    obtain sc where o: "oldestHistory history = (sc, True)" using False by (simp add: oldestHistory_def)
    have no_fetch: "scanBindings C ok V label tip minConf hs b best \<noteq> Inl ErrRegistryNotFound" for hs b best
    proof (induction hs arbitrary: b best)
      case (Cons h hs)
      have "fetchTx V (hTxHash h) \<noteq> Inl ErrRegistryNotFound"
        by (auto simp: fetchTx_def split: sum.splits txErr.splits)
      with Cons show ?case
        by (auto simp: scanBindings_cases split: option.splits)
    qed simp
    from assms th ne o no_fetch obtain b best where
      sb: "scanBindings C ok V label tip minConf sc Map.empty None = Inr (b, best)"
      and ow: "ownerFrom C V True b best = Inl ErrRegistryNotFound"
      by (auto simp: resolve_def bindR_Inl_iff)
    from ownerFrom_notFound [OF ow TrueI] obtain cl where cl: "best = Some cl"
      "\<forall>category. genesisCategory (claimTx cl) = Some category \<longrightarrow>
         currentCommitment C V (claimTxID cl) category = Inl ErrRegistryNotFound" by auto
    from sb scanBindings_scanClaims [of C ok V label tip minConf sc Map.empty None]
    have "scanClaims ok V label tip minConf sc None = Inr best" by simp
    with scanClaims_Inr cl have "scanBest claimBefore None (claimsIn ok V label tip minConf sc) = Some cl"
      by metis
    then have "cl \<in> set (claimsIn ok V label tip minConf sc)" by (rule scanBest_mem [THEN disjE]) auto
    moreover have "set (claimsIn ok V label tip minConf sc) \<subseteq> set (claimsIn ok V label tip minConf history)"
    proof -
      have "set sc \<subseteq> set history" using oldestHistory_sub [OF o] by blast
      then have "set (List.map_filter f sc) \<subseteq> set (List.map_filter f history)" for f :: "historyItem \<Rightarrow> claim option"
        by (auto simp: List.map_filter_def)
      then show ?thesis by (simp add: claimsIn_def)
    qed
    ultimately show ?thesis using cl(2) th by blast
  qed (use th in blast)
qed

text \<open>A name is remembered as unclaimed only when the chain said so. If a lookup adds a negative
  entry for a label, the full resolution reported not-found, and it did so either from a complete
  scan of the marker history or, when the scan was cut at 512 entries, because a claim was found
  that mints no token. A chain error or an inconclusive scan is never cached.\<close>

theorem negative_cache_definitive:
  assumes "ResolveOwner C ok V uni minConf now later name cache = (r, cache')"
    and "NormalizeName uni name = Inr label"
    and "map_of cache' label = Some e" "oeNotFound e" "map_of cache label \<noteq> Some e"
  shows "r = Inl ErrRegistryNotFound \<and> resolve C ok V minConf label = Inl ErrRegistryNotFound
     \<and> oeExpires e = later + notFoundCacheTTL
     \<and> (\<exists>tip history. BlockHeight V = Inr tip \<and> GetHistory V (scriptHash C (markerScript C label)) = Inr history
     \<and> (length history \<le> maxHistoryScan
         \<or> (\<exists>cl. cl \<in> set (claimsIn ok V label tip minConf history)
              \<and> (\<forall>category. genesisCategory (claimTx cl) = Some category \<longrightarrow>
                    currentCommitment C V (claimTxID cl) category = Inl ErrRegistryNotFound))))"
proof -
  have put: "map_of (cacheStore later label x cache) label = Some x" for x
    by (simp add: cacheStore_def Let_def update_conv')
  let ?neg = "\<lparr>oePubKey = [], oeNotFound = True, oeExpires = later + notFoundCacheTTL\<rparr>"
  let ?fresh = "case map_of cache label of None \<Rightarrow> None | Some e \<Rightarrow> if now < oeExpires e then Some e else None"
  have nf: "?fresh = None" and res: "resolve C ok V minConf label = Inl ErrRegistryNotFound"
    and out: "r = Inl ErrRegistryNotFound" "cache' = cacheStore later label ?neg cache"
  proof -
    show fresh: "?fresh = None"
    proof (rule ccontr)
      assume "?fresh \<noteq> None"
      with assms(1,2) have "cache' = cache" by (auto simp: ResolveOwner_def Let_def)
      with assms(3,5) show False by simp
    qed
    show "resolve C ok V minConf label = Inl ErrRegistryNotFound"
    proof (cases "resolve C ok V minConf label")
      case (Inl err)
      show ?thesis
      proof (rule ccontr)
        assume "resolve C ok V minConf label \<noteq> Inl ErrRegistryNotFound"
        with Inl assms(1,2) fresh have "cache' = cache"
          by (auto simp: ResolveOwner_def Let_def split: registryErr.splits)
        with assms(3,5) show False by simp
      qed
    next
      case (Inr pub)
      with assms(1,2) fresh have "cache' = cacheStore later label
          \<lparr>oePubKey = pub, oeNotFound = False, oeExpires = later + ownerCacheTTL\<rparr> cache"
        by (auto simp: ResolveOwner_def Let_def)
      with put assms(3,4) show ?thesis by auto
    qed
    with assms(1,2) fresh show "r = Inl ErrRegistryNotFound" "cache' = cacheStore later label ?neg cache"
      by (auto simp: ResolveOwner_def Let_def)
  qed
  from out(2) put [of ?neg] assms(3) have "e = ?neg" by simp
  with out(1) res resolve_notFound [OF res] show ?thesis by simp
qed

theorem negative_cache_definitive_witness:
  "resolve demoCrypto (\<lambda>_. True) (demoChain []) 1 ''zzz'' = Inl ErrRegistryNotFound"
proof -
  let ?V = "demoChain []"
  have h: "GetHistory ?V (scriptHash demoCrypto (markerScript demoCrypto ''zzz'')) = Inr []"
  proof -
    have "markerScript demoCrypto ''zzz'' \<noteq> markerScript demoCrypto ''abc''"
      by (simp add: markerScript_def markerPubKeyHash_def hash160_def demoCrypto_def p2pkhScript_def bytes_of_string_def)
    moreover have "sha256 demoCrypto (p2pkhScript h) = p2pkhScript h @ replicate 7 0" if "length h = 20" for h
      using that by (simp add: demoCrypto_def p2pkhScript_def)
    ultimately show ?thesis
      by (auto simp: demoChain_def scriptHash_def markerScript_def markerPubKeyHash_def)
  qed
  then have res: "resolve demoCrypto (\<lambda>_. True) ?V 1 ''zzz'' = Inl ErrRegistryNotFound"
    by (simp add: resolve_def demoChain_def)
  have n: "NormalizeName id ''zzz'' = Inr ''zzz''" by code_simp
  let ?neg = "\<lparr>oePubKey = [], oeNotFound = True, oeExpires = 7 + notFoundCacheTTL\<rparr>"
  have "ResolveOwner demoCrypto (\<lambda>_. True) ?V id 1 7 7 ''zzz'' [] = (Inl ErrRegistryNotFound, [(''zzz'', ?neg)])"
    by (simp add: ResolveOwner_def n res cacheStore_def evictOwners_small maxOwnerCacheEntries_def)
  from negative_cache_definitive [OF this n] show ?thesis by simp
qed

end
