(* ===== verification/Resolver.thy ===== *)
theory Resolver
  imports Publish Registry
begin

text \<open>
  Name resolution: \<open>internal/resolver/cache.go\<close> and \<open>resolve.go\<close>. The LRU is another module's
  (golang-lru), the record \<open>lruLib\<close>. Times are nanoseconds since the Unix epoch.
\<close>

section \<open>The cache\<close>

record cacheRecord =
  crRecords :: "RR list"
  crExpiresAt :: int

record 'c lruLib =
  lruNew :: "nat \<Rightarrow> 'c option"
  lruPeek :: "'c \<Rightarrow> string \<Rightarrow> cacheRecord option"
  lruGet :: "'c \<Rightarrow> string \<Rightarrow> cacheRecord option \<times> 'c"
  lruAdd :: "'c \<Rightarrow> string \<Rightarrow> cacheRecord \<Rightarrow> 'c"
  lruRemove :: "'c \<Rightarrow> string \<Rightarrow> 'c"
  lruLen :: "'c \<Rightarrow> nat"
  lruPurge :: "'c \<Rightarrow> 'c"

definition second :: int where "second = 10 ^ 9"
definition defaultCacheTTL :: int where "defaultCacheTTL = 5 * 60 * second"
definition cacheSize :: nat where "cacheSize = 100"

text \<open>\<open>time.Unix\<close> keeps seconds since year 1 in an \<open>int64\<close>, so a far-off EOL wraps into the past.\<close>

definition unixToInternal :: int where "unixToInternal = 62135596800"

definition unixTime :: "int \<Rightarrow> int" where
  "unixTime sec = (int64 (sec + unixToInternal) - unixToInternal) * second"

fun minTTL :: "32 word \<Rightarrow> RR list \<Rightarrow> 32 word" where
  "minTTL m [] = m"
| "minTTL m (rr # rrs) =
     minTTL (if rrTTL rr > 0 \<and> (m = 0 \<or> rrTTL rr < m) then rrTTL rr else m) rrs"

definition cacheTTL :: "RR list \<Rightarrow> int" where
  "cacheTTL rrs = (let m = minTTL 0 rrs in if m = 0 then defaultCacheTTL else int64 (uint m * second))"

definition NewMemoryCache :: "'c lruLib \<Rightarrow> 'c option" where
  "NewMemoryCache C = lruNew C cacheSize"

definition cacheGet :: "'c lruLib \<Rightarrow> int \<Rightarrow> string \<Rightarrow> 'c \<Rightarrow> RR list option \<times> 'c" where
  "cacheGet C now name c =
     (case lruGet C c name of
        (None, c') \<Rightarrow> (None, c')
      | (Some v, c') \<Rightarrow>
          if now > crExpiresAt v then (None, lruRemove C c' name) else (Some (crRecords v), c'))"

definition cacheAdd :: "'c lruLib \<Rightarrow> int \<Rightarrow> string \<Rightarrow> RR list \<Rightarrow> int \<Rightarrow> 'c \<Rightarrow> 'c" where
  "cacheAdd C now name rrs eol c =
     (let expiresAt = now + cacheTTL rrs;
          expiresAt' = (if eol > 0 \<and> unixTime eol < expiresAt then unixTime eol else expiresAt)
      in lruAdd C c name \<lparr>crRecords = rrs, crExpiresAt = expiresAt'\<rparr>)"

definition cacheExpire :: "'c lruLib \<Rightarrow> string \<Rightarrow> 'c \<Rightarrow> 'c" where
  "cacheExpire C name c = lruRemove C c name"

definition cacheLength :: "'c lruLib \<Rightarrow> 'c \<Rightarrow> nat" where
  "cacheLength C c = lruLen C c"

definition cacheClear :: "'c lruLib \<Rightarrow> 'c \<Rightarrow> 'c" where
  "cacheClear C c = lruPurge C c"

section \<open>The resolver\<close>

datatype resErr = ResName nameErr | ResRegistry registryErr | ResStore pubErr

text \<open>The registry is an object with its own state (the owner cache), or absent.\<close>

type_synonym 'r registry = "('r \<Rightarrow> string \<Rightarrow> (registryErr + bytes) \<times> 'r) option"

definition dhtKeyForName ::
    "hashlib \<Rightarrow> (string \<Rightarrow> string) \<Rightarrow> 'r registry \<Rightarrow> string \<Rightarrow> 'r \<Rightarrow> (resErr + string) \<times> 'r" where
  "dhtKeyForName H uni reg name r =
     (if \<not> IsBareName H uni name then
        (case DHTKeyForName uni name of Inl e \<Rightarrow> Inl (ResName e) | Inr k \<Rightarrow> Inr k, r)
      else case reg of
        None \<Rightarrow> (Inl (ResRegistry ErrRegistryNotFound), r)
      | Some ask \<Rightarrow>
          (case ask r name of
             (Inl e, r') \<Rightarrow> (Inl (ResRegistry e), r')
           | (Inr pub, r') \<Rightarrow>
               (case DHTKeyForPubKey H pub of Inl e \<Rightarrow> Inl (ResName e) | Inr k \<Rightarrow> Inr k, r')))"

text \<open>\<open>now\<close> is the clock of the cache lookup, \<open>later\<close> of the cache insertion.\<close>

definition Resolve ::
    "'c lruLib \<Rightarrow> hashlib \<Rightarrow> (string \<Rightarrow> string) \<Rightarrow> 'r registry \<Rightarrow> (string \<Rightarrow> pubErr + FNRecord)
      \<Rightarrow> int \<Rightarrow> int \<Rightarrow> string \<Rightarrow> 'c \<times> 'r \<Rightarrow> (resErr + RR list) \<times> 'c \<times> 'r" where
  "Resolve C H uni reg store now later name s =
     (let (c, r) = s; canonical = CanonicalName uni name in
      case cacheGet C now canonical c of
        (Some rrs, c') \<Rightarrow> (Inr rrs, c', r)
      | (None, c') \<Rightarrow>
          (case dhtKeyForName H uni reg canonical r of
             (Inl e, r') \<Rightarrow> (Inl e, c', r')
           | (Inr key, r') \<Rightarrow>
               (case store key of
                  Inl e \<Rightarrow> (Inl (ResStore e), c', r')
                | Inr rec \<Rightarrow>
                    (Inr (Records rec),
                     cacheAdd C later canonical (Records rec) (sint (EOL rec)) c', r'))))"

definition ResolveType ::
    "'c lruLib \<Rightarrow> hashlib \<Rightarrow> (string \<Rightarrow> string) \<Rightarrow> 'r registry \<Rightarrow> (string \<Rightarrow> pubErr + FNRecord)
      \<Rightarrow> int \<Rightarrow> int \<Rightarrow> string \<Rightarrow> string \<Rightarrow> 'c \<times> 'r \<Rightarrow> (resErr + RR list) \<times> 'c \<times> 'r" where
  "ResolveType C H uni reg store now later name recordType s =
     (case Resolve C H uni reg store now later name s of
        (Inl e, s') \<Rightarrow> (Inl e, s')
      | (Inr rrs, s') \<Rightarrow> (Inr (filter (\<lambda>rr. rrType rr = recordType) rrs), s'))"

section \<open>The documented behaviour of the LRU\<close>

inductive lruReach :: "'c lruLib \<Rightarrow> nat \<Rightarrow> 'c \<Rightarrow> bool" for C cap where
  lr_new: "lruNew C cap = Some c \<Longrightarrow> lruReach C cap c"
| lr_get: "lruReach C cap c \<Longrightarrow> lruReach C cap (snd (lruGet C c k))"
| lr_add: "lruReach C cap c \<Longrightarrow> lruReach C cap (lruAdd C c k v)"
| lr_remove: "lruReach C cap c \<Longrightarrow> lruReach C cap (lruRemove C c k)"
| lr_purge: "lruReach C cap c \<Longrightarrow> lruReach C cap (lruPurge C c)"

text \<open>A new cache is empty; \<open>Get\<close> answers what \<open>Peek\<close> shows and loses nothing; \<open>Add\<close> stores the
  value and may drop other keys only when the cache is full and the key is new; \<open>Remove\<close> and
  \<open>Purge\<close> drop the key and everything; \<open>Len\<close> counts the keys and stays within the capacity.\<close>

definition lruLib_ok :: "'c lruLib \<Rightarrow> nat \<Rightarrow> bool" where
  "lruLib_ok C cap \<longleftrightarrow>
     (\<forall>c. lruNew C cap = Some c \<longrightarrow> lruPeek C c = Map.empty) \<and>
     (\<forall>c. lruReach C cap c \<longrightarrow>
        finite (dom (lruPeek C c)) \<and> lruLen C c = card (dom (lruPeek C c)) \<and> lruLen C c \<le> cap \<and>
        lruPeek C (lruPurge C c) = Map.empty \<and>
        (\<forall>k. fst (lruGet C c k) = lruPeek C c k \<and> lruPeek C (snd (lruGet C c k)) = lruPeek C c
           \<and> lruPeek C (lruRemove C c k) = (lruPeek C c)(k := None)) \<and>
        (\<forall>k v. lruPeek C (lruAdd C c k v) k = Some v
           \<and> (\<forall>k'. k' \<noteq> k \<longrightarrow> lruPeek C (lruAdd C c k v) k' \<in> {lruPeek C c k', None})
           \<and> (lruPeek C c k \<noteq> None \<or> lruLen C c < cap \<longrightarrow>
                lruPeek C (lruAdd C c k v) = (lruPeek C c)(k \<mapsto> v))))"

definition cacheOk :: "'c lruLib \<Rightarrow> 'c \<Rightarrow> bool" where
  "cacheOk C c \<longleftrightarrow> lruLib_ok C cacheSize \<and> lruReach C cacheSize c"

lemma cacheOk_laws:
  assumes "cacheOk C c"
  shows "fst (lruGet C c k) = lruPeek C c k" "lruPeek C (snd (lruGet C c k)) = lruPeek C c"
    "lruPeek C (lruRemove C c k) = (lruPeek C c)(k := None)"
    "lruPeek C (lruAdd C c k v) k = Some v"
    "k' \<noteq> k \<Longrightarrow> lruPeek C (lruAdd C c k v) k' \<in> {lruPeek C c k', None}"
    "lruPeek C c k \<noteq> None \<or> card (dom (lruPeek C c)) < cacheSize \<Longrightarrow>
       lruPeek C (lruAdd C c k v) = (lruPeek C c)(k \<mapsto> v)"
    "lruPeek C (lruPurge C c) = Map.empty" "lruLen C c = card (dom (lruPeek C c))" "lruLen C c \<le> cacheSize"
    "finite (dom (lruPeek C c))"
  using assms unfolding cacheOk_def lruLib_ok_def by (metis, metis, metis, metis, metis, metis, metis, metis, metis, metis)

lemma cacheOk_closed:
  assumes "cacheOk C c"
  shows "cacheOk C (snd (lruGet C c k))" "cacheOk C (lruAdd C c k v)" "cacheOk C (lruRemove C c k)"
    "cacheOk C (lruPurge C c)"
  using assms by (auto simp: cacheOk_def intro: lruReach.intros)

section \<open>The interface of the cache\<close>

text \<open>What the resolver relies on: a hit returns an entry of the cache that is still alive, a lookup
  adds nothing, and an insertion adds only the entry it was asked to.\<close>

locale name_cache =
  fixes view :: "'s \<Rightarrow> string \<Rightarrow> (RR list \<times> int) option"
    and get :: "int \<Rightarrow> string \<Rightarrow> 's \<Rightarrow> RR list option \<times> 's"
    and add :: "int \<Rightarrow> string \<Rightarrow> RR list \<Rightarrow> int \<Rightarrow> 's \<Rightarrow> 's"
    and ok :: "'s \<Rightarrow> bool"
    and lifetime :: "int \<Rightarrow> RR list \<Rightarrow> int \<Rightarrow> int"
  assumes get_ok: "ok s \<Longrightarrow> ok (snd (get now n s))"
    and add_ok: "ok s \<Longrightarrow> ok (add now n rrs eol s)"
    and get_hit: "ok s \<Longrightarrow> get now n s = (Some rrs, s') \<Longrightarrow> \<exists>e. view s n = Some (rrs, e) \<and> now \<le> e"
    and get_view: "ok s \<Longrightarrow> view (snd (get now n s)) m = Some x \<Longrightarrow> view s m = Some x"
    and add_view: "ok s \<Longrightarrow> view (add now n rrs eol s) m = Some x \<Longrightarrow>
      (m = n \<and> x = (rrs, lifetime now rrs eol)) \<or> view s m = Some x"
begin

definition holds :: "(string \<Rightarrow> RR list \<Rightarrow> int \<Rightarrow> bool) \<Rightarrow> 's \<Rightarrow> bool" where
  "holds P s \<longleftrightarrow> ok s \<and> (\<forall>n rrs e. view s n = Some (rrs, e) \<longrightarrow> P n rrs e)"

lemma holds_get: "holds P s \<Longrightarrow> get now n s = (a, s') \<Longrightarrow> holds P s'"
  unfolding holds_def using get_ok get_view by (metis snd_conv)

lemma holds_add: "holds P s \<Longrightarrow> P n rrs (lifetime now rrs eol) \<Longrightarrow> holds P (add now n rrs eol s)"
  unfolding holds_def using add_ok add_view by (metis prod.inject)

lemma holds_hit: "holds P s \<Longrightarrow> get now n s = (Some rrs, s') \<Longrightarrow> \<exists>e. P n rrs e \<and> now \<le> e"
  unfolding holds_def using get_hit by blast

end

definition deadline :: "int \<Rightarrow> RR list \<Rightarrow> int \<Rightarrow> int" where
  "deadline t rrs eol =
     (if eol > 0 \<and> unixTime eol < t + cacheTTL rrs then unixTime eol else t + cacheTTL rrs)"

lemma cacheAdd_deadline:
  "cacheAdd C t n rrs eol c = lruAdd C c n \<lparr>crRecords = rrs, crExpiresAt = deadline t rrs eol\<rparr>"
  by (simp add: cacheAdd_def deadline_def Let_def)

definition entryView :: "'c lruLib \<Rightarrow> 'c \<Rightarrow> string \<Rightarrow> (RR list \<times> int) option" where
  "entryView C c n = map_option (\<lambda>v. (crRecords v, crExpiresAt v)) (lruPeek C c n)"

lemma cacheGet_effect:
  assumes ok: "cacheOk C c" and g: "cacheGet C now n c = (a, c')"
  shows "cacheOk C c'"
    and "entryView C c n = None \<Longrightarrow> a = None \<and> entryView C c' = entryView C c"
    and "entryView C c n = Some (rrs, e) \<Longrightarrow> now > e \<Longrightarrow>
           a = None \<and> entryView C c' = (entryView C c)(n := None)"
    and "entryView C c n = Some (rrs, e) \<Longrightarrow> \<not> now > e \<Longrightarrow> a = Some rrs \<and> entryView C c' = entryView C c"
proof -
  obtain p c1 where l: "lruGet C c n = (p, c1)" by (cases "lruGet C c n")
  then have p: "p = lruPeek C c n" and c1: "lruPeek C c1 = lruPeek C c" "cacheOk C c1"
    using cacheOk_laws(1,2) [OF ok, of n] cacheOk_closed(1) [OF ok, of n] by auto
  have v1: "entryView C c1 = entryView C c" by (rule ext) (simp add: entryView_def c1)
  have r: "cacheOk C (lruRemove C c1 n)" by (rule cacheOk_closed(3) [OF c1(2)])
  have vr: "entryView C (lruRemove C c1 n) = (entryView C c)(n := None)"
    by (rule ext) (simp add: entryView_def cacheOk_laws(3) [OF c1(2)] c1(1))
  show "cacheOk C c'" using g l c1(2) r by (auto simp: cacheGet_def split: option.splits if_splits)
  show "a = None \<and> entryView C c' = entryView C c" if "entryView C c n = None"
  proof -
    from that p have "p = None" by (simp add: entryView_def)
    with g l v1 show ?thesis by (simp add: cacheGet_def)
  qed
  fix rrs e assume e: "entryView C c n = Some (rrs, e)"
  then obtain v where v: "p = Some v" "crRecords v = rrs" "crExpiresAt v = e"
    using p by (auto simp: entryView_def)
  show "a = None \<and> entryView C c' = (entryView C c)(n := None)" if "now > e"
    using that g l v vr by (simp add: cacheGet_def)
  show "a = Some rrs \<and> entryView C c' = entryView C c" if "\<not> now > e"
    using that g l v v1 by (simp add: cacheGet_def)
qed

lemma cacheAdd_effect:
  assumes ok: "cacheOk C c"
  shows "cacheOk C (cacheAdd C t n rrs eol c)"
    and "entryView C (cacheAdd C t n rrs eol c) n = Some (rrs, deadline t rrs eol)"
    and "m \<noteq> n \<Longrightarrow> entryView C (cacheAdd C t n rrs eol c) m \<in> {entryView C c m, None}"
proof -
  let ?v = "\<lparr>crRecords = rrs, crExpiresAt = deadline t rrs eol\<rparr>"
  show "cacheOk C (cacheAdd C t n rrs eol c)"
    by (simp add: cacheAdd_deadline cacheOk_closed(2) [OF ok])
  show "entryView C (cacheAdd C t n rrs eol c) n = Some (rrs, deadline t rrs eol)"
    by (simp add: cacheAdd_deadline entryView_def cacheOk_laws(4) [OF ok])
  assume "m \<noteq> n"
  from cacheOk_laws(5) [OF ok this, of ?v] show "entryView C (cacheAdd C t n rrs eol c) m \<in> {entryView C c m, None}"
    unfolding cacheAdd_deadline entryView_def by fastforce
qed

text \<open>The memory cache is an object: the library's functions and the library's state.\<close>

interpretation mc: name_cache
  "\<lambda>(C, c). entryView C c"
  "\<lambda>now n (C, c). (fst (cacheGet C now n c), C, snd (cacheGet C now n c))"
  "\<lambda>now n rrs eol (C, c). (C, cacheAdd C now n rrs eol c)"
  "\<lambda>(C, c). cacheOk C c" deadline
proof
  fix s :: "'a lruLib \<times> 'a" and now n rrs eol m x s'
  obtain C c where s: "s = (C, c)" by (cases s)
  assume "case s of (C, c) \<Rightarrow> cacheOk C c"
  then have ok: "cacheOk C c" by (simp add: s)
  obtain a c' where g: "cacheGet C now n c = (a, c')" by (cases "cacheGet C now n c")
  note G = cacheGet_effect [OF ok g]
  show "case snd (case s of (C, c) \<Rightarrow> (fst (cacheGet C now n c), C, snd (cacheGet C now n c))) of
          (C, c) \<Rightarrow> cacheOk C c"
    using G(1) by (simp add: s g)
  show "case case s of (C, c) \<Rightarrow> (C, cacheAdd C now n rrs eol c) of (C, c) \<Rightarrow> cacheOk C c"
    using cacheAdd_effect(1) [OF ok] by (simp add: s)
  show "\<exists>e. (case s of (C, c) \<Rightarrow> entryView C c) n = Some (rrs, e) \<and> now \<le> e"
    if "(case s of (C, c) \<Rightarrow> (fst (cacheGet C now n c), C, snd (cacheGet C now n c))) = (Some rrs, s')"
  proof -
    from that have a: "a = Some rrs" by (simp add: s g)
    show ?thesis
    proof (cases "entryView C c n")
      case None
      with G(2) a show ?thesis by simp
    next
      case (Some y)
      obtain rs e where y: "y = (rs, e)" by (cases y)
      have "\<not> now > e" using G(3) [of rs e] Some y a by auto
      with G(4) [of rs e] Some y a show ?thesis by (simp add: s)
    qed
  qed
  show "(case s of (C, c) \<Rightarrow> entryView C c) m = Some x"
    if "(case snd (case s of (C, c) \<Rightarrow> (fst (cacheGet C now n c), C, snd (cacheGet C now n c))) of
            (C, c) \<Rightarrow> entryView C c) m = Some x"
  proof -
    from that have v: "entryView C c' m = Some x" by (simp add: s g)
    show ?thesis
    proof (cases "entryView C c n")
      case None
      with G(2) v show ?thesis by (simp add: s)
    next
      case (Some y)
      obtain rs e where y: "y = (rs, e)" by (cases y)
      show ?thesis
        using G(3,4) [of rs e] Some y v by (cases "now > e") (auto simp: s split: if_splits)
    qed
  qed
  show "m = n \<and> x = (rrs, deadline now rrs eol) \<or> (case s of (C, c) \<Rightarrow> entryView C c) m = Some x"
    if "(case case s of (C, c) \<Rightarrow> (C, cacheAdd C now n rrs eol c) of (C, c) \<Rightarrow> entryView C c) m = Some x"
    using that cacheAdd_effect(2) [OF ok, of now n rrs eol] cacheAdd_effect(3) [OF ok, of m n now rrs eol]
    by (cases "m = n") (auto simp: s)
qed

end
