(* ===== verification/ResolverProps.thy ===== *)
theory ResolverProps
  imports Resolver
begin

text \<open>
  What the resolver and its cache promise: the memory cache refines an expiring map, and every
  answer of the resolver comes from an unexpired record signed by the owner of the name.
\<close>

section \<open>Lifetimes\<close>

lemma minTTL_cases:
  "minTTL m rrs = m \<and> (m \<noteq> 0 \<or> (\<forall>rr \<in> set rrs. rrTTL rr = 0))
     \<or> minTTL m rrs \<noteq> 0 \<and> minTTL m rrs \<in> rrTTL ` set rrs"
proof (induction m rrs rule: minTTL.induct)
  case (2 m rr rrs)
  let ?m = "if rrTTL rr > 0 \<and> (m = 0 \<or> rrTTL rr < m) then rrTTL rr else m"
  show ?case
  proof (cases "rrTTL rr > 0 \<and> (m = 0 \<or> rrTTL rr < m)")
    case True
    with 2 show ?thesis by (auto simp: word_gt_0)
  next
    case False
    then have "m \<noteq> 0 \<or> rrTTL rr = 0" by (auto simp: word_gt_0)
    with 2 False show ?thesis by auto
  qed
qed simp

lemma minTTL_le: "m \<noteq> 0 \<Longrightarrow> minTTL m rrs \<le> m"
proof (induction m rrs rule: minTTL.induct)
  case (2 m rr rrs)
  then show ?case by (cases "rrTTL rr > 0 \<and> rrTTL rr < m") (auto simp: word_gt_0)
qed simp

lemma minTTL_least: "rr \<in> set rrs \<Longrightarrow> rrTTL rr \<noteq> 0 \<Longrightarrow> minTTL m rrs \<le> rrTTL rr"
proof (induction m rrs rule: minTTL.induct)
  case (2 m x rrs)
  let ?m = "if rrTTL x > 0 \<and> (m = 0 \<or> rrTTL x < m) then rrTTL x else m"
  show ?case
  proof (cases "rr = x")
    case True
    then have "?m \<noteq> 0 \<and> ?m \<le> rrTTL rr" using 2(3) by (auto simp: word_gt_0)
    then show ?thesis using minTTL_le [of ?m rrs] by (simp only: minTTL.simps) (meson order_trans)
  next
    case False
    with 2 show ?thesis by (simp only: minTTL.simps) auto
  qed
qed simp

text \<open>The lifetime a record set is meant to have: the smallest positive TTL, or five minutes.\<close>

definition lifetime :: "RR list \<Rightarrow> int" where
  "lifetime rrs =
     (let ts = filter (\<lambda>t. t \<noteq> 0) (map rrTTL rrs) in
      if ts = [] then 300 * second else uint (Min (set ts)) * second)"

lemma cacheTTL_lifetime: "cacheTTL rrs = lifetime rrs"
proof (cases "\<forall>rr \<in> set rrs. rrTTL rr = 0")
  case True
  then have "minTTL 0 rrs = 0" using minTTL_cases [of 0 rrs] by auto
  moreover have "filter (\<lambda>t. t \<noteq> 0) (map rrTTL rrs) = []"
    using True by (auto simp: filter_empty_conv)
  ultimately show ?thesis by (simp add: cacheTTL_def lifetime_def defaultCacheTTL_def)
next
  case False
  let ?ts = "filter (\<lambda>t. t \<noteq> 0) (map rrTTL rrs)" and ?m = "minTTL 0 rrs"
  have m: "?m \<noteq> 0" "?m \<in> rrTTL ` set rrs" using False minTTL_cases [of 0 rrs] by auto
  have ne: "?ts \<noteq> []" using False by (auto simp: filter_empty_conv)
  have "Min (set ?ts) = ?m"
  proof (rule Min_eqI)
    show "?m \<le> t" if "t \<in> set ?ts" for t using that minTTL_least by auto
    show "?m \<in> set ?ts" using m by auto
  qed simp
  moreover have "int64 (uint ?m * second) = uint ?m * second"
  proof (rule int64_id)
    have "uint ?m < 2 ^ 32" using uint_bounded [of ?m] by simp
    then show "uint ?m * second < 2 ^ 63" by (simp add: second_def)
    have "0 \<le> uint ?m * second" by (simp add: second_def)
    then show "- (2 ^ 63) \<le> uint ?m * second" by simp
  qed
  ultimately show ?thesis using m(1) ne by (simp add: cacheTTL_def lifetime_def Let_def)
qed

lemma unixTime_le: "0 < eol \<Longrightarrow> unixTime eol \<le> eol * second"
proof -
  assume "0 < eol"
  then have "int64 (eol + unixToInternal) \<le> eol + unixToInternal"
    using zmod_le_nonneg_dividend [of "eol + unixToInternal + 2 ^ 63" "2 ^ 64"]
    by (simp add: int64_def unixToInternal_def)
  then show ?thesis unfolding unixTime_def second_def by simp
qed

lemma unixTime_exact: "0 < eol \<Longrightarrow> eol < 2 ^ 62 \<Longrightarrow> unixTime eol = eol * second"
  unfolding unixTime_def by (subst int64_id) (simp_all add: unixToInternal_def)

section \<open>The cache as an expiring map\<close>

datatype cacheOp = OpGet int string | OpAdd int string "RR list" int | OpExpire string | OpClear

fun cacheStep :: "'c lruLib \<Rightarrow> cacheOp \<Rightarrow> 'c \<Rightarrow> 'c" where
  "cacheStep C (OpGet now n) c = snd (cacheGet C now n c)"
| "cacheStep C (OpAdd now n rrs eol) c = cacheAdd C now n rrs eol c"
| "cacheStep C (OpExpire n) c = cacheExpire C n c"
| "cacheStep C OpClear c = cacheClear C c"

text \<open>The specification remembers what was last added under a name, when, and its end of life;
  a lookup shows it while it is alive.\<close>

type_synonym nameSpec = "string \<rightharpoonup> RR list \<times> int \<times> int"

fun specStep :: "cacheOp \<Rightarrow> nameSpec \<Rightarrow> nameSpec" where
  "specStep (OpGet now n) m = m"
| "specStep (OpAdd now n rrs eol) m = m(n \<mapsto> (rrs, now, eol))"
| "specStep (OpExpire n) m = m(n := None)"
| "specStep OpClear m = Map.empty"

definition specLookup :: "int \<Rightarrow> string \<Rightarrow> nameSpec \<Rightarrow> RR list option" where
  "specLookup now n m =
     (case m n of None \<Rightarrow> None
      | Some (rrs, t, eol) \<Rightarrow>
          if now \<le> t + lifetime rrs \<and> (eol > 0 \<longrightarrow> now \<le> eol * second) then Some rrs else None)"

fun opNames :: "cacheOp \<Rightarrow> string set" where
  "opNames (OpAdd now n rrs eol) = {n}"
| "opNames op = {}"

lemma finite_opNames: "finite (opNames op)"
  by (cases op) simp_all

text \<open>A lookup by \<open>now\<close>, and an insertion whose end of life is a time the clock can represent.\<close>

fun opTimely :: "int \<Rightarrow> cacheOp \<Rightarrow> bool" where
  "opTimely now (OpGet t n) = (t \<le> now)"
| "opTimely now (OpAdd t n rrs eol) = (eol < 2 ^ 62)"
| "opTimely now op = True"

lemma deadline_alive:
  "now \<le> deadline t rrs eol \<Longrightarrow> now \<le> t + lifetime rrs \<and> (eol > 0 \<longrightarrow> now \<le> eol * second)"
  using unixTime_le [of eol] by (auto simp: deadline_def cacheTTL_lifetime split: if_splits)

lemma alive_deadline:
  "eol < 2 ^ 62 \<Longrightarrow> now \<le> t + lifetime rrs \<and> (eol > 0 \<longrightarrow> now \<le> eol * second) \<Longrightarrow> now \<le> deadline t rrs eol"
  using unixTime_exact [of eol] by (auto simp: deadline_def cacheTTL_lifetime)

definition simulates :: "'c lruLib \<Rightarrow> 'c \<Rightarrow> nameSpec \<Rightarrow> bool" where
  "simulates C c m \<longleftrightarrow> cacheOk C c \<and>
     (\<forall>n rrs e. entryView C c n = Some (rrs, e) \<longrightarrow>
        (\<exists>t eol. m n = Some (rrs, t, eol) \<and> e = deadline t rrs eol))"

text \<open>With room for all the names, what the specification shows at \<open>now\<close> is in the cache.\<close>

definition complete :: "'c lruLib \<Rightarrow> string set \<Rightarrow> int \<Rightarrow> 'c \<Rightarrow> nameSpec \<Rightarrow> bool" where
  "complete C names now c m \<longleftrightarrow> dom (entryView C c) \<subseteq> names \<and>
     (\<forall>n rrs t eol. m n = Some (rrs, t, eol) \<longrightarrow>
        eol < 2 ^ 62 \<and> (now \<le> deadline t rrs eol \<longrightarrow> entryView C c n = Some (rrs, deadline t rrs eol)))"

lemma entryView_dom: "dom (entryView C c) = dom (lruPeek C c)"
  by (auto simp: entryView_def)

lemma drop_effect:
  assumes "cacheOk C c"
  shows "cacheOk C (cacheExpire C n c)" "entryView C (cacheExpire C n c) = (entryView C c)(n := None)"
    "cacheOk C (cacheClear C c)" "entryView C (cacheClear C c) = Map.empty"
  using cacheOk_closed(3,4) [OF assms] cacheOk_laws(3,7) [OF assms]
  by (auto simp: cacheExpire_def cacheClear_def entryView_def)

lemma add_room:
  assumes ok: "cacheOk C c" and d: "dom (entryView C c) \<subseteq> names" and fin: "finite names"
    and cap: "card names \<le> cacheSize" and n: "n \<in> names"
  shows "entryView C (cacheAdd C t n rrs eol c) = (entryView C c)(n \<mapsto> (rrs, deadline t rrs eol))"
proof -
  have "lruPeek C c n \<noteq> None \<or> card (dom (lruPeek C c)) < cacheSize"
  proof (cases "lruPeek C c n")
    case None
    then have "dom (lruPeek C c) \<subset> names" using d n by (auto simp: entryView_dom)
    with fin have "card (dom (lruPeek C c)) < card names" by (rule psubset_card_mono)
    with cap show ?thesis by simp
  qed simp
  from cacheOk_laws(6) [OF ok this] show ?thesis
    by (auto simp: cacheAdd_deadline entryView_def)
qed

lemma simulates_step:
  assumes sim: "simulates C c m"
  shows "simulates C (cacheStep C op c) (specStep op m)"
proof -
  from sim have ok: "cacheOk C c" by (simp add: simulates_def)
  show ?thesis
  proof (cases op)
    case (OpGet now n)
    obtain a c' where g: "cacheGet C now n c = (a, c')" by (cases "cacheGet C now n c")
    have "entryView C c' k = Some x \<Longrightarrow> entryView C c k = Some x" for k x
    proof (cases "entryView C c n")
      case None
      then show "entryView C c' k = Some x \<Longrightarrow> entryView C c k = Some x"
        using cacheGet_effect(2) [OF ok g] by simp
    next
      case (Some y)
      then show "entryView C c' k = Some x \<Longrightarrow> entryView C c k = Some x"
        using cacheGet_effect(3,4) [OF ok g, of "fst y" "snd y"]
        by (cases "now > snd y") (auto split: if_splits)
    qed
    with sim cacheGet_effect(1) [OF ok g] show ?thesis
      unfolding simulates_def by (simp add: OpGet g)
  next
    case (OpAdd t n rrs eol)
    show ?thesis
      unfolding simulates_def OpAdd cacheStep.simps specStep.simps
    proof (intro conjI allI impI)
      fix k rs e assume k: "entryView C (cacheAdd C t n rrs eol c) k = Some (rs, e)"
      show "\<exists>t' eol'. (m(n \<mapsto> (rrs, t, eol))) k = Some (rs, t', eol') \<and> e = deadline t' rs eol'"
      proof (cases "k = n")
        case True
        with k cacheAdd_effect(2) [OF ok, of t n rrs eol] show ?thesis by auto
      next
        case False
        with k cacheAdd_effect(3) [OF ok False, of t rrs eol] have "entryView C c k = Some (rs, e)" by auto
        with sim False show ?thesis by (simp add: simulates_def)
      qed
    qed (rule cacheAdd_effect(1) [OF ok])
  qed (use sim drop_effect [OF ok] in \<open>auto simp: simulates_def\<close>)
qed

lemma complete_step:
  assumes com: "complete C names now c m" and ok: "cacheOk C c"
    and fin: "finite names" and cap: "card names \<le> cacheSize"
    and op: "opNames op \<subseteq> names" "opTimely now op"
  shows "complete C names now (cacheStep C op c) (specStep op m)"
proof (cases op)
  case (OpGet t n)
  obtain a c' where g: "cacheGet C t n c = (a, c')" by (cases "cacheGet C t n c")
  have t: "t \<le> now" using op(2) OpGet by simp
  show ?thesis
  proof (cases "\<exists>rrs e. entryView C c n = Some (rrs, e) \<and> t > e")
    case True
    then obtain rrs e where e: "entryView C c n = Some (rrs, e)" "t > e" by blast
    from cacheGet_effect(3) [OF ok g e] have v: "entryView C c' = (entryView C c)(n := None)" by simp
    have gone: "\<not> now \<le> deadline t' rs eol" if "m n = Some (rs, t', eol)" for rs t' eol
      using com e t that unfolding complete_def by fastforce
    show ?thesis
      unfolding complete_def OpGet cacheStep.simps specStep.simps g snd_conv v
    proof (intro conjI allI impI)
      show "dom ((entryView C c)(n := None)) \<subseteq> names" using com by (auto simp: complete_def)
      fix k rs t' eol assume k: "m k = Some (rs, t', eol)"
      with com show "eol < 2 ^ 62" by (simp add: complete_def)
      assume "now \<le> deadline t' rs eol"
      with k com gone [of rs t' eol]
      show "((entryView C c)(n := None)) k = Some (rs, deadline t' rs eol)"
        by (cases "k = n") (simp_all add: complete_def)
    qed
  next
    case False
    have "entryView C c' = entryView C c"
    proof (cases "entryView C c n")
      case None
      then show ?thesis using cacheGet_effect(2) [OF ok g] by simp
    next
      case (Some y)
      with False have "\<not> t > snd y" by (metis prod.collapse)
      then show ?thesis using cacheGet_effect(4) [OF ok g, of "fst y" "snd y"] Some by simp
    qed
    with com show ?thesis by (simp add: complete_def OpGet g)
  qed
next
  case (OpAdd t n rrs eol)
  have "dom (entryView C c) \<subseteq> names" "n \<in> names" "eol < 2 ^ 62"
    using com op OpAdd by (auto simp: complete_def)
  with com add_room [OF ok _ fin cap, of n t rrs eol] show ?thesis
    by (auto simp: complete_def OpAdd)
qed (use com drop_effect [OF ok] in \<open>auto simp: complete_def\<close>)

lemma simulates_run: "simulates C c m \<Longrightarrow> simulates C (fold (cacheStep C) ops c) (fold specStep ops m)"
  by (induction ops arbitrary: c m) (auto intro: simulates_step)

lemma complete_run:
  assumes "finite names" "card names \<le> cacheSize"
  shows "simulates C c m \<Longrightarrow> complete C names now c m \<Longrightarrow> \<Union> (opNames ` set ops) \<subseteq> names
    \<Longrightarrow> list_all (opTimely now) ops
    \<Longrightarrow> complete C names now (fold (cacheStep C) ops c) (fold specStep ops m)"
proof (induction ops arbitrary: c m)
  case (Cons op ops)
  have "cacheOk C c" using Cons.prems(1) by (simp add: simulates_def)
  from complete_step [OF Cons.prems(2) this assms, of op] Cons.prems(3,4)
  have "complete C names now (cacheStep C op c) (specStep op m)" by simp
  with Cons.IH [OF simulates_step [OF Cons.prems(1)], of op] Cons.prems(3,4) show ?case by simp
qed simp

section \<open>Authentic answers\<close>

text \<open>A record vouches for a canonical name: its signature verifies, and it is the owner's, whose key
  is in the name or, for a bare name, was the registry's answer (\<open>Own\<close>).\<close>

definition vouches ::
    "recordLib \<Rightarrow> (string \<Rightarrow> string) \<Rightarrow> (string \<Rightarrow> bytes \<Rightarrow> bool) \<Rightarrow> string \<Rightarrow> FNRecord \<Rightarrow> bool" where
  "vouches L uni Own name r \<longleftrightarrow>
     (\<exists>pub. unmarshalPub L (PubKey r) = Some pub \<and> pubVerify L pub (canonicalBytes r) (Sig r) = Some True)
     \<and> (if IsBareName (hashes L) uni name then
          \<exists>pub. Own name pub \<and> isOk (PubKeyID (hashes L) pub)
            \<and> PubKeyID (hashes L) (PubKey r) = PubKeyID (hashes L) pub
        else \<exists>label keyID. ParseName uni name = Inr (label, keyID)
            \<and> PubKeyID (hashes L) (PubKey r) = Inr keyID)"

definition authentic ::
    "recordLib \<Rightarrow> (string \<Rightarrow> string) \<Rightarrow> (string \<Rightarrow> bytes \<Rightarrow> bool) \<Rightarrow> string \<Rightarrow> RR list \<Rightarrow> int \<Rightarrow> bool" where
  "authentic L uni Own name rrs until \<longleftrightarrow>
     (\<exists>r. rrs = Records r \<and> vouches L uni Own name r
        \<and> (EOL r \<noteq> 0 \<longrightarrow> 0 < sint (EOL r) \<and> until \<le> sint (EOL r) * second))"

text \<open>The store answers only with records the validator accepted: the DHT checks what it returns.\<close>

definition storeValid :: "recordLib \<Rightarrow> int \<Rightarrow> (string \<Rightarrow> pubErr + FNRecord) \<Rightarrow> bool" where
  "storeValid L now store \<longleftrightarrow>
     (\<forall>key r. store key = Inr r \<longrightarrow>
        (\<exists>val. recDecode L val = Some r \<and> Validate L now key val = Inr ()))"

definition dhtValidates :: "recordLib \<Rightarrow> int \<Rightarrow> dhtNet \<Rightarrow> bool" where
  "dhtValidates L now D \<longleftrightarrow> (\<forall>ps key v. dhtGet D ps key = Inr v \<longrightarrow> Validate L now key v = Inr ())"

lemma node_storeValid: "dhtValidates L now D \<Longrightarrow> storeValid L now (ResolveRecord L D n ps)"
  by (auto simp: storeValid_def dhtValidates_def ResolveRecord_def split: if_splits sum.splits option.splits)

lemma Validate_facts:
  assumes "recordLib_ok L" and "Validate L now (''/'' @ dhtNamespace @ ''/'' @ i) val = Inr ()"
    and "recDecode L val = Some r"
  shows "PubKeyID (hashes L) (PubKey r) = Inr i"
    and "\<exists>pub. unmarshalPub L (PubKey r) = Some pub \<and> pubVerify L pub (canonicalBytes r) (Sig r) = Some True"
    and "EOL r = 0 \<or> now \<le> sint (EOL r)"
proof -
  have "splitKey L (''/'' @ dhtNamespace @ ''/'' @ i) = Some (dhtNamespace, i)"
    by (rule recordLib_ok_splitKey [OF assms(1)]) (simp_all add: dhtNamespace_def)
  with assms have v: "PubKeyID (hashes L) (PubKey r) = Inr i" "Verify L now r = Inr ()"
    by (auto simp: Validate_def split: sum.splits if_splits)
  then show "PubKeyID (hashes L) (PubKey r) = Inr i"
    and "\<exists>pub. unmarshalPub L (PubKey r) = Some pub \<and> pubVerify L pub (canonicalBytes r) (Sig r) = Some True"
    and "EOL r = 0 \<or> now \<le> sint (EOL r)"
    by (auto simp: Verify_def split: option.splits if_splits bool.splits)
qed

text \<open>The key looked up determines who may have signed the answer.\<close>

lemma dhtKeyForName_vouches:
  assumes L: "recordLib_ok L" and k: "dhtKeyForName (hashes L) uni reg name r0 = (Inr key, r1)"
    and reg: "\<And>ask r pub r'. reg = Some ask \<Longrightarrow> ask r name = (Inr pub, r') \<Longrightarrow> Own name pub"
    and st: "storeValid L now store" and r: "store key = Inr r"
  shows "vouches L uni Own name r \<and> (EOL r = 0 \<or> now \<le> sint (EOL r))"
proof -
  from st r obtain val where val: "recDecode L val = Some r" "Validate L now key val = Inr ()"
    unfolding storeValid_def by blast
  show ?thesis
  proof (cases "IsBareName (hashes L) uni name")
    case False
    with k have "DHTKeyForName uni name = Inr key"
      by (auto simp: dhtKeyForName_def split: sum.splits)
    then obtain label i where p: "ParseName uni name = Inr (label, i)"
      and key: "key = ''/'' @ dhtNamespace @ ''/'' @ i"
      by (auto simp: DHTKeyForName_def bindR_Inr_iff)
    from Validate_facts [OF L val(2) [unfolded key] val(1)] p False show ?thesis
      by (auto simp: vouches_def)
  next
    case True
    with k obtain ask pub r' where a: "reg = Some ask" "ask r0 name = (Inr pub, r')"
        "DHTKeyForPubKey (hashes L) pub = Inr key"
      by (auto simp: dhtKeyForName_def split: sum.splits option.splits prod.splits)
    then obtain i where i: "PubKeyID (hashes L) pub = Inr i" and key: "key = ''/'' @ dhtNamespace @ ''/'' @ i"
      by (auto simp: DHTKeyForPubKey_def bindR_Inr_iff)
    from reg [OF a(1,2)] Validate_facts [OF L val(2) [unfolded key] val(1)] i True show ?thesis
      by (auto simp: vouches_def)
  qed
qed

text \<open>One call, on a cache all of whose entries are authentic. The store's validator runs no earlier
  than the cache lookup; \<open>now div second\<close> is its clock.\<close>

lemma Resolve_authentic:
  assumes L: "recordLib_ok L" and hold: "mc.holds (authentic L uni Own) (C, c)"
    and reg: "\<And>ask r n pub r'. reg = Some ask \<Longrightarrow> ask r n = (Inr pub, r') \<Longrightarrow> Own n pub"
    and st: "storeValid L (now div second) store" and now: "0 \<le> now"
    and res: "Resolve C (hashes L) uni reg store now later name (c, r) = (a, c', r')"
  shows "mc.holds (authentic L uni Own) (C, c')"
    and "a = Inr rrs \<Longrightarrow> \<exists>rec. rrs = Records rec \<and> vouches L uni Own (CanonicalName uni name) rec
       \<and> (EOL rec \<noteq> 0 \<longrightarrow> now div second \<le> sint (EOL rec))"
proof -
  let ?n = "CanonicalName uni name"
  obtain g c1 where g: "cacheGet C now ?n c = (g, c1)" by (cases "cacheGet C now ?n c")
  have h1: "mc.holds (authentic L uni Own) (C, c1)"
    by (rule mc.holds_get [OF hold, of now ?n g]) (simp add: g)
  have "mc.holds (authentic L uni Own) (C, c') \<and> (a = Inr rrs \<longrightarrow>
      (\<exists>rec. rrs = Records rec \<and> vouches L uni Own ?n rec \<and> (EOL rec \<noteq> 0 \<longrightarrow> now div second \<le> sint (EOL rec))))"
  proof (cases g)
    case (Some rs)
    then have a: "a = Inr rs" "c' = c1" using res g by (auto simp: Resolve_def)
    have "(case (C, c) of (C, c) \<Rightarrow> (fst (cacheGet C now ?n c), C, snd (cacheGet C now ?n c))) = (Some rs, C, c1)"
      by (simp add: g Some)
    from mc.holds_hit [OF hold this] obtain e where e: "authentic L uni Own ?n rs e" "now \<le> e" by blast
    then obtain rec where rec: "rs = Records rec" "vouches L uni Own ?n rec"
        "EOL rec \<noteq> 0 \<longrightarrow> e \<le> sint (EOL rec) * second" unfolding authentic_def by blast
    have "now div second \<le> sint (EOL rec)" if "EOL rec \<noteq> 0"
    proof -
      have "now \<le> sint (EOL rec) * second" using that rec(3) e(2) by simp
      then have "now div second \<le> sint (EOL rec) * second div second"
        by (rule zdiv_mono1) (simp add: second_def)
      then show ?thesis by (simp add: second_def)
    qed
    with rec a h1 show ?thesis by auto
  next
    case None
    obtain d r1 where d: "dhtKeyForName (hashes L) uni reg ?n r = (d, r1)"
      by (cases "dhtKeyForName (hashes L) uni reg ?n r")
    show ?thesis
    proof (cases "\<exists>key rec. d = Inr key \<and> store key = Inr rec")
      case False
      then have "c' = c1 \<and> (\<exists>e. a = Inl e)"
        using res g None d by (auto simp: Resolve_def split: sum.splits)
      with h1 show ?thesis by auto
    next
      case True
      then obtain key rec where k: "d = Inr key" "store key = Inr rec" by blast
      then have c': "c' = cacheAdd C later ?n (Records rec) (sint (EOL rec)) c1" "a = Inr (Records rec)"
        using res g None d by (auto simp: Resolve_def)
      from dhtKeyForName_vouches [OF L d [unfolded k] _ st k(2), of Own] reg
      have v: "vouches L uni Own ?n rec" "EOL rec = 0 \<or> now div second \<le> sint (EOL rec)" by blast+
      have "0 < sint (EOL rec)" if "EOL rec \<noteq> 0"
      proof -
        have "0 \<le> sint (EOL rec)"
          using v(2) that now pos_imp_zdiv_nonneg_iff [of second now] by (simp add: second_def)
        moreover have "sint (EOL rec) \<noteq> 0" using that by (metis sint_eq_iff signed_0)
        ultimately show ?thesis by simp
      qed
      with v have "authentic L uni Own ?n (Records rec) (deadline later (Records rec) (sint (EOL rec)))"
        unfolding authentic_def using deadline_alive by blast
      from mc.holds_add [OF h1 this] c' v show ?thesis by auto
    qed
  qed
  then show "mc.holds (authentic L uni Own) (C, c')"
    and "a = Inr rrs \<Longrightarrow> \<exists>rec. rrs = Records rec \<and> vouches L uni Own ?n rec
       \<and> (EOL rec \<noteq> 0 \<longrightarrow> now div second \<le> sint (EOL rec))" by blast+
qed

section \<open>Runs of the resolver\<close>

text \<open>A step is a lookup, with whatever network, registry and clock it meets, or an eviction.\<close>

datatype resolverLabel = LResolve int string "resErr + RR list" | LExpire string | LClear

inductive resolverStep ::
    "'c lruLib \<Rightarrow> recordLib \<Rightarrow> (string \<Rightarrow> string) \<Rightarrow> (string \<Rightarrow> bytes \<Rightarrow> bool)
      \<Rightarrow> 'c \<times> 'r \<Rightarrow> resolverLabel \<Rightarrow> 'c \<times> 'r \<Rightarrow> bool" for C L uni Own where
  rs_resolve: "(\<And>ask r n pub r'. reg = Some ask \<Longrightarrow> ask r n = (Inr pub, r') \<Longrightarrow> Own n pub)
    \<Longrightarrow> storeValid L (now div second) store \<Longrightarrow> 0 \<le> now
    \<Longrightarrow> Resolve C (hashes L) uni reg store now later name s = (a, s')
    \<Longrightarrow> resolverStep C L uni Own s (LResolve now name a) s'"
| rs_expire: "resolverStep C L uni Own (c, r) (LExpire name) (cacheExpire C name c, r)"
| rs_clear: "resolverStep C L uni Own (c, r) LClear (cacheClear C c, r)"


definition resolverInv ::
    "'c lruLib \<Rightarrow> recordLib \<Rightarrow> (string \<Rightarrow> string) \<Rightarrow> (string \<Rightarrow> bytes \<Rightarrow> bool) \<Rightarrow> 'c \<times> 'r \<Rightarrow> bool" where
  "resolverInv C L uni Own s \<longleftrightarrow> recordLib_ok L \<and> mc.holds (authentic L uni Own) (C, fst s)"

lemma holds_drop:
  assumes "mc.holds P (C, c)"
  shows "mc.holds P (C, cacheExpire C n c)" "mc.holds P (C, cacheClear C c)"
proof -
  from assms have ok: "cacheOk C c" and P: "\<And>n rrs e. entryView C c n = Some (rrs, e) \<Longrightarrow> P n rrs e"
    by (auto simp: mc.holds_def)
  show "mc.holds P (C, cacheExpire C n c)"
    using drop_effect(1,2) [OF ok, of n] P by (auto simp: mc.holds_def)
  show "mc.holds P (C, cacheClear C c)"
    using drop_effect(3,4) [OF ok] by (simp add: mc.holds_def)
qed

interpretation resolver_ts: transition_system
  "resolverStep C L uni Own" "resolverInv C L uni Own" for C L uni Own
proof
  fix s :: "'a \<times> 'b" and l t
  assume inv: "resolverInv C L uni Own s" and st: "resolverStep C L uni Own s l t"
  from st show "resolverInv C L uni Own t"
  proof (cases rule: resolverStep.cases)
    case (rs_resolve reg now store later name a)
    obtain c r c' r' where s: "s = (c, r)" "t = (c', r')" by (cases s; cases t)
    show ?thesis
      using Resolve_authentic(1) [OF _ _ rs_resolve(2) rs_resolve(3) rs_resolve(4) rs_resolve(5) [unfolded s]] inv
      by (simp add: resolverInv_def s)
  qed (use inv holds_drop in \<open>auto simp: resolverInv_def\<close>)
qed

lemma new_cache_holds:
  assumes "lruLib_ok C cacheSize" and "NewMemoryCache C = Some c"
  shows "mc.holds P (C, c)" "cacheOk C c" "entryView C c = Map.empty"
proof -
  from assms have "lruReach C cacheSize c" "lruPeek C c = Map.empty"
    by (auto simp: NewMemoryCache_def lruLib_ok_def intro: lr_new)
  then show "cacheOk C c" "entryView C c = Map.empty"
    using assms by (auto simp: cacheOk_def entryView_def)
  then show "mc.holds P (C, c)"
    using mc.holds_def [where P = P and s = "(C, c)"] by simp
qed

section \<open>A concrete cache and a name\<close>

definition demoLru :: "(string \<times> cacheRecord) list lruLib" where
  "demoLru =
     \<lparr>lruNew = (\<lambda>n. Some []), lruPeek = map_of, lruGet = (\<lambda>c k. (map_of c k, c)),
      lruAdd = (\<lambda>c k v. take cacheSize ((k, v) # filter (\<lambda>e. fst e \<noteq> k) c)),
      lruRemove = (\<lambda>c k. filter (\<lambda>e. fst e \<noteq> k) c), lruLen = length, lruPurge = (\<lambda>c. [])\<rparr>"

lemma demoLru_reach: "lruReach demoLru cacheSize c \<Longrightarrow> distinct (map fst c) \<and> length c \<le> cacheSize"
proof (induction rule: lruReach.induct)
  case (lr_add c k v)
  have "distinct (map fst ((k, v) # filter (\<lambda>e. fst e \<noteq> k) c))"
    using lr_add distinct_map_filter [of fst c "\<lambda>e. fst e \<noteq> k"] by auto
  then have "distinct (take cacheSize (map fst ((k, v) # filter (\<lambda>e. fst e \<noteq> k) c)))" by (rule distinct_take)
  then show ?case unfolding take_map by (simp add: demoLru_def)
next
  case (lr_remove c k)
  then show ?case
    using distinct_map_filter [of fst c "\<lambda>e. fst e \<noteq> k"] length_filter_le [of "\<lambda>e. fst e \<noteq> k" c]
    by (simp add: demoLru_def del: length_filter_le)
qed (simp_all add: demoLru_def)

lemma map_of_others: "map_of (filter (\<lambda>e. fst e \<noteq> k) c) = (map_of c)(k := None)"
  by (induction c) auto

lemma map_of_take: "map_of (take n xs) k \<in> {map_of xs k, None}"
proof (induction xs arbitrary: n)
  case (Cons x xs)
  then show ?case by (cases n) auto
qed simp

lemma demoLru_ok: "lruLib_ok demoLru cacheSize"
  unfolding lruLib_ok_def
proof (intro conjI allI impI)
  fix c :: "(string \<times> cacheRecord) list" and k v k'
  assume r: "lruReach demoLru cacheSize c"
  note d = demoLru_reach [OF r]
  show "finite (dom (lruPeek demoLru c))" by (simp add: demoLru_def finite_dom_map_of)
  show "lruLen demoLru c = card (dom (lruPeek demoLru c))"
    using d by (simp add: demoLru_def dom_map_of_conv_image_fst distinct_card flip: set_map)
  show "lruLen demoLru c \<le> cacheSize" using d by (simp add: demoLru_def)
  show "lruPeek demoLru (lruAdd demoLru c k v) k = Some v"
    by (simp add: demoLru_def cacheSize_def take_Cons')
  show "lruPeek demoLru (lruAdd demoLru c k v) k' \<in> {lruPeek demoLru c k', None}" if "k' \<noteq> k"
  proof -
    have "map_of (take cacheSize ((k, v) # filter (\<lambda>e. fst e \<noteq> k) c)) k'
        \<in> {map_of ((k, v) # filter (\<lambda>e. fst e \<noteq> k) c) k', None}" by (rule map_of_take)
    with that show ?thesis by (simp add: demoLru_def map_of_others)
  qed
  show "lruPeek demoLru (lruAdd demoLru c k v) = (lruPeek demoLru c)(k \<mapsto> v)"
    if "lruPeek demoLru c k \<noteq> None \<or> lruLen demoLru c < cacheSize"
  proof -
    have "length (filter (\<lambda>e. fst e \<noteq> k) c) < cacheSize"
    proof (cases "map_of c k")
      case None
      with that have "length c < cacheSize" by (simp add: demoLru_def)
      then show ?thesis by (rule le_less_trans [OF length_filter_le])
    next
      case (Some w)
      then have "(k, w) \<in> set c" by (rule map_of_SomeD)
      then have "length (filter (\<lambda>e. fst e \<noteq> k) c) < length c" by (rule length_filter_less) simp
      with d show ?thesis by simp
    qed
    then have "take cacheSize ((k, v) # filter (\<lambda>e. fst e \<noteq> k) c) = (k, v) # filter (\<lambda>e. fst e \<noteq> k) c"
      by simp
    then show ?thesis by (simp add: demoLru_def map_of_others)
  qed
qed (simp_all add: demoLru_def map_of_others)

definition demoDHT :: "int \<Rightarrow> dhtNet" where
  "demoDHT now =
     demoPutNet\<lparr>dhtGet := \<lambda>ps k. case map_of (rev ps) k of None \<Rightarrow> Inl DHTNotFound
       | Some v \<Rightarrow> if Validate demoLib now k v = Inr () then Inr v else Inl DHTFailed\<rparr>"

lemma demoDHT_validates: "dhtValidates demoLib now (demoDHT now)"
  by (auto simp: dhtValidates_def demoDHT_def split: option.splits if_splits)

lemma demo_verifies:
  assumes "now \<le> 605800"
  shows "Verify demoLib now (demoRec 1) = Inr ()"
proof -
  obtain r0 where s: "Sign demoLib [9] r0 = Inr (demoRec 1)"
    using demo_built by (auto simp: BuildAndSignRecord_def)
  from Sign_Inr [OF s] have "EOL r0 = EOL (demoRec 1)"
    "ValidateRecords (hashes demoLib) r0 = ValidateRecords (hashes demoLib) (demoRec 1)"
    by (auto simp: ValidateRecords_def)
  then show ?thesis
    using Sign_verifies [OF demoLib_ok s, of now] assms by (simp add: demo_valid demo_EOL)
qed

text \<open>The name of the key \<open>[1, 9]\<close>, and its record in the DHT.\<close>

lemma demo_name:
  obtains name key where "CanonicalName id name = name"
    "dhtKeyForName demoHashlib id (None :: unit registry) name () = (Inr key, ())"
    "\<exists>i. key = ''/'' @ dhtNamespace @ ''/'' @ i \<and> PubKeyID demoHashlib [1, 9] = Inr i" "name \<noteq> []"
proof -
  from PubKeyID_ok [OF demoHashlib_ok, of "[1, 9]"] obtain i where
    i: "PubKeyID demoHashlib [1, 9] = Inr i" "IsPubKeyID demoHashlib i" "i \<noteq> []" "list_all alnumLower i" by blast
  let ?name = "''mysite'' @ ''.'' @ i @ ''.'' @ TLD" and ?key = "''/'' @ dhtNamespace @ ''/'' @ i"
  have low: "map lowerChar ''mysite'' = ''mysite''" by code_simp
  have "isASCII ''mysite''" by code_simp
  from CanonicalName_full [OF this i(4), of ?name id] have can: "CanonicalName id ?name = ?name"
    unfolding low by blast
  from ParseName_parts [OF can _ i(3) alnumLower_no_dot [OF i(4)]]
  have p: "ParseName id ?name = Inr (''mysite'', i)" by simp
  then have b: "\<not> IsBareName demoHashlib id ?name" by (simp add: IsBareName_def i)
  have "DHTKeyForName id ?name = Inr ?key" unfolding DHTKeyForName_def p by simp
  with b have k: "dhtKeyForName demoHashlib id (None :: unit registry) ?name () = (Inr ?key, ())"
    by (simp only: dhtKeyForName_def if_True simp_thms sum.case)
  from that [OF can k] i(1) show thesis by blast
qed

lemma demo_resolves:
  obtains name key where "CanonicalName id name = name"
    "dhtKeyForName demoHashlib id (None :: unit registry) name () = (Inr key, ())"
    "ResolveRecord demoLib (demoDHT 2000) \<lparr>kadDHT = True, owned = []\<rparr> [(key, [1])] key = Inr (demoRec 1)"
proof -
  have H: "hashes demoLib = demoHashlib" by (simp add: demoLib_def)
  obtain name key where n: "CanonicalName id name = name"
    "dhtKeyForName demoHashlib id (None :: unit registry) name () = (Inr key, ())"
    "\<exists>i. key = ''/'' @ dhtNamespace @ ''/'' @ i \<and> PubKeyID demoHashlib [1, 9] = Inr i"
    by (rule demo_name)
  from n(3) obtain i where i: "key = ''/'' @ dhtNamespace @ ''/'' @ i" "PubKeyID demoHashlib [1, 9] = Inr i" by blast
  have sk: "splitKey demoLib key = Some (dhtNamespace, i)"
    unfolding i(1) by (rule recordLib_ok_splitKey [OF demoLib_ok]) (simp_all add: dhtNamespace_def)
  have pk: "PubKey (demoRec 1) = [1, 9]" by (simp add: demoRec_def Let_def)
  have "Validate demoLib 2000 key [1] = Inr ()"
    by (simp only: Validate_def sk demo_decode pk H i(2) option.case prod.case sum.case simp_thms if_False)
      (rule demo_verifies, simp)
  then have "ResolveRecord demoLib (demoDHT 2000) \<lparr>kadDHT = True, owned = []\<rparr> [(key, [1])] key = Inr (demoRec 1)"
    by (simp add: ResolveRecord_def demoDHT_def demo_decode)
  from that [OF n(1,2) this] show thesis .
qed

section \<open>Properties\<close>

text \<open>C19: the memory cache refines an expiring map. After any history of lookups, insertions,
  evictions and clearings a hit returns exactly the records last added under that name, within
  the smallest positive TTL among them (five minutes if there is none) and not past the record's
  signed end of life; at most 100 names are kept. If no more than 100 names were ever added and no
  lookup looked into the future, the cache answers exactly what the map does.\<close>

theorem cache_refines_expiring_map:
  assumes C: "lruLib_ok C 100" and new: "NewMemoryCache C = Some c0"
    and c: "c = fold (cacheStep C) ops c0" and m: "m = fold specStep ops Map.empty"
  shows "(fst (cacheGet C now n c) = Some rrs \<longrightarrow> specLookup now n m = Some rrs)
     \<and> cacheLength C c \<le> 100
     \<and> (card (\<Union> (opNames ` set ops)) \<le> 100 \<and> list_all (opTimely now) ops
          \<longrightarrow> fst (cacheGet C now n c) = specLookup now n m)"
proof (intro conjI impI)
  from C have C': "lruLib_ok C cacheSize" by (simp add: cacheSize_def)
  note N = new_cache_holds [OF C' new]
  have "simulates C c0 Map.empty" by (simp add: simulates_def N)
  then have sim: "simulates C c m" unfolding c m by (rule simulates_run)
  then have ok: "cacheOk C c" by (simp add: simulates_def)
  obtain a c' where g: "cacheGet C now n c = (a, c')" by (cases "cacheGet C now n c")
  show sound: "specLookup now n m = Some rrs" if hit: "fst (cacheGet C now n c) = Some rrs" for rrs
  proof (cases "entryView C c n")
    case None
    with cacheGet_effect(2) [OF ok g] hit g show ?thesis by simp
  next
    case (Some x)
    obtain rs e where x: "x = (rs, e)" by (cases x)
    with Some have "entryView C c n = Some (rs, e)" by simp
    with sim obtain t eol where t: "m n = Some (rs, t, eol)" "e = deadline t rs eol"
      unfolding simulates_def by blast
    have "\<not> now > e" "a = Some rs"
      using cacheGet_effect(3,4) [OF ok g, of rs e] Some x hit g by (cases "now > e"; simp)+
    then show ?thesis using deadline_alive [of now t rs eol] t hit g by (simp add: specLookup_def)
  qed
  show "cacheLength C c \<le> 100"
    using cacheOk_laws(9) [OF ok] by (simp add: cacheLength_def cacheSize_def)
  assume room: "card (\<Union> (opNames ` set ops)) \<le> 100 \<and> list_all (opTimely now) ops"
  let ?names = "\<Union> (opNames ` set ops)"
  have fin: "finite ?names" by (auto intro: finite_opNames)
  have "complete C ?names now c0 Map.empty" by (simp add: complete_def N)
  from complete_run [OF fin _ \<open>simulates C c0 Map.empty\<close> this] room
  have com: "complete C ?names now c m" by (simp add: c m cacheSize_def)
  show "fst (cacheGet C now n c) = specLookup now n m"
  proof (cases "specLookup now n m")
    case None
    with sound show ?thesis by (cases "fst (cacheGet C now n c)") auto
  next
    case (Some rs)
    then obtain t eol where t: "m n = Some (rs, t, eol)"
        "now \<le> t + lifetime rs \<and> (eol > 0 \<longrightarrow> now \<le> eol * second)"
      by (auto simp: specLookup_def split: option.splits if_splits)
    with com have e: "eol < 2 ^ 62" by (simp add: complete_def)
    from alive_deadline [OF this t(2)] have d: "now \<le> deadline t rs eol" .
    with com t(1) have "entryView C c n = Some (rs, deadline t rs eol)" by (simp add: complete_def)
    from cacheGet_effect(4) [OF ok g this] d g Some show ?thesis by simp
  qed
qed

theorem cache_refines_expiring_map_witness:
  "fst (cacheGet demoLru 250 ''a'' (fold (cacheStep demoLru) [OpAdd 100 ''a'' (Records (demoRec 1)) 5000, OpGet 200 ''a''] []))
     = Some (Records (demoRec 1))"
proof -
  let ?ops = "[OpAdd 100 ''a'' (Records (demoRec 1)) 5000, OpGet 200 ''a'']"
  have n: "NewMemoryCache demoLru = Some []" by (simp add: NewMemoryCache_def demoLru_def)
  have l: "lruLib_ok demoLru 100" using demoLru_ok by (simp add: cacheSize_def)
  have "fst (cacheGet demoLru 250 ''a'' (fold (cacheStep demoLru) ?ops []))
      = specLookup 250 ''a'' (fold specStep ?ops Map.empty)"
    by (rule cache_refines_expiring_map [OF l n refl refl, THEN conjunct2, THEN conjunct2, rule_format])
      (simp add: card_insert_le_m1)
  also have "\<dots> = Some (Records (demoRec 1))"
    by (simp add: specLookup_def lifetime_def second_def demoRec_def Let_def)
  finally show ?thesis .
qed

text \<open>C5: every answer of the resolver is authentic. Whatever the earlier lookups, evictions and
  clearings, and whether it comes from the cache or the network, an answer is the resource records
  of a record whose signature verifies under the key the name stands for (the key in the name, or
  for a bare name a key the registry gave as its owner's), and whose signed end of life has not
  passed at the time of the answer.\<close>

theorem resolver_answers_authentic:
  assumes L: "recordLib_ok L" and C: "lruLib_ok C 100" and new: "NewMemoryCache C = Some c0"
    and run: "reach (resolverStep C L uni Own) (c0, r0) s"
    and ans: "resolverStep C L uni Own s (LResolve now name (Inr rrs)) s'"
  shows "\<exists>r. rrs = Records r \<and> vouches L uni Own (CanonicalName uni name) r
     \<and> (EOL r \<noteq> 0 \<longrightarrow> now div second \<le> sint (EOL r))"
proof -
  from C have C': "lruLib_ok C cacheSize" by (simp add: cacheSize_def)
  have "resolverInv C L uni Own (c0, r0)"
    using L new_cache_holds(1) [OF C' new] by (simp add: resolverInv_def)
  with resolver_ts.reach_inv [OF run] have inv: "resolverInv C L uni Own s" by blast
  obtain c r c' r' where s: "s = (c, r)" "s' = (c', r')" by (cases s; cases s')
  from inv have hold: "mc.holds (authentic L uni Own) (C, c)" by (simp add: resolverInv_def s)
  from ans show ?thesis
  proof (cases rule: resolverStep.cases)
    case (rs_resolve reg store later)
    show ?thesis
      by (rule Resolve_authentic(2) [OF L hold _ rs_resolve(2) rs_resolve(3) rs_resolve(4) [unfolded s] refl])
        (rule rs_resolve(1))
  qed
qed

theorem resolver_answers_authentic_witness:
  "\<exists>name s. resolverStep demoLru demoLib id (\<lambda>_ _. False) ([], ()) (LResolve (2000 * second) name (Inr (Records (demoRec 1)))) s
     \<and> (\<exists>r. Records (demoRec 1) = Records r \<and> vouches demoLib id (\<lambda>_ _. False) (CanonicalName id name) r)"
proof -
  obtain name key where n: "CanonicalName id name = name"
    "dhtKeyForName demoHashlib id (None :: unit registry) name () = (Inr key, ())"
    "ResolveRecord demoLib (demoDHT 2000) \<lparr>kadDHT = True, owned = []\<rparr> [(key, [1])] key = Inr (demoRec 1)"
    by (rule demo_resolves)
  let ?store = "ResolveRecord demoLib (demoDHT 2000) \<lparr>kadDHT = True, owned = []\<rparr> [(key, [1])]"
  let ?now = "2000 * second"
  have H: "hashes demoLib = demoHashlib" by (simp add: demoLib_def)
  obtain s where r: "Resolve demoLru (hashes demoLib) id (None :: unit registry) ?store ?now ?now name ([], ())
      = (Inr (Records (demoRec 1)), s)"
    by (simp add: Resolve_def n H cacheGet_def demoLru_def)
  have st: "storeValid demoLib (?now div second) ?store"
    by (rule node_storeValid) (simp add: demoDHT_validates second_def)
  have step: "resolverStep demoLru demoLib id (\<lambda>_ _. False) ([], ())
      (LResolve ?now name (Inr (Records (demoRec 1)))) s"
    by (rule rs_resolve [OF _ st _ r]) (simp_all add: second_def)
  have new: "NewMemoryCache demoLru = Some []" by (simp add: NewMemoryCache_def demoLru_def)
  have l: "lruLib_ok demoLru 100" using demoLru_ok by (simp add: cacheSize_def)
  from resolver_answers_authentic [OF demoLib_ok l new reach_refl step] step show ?thesis by blast
qed

end
