(* ===== verification/Dns.thy ===== *)
theory Dns
  imports ResolverProps
begin

text \<open>
  The DNS server: \<open>internal/dnsserver/dns.go\<close>. Packing and unpacking messages, resetting one,
  making a name fully qualified and asking the upstream server are the DNS library's and are
  gathered in \<open>dnsLib\<close>. A handler is given a packet and returns the packets it writes; the
  forwarding handler also returns the queries it sends upstream.
\<close>

section \<open>Addresses\<close>

text \<open>\<open>netip.ParseAddr\<close>, on which \<open>net.ParseIP\<close> is built: an IPv4 address, or an IPv6 address with a
  zone.\<close>

datatype ipAddr = Addr4 "nat list" | Addr6 "nat list" string

definition ParseAddr :: "string \<Rightarrow> ipAddr option" where
  "ParseAddr s =
     (case dropWhile (\<lambda>c. c \<notin> {CHR ''.'', CHR '':'', CHR ''%''}) s of
        [] \<Rightarrow> None
      | c # _ \<Rightarrow>
          if c = CHR ''.'' then map_option Addr4 (parseIPv4 s)
          else if c = CHR '':'' then
            (let addr = takeWhile (\<lambda>c. c \<noteq> CHR ''%'') s; zone = drop (length addr + 1) s in
             if CHR ''%'' \<in> set s \<and> zone = [] then None
             else map_option (\<lambda>b. Addr6 b zone) (parseIPv6 addr))
          else None)"

definition Unmap :: "ipAddr \<Rightarrow> ipAddr" where
  "Unmap a =
     (case a of Addr4 b \<Rightarrow> Addr4 b
      | Addr6 b zone \<Rightarrow> (case to4 b of None \<Rightarrow> Addr6 b zone | Some q \<Rightarrow> Addr4 q))"

text \<open>\<open>net.IP\<close>: 4 or 16 bytes, or nil.\<close>

definition ipTo4 :: "goIP \<Rightarrow> nat list option" where
  "ipTo4 ip = (if length ip = 4 then Some ip else to4 ip)"

definition IsLoopback :: "goIP \<Rightarrow> bool" where
  "IsLoopback ip = (case ipTo4 ip of Some q \<Rightarrow> q ! 0 = 127 | None \<Rightarrow> ip = replicate 15 0 @ [1])"

definition IsPrivate :: "goIP \<Rightarrow> bool" where
  "IsPrivate ip =
     (case ipTo4 ip of
        Some q \<Rightarrow> q ! 0 = 10 \<or> q ! 0 = 172 \<and> and (q ! 1) 0xF0 = 16 \<or> q ! 0 = 192 \<and> q ! 1 = 168
      | None \<Rightarrow> length ip = 16 \<and> and (ip ! 0) 0xFE = 0xFC)"

definition IsLinkLocalUnicast :: "goIP \<Rightarrow> bool" where
  "IsLinkLocalUnicast ip =
     (case ipTo4 ip of
        Some q \<Rightarrow> q ! 0 = 169 \<and> q ! 1 = 254
      | None \<Rightarrow> length ip = 16 \<and> ip ! 0 = 0xFE \<and> and (ip ! 1) 0xC0 = 0x80)"

text \<open>\<open>net.SplitHostPort\<close>.\<close>

definition lastIndex :: "char \<Rightarrow> string \<Rightarrow> nat option" where
  "lastIndex c s = (if c \<in> set s then Some (length s - 1 - length (takeWhile (\<lambda>d. d \<noteq> c) (rev s))) else None)"

definition SplitHostPort :: "string \<Rightarrow> (string \<times> string) option" where
  "SplitHostPort s =
     (case lastIndex (CHR '':'') s of
        None \<Rightarrow> None
      | Some i \<Rightarrow>
          if hd s = CHR ''['' then
            (let e = length (takeWhile (\<lambda>c. c \<noteq> CHR '']'') s) in
             if e = length s \<or> e + 1 \<noteq> i \<or> CHR ''['' \<in> set (drop 1 s) \<or> CHR '']'' \<in> set (drop (e + 1) s) then None
             else Some (take (e - 1) (drop 1 s), drop (i + 1) s))
          else if CHR '':'' \<in> set (take i s) \<or> CHR ''['' \<in> set s \<or> CHR '']'' \<in> set s then None
          else Some (take i s, drop (i + 1) s))"

datatype netAddr = UDPAddr goIP | TCPAddr goIP | OtherAddr string

definition forwardingAllowed :: "netAddr \<Rightarrow> bool" where
  "forwardingAllowed addr =
     (let ip = (case addr of UDPAddr ip \<Rightarrow> Some ip | TCPAddr ip \<Rightarrow> Some ip
                | OtherAddr s \<Rightarrow>
                    (case SplitHostPort s of None \<Rightarrow> None
                     | Some (host, _) \<Rightarrow> (case parseIP host of None \<Rightarrow> Some [] | Some ip \<Rightarrow> Some ip)))
      in case ip of None \<Rightarrow> False
         | Some ip \<Rightarrow> if ip = [] then False else IsLoopback ip \<or> IsPrivate ip \<or> IsLinkLocalUnicast ip)"

section \<open>Messages\<close>

datatype rdata = RdA "nat list" | RdAAAA "nat list" string | RdTXT "string list" | RdCNAME string

record dnsRR =
  hdrName :: string
  hdrTTL :: "32 word"
  rrData :: rdata

record dnsMsg =
  mQuestion :: "(string \<times> nat) list"
  mResponse :: bool
  mRA :: bool
  mRcode :: nat
  mAnswer :: "dnsRR list"

record dnsLib =
  dnsUnpack :: "bytes \<Rightarrow> dnsMsg option"
  dnsPack :: "dnsMsg \<Rightarrow> bytes option"
  dnsReset :: "dnsMsg \<Rightarrow> dnsMsg"
  dnsFqdn :: "string \<Rightarrow> string"
  dnsExchange :: "dnsMsg \<Rightarrow> string \<Rightarrow> dnsMsg option"

definition TypeA :: nat where "TypeA = 1"
definition TypeCNAME :: nat where "TypeCNAME = 5"
definition TypeTXT :: nat where "TypeTXT = 16"
definition TypeAAAA :: nat where "TypeAAAA = 28"
definition RcodeServerFailure :: nat where "RcodeServerFailure = 2"
definition RcodeNameError :: nat where "RcodeNameError = 3"
definition RcodeRefused :: nat where "RcodeRefused = 5"

lemmas dnsTypes = TypeA_def TypeCNAME_def TypeTXT_def TypeAAAA_def
lemmas dnsRcodes = RcodeServerFailure_def RcodeNameError_def RcodeRefused_def

definition toDNSRR :: "dnsLib \<Rightarrow> string \<Rightarrow> RR \<Rightarrow> nat \<Rightarrow> dnsRR option" where
  "toDNSRR D name rr qtype =
     (let mk = (\<lambda>d. Some \<lparr>hdrName = name, hdrTTL = rrTTL rr, rrData = d\<rparr>) in
      if rrType rr = RecordTypeA then
        (if qtype \<noteq> TypeA then None
         else case map_option Unmap (ParseAddr (rrValue rr)) of
           Some (Addr4 q) \<Rightarrow> mk (RdA q)
         | _ \<Rightarrow> None)
      else if rrType rr = RecordTypeAAAA then
        (if qtype \<noteq> TypeAAAA then None
         else case ParseAddr (rrValue rr) of
           Some (Addr6 b zone) \<Rightarrow> mk (RdAAAA b zone)
         | _ \<Rightarrow> None)
      else if rrType rr = RecordTypeTXT then
        (if qtype \<noteq> TypeTXT then None else mk (RdTXT [rrValue rr]))
      else if rrType rr = RecordTypeCNAME then
        (if qtype \<noteq> TypeCNAME \<and> qtype \<noteq> TypeA \<and> qtype \<noteq> TypeAAAA then None
         else mk (RdCNAME (dnsFqdn D (rrValue rr))))
      else None)"

definition respond :: "dnsLib \<Rightarrow> dnsMsg \<Rightarrow> bytes list" where
  "respond D m =
     (case dnsPack D m of
        Some b \<Rightarrow> [b]
      | None \<Rightarrow>
          (case dnsPack D ((dnsReset D m)\<lparr>mResponse := True, mRcode := RcodeServerFailure\<rparr>) of
             Some b \<Rightarrow> [b]
           | None \<Rightarrow> []))"

section \<open>The server\<close>

definition maxInflightFN :: nat where "maxInflightFN = 64"
definition overloadLogInterval :: int where "overloadLogInterval = 10 * second"

record dnsServer =
  upstream :: string
  recurseAny :: bool
  inflight :: nat
  dropped :: int
  lastDropLog :: int

definition NewDNSServer :: "string \<Rightarrow> bool \<Rightarrow> dnsServer" where
  "NewDNSServer up any = \<lparr>upstream = up, recurseAny = any, inflight = 0, dropped = 0, lastDropLog = 0\<rparr>"

text \<open>Returns the count that is logged, if the warning is due.\<close>

definition logOverloaded :: "int \<Rightarrow> dnsServer \<Rightarrow> int option \<times> dnsServer" where
  "logOverloaded now s =
     (let s' = s\<lparr>dropped := int64 (dropped s + 1)\<rparr> in
      if int64 (now - lastDropLog s) < overloadLogInterval then (None, s')
      else (Some (dropped s'), s'\<lparr>lastDropLog := now\<rparr>))"

definition isDeadline :: "resErr \<Rightarrow> bool" where
  "isDeadline e \<longleftrightarrow> e = ResStore (PubDHT DHTDeadline)"

text \<open>The answer to a question, from what the resolver returned.\<close>

definition answerFN :: "dnsLib \<Rightarrow> string \<Rightarrow> nat \<Rightarrow> resErr + RR list \<Rightarrow> dnsMsg \<Rightarrow> dnsMsg" where
  "answerFN D name qtype res r =
     (let r1 = (dnsReset D r)\<lparr>mResponse := True, mRA := True\<rparr> in
      case res of
        Inl e \<Rightarrow> r1\<lparr>mRcode := if isDeadline e then RcodeServerFailure else RcodeNameError\<rparr>
      | Inr rrs \<Rightarrow> r1\<lparr>mAnswer := mAnswer r1 @ List.map_filter (\<lambda>rr. toDNSRR D name rr qtype) rrs\<rparr>)"

text \<open>A query takes a slot, or is shed when all are taken; \<open>lookup\<close> is the resolver with its state.\<close>

definition handleFN ::
    "dnsLib \<Rightarrow> int \<Rightarrow> (string \<Rightarrow> 's \<Rightarrow> (resErr + RR list) \<times> 's) \<Rightarrow> bytes \<Rightarrow> dnsServer \<times> 's
      \<Rightarrow> bytes list \<times> dnsServer \<times> 's" where
  "handleFN D now lookup packet st =
     (case dnsUnpack D packet of
        None \<Rightarrow> ([], st)
      | Some r \<Rightarrow>
          (case mQuestion r of
             [] \<Rightarrow> ([], st)
           | (name, qtype) # _ \<Rightarrow>
               (let (s, rs) = st in
                if inflight s \<ge> maxInflightFN then
                  (respond D ((dnsReset D r)\<lparr>mResponse := True, mRA := True, mRcode := RcodeServerFailure\<rparr>),
                   snd (logOverloaded now s), rs)
                else
                  (case lookup name rs of
                     (res, rs') \<Rightarrow> (respond D (answerFN D name qtype res r), s, rs')))))"

definition handleForward :: "dnsLib \<Rightarrow> netAddr \<Rightarrow> bytes \<Rightarrow> dnsServer \<Rightarrow> bytes list \<times> (dnsMsg \<times> string) list" where
  "handleForward D client packet s =
     (case dnsUnpack D packet of
        None \<Rightarrow> ([], [])
      | Some r \<Rightarrow>
          if \<not> recurseAny s \<and> \<not> forwardingAllowed client then
            (respond D ((dnsReset D r)\<lparr>mResponse := True, mRcode := RcodeRefused\<rparr>), [])
          else
            (case dnsExchange D r (upstream s) of
               None \<Rightarrow> (respond D ((dnsReset D r)\<lparr>mResponse := True, mRcode := RcodeServerFailure\<rparr>), [(r, upstream s)])
             | Some resp \<Rightarrow> (respond D resp, [(r, upstream s)])))"

section \<open>Concurrent lookups\<close>

text \<open>Handlers run concurrently: a query is admitted or shed when it arrives, and gives its slot back
  when its lookup ends, with the answer. \<open>active\<close> are the lookups under way.\<close>

datatype dnsEvent = QAdmit nat | QShed nat | QDone nat

inductive dnsStep :: "dnsServer \<times> nat list \<Rightarrow> dnsEvent \<Rightarrow> dnsServer \<times> nat list \<Rightarrow> bool" where
  q_admit: "inflight s < maxInflightFN \<Longrightarrow> dnsStep (s, active) (QAdmit q) (s\<lparr>inflight := inflight s + 1\<rparr>, q # active)"
| q_shed: "inflight s \<ge> maxInflightFN \<Longrightarrow> dnsStep (s, active) (QShed q) (snd (logOverloaded now s), active)"
| q_done: "q \<in> set active \<Longrightarrow> dnsStep (s, active) (QDone q) (s\<lparr>inflight := inflight s - 1\<rparr>, remove1 q active)"

definition dnsInv :: "dnsServer \<times> nat list \<Rightarrow> bool" where
  "dnsInv st \<longleftrightarrow> inflight (fst st) = length (snd st) \<and> length (snd st) \<le> maxInflightFN"

lemma logOverloaded_inflight [simp]: "inflight (snd (logOverloaded now s)) = inflight s"
  by (simp add: logOverloaded_def Let_def)

interpretation dns_ts: transition_system dnsStep dnsInv
proof
  fix s l t assume inv: "dnsInv s" and "dnsStep s l t"
  from this(2) show "dnsInv t"
    using inv by (cases rule: dnsStep.cases) (auto simp: dnsInv_def length_remove1)
qed

section \<open>Facts\<close>

text \<open>\<open>Reset\<close> leaves no answers behind.\<close>

definition dnsLib_ok :: "dnsLib \<Rightarrow> bool" where
  "dnsLib_ok D \<longleftrightarrow> (\<forall>m. mAnswer (dnsReset D m) = [] \<and> mRcode (dnsReset D m) = 0)"

text \<open>The two parsers of the standard library agree on the addresses records may hold.\<close>

lemma ParseAddr_parseIP:
  "parseIP s = Some ip \<Longrightarrow>
     (case ParseAddr s of
        None \<Rightarrow> False
      | Some (Addr4 q) \<Rightarrow> parseIPv4 s = Some q \<and> ip = v4Prefix @ q
      | Some (Addr6 b zone) \<Rightarrow> b = ip \<and> zone = [])"
proof -
  assume p: "parseIP s = Some ip"
  then obtain c rest where d: "dropWhile (\<lambda>c. c \<notin> {CHR ''.'', CHR '':'', CHR ''%''}) s = c # rest"
    by (auto simp: parseIP_def split: list.splits)
  show ?thesis
  proof (cases "c = CHR ''.''")
    case True
    with p d show ?thesis by (auto simp: parseIP_def ParseAddr_def split: option.splits)
  next
    case False
    with p d have c: "c = CHR '':''" "CHR ''%'' \<notin> set s" "parseIPv6 s = Some ip"
      by (auto simp: parseIP_def split: if_splits)
    then have tw: "takeWhile (\<lambda>c. c \<noteq> CHR ''%'') s = s" by (auto simp: takeWhile_eq_all_conv)
    show ?thesis
      unfolding ParseAddr_def d tw Let_def by (simp add: c)
  qed
qed

lemma checkRR_A_answer:
  assumes "checkRR H rr = Inr ()" and "rrType rr = RecordTypeA"
  shows "\<exists>ip q. parseIP (rrValue rr) = Some ip \<and> to4 ip = Some q
     \<and> toDNSRR D name rr TypeA = Some \<lparr>hdrName = name, hdrTTL = rrTTL rr, rrData = RdA q\<rparr>"
proof -
  from assms obtain ip q where p: "parseIP (rrValue rr) = Some ip" "to4 ip = Some q"
    by (auto simp: checkRR_def Let_def split: option.splits if_splits)
  from ParseAddr_parseIP [OF p(1)] have "map_option Unmap (ParseAddr (rrValue rr)) = Some (Addr4 q)"
    using p(2) parseIP_v4 by (auto simp: Unmap_def split: option.splits ipAddr.splits)
  with p assms(2) show ?thesis by (auto simp: toDNSRR_def)
qed

lemma checkRR_AAAA_answer:
  assumes "checkRR H rr = Inr ()" and t: "rrType rr = RecordTypeAAAA"
  shows "\<exists>ip. parseIP (rrValue rr) = Some ip \<and> to4 ip = None
     \<and> toDNSRR D name rr TypeAAAA = Some \<lparr>hdrName = name, hdrTTL = rrTTL rr, rrData = RdAAAA ip []\<rparr>"
proof -
  have ne: "RecordTypeAAAA \<noteq> RecordTypeA" by (simp add: recordTypes)
  from assms ne obtain ip where p: "parseIP (rrValue rr) = Some ip" "to4 ip = None"
    by (auto simp: checkRR_def Let_def split: option.splits if_splits)
  from ParseAddr_parseIP [OF p(1)] have "ParseAddr (rrValue rr) = Some (Addr6 ip [])"
    using p parseIP_v4 by (auto split: option.splits ipAddr.splits)
  with p t ne show ?thesis by (simp add: toDNSRR_def)
qed

end
