(* ===== verification/DnsProps.thy ===== *)
theory DnsProps
  imports Dns
begin

text \<open>
  What the DNS server promises: it forwards only for local clients, answers the .fn zone with
  exactly the records that fit the question, and never runs more than 64 lookups at once.
\<close>

section \<open>Local clients\<close>

fun clientIP :: "netAddr \<Rightarrow> goIP option" where
  "clientIP (UDPAddr ip) = Some ip"
| "clientIP (TCPAddr ip) = Some ip"
| "clientIP (OtherAddr s) = (case SplitHostPort s of None \<Rightarrow> None | Some (host, _) \<Rightarrow> parseIP host)"

text \<open>127/8, 10/8, 172.16/12, 192.168/16, 169.254/16, ::1, fc00::/7 and fe80::/10.\<close>

definition localRange :: "goIP \<Rightarrow> bool" where
  "localRange ip \<longleftrightarrow>
     (\<exists>q. ipTo4 ip = Some q \<and>
        (q ! 0 = 127 \<or> q ! 0 = 10 \<or> q ! 0 = 172 \<and> 16 \<le> q ! 1 \<and> q ! 1 \<le> 31
         \<or> q ! 0 = 192 \<and> q ! 1 = 168 \<or> q ! 0 = 169 \<and> q ! 1 = 254))
     \<or> ip = replicate 15 0 @ [1]
     \<or> ipTo4 ip = None \<and> length ip = 16
        \<and> (ip ! 0 = 252 \<or> ip ! 0 = 253 \<or> ip ! 0 = 254 \<and> 128 \<le> ip ! 1 \<and> ip ! 1 \<le> 191)"

lemma and_high_bits:
  fixes n :: nat
  assumes "n < 2 ^ (k + m)"
  shows "and n (push_bit k (mask m)) = push_bit k (drop_bit k n)"
proof -
  from assms have "take_bit (k + m) n = n" by (simp add: take_bit_nat_eq_self)
  then have "i < k + m" if "bit n i" for i using that by (metis bit_take_bit_iff)
  then have lt: "i - k < m" if "bit n i" "k \<le> i" for i using that by fastforce
  show ?thesis by (rule bit_eqI) (auto simp: bit_simps lt)
qed

lemma byte_masks:
  assumes "n < 256"
  shows "and n 0xF0 = 16 \<longleftrightarrow> 16 \<le> n \<and> n \<le> 31"
    and "and n 0xFE = 0xFC \<longleftrightarrow> n = 252 \<or> n = 253"
    and "and n 0xC0 = 0x80 \<longleftrightarrow> 128 \<le> n \<and> n \<le> (191 :: nat)"
proof -
  have "and n 0xF0 = 16 * (n div 16)" "and n 0xFE = 2 * (n div 2)" "and n 0xC0 = 64 * (n div 64)"
    using and_high_bits [of n 4 4] and_high_bits [of n 1 7] and_high_bits [of n 6 2] assms
    by (simp_all add: mask_eq_exp_minus_1 push_bit_eq_mult drop_bit_eq_div)
  then show "and n 0xF0 = 16 \<longleftrightarrow> 16 \<le> n \<and> n \<le> 31"
    and "and n 0xFE = 0xFC \<longleftrightarrow> n = 252 \<or> n = 253"
    and "and n 0xC0 = 0x80 \<longleftrightarrow> 128 \<le> n \<and> n \<le> (191 :: nat)"
    using assms by auto
qed

lemma ipTo4_bytes:
  assumes "ipTo4 ip = Some q" and "\<forall>b \<in> set ip. b < 256"
  shows "length q = 4" "\<forall>b \<in> set q. b < 256"
  using assms by (auto simp: ipTo4_def to4_def split: if_splits dest: in_set_dropD)

lemma localRange_iff:
  assumes b: "\<forall>b \<in> set ip. b < 256"
  shows "localRange ip \<longleftrightarrow> IsLoopback ip \<or> IsPrivate ip \<or> IsLinkLocalUnicast ip"
proof (cases "ipTo4 ip")
  case (Some q)
  from ipTo4_bytes [OF Some b] have "q ! 1 < 256" by simp
  note m = byte_masks(1) [OF this]
  have "ip \<noteq> replicate 15 0 @ [1]"
  proof
    assume "ip = replicate 15 0 @ [1]"
    then have "ipTo4 ip = None" by (simp add: ipTo4_def to4_def v4Prefix_def eval_nat_numeral)
    with Some show False by simp
  qed
  with Some show ?thesis
    unfolding localRange_def IsLoopback_def IsPrivate_def IsLinkLocalUnicast_def Some option.case m by auto
next
  case None
  show ?thesis
  proof (cases "length ip = 16")
    case True
    then have "ip ! 0 < 256" "ip ! 1 < 256" using b by simp_all
    with None True show ?thesis
      by (auto simp: localRange_def IsLoopback_def IsPrivate_def IsLinkLocalUnicast_def byte_masks)
  next
    case False
    then have "ip \<noteq> replicate 15 0 @ [1]" by auto
    with None False show ?thesis
      by (simp add: localRange_def IsLoopback_def IsPrivate_def IsLinkLocalUnicast_def)
  qed
qed

lemma forwardingAllowed_iff:
  "forwardingAllowed client \<longleftrightarrow>
     (\<exists>ip. clientIP client = Some ip \<and> ip \<noteq> [] \<and> (IsLoopback ip \<or> IsPrivate ip \<or> IsLinkLocalUnicast ip))"
  by (cases client) (auto simp: forwardingAllowed_def Let_def split: option.splits)

lemma localRange_nonempty: "localRange ip \<Longrightarrow> ip \<noteq> []"
  by (auto simp: localRange_def ipTo4_def to4_def)

section \<open>A concrete library\<close>

definition demoQuery :: dnsMsg where
  "demoQuery = \<lparr>mQuestion = [(''a.fn.'', TypeA)], mResponse = False, mRA = False, mRcode = 0, mAnswer = []\<rparr>"

text \<open>It packs a message into its code and the number of its answers.\<close>

definition demoDns :: dnsLib where
  "demoDns =
     \<lparr>dnsUnpack = (\<lambda>b. Some demoQuery),
      dnsPack = (\<lambda>m. Some [of_nat (mRcode m), of_nat (length (mAnswer m))]),
      dnsReset = (\<lambda>m. m\<lparr>mResponse := False, mRA := False, mRcode := 0, mAnswer := []\<rparr>),
      dnsFqdn = (\<lambda>s. s @ ''.''), dnsExchange = (\<lambda>m up. None)\<rparr>"

section \<open>Properties\<close>

text \<open>C17: the server is not an open resolver. Unless the operator asked for it, a query is sent
  upstream only for a client whose address is loopback, private or link-local; what is sent is the
  client's own query, to the configured server, once; and any other client is answered REFUSED.\<close>

theorem no_open_resolver:
  assumes "\<not> recurseAny s" and "\<And>ip. clientIP client = Some ip \<Longrightarrow> \<forall>b \<in> set ip. b < 256"
    and "dnsUnpack D packet = Some r" and "handleForward D client packet s = (out, asked)"
  shows "if \<exists>ip. clientIP client = Some ip \<and> localRange ip then asked = [(r, upstream s)]
     else asked = [] \<and> out = respond D ((dnsReset D r)\<lparr>mResponse := True, mRcode := 5\<rparr>)"
proof -
  have "forwardingAllowed client \<longleftrightarrow> (\<exists>ip. clientIP client = Some ip \<and> localRange ip)"
    unfolding forwardingAllowed_iff using localRange_iff assms(2) localRange_nonempty by metis
  with assms(1,3,4) show ?thesis
    by (auto simp: handleForward_def dnsRcodes split: option.splits if_splits)
qed

theorem no_open_resolver_witness:
  "handleForward demoDns (UDPAddr [8, 8, 8, 8]) [] (NewDNSServer ''1.1.1.1:53'' False) = ([[5, 0]], [])"
proof -
  obtain out asked where h: "handleForward demoDns (UDPAddr [8, 8, 8, 8]) [] (NewDNSServer ''1.1.1.1:53'' False) = (out, asked)"
    by (cases "handleForward demoDns (UDPAddr [8, 8, 8, 8]) [] (NewDNSServer ''1.1.1.1:53'' False)")
  have u: "dnsUnpack demoDns [] = Some demoQuery" by (simp add: demoDns_def)
  have "\<not> (\<exists>ip. clientIP (UDPAddr [8, 8, 8, 8]) = Some ip \<and> localRange ip)"
    by (auto simp: localRange_def ipTo4_def to4_def dest: arg_cong [where f = length])
  with no_open_resolver [OF _ _ u h] have "asked = []"
      "out = respond demoDns ((dnsReset demoDns demoQuery)\<lparr>mResponse := True, mRcode := 5\<rparr>)"
    by (auto simp: NewDNSServer_def)
  with h show ?thesis by (simp add: respond_def demoDns_def demoQuery_def)
qed

text \<open>The answers a question deserves.\<close>

definition answersOf :: "dnsLib \<Rightarrow> string \<Rightarrow> nat \<Rightarrow> RR list \<Rightarrow> dnsRR list" where
  "answersOf D name qtype rrs =
     concat (map (\<lambda>rr. map (\<lambda>d. \<lparr>hdrName = name, hdrTTL = rrTTL rr, rrData = d\<rparr>)
       (if rrType rr = ''A'' \<and> qtype = 1 then [RdA (the (to4 (the (parseIP (rrValue rr)))))]
        else if rrType rr = ''AAAA'' \<and> qtype = 28 then [RdAAAA (the (parseIP (rrValue rr))) []]
        else if rrType rr = ''TXT'' \<and> qtype = 16 then [RdTXT [rrValue rr]]
        else if rrType rr = ''CNAME'' \<and> qtype \<in> {5, 1, 28} then [RdCNAME (dnsFqdn D (rrValue rr))]
        else [])) rrs)"

lemma toDNSRR_valid:
  assumes "checkRR H rr = Inr ()"
  shows "answersOf D name qtype [rr] = (case toDNSRR D name rr qtype of None \<Rightarrow> [] | Some a \<Rightarrow> [a])"
proof -
  consider "rrType rr = RecordTypeA" | "rrType rr = RecordTypeAAAA" | "rrType rr \<noteq> RecordTypeA" "rrType rr \<noteq> RecordTypeAAAA"
    by blast
  then show ?thesis
  proof cases
    case 1
    then show ?thesis
      using checkRR_A_answer [OF assms 1, of D name]
      by (cases "qtype = 1") (auto simp: answersOf_def toDNSRR_def recordTypes dnsTypes)
  next
    case 2
    then show ?thesis
      using checkRR_AAAA_answer [OF assms 2, of D name]
      by (cases "qtype = 28") (auto simp: answersOf_def toDNSRR_def recordTypes dnsTypes)
  next
    case 3
    then show ?thesis by (auto simp: answersOf_def toDNSRR_def recordTypes dnsTypes)
  qed
qed

lemma answersOf_map_filter:
  "\<forall>rr \<in> set rrs. checkRR H rr = Inr () \<Longrightarrow>
     List.map_filter (\<lambda>rr. toDNSRR D name rr qtype) rrs = answersOf D name qtype rrs"
proof (induction rrs)
  case (Cons rr rrs)
  have "answersOf D name qtype (rr # rrs) = answersOf D name qtype [rr] @ answersOf D name qtype rrs"
    by (simp add: answersOf_def)
  with Cons toDNSRR_valid [of H rr D name qtype] show ?case
    by (auto simp: List.map_filter_simps split: option.splits)
qed (simp add: answersOf_def List.map_filter_simps)

text \<open>C33: A .fn query is answered with exactly the records that fit it. Given a record set the
  validator accepts, the response carries the code for success and, under the name asked, in the
  record set's order: for an A or AAAA question every address of that family, in binary, for a TXT
  question every text, and for each of them and CNAME questions every alias; nothing else, and no
  record of the type asked is left out.\<close>

theorem fn_answers_exact:
  assumes "dnsLib_ok D" and "dnsUnpack D packet = Some r" and "mQuestion r = (name, qtype) # rest"
    and "inflight s < 64" and "lookup name rs = (Inr rrs, rs')" and "\<forall>rr \<in> set rrs. checkRR H rr = Inr ()"
  shows "\<exists>m. handleFN D now lookup packet (s, rs) = (respond D m, s, rs')
     \<and> mResponse m \<and> mRcode m = 0 \<and> mAnswer m = answersOf D name qtype rrs"
  using assms answersOf_map_filter [OF assms(6), of D name qtype]
  by (auto simp: handleFN_def maxInflightFN_def answerFN_def Let_def dnsLib_ok_def)

theorem fn_answers_exact_witness:
  "\<exists>m. handleFN demoDns 0 (\<lambda>n rs. (Inr [\<lparr>rrType = ''A'', rrValue = ''10.0.0.1'', rrTTL = 300\<rparr>], rs)) []
       (NewDNSServer ''1.1.1.1:53'' False, ()) = (respond demoDns m, NewDNSServer ''1.1.1.1:53'' False, ())
     \<and> mAnswer m = [\<lparr>hdrName = ''a.fn.'', hdrTTL = 300, rrData = RdA [10, 0, 0, 1]\<rparr>]"
proof -
  let ?rr = "\<lparr>rrType = ''A'', rrValue = ''10.0.0.1'', rrTTL = 300\<rparr>"
  have ok: "dnsLib_ok demoDns" by (simp add: dnsLib_ok_def demoDns_def)
  have u: "dnsUnpack demoDns [] = Some demoQuery" by (simp add: demoDns_def)
  have q: "mQuestion demoQuery = [(''a.fn.'', TypeA)]" by (simp add: demoQuery_def)
  have "ValidateRecords demoHashlib (demoRec 1) = Inr ()" by (rule demo_valid)
  then have c: "\<forall>rr \<in> set [?rr]. checkRR demoHashlib rr = Inr ()"
    by (simp add: ValidateRecords_Inr demoRec_def Let_def)
  have p: "parseIPv4 ''10.0.0.1'' = Some [10, 0, 0, 1]" by code_simp
  from fn_answers_exact [OF ok u q, of "NewDNSServer ''1.1.1.1:53'' False" "\<lambda>n rs. (Inr [?rr], rs)" "()" "[?rr]" "()" demoHashlib 0] c
  obtain m where m: "handleFN demoDns 0 (\<lambda>n rs. (Inr [?rr], rs)) [] (NewDNSServer ''1.1.1.1:53'' False, ())
      = (respond demoDns m, NewDNSServer ''1.1.1.1:53'' False, ())"
    and a: "mAnswer m = answersOf demoDns ''a.fn.'' TypeA [?rr]"
    by (auto simp: NewDNSServer_def)
  have "mAnswer m = [\<lparr>hdrName = ''a.fn.'', hdrTTL = 300, rrData = RdA [10, 0, 0, 1]\<rparr>]"
    using a parseIP_v4 [OF p] by (simp add: answersOf_def dnsTypes)
  with m show ?thesis by blast
qed

text \<open>The steps are those of the handler: a query it answers alone, nothing else running, is admitted and
  done or shed, according to the slots taken, and leaves the server as these steps do.\<close>

lemma handleFN_steps:
  assumes "dnsUnpack D packet = Some m" and "mQuestion m \<noteq> []" and h: "handleFN D now lookup packet (s, rs) = (out, s', rs')"
  shows "if inflight s < maxInflightFN
     then \<exists>mid. dnsStep (s, active) (QAdmit q) (mid, q # active) \<and> dnsStep (mid, q # active) (QDone q) (s', active)
     else dnsStep (s, active) (QShed q) (s', active) \<and> rs' = rs"
proof (cases "inflight s < maxInflightFN")
  case True
  with assms have "s' = s"
    by (auto simp: handleFN_def neq_Nil_conv split: prod.splits)
  moreover have "dnsStep (s\<lparr>inflight := inflight s + 1\<rparr>, q # active) (QDone q) (s, active)"
    using q_done [of q "q # active" "s\<lparr>inflight := inflight s + 1\<rparr>"] by simp
  ultimately show ?thesis using True q_admit [OF True, of active q] by auto
next
  case False
  with assms have "s' = snd (logOverloaded now s)" "rs' = rs"
    by (auto simp: handleFN_def neq_Nil_conv)
  with False show ?thesis using q_shed [of s active q now] by simp
qed

text \<open>C34: at most 64 lookups are under way at any time, however queries arrive and finish; the slot
  counter is exactly their number, so no slot leaks; and a query is shed only when all 64 slots are
  taken.\<close>

theorem lookups_bounded:
  assumes "reach dnsStep (NewDNSServer up any, []) (s, active)"
  shows "inflight s = length active \<and> length active \<le> 64
     \<and> (\<forall>q t. dnsStep (s, active) (QShed q) t \<longrightarrow> length active = 64)"
proof -
  have "dnsInv (NewDNSServer up any, [])" by (simp add: dnsInv_def NewDNSServer_def)
  with dns_ts.reach_inv [OF assms] have "dnsInv (s, active)" by blast
  then show ?thesis
    by (auto simp: dnsInv_def maxInflightFN_def elim!: dnsStep.cases)
qed

theorem lookups_bounded_witness:
  "inflight (NewDNSServer ''1.1.1.1:53'' False\<lparr>inflight := 1\<rparr>) = length [7 :: nat]"
proof -
  have "dnsStep (NewDNSServer ''1.1.1.1:53'' False, []) (QAdmit 7) (NewDNSServer ''1.1.1.1:53'' False\<lparr>inflight := 1\<rparr>, [7])"
    using q_admit [of "NewDNSServer ''1.1.1.1:53'' False" "[]" 7] by (simp add: NewDNSServer_def maxInflightFN_def)
  then have "reach dnsStep (NewDNSServer ''1.1.1.1:53'' False, []) (NewDNSServer ''1.1.1.1:53'' False\<lparr>inflight := 1\<rparr>, [7])"
    by (rule reach_step [OF reach_refl])
  from lookups_bounded [OF this] show ?thesis by blast
qed

text \<open>A failed lookup is a negative answer unless it timed out: an unreachable registry or a DHT
  without peers also reads as a name that does not exist.\<close>

lemma fn_error_codes:
  assumes "dnsLib_ok D"
  shows "mRcode (answerFN D name qtype (Inl e) r) = (if e = ResStore (PubDHT DHTDeadline) then 2 else 3)
     \<and> mAnswer (answerFN D name qtype (Inl e) r) = []"
  using assms by (simp add: answerFN_def isDeadline_def dnsRcodes Let_def dnsLib_ok_def)

end
