(* ===== verification/Authoring.thy ===== *)
theory Authoring
  imports ResolverProps
begin

text \<open>
  Owner keys and signed publications: \<open>internal/authoring/service.go\<close>. The key directory is an
  association list from file names to entries; the key library is \<open>keyLib\<close>, keys being their
  serialized bytes; the publisher is the node of \<open>Publish\<close>. The lock per label makes a
  publication one atomic step.
\<close>

section \<open>Labels and key files\<close>

datatype dirEntry = KeyFile bytes | SubDir

type_synonym keyDir = "(string \<times> dirEntry) list"

datatype authErr =
    LabelEmpty | LabelTooBig nat | LabelReserved string | LabelChar string
  | ErrInvalidRecords recErr | ErrNameExists string | ErrNameNotFound string | ErrSequenceExhausted
  | ErrPublisherNotReady | ErrCurrentRecordUnavailable pubErr
  | NoPublisher | KeysDirEmpty | KeyReadErr string | KeyDecodeErr string | KeyGenErr | KeyFileErr string
  | AuthName nameErr | AuthSign recErr | AuthPublish pubErr

definition safeChar :: "char \<Rightarrow> bool" where
  "safeChar c \<longleftrightarrow> c \<in> set ''.-_'' \<or> alnumLower c \<or> CHR ''A'' \<le> c \<and> c \<le> CHR ''Z''"

definition CheckLabel :: "string \<Rightarrow> authErr + unit" where
  "CheckLabel label =
     (if label = [] then Inl LabelEmpty
      else if length label > MaxLabelLen then Inl (LabelTooBig (length label))
      else if label = ''.'' \<or> label = ''..'' \<or> hasPrefix label ''-'' then Inl (LabelReserved label)
      else if \<not> list_all safeChar label then Inl (LabelChar label)
      else if containsStr label ''..'' then Inl (LabelReserved label)
      else Inr ())"

text \<open>The file of a label inside the key directory.\<close>

definition keyPath :: "string \<Rightarrow> authErr + string" where
  "keyPath label = bindR (CheckLabel label) (\<lambda>_. Inr (label @ ''.key''))"

definition LoadKey :: "bytes keyLib \<Rightarrow> keyDir \<Rightarrow> string \<Rightarrow> authErr + bytes" where
  "LoadKey K dir label =
     bindR (keyPath label) (\<lambda>path.
       case map_of dir path of
         None \<Rightarrow> Inl (ErrNameNotFound label)
       | Some SubDir \<Rightarrow> Inl (KeyReadErr label)
       | Some (KeyFile b) \<Rightarrow>
           (case unmarshalKey K b of None \<Rightarrow> Inl (KeyDecodeErr label) | Some priv \<Rightarrow> Inr priv))"

record ownedName =
  onLabel :: string
  onName :: string

definition nameForKey :: "recordLib \<Rightarrow> string \<Rightarrow> bytes \<Rightarrow> authErr + ownedName" where
  "nameForKey L label priv =
     (case marshalPub L (getPublic L priv) of
        None \<Rightarrow> Inl KeyGenErr
      | Some pub \<Rightarrow>
          (case PubKeyID (hashes L) pub of
             Inl e \<Rightarrow> Inl (AuthName e)
           | Inr i \<Rightarrow> Inr \<lparr>onLabel = label, onName = label @ ''.'' @ i @ ''.'' @ TLD\<rparr>))"

definition Name :: "recordLib \<Rightarrow> bytes keyLib \<Rightarrow> keyDir \<Rightarrow> string \<Rightarrow> authErr + ownedName" where
  "Name L K dir label = bindR (LoadKey K dir label) (nameForKey L label)"

fun listEntries :: "recordLib \<Rightarrow> bytes keyLib \<Rightarrow> keyDir \<Rightarrow> keyDir \<Rightarrow> ownedName list" where
  "listEntries L K dir [] = []"
| "listEntries L K dir ((file, e) # rest) =
     (if e = SubDir \<or> \<not> hasSuffix file ''.key'' then listEntries L K dir rest
      else let label = trimSuffix file ''.key'' in
        if label = [] then listEntries L K dir rest
        else (case Name L K dir label of
                Inl _ \<Rightarrow> \<lparr>onLabel = label, onName = []\<rparr>
              | Inr n \<Rightarrow> n) # listEntries L K dir rest)"

text \<open>\<open>os.ReadDir\<close> lists by file name; the labels are distinct, so \<open>sort.Slice\<close> has one result.\<close>

definition ListNames :: "recordLib \<Rightarrow> bytes keyLib \<Rightarrow> keyDir \<Rightarrow> ownedName list" where
  "ListNames L K dir = sort_key onLabel (listEntries L K dir (sort_key fst dir))"

section \<open>Creating a name\<close>

text \<open>What the file system does: whether opening, writing, closing and removing succeed, and the
  bytes a failed write leaves.\<close>

record fileFaults =
  openOk :: bool
  writeOk :: bool
  closeOk :: bool
  removeOk :: bool
  partialBytes :: bytes

definition removeFile :: "fileFaults \<Rightarrow> string \<Rightarrow> keyDir \<Rightarrow> keyDir" where
  "removeFile F path dir = (if removeOk F then filter (\<lambda>e. fst e \<noteq> path) dir else dir)"

definition CreateName ::
    "recordLib \<Rightarrow> bytes keyLib \<Rightarrow> fileFaults \<Rightarrow> string \<Rightarrow> keyDir \<Rightarrow> (authErr + ownedName) \<times> keyDir" where
  "CreateName L K F label dir =
     (case keyPath label of
        Inl e \<Rightarrow> (Inl e, dir)
      | Inr path \<Rightarrow>
          (case generateKey K of
             None \<Rightarrow> (Inl KeyGenErr, dir)
           | Some priv \<Rightarrow>
               (case marshalKey K priv of
                  None \<Rightarrow> (Inl KeyGenErr, dir)
                | Some b \<Rightarrow>
                    if map_of dir path \<noteq> None then (Inl (ErrNameExists label), dir)
                    else if \<not> openOk F then (Inl (KeyFileErr label), dir)
                    else if \<not> writeOk F then
                      (Inl (KeyFileErr label), removeFile F path (dir @ [(path, KeyFile (partialBytes F))]))
                    else let dir' = dir @ [(path, KeyFile b)] in
                      if \<not> closeOk F then (Inl (KeyFileErr label), removeFile F path dir')
                      else (nameForKey L label priv, dir'))))"

section \<open>Building and publishing records\<close>

definition nextSeq :: "64 word \<Rightarrow> FNRecord option \<Rightarrow> authErr + 64 word" where
  "nextSeq wallClock current =
     (case current of
        None \<Rightarrow> Inr wallClock
      | Some cur \<Rightarrow>
          if Seq cur \<ge> wallClock then
            (if Seq cur = - 1 then Inl ErrSequenceExhausted else Inr (Seq cur + 1))
          else Inr wallClock)"

definition emptyRecord :: FNRecord where
  "emptyRecord = \<lparr>Label = [], Records = [], Seq = 0, EOL = 0, PubKey = [], Sig = []\<rparr>"

text \<open>The clock is read for the sequence number (\<open>now\<close>) and again for the expiry (\<open>later\<close>).\<close>

definition BuildRecord ::
    "recordLib \<Rightarrow> bytes keyLib \<Rightarrow> keyDir \<Rightarrow> int \<Rightarrow> int \<Rightarrow> string \<Rightarrow> RR list \<Rightarrow> FNRecord option
      \<Rightarrow> authErr + FNRecord" where
  "BuildRecord L K dir now later label recs current =
     (case ValidateRecords (hashes L) (emptyRecord\<lparr>Label := label, Records := recs\<rparr>) of
        Inl e \<Rightarrow> Inl (ErrInvalidRecords e)
      | Inr _ \<Rightarrow>
          bindR (LoadKey K dir label) (\<lambda>priv.
          bindR (nextSeq (word_of_int now) current) (\<lambda>sq.
            case BuildAndSignRecord L later priv label recs sq of
              Inl e \<Rightarrow> Inl (AuthSign e)
            | Inr r \<Rightarrow> Inr r)))"

text \<open>The end of a publication: build on top of \<open>current\<close>, sign and publish.\<close>

definition publishOver ::
    "recordLib \<Rightarrow> bytes keyLib \<Rightarrow> dhtNet \<Rightarrow> keyDir \<Rightarrow> int \<Rightarrow> int \<Rightarrow> string \<Rightarrow> RR list \<Rightarrow> fnNode \<Rightarrow> puts
      \<Rightarrow> FNRecord option \<Rightarrow> (authErr + FNRecord) \<times> fnNode \<times> puts" where
  "publishOver L K D dir now later label recs n ps current =
     (case BuildRecord L K dir now later label recs current of
        Inl e \<Rightarrow> (Inl e, n, ps)
      | Inr r \<Rightarrow>
          (case PublishRecord L D r n ps of
             (Inl e, n', ps') \<Rightarrow> (Inl (AuthPublish e), n', ps')
           | (Inr _, n', ps') \<Rightarrow> (Inr r, n', ps')))"

definition Publish ::
    "recordLib \<Rightarrow> bytes keyLib \<Rightarrow> (string \<Rightarrow> string) \<Rightarrow> dhtNet \<Rightarrow> keyDir \<Rightarrow> int \<Rightarrow> int \<Rightarrow> string \<Rightarrow> RR list
      \<Rightarrow> fnNode \<Rightarrow> puts \<Rightarrow> (authErr + FNRecord) \<times> fnNode \<times> puts" where
  "Publish L K uni D dir now later label recs n ps =
     (if \<not> IsInitialized n then (Inl ErrPublisherNotReady, n, ps)
      else case bindR (CheckLabel label) (\<lambda>_. Name L K dir label) of
        Inl e \<Rightarrow> (Inl e, n, ps)
      | Inr name \<Rightarrow>
          (case DHTKeyForName uni (onName name) of
             Inl e \<Rightarrow> (Inl (AuthName e), n, ps)
           | Inr key \<Rightarrow>
               (case ResolveRecord L D n ps key of
                  Inl e \<Rightarrow>
                    if e = PubDHT DHTNotFound then publishOver L K D dir now later label recs n ps None
                    else (Inl (ErrCurrentRecordUnavailable e), n, ps)
                | Inr c \<Rightarrow> publishOver L K D dir now later label recs n ps (Some c))))"

text \<open>\<open>Service.Publish\<close>, for a service that may have no publisher (the command line's).\<close>

definition servicePublish ::
    "recordLib \<Rightarrow> bytes keyLib \<Rightarrow> (string \<Rightarrow> string) \<Rightarrow> dhtNet \<Rightarrow> keyDir \<Rightarrow> int \<Rightarrow> int \<Rightarrow> string \<Rightarrow> RR list
      \<Rightarrow> fnNode option \<Rightarrow> puts \<Rightarrow> (authErr + FNRecord) \<times> fnNode option \<times> puts" where
  "servicePublish L K uni D dir now later label recs publisher ps =
     (case publisher of
        None \<Rightarrow> (Inl NoPublisher, None, ps)
      | Some n \<Rightarrow>
          (case Publish L K uni D dir now later label recs n ps of (a, n', ps') \<Rightarrow> (a, Some n', ps')))"

section \<open>Facts\<close>

lemma CheckLabel_ok:
  "CheckLabel label = Inr () \<longleftrightarrow>
     label \<noteq> [] \<and> length label \<le> 190 \<and> label \<noteq> ''.'' \<and> label \<noteq> ''..'' \<and> hd label \<noteq> CHR ''-''
     \<and> list_all safeChar label \<and> \<not> containsStr label ''..''"
  by (cases label) (auto simp: CheckLabel_def MaxLabelLen_def hasPrefix_def)

lemma safeChar_facts:
  assumes "safeChar c"
  shows "of_char c < (128 :: nat)" "c \<noteq> CHR ''/''" "c \<noteq> CHR 0x00"
  using assms by (auto simp: safeChar_def alnumLower_def less_eq_char_def)

lemma CheckLabel_ascii: "CheckLabel label = Inr () \<Longrightarrow> isASCII label \<and> label \<noteq> []"
  by (auto simp: CheckLabel_ok isASCII_def list_all_iff safeChar_facts)

lemma LoadKey_Inr:
  "LoadKey K dir label = Inr priv \<longleftrightarrow>
     CheckLabel label = Inr () \<and> (\<exists>b. map_of dir (label @ ''.key'') = Some (KeyFile b) \<and> unmarshalKey K b = Some priv)"
  by (auto simp: LoadKey_def keyPath_def bindR_Inr_iff split: option.splits dirEntry.splits)

lemma map_of_remove_new:
  "map_of dir path = None \<Longrightarrow> filter (\<lambda>e. fst e \<noteq> path) (dir @ [(path, e')]) = dir"
  by (auto simp: map_of_eq_None_iff filter_id_conv)

text \<open>The name of a key parses back to the key, in every spelling the resolver meets.\<close>

lemma nameForKey_Inr:
  assumes "nameForKey L label priv = Inr n"
  obtains pub i where "marshalPub L (getPublic L priv) = Some pub" "PubKeyID (hashes L) pub = Inr i"
    "n = \<lparr>onLabel = label, onName = label @ ''.'' @ i @ ''.'' @ TLD\<rparr>"
  using assms by (auto simp: nameForKey_def split: option.splits sum.splits)

lemma ownedName_parses:
  assumes L: "recordLib_ok L" and lab: "CheckLabel label = Inr ()" and n: "nameForKey L label priv = Inr n"
  obtains pub i where "marshalPub L (getPublic L priv) = Some pub" "PubKeyID (hashes L) pub = Inr i"
    "ParseName uni (onName n) = Inr (map lowerChar label, i)"
    "DHTKeyForName uni (onName n) = Inr (''/'' @ dhtNamespace @ ''/'' @ i)"
    "DHTKeyForName uni (CanonicalName uni (onName n)) = Inr (''/'' @ dhtNamespace @ ''/'' @ i)"
    "\<not> IsBareName (hashes L) uni (CanonicalName uni (onName n))"
proof -
  from L have H: "hashlib_ok (hashes L)" by (simp add: recordLib_ok_def)
  obtain pub i where pi: "marshalPub L (getPublic L priv) = Some pub" "PubKeyID (hashes L) pub = Inr i"
    and n': "onName n = label @ ''.'' @ i @ ''.'' @ TLD"
    by (rule nameForKey_Inr [OF n]) (rule that, simp_all)
  from PubKeyID_ok [OF H, of pub] pi(2) have i: "IsPubKeyID (hashes L) i" "i \<noteq> []" "list_all alnumLower i"
    by auto
  have a: "isASCII label" "label \<noteq> []" using CheckLabel_ascii [OF lab] by auto
  have can: "CanonicalName uni (onName n) = map lowerChar label @ ''.'' @ i @ ''.'' @ TLD"
    by (rule CanonicalName_full [OF a(1) i(3)]) (simp add: n')
  have low: "isASCII (map lowerChar label)" "map lowerChar (map lowerChar label) = map lowerChar label"
    using a(1) by (auto simp: isASCII_def lowerChar_def less_eq_char_def)
  have can2: "CanonicalName uni (CanonicalName uni (onName n)) = map lowerChar label @ ''.'' @ i @ ''.'' @ TLD"
    using CanonicalName_full [OF low(1) i(3), of "CanonicalName uni (onName n)" uni] low(2) can by simp
  have p: "ParseName uni (onName n) = Inr (map lowerChar label, i)"
    by (rule ParseName_parts [OF can _ i(2) alnumLower_no_dot [OF i(3)]]) (simp add: a)
  have p2: "ParseName uni (CanonicalName uni (onName n)) = Inr (map lowerChar label, i)"
    by (rule ParseName_parts [OF can2 _ i(2) alnumLower_no_dot [OF i(3)]]) (simp add: a)
  show thesis
    by (rule that [OF pi p]) (simp_all add: DHTKeyForName_def p p2 IsBareName_def i)
qed

lemma nextSeq_above:
  assumes "nextSeq w current = Inr sq"
  shows "case current of None \<Rightarrow> sq = w | Some cur \<Rightarrow> Seq cur < sq"
proof (cases current)
  case (Some cur)
  show ?thesis
  proof (cases "Seq cur \<ge> w")
    case True
    with assms Some have "Seq cur \<noteq> - 1" "sq = Seq cur + 1"
      by (auto simp: nextSeq_def split: if_splits)
    moreover from this have "1 + Seq cur \<noteq> 0" using max_word_wrap [of "Seq cur"] by (auto simp: add.commute)
    ultimately have "Seq cur < sq" using unatSuc [of "Seq cur"] by (simp add: word_less_nat_alt add.commute)
    with Some show ?thesis by simp
  next
    case False
    with assms Some show ?thesis by (auto simp: nextSeq_def)
  qed
qed (use assms in \<open>simp add: nextSeq_def\<close>)

lemma BuildRecord_Inr:
  assumes "BuildRecord L K dir now later label recs current = Inr r"
  obtains priv sq where "LoadKey K dir label = Inr priv" "nextSeq (word_of_int now) current = Inr sq"
    "BuildAndSignRecord L later priv label recs sq = Inr r"
    "ValidateRecords (hashes L) (emptyRecord\<lparr>Label := label, Records := recs\<rparr>) = Inr ()"
  using assms
  by (auto simp: BuildRecord_def bindR_Inr_iff split: sum.splits)

lemma built_fields:
  assumes "BuildAndSignRecord L later priv label recs sq = Inr r"
  obtains pub where "marshalPub L (getPublic L priv) = Some pub" "PubKey r = pub" "Label r = label"
    "Records r = recs" "Seq r = sq" "EOL r = word_of_int (later + defaultRecordTTL)"
proof -
  from assms obtain pub sig where "marshalPub L (getPublic L priv) = Some pub"
    "r = \<lparr>Label = label, Records = recs, Seq = sq, EOL = word_of_int (later + defaultRecordTTL),
          PubKey = pub, Sig = sig\<rparr>"
    by (auto simp: BuildAndSignRecord_def dest!: Sign_Inr)
  then show thesis by (intro that) simp_all
qed

lemma built_verifies:
  assumes L: "recordLib_ok L" and b: "BuildAndSignRecord L later priv label recs sq = Inr r"
    and fresh: "EOL r = 0 \<or> t \<le> sint (EOL r)"
  shows "Verify L t r = ValidateRecords (hashes L) r"
proof -
  obtain r0 where s: "Sign L priv r0 = Inr r" using b by (auto simp: BuildAndSignRecord_def)
  from Sign_Inr [OF s] have eq: "EOL r0 = EOL r" "ValidateRecords (hashes L) r0 = ValidateRecords (hashes L) r"
    by (auto simp: ValidateRecords_def)
  with fresh show ?thesis unfolding eq(2) [symmetric] by (intro Sign_verifies [OF L s]) simp
qed

text \<open>The way a publication succeeds: everything it read, built and wrote.\<close>

lemma Publish_Inr:
  assumes "Publish L K uni D dir now later label recs n ps = (Inr r, n', ps')"
  obtains name key current where "CheckLabel label = Inr ()" "Name L K dir label = Inr name"
    "DHTKeyForName uni (onName name) = Inr key" "kadDHT n"
    "ResolveRecord L D n ps key = (case current of None \<Rightarrow> Inl (PubDHT DHTNotFound) | Some c \<Rightarrow> Inr c)"
    "BuildRecord L K dir now later label recs current = Inr r" "PublishRecord L D r n ps = (Inr (), n', ps')"
proof -
  from assms have up: "kadDHT n"
    and "\<exists>name. bindR (CheckLabel label) (\<lambda>_. Name L K dir label) = Inr name"
    by (auto simp: Publish_def IsInitialized_def split: if_splits sum.splits)
  then obtain name where name: "CheckLabel label = Inr ()" "Name L K dir label = Inr name"
    by (auto simp: bindR_Inr_iff)
  with assms up obtain key where key: "DHTKeyForName uni (onName name) = Inr key"
    by (auto simp: Publish_def IsInitialized_def split: sum.splits)
  with assms up name obtain current where
    b: "publishOver L K D dir now later label recs n ps current = (Inr r, n', ps')"
    and cur: "ResolveRecord L D n ps key = (case current of None \<Rightarrow> Inl (PubDHT DHTNotFound) | Some c \<Rightarrow> Inr c)"
    by (auto simp: Publish_def IsInitialized_def split: sum.splits if_splits)
  from b have "BuildRecord L K dir now later label recs current = Inr r"
      "PublishRecord L D r n ps = (Inr (), n', ps')"
    by (auto simp: publishOver_def split: sum.splits prod.splits)
  from that [OF name key up cur this] show thesis .
qed

text \<open>What a publication puts, and where.\<close>

lemma published:
  assumes L: "recordLib_ok L"
    and pub: "Publish L K uni D dir now later label recs n ps = (Inr r, n', ps')"
  obtains name i val current priv sq where "Name L K dir label = Inr name" "kadDHT n'"
    "DHTKeyForName uni (onName name) = Inr (''/'' @ dhtNamespace @ ''/'' @ i)"
    "DHTKeyForName uni (CanonicalName uni (onName name)) = Inr (''/'' @ dhtNamespace @ ''/'' @ i)"
    "\<not> IsBareName (hashes L) uni (CanonicalName uni (onName name))"
    "PubKeyID (hashes L) (PubKey r) = Inr i" "recordDHTKey L r = Inr (''/'' @ dhtNamespace @ ''/'' @ i)"
    "recEncode L r = Some val" "ps' = ps @ [(''/'' @ dhtNamespace @ ''/'' @ i, val)]"
    "ResolveRecord L D n ps (''/'' @ dhtNamespace @ ''/'' @ i)
       = (case current of None \<Rightarrow> Inl (PubDHT DHTNotFound) | Some c \<Rightarrow> Inr c)"
    "nextSeq (word_of_int now) current = Inr sq" "BuildAndSignRecord L later priv label recs sq = Inr r"
    "ValidateRecords (hashes L) r = Inr ()" "map_of (owned n') = (map_of (owned n))(''/'' @ dhtNamespace @ ''/'' @ i \<mapsto> r)"
proof -
  obtain name key current where c: "CheckLabel label = Inr ()" "Name L K dir label = Inr name"
    "DHTKeyForName uni (onName name) = Inr key" "kadDHT n"
    "ResolveRecord L D n ps key = (case current of None \<Rightarrow> Inl (PubDHT DHTNotFound) | Some c \<Rightarrow> Inr c)"
    "BuildRecord L K dir now later label recs current = Inr r" "PublishRecord L D r n ps = (Inr (), n', ps')"
    by (rule Publish_Inr [OF pub])
  obtain priv sq where b: "LoadKey K dir label = Inr priv" "nextSeq (word_of_int now) current = Inr sq"
    "BuildAndSignRecord L later priv label recs sq = Inr r"
    "ValidateRecords (hashes L) (emptyRecord\<lparr>Label := label, Records := recs\<rparr>) = Inr ()"
    by (rule BuildRecord_Inr [OF c(6)])
  from c(2) b(1) have "nameForKey L label priv = Inr name" by (simp add: Name_def)
  from ownedName_parses [OF L c(1) this] obtain pk i where o: "marshalPub L (getPublic L priv) = Some pk"
    "PubKeyID (hashes L) pk = Inr i" "DHTKeyForName uni (onName name) = Inr (''/'' @ dhtNamespace @ ''/'' @ i)"
    "DHTKeyForName uni (CanonicalName uni (onName name)) = Inr (''/'' @ dhtNamespace @ ''/'' @ i)"
    "\<not> IsBareName (hashes L) uni (CanonicalName uni (onName name))" by metis
  obtain pk' where f: "marshalPub L (getPublic L priv) = Some pk'" "PubKey r = pk'" "Label r = label" "Records r = recs"
    by (rule built_fields [OF b(3)])
  with o have id: "PubKeyID (hashes L) (PubKey r) = Inr i" by simp
  then have rk: "recordDHTKey L r = Inr (''/'' @ dhtNamespace @ ''/'' @ i)"
    by (simp add: recordDHTKey_def DHTKeyForPubKey_def)
  from c(3) o(3) have key: "key = ''/'' @ dhtNamespace @ ''/'' @ i" by simp
  obtain key' val where p: "recordDHTKey L r = Inr key'" "recEncode L r = Some val" "kadDHT n'"
      "ps' = ps @ [(key', val)]" "map_of (owned n') = (map_of (owned n))(key' \<mapsto> r)"
    by (rule PublishRecord_Inr [OF c(7)]) (rule that, simp_all add: c(4))
  from p(1) rk have key': "key' = ''/'' @ dhtNamespace @ ''/'' @ i" by simp
  have "ValidateRecords (hashes L) r = Inr ()" using b(4) f by (simp add: ValidateRecords_Inr emptyRecord_def)
  from that [OF c(2) p(3) o(3) o(4) o(5) id rk p(2) p(4) [unfolded key'] c(5) [unfolded key] b(2) b(3) this
      p(5) [unfolded key']] show thesis .
qed

end
