(* ===== verification/AuthoringProps.thy ===== *)
theory AuthoringProps
  imports Authoring
begin

text \<open>
  What authoring promises: key files are never replaced, a publication always supersedes what the
  network holds, and a published name resolves to what was published.
\<close>

section \<open>A concrete owner\<close>

text \<open>The demonstration library signs and encodes one record; its key file holds the owner's key.\<close>

definition demoDir :: keyDir where
  "demoDir = [(''mysite.key'', KeyFile [9])]"

definition demoOwner :: "bytes keyLib" where
  "demoOwner = \<lparr>unmarshalKey = Some, marshalKey = Some, generateKey = Some [9]\<rparr>"

definition demoUp :: fnNode where
  "demoUp = \<lparr>kadDHT = True, owned = []\<rparr>"

lemma demo_label: "CheckLabel ''mysite'' = Inr ()"
  by code_simp

lemma demo_built_at:
  "BuildAndSignRecord demoLib 1000 [9] ''mysite'' [\<lparr>rrType = ''A'', rrValue = ''10.0.0.1'', rrTTL = 300\<rparr>] 1
     = Inr (demoRec 1)"
  by (rule demo_built)

lemma demo_LoadKey: "LoadKey demoOwner demoDir ''mysite'' = Inr [9]"
  by (simp add: LoadKey_Inr demo_label demoDir_def demoOwner_def)

lemma demo_published:
  "\<exists>key. Publish demoLib demoOwner id (demoDHT 1000) demoDir 1 1000 ''mysite''
      [\<lparr>rrType = ''A'', rrValue = ''10.0.0.1'', rrTTL = 300\<rparr>] demoUp []
    = (Inr (demoRec 1), demoUp\<lparr>owned := [(key, demoRec 1)]\<rparr>, [(key, [1])])"
proof -
  have H: "hashes demoLib = demoHashlib" by (simp add: demoLib_def)
  let ?rr = "[\<lparr>rrType = ''A'', rrValue = ''10.0.0.1'', rrTTL = 300\<rparr>]"
  from PubKeyID_ok [OF demoHashlib_ok, of "[1, 9]"] obtain i where
    i: "PubKeyID demoHashlib [1, 9] = Inr i" by blast
  then have nk: "nameForKey demoLib ''mysite'' [9] = Inr \<lparr>onLabel = ''mysite'', onName = ''mysite'' @ ''.'' @ i @ ''.'' @ TLD\<rparr>"
    by (simp add: nameForKey_def demoLib_def)
  let ?key = "''/'' @ dhtNamespace @ ''/'' @ i"
  have nm: "Name demoLib demoOwner demoDir ''mysite'' = Inr \<lparr>onLabel = ''mysite'', onName = ''mysite'' @ ''.'' @ i @ ''.'' @ TLD\<rparr>"
    unfolding Name_def demo_LoadKey bindR_simps by (rule nk)
  obtain pub j where j: "marshalPub demoLib (getPublic demoLib [9]) = Some pub" "PubKeyID (hashes demoLib) pub = Inr j"
    "DHTKeyForName id (onName \<lparr>onLabel = ''mysite'', onName = ''mysite'' @ ''.'' @ i @ ''.'' @ TLD\<rparr>) = Inr (''/'' @ dhtNamespace @ ''/'' @ j)"
    by (rule ownedName_parses [OF demoLib_ok demo_label nk, of id])
  have "pub = [1, 9]" using j(1) by (simp add: demoLib_def)
  with j(2) i H have "j = i" by simp
  with j(3) have k: "DHTKeyForName id (''mysite'' @ ''.'' @ i @ ''.'' @ TLD) = Inr ?key"
    by (simp only: ownedName.select_convs)
  have pk: "PubKey (demoRec 1) = [1, 9]" by (simp add: demoRec_def Let_def)
  have rk: "recordDHTKey demoLib (demoRec 1) = Inr ?key"
    by (simp only: recordDHTKey_def DHTKeyForPubKey_def pk H i bindR_simps)
  have none: "ResolveRecord demoLib (demoDHT 1000) demoUp [] ?key = Inl (PubDHT DHTNotFound)"
    by (simp add: ResolveRecord_def demoDHT_def demoUp_def)
  have val: "ValidateRecords (hashes demoLib) (emptyRecord\<lparr>Label := ''mysite'', Records := ?rr\<rparr>) = Inr ()"
    using demo_valid [of "hashes demoLib" 1]
    by (simp only: ValidateRecords_Inr) (simp add: emptyRecord_def demoRec_def Let_def)
  have b: "BuildRecord demoLib demoOwner demoDir 1 1000 ''mysite'' ?rr None = Inr (demoRec 1)"
    by (simp only: BuildRecord_def val demo_LoadKey bindR_simps sum.case)
      (simp add: nextSeq_def demo_built_at)
  have enc: "recEncode demoLib (demoRec 1) = Some [1]" by (simp add: demoLib_def)
  have pub: "PublishRecord demoLib (demoDHT 1000) (demoRec 1) demoUp []
      = (Inr (), demoUp\<lparr>owned := [(?key, demoRec 1)]\<rparr>, [(?key, [1])])"
    by (simp only: PublishRecord_def rk enc sum.case option.case)
      (simp add: PutValue_def demoDHT_def demoPutNet_def demoUp_def)
  show ?thesis
    by (rule exI [of _ ?key])
      (simp only: Publish_def demo_label nm bindR_simps sum.case ownedName.select_convs k none publishOver_def b pub
        prod.case if_True if_False simp_thms IsInitialized_def, simp add: demoUp_def)
qed

section \<open>Properties\<close>

text \<open>C8: a publication supersedes what the network holds. It succeeds only if the current record
  could be read or is known not to exist; the new record is the requested one, valid, under the key
  both the owner's name and the record itself lead to; the DHT is given exactly that record; it is
  remembered for republishing; and every peer's selection prefers it to the current one, whatever
  the two values' bytes.\<close>

theorem publish_supersedes:
  assumes "recordLib_ok L"
    and "Publish L K uni D dir now later label recs n ps = (Inr r, n', ps')"
  shows "\<exists>name key val. Name L K dir label = Inr name \<and> DHTKeyForName uni (onName name) = Inr key
     \<and> recordDHTKey L r = Inr key \<and> recEncode L r = Some val \<and> ps' = ps @ [(key, val)]
     \<and> map_of (owned n') key = Some r
     \<and> Label r = label \<and> Records r = recs \<and> ValidateRecords (hashes L) r = Inr ()
     \<and> (case ResolveRecord L D n ps key of
          Inl e \<Rightarrow> e = PubDHT DHTNotFound
        | Inr cur \<Rightarrow> \<forall>raw. betterRecord r cur val raw)"
proof -
  obtain name i val current priv sq where p: "Name L K dir label = Inr name"
    "DHTKeyForName uni (onName name) = Inr (''/'' @ dhtNamespace @ ''/'' @ i)"
    "recordDHTKey L r = Inr (''/'' @ dhtNamespace @ ''/'' @ i)"
    "recEncode L r = Some val" "ps' = ps @ [(''/'' @ dhtNamespace @ ''/'' @ i, val)]"
    "ResolveRecord L D n ps (''/'' @ dhtNamespace @ ''/'' @ i)
       = (case current of None \<Rightarrow> Inl (PubDHT DHTNotFound) | Some c \<Rightarrow> Inr c)"
    "nextSeq (word_of_int now) current = Inr sq" "BuildAndSignRecord L later priv label recs sq = Inr r"
    "ValidateRecords (hashes L) r = Inr ()" "map_of (owned n') = (map_of (owned n))(''/'' @ dhtNamespace @ ''/'' @ i \<mapsto> r)"
    by (rule published [OF assms])
  obtain pk where f: "Label r = label" "Records r = recs" "Seq r = sq" by (rule built_fields [OF p(8)])
  have "case ResolveRecord L D n ps (''/'' @ dhtNamespace @ ''/'' @ i) of
          Inl e \<Rightarrow> e = PubDHT DHTNotFound | Inr cur \<Rightarrow> \<forall>raw. betterRecord r cur val raw"
  proof (cases current)
    case (Some c)
    with nextSeq_above [OF p(7)] have "Seq c < Seq r" by (simp add: f)
    then show ?thesis unfolding p(6) Some by (auto simp: betterRecord_def)
  next
    case None
    show ?thesis unfolding p(6) None by simp
  qed
  with p f show ?thesis by (intro exI [of _ name] exI [of _ "''/'' @ dhtNamespace @ ''/'' @ i"] exI [of _ val]) simp
qed

theorem publish_supersedes_witness:
  "\<exists>key. recordDHTKey demoLib (demoRec 1) = Inr key \<and> ValidateRecords (hashes demoLib) (demoRec 1) = Inr ()"
proof -
  obtain key where "Publish demoLib demoOwner id (demoDHT 1000) demoDir 1 1000 ''mysite''
      [\<lparr>rrType = ''A'', rrValue = ''10.0.0.1'', rrTTL = 300\<rparr>] demoUp []
    = (Inr (demoRec 1), demoUp\<lparr>owned := [(key, demoRec 1)]\<rparr>, [(key, [1])])"
    using demo_published by blast
  from publish_supersedes [OF demoLib_ok this] show ?thesis by blast
qed

text \<open>C7: what is published is what resolves. If the record's JSON form decodes to it and the DHT
  answers with what was put last, then for the seven days until the record's expiry every peer's
  validator accepts the value, and a resolver with an empty cache answers the owner's full name with
  exactly the published records.\<close>

theorem published_name_resolves:
  assumes L: "recordLib_ok L" and C: "lruLib_ok C 100" and new: "NewMemoryCache C = Some c"
    and pub: "Publish L K uni D dir now later label recs n ps = (Inr r, n', ps')"
    and name: "Name L K dir label = Inr name"
    and dec: "\<And>val. recEncode L r = Some val \<Longrightarrow> recDecode L val = Some r"
    and dht: "\<And>key val. ps' = ps @ [(key, val)] \<Longrightarrow> dhtGet D ps' key = Inr val"
    and clock: "0 \<le> later" "later < 2 ^ 62"
  shows "(\<forall>t \<le> later + 604800. \<forall>key val. ps' = ps @ [(key, val)] \<longrightarrow> Validate L t key val = Inr ())
     \<and> fst (Resolve C (hashes L) uni reg (ResolveRecord L D n' ps') t1 t2 (onName name) (c, r0)) = Inr recs"
proof -
  from C have C': "lruLib_ok C cacheSize" by (simp add: cacheSize_def)
  note N = new_cache_holds(2,3) [OF C' new]
  obtain name' i val current priv sq where p: "Name L K dir label = Inr name'" "kadDHT n'"
    "DHTKeyForName uni (CanonicalName uni (onName name')) = Inr (''/'' @ dhtNamespace @ ''/'' @ i)"
    "\<not> IsBareName (hashes L) uni (CanonicalName uni (onName name'))"
    "PubKeyID (hashes L) (PubKey r) = Inr i" "recEncode L r = Some val" "ps' = ps @ [(''/'' @ dhtNamespace @ ''/'' @ i, val)]"
    "BuildAndSignRecord L later priv label recs sq = Inr r" "ValidateRecords (hashes L) r = Inr ()"
    by (rule published [OF L pub])
  obtain pk where f: "Records r = recs" "EOL r = word_of_int (later + defaultRecordTTL)"
    by (rule built_fields [OF p(8)])
  from dec p(6) have d: "recDecode L val = Some r" by blast
  have eol: "sint (EOL r) = later + 604800"
    unfolding f(2) defaultRecordTTL_def int_word_sint using clock by simp

  let ?key = "''/'' @ dhtNamespace @ ''/'' @ i"
  have sk: "splitKey L ?key = Some (dhtNamespace, i)"
    by (rule recordLib_ok_splitKey [OF L]) (simp_all add: dhtNamespace_def)
  have "Validate L t ?key val = Inr ()" if "t \<le> later + 604800" for t
    using built_verifies [OF L p(8), of t] eol that p(9)
    by (simp only: Validate_def sk d p(5) option.case prod.case sum.case simp_thms if_False)
  then have valid: "\<forall>t \<le> later + 604800. \<forall>key val. ps' = ps @ [(key, val)] \<longrightarrow> Validate L t key val = Inr ()"
    using p(7) by simp
  let ?can = "CanonicalName uni (onName name)"
  have nm: "name' = name" using p(1) name by simp
  have k: "dhtKeyForName (hashes L) uni reg ?can r0 = (Inr ?key, r0)"
    using p(3,4) unfolding nm by (simp only: dhtKeyForName_def simp_thms if_True sum.case)
  have "dhtGet D ps' ?key = Inr val" by (rule dht [OF p(7)])
  then have res: "ResolveRecord L D n' ps' ?key = Inr r" using p(2) d by (simp add: ResolveRecord_def)
  obtain a c' where g: "cacheGet C t1 ?can c = (a, c')" by (cases "cacheGet C t1 ?can c")
  with cacheGet_effect(2) [OF N(1) g] N(2) have "a = None" by simp
  with g k res f(1) have "fst (Resolve C (hashes L) uni reg (ResolveRecord L D n' ps') t1 t2 (onName name) (c, r0)) = Inr recs"
    by (simp add: Resolve_def)
  with valid show ?thesis by blast
qed

theorem published_name_resolves_witness:
  "\<exists>name key. fst (Resolve demoLru demoHashlib id (None :: unit registry)
      (ResolveRecord demoLib (demoDHT 1000) (demoUp\<lparr>owned := [(key, demoRec 1)]\<rparr>) [(key, [1])]) 0 0 name ([], ()))
    = Inr [\<lparr>rrType = ''A'', rrValue = ''10.0.0.1'', rrTTL = 300\<rparr>]"
proof -
  obtain key where p: "Publish demoLib demoOwner id (demoDHT 1000) demoDir 1 1000 ''mysite''
      [\<lparr>rrType = ''A'', rrValue = ''10.0.0.1'', rrTTL = 300\<rparr>] demoUp []
    = (Inr (demoRec 1), demoUp\<lparr>owned := [(key, demoRec 1)]\<rparr>, [(key, [1])])"
    using demo_published by blast
  obtain name i where n: "Name demoLib demoOwner demoDir ''mysite'' = Inr name"
    and key: "key = ''/'' @ dhtNamespace @ ''/'' @ i" and i: "PubKeyID (hashes demoLib) (PubKey (demoRec 1)) = Inr i"
    by (rule published [OF demoLib_ok p]) auto
  have sk: "splitKey demoLib key = Some (dhtNamespace, i)"
    unfolding key by (rule recordLib_ok_splitKey [OF demoLib_ok]) (simp_all add: dhtNamespace_def)
  have v: "Validate demoLib 1000 key [1] = Inr ()"
    by (simp only: Validate_def sk demo_decode i option.case prod.case sum.case simp_thms if_False)
      (rule demo_verifies, simp)
  have new: "NewMemoryCache demoLru = Some []" by (simp add: NewMemoryCache_def demoLru_def)
  have l: "lruLib_ok demoLru 100" using demoLru_ok by (simp add: cacheSize_def)
  have H: "hashes demoLib = demoHashlib" by (simp add: demoLib_def)
  have enc: "recDecode demoLib val = Some (demoRec 1)" if "recEncode demoLib (demoRec 1) = Some val" for val
    using that by (simp add: demoLib_def)
  have get: "dhtGet (demoDHT 1000) [(key, [1])] key' = Inr val" if "[(key, [1])] = [] @ [(key', val)]" for key' val
    using that v by (auto simp: demoDHT_def)
  from published_name_resolves [OF demoLib_ok l new p n enc get, THEN conjunct2, of "None :: unit registry" 0 0 "()"]
  show ?thesis unfolding H by auto
qed

text \<open>C20: creating a name never touches an existing key. Every file that was in the directory is still
  there with its contents, whatever fails; on success the new label, and no other, has a key, loading
  it gives back the generated key, and the name returned is the name later read from the file; and
  after a failure whose clean-up works the directory is as it was.\<close>

theorem create_never_replaces:
  assumes K: "\<And>k b. marshalKey K k = Some b \<Longrightarrow> unmarshalKey K b = Some k"
    and cr: "CreateName L K F label dir = (a, dir')"
  shows "(\<forall>file e. map_of dir file = Some e \<longrightarrow> map_of dir' file = Some e)
     \<and> (\<forall>n. a = Inr n \<longrightarrow> map_of dir (label @ ''.key'') = None
          \<and> (\<forall>file. file \<noteq> label @ ''.key'' \<longrightarrow> map_of dir' file = map_of dir file)
          \<and> (\<exists>k. generateKey K = Some k \<and> LoadKey K dir' label = Inr k) \<and> Name L K dir' label = Inr n)
     \<and> (\<forall>e. a = Inl e \<and> removeOk F \<and> (\<forall>k. generateKey K = Some k \<longrightarrow> isOk (nameForKey L label k))
          \<longrightarrow> dir' = dir)"
proof -
  let ?path = "label @ ''.key''"
  have unchanged: ?thesis if "dir' = dir" "\<exists>e. a = Inl e" using that by auto
  show ?thesis
  proof (cases "CheckLabel label = Inr () \<and> (\<exists>k b. generateKey K = Some k \<and> marshalKey K k = Some b)
      \<and> map_of dir ?path = None \<and> openOk F")
    case False
    then show ?thesis
      using cr by (intro unchanged)
        (auto simp: CreateName_def keyPath_def bindR_def split: option.splits sum.splits if_splits)
  next
    case True
    then obtain k b where k: "CheckLabel label = Inr ()" "generateKey K = Some k" "marshalKey K k = Some b"
      "map_of dir ?path = None" "openOk F" by blast
    show ?thesis
    proof (cases "writeOk F \<and> closeOk F")
      case False
      then obtain c where c: "dir' = removeFile F ?path (dir @ [(?path, c)])" "\<exists>e. a = Inl e"
        using cr k by (auto simp: CreateName_def keyPath_def split: if_splits)
      have "dir' = dir \<or> \<not> removeOk F \<and> dir' = dir @ [(?path, c)]"
        using c(1) map_of_remove_new [OF k(4)] by (auto simp: removeFile_def)
      with c(2) show ?thesis by (auto simp: map_add_def)
    next
      case True
      then have d: "dir' = dir @ [(?path, KeyFile b)]" "a = nameForKey L label k"
        using cr k by (auto simp: CreateName_def keyPath_def)
      have load: "LoadKey K dir' label = Inr k"
        unfolding LoadKey_Inr d using k K by (simp add: map_add_def)
      then have nm: "Name L K dir' label = a" by (simp add: Name_def d(2))
      have "\<not> (\<exists>e. a = Inl e) \<or> \<not> isOk (nameForKey L label k)" using d(2) by (cases a) auto
      with d(1) load nm k show ?thesis by (auto simp: map_add_def split: option.splits)
    qed
  qed
qed

definition goodFile :: fileFaults where
  "goodFile = \<lparr>openOk = True, writeOk = True, closeOk = True, removeOk = True, partialBytes = []\<rparr>"

theorem create_never_replaces_witness:
  "\<exists>n dir'. CreateName demoLib demoOwner goodFile ''new'' demoDir = (Inr n, dir')
     \<and> map_of dir' ''mysite.key'' = Some (KeyFile [9]) \<and> Name demoLib demoOwner dir' ''new'' = Inr n"
proof -
  have lab: "CheckLabel ''new'' = Inr ()" by code_simp
  obtain i where "PubKeyID (hashes demoLib) [1, 9] = Inr i"
    using PubKeyID_ok [OF demoHashlib_ok] by (auto simp: demoLib_def)
  then have nk: "nameForKey demoLib ''new'' [9] = Inr \<lparr>onLabel = ''new'', onName = ''new'' @ ''.'' @ i @ ''.'' @ TLD\<rparr>"
    by (simp add: nameForKey_def demoLib_def)
  obtain n dir' where cr: "CreateName demoLib demoOwner goodFile ''new'' demoDir = (Inr n, dir')"
    by (simp add: CreateName_def keyPath_def lab demoOwner_def demoDir_def goodFile_def nk)
  have K: "\<And>k b. marshalKey demoOwner k = Some b \<Longrightarrow> unmarshalKey demoOwner b = Some k"
    by (simp add: demoOwner_def)
  from create_never_replaces [OF K cr]
  have "map_of dir' ''mysite.key'' = Some (KeyFile [9])" "Name demoLib demoOwner dir' ''new'' = Inr n"
    by (simp_all add: demoDir_def)
  with cr show ?thesis by blast
qed

lemma Name_label: "Name L K dir label = Inr n \<Longrightarrow> onLabel n = label"
  unfolding Name_def bindR_Inr_iff by (elim exE conjE, erule nameForKey_Inr) simp

text \<open>The listing is one entry per key file.\<close>

definition entryLabel :: "string \<times> dirEntry \<Rightarrow> string option" where
  "entryLabel fe =
     (if snd fe = SubDir \<or> \<not> hasSuffix (fst fe) ''.key'' \<or> trimSuffix (fst fe) ''.key'' = [] then None
      else Some (trimSuffix (fst fe) ''.key''))"

definition entryFor :: "recordLib \<Rightarrow> bytes keyLib \<Rightarrow> keyDir \<Rightarrow> string \<Rightarrow> ownedName" where
  "entryFor L K dir label =
     (case Name L K dir label of Inl _ \<Rightarrow> \<lparr>onLabel = label, onName = []\<rparr> | Inr m \<Rightarrow> m)"

lemma listEntries_map: "listEntries L K dir es = map (entryFor L K dir) (List.map_filter entryLabel es)"
  by (induction L K dir es rule: listEntries.induct)
    (simp_all add: Let_def entryLabel_def entryFor_def List.map_filter_simps)

lemma entryFor_label [simp]: "onLabel (entryFor L K dir label) = label"
  by (auto simp: entryFor_def Name_label split: sum.splits)

lemma entryLabel_Some:
  "entryLabel (f, e) = Some label \<longleftrightarrow> label \<noteq> [] \<and> f = label @ ''.key'' \<and> (\<exists>b. e = KeyFile b)"
  by (cases e) (auto simp: entryLabel_def hasSuffix_iff trimSuffix_append)

lemma set_map_filter_entryLabel:
  "label \<in> set (List.map_filter entryLabel es) \<longleftrightarrow>
     label \<noteq> [] \<and> (\<exists>b. (label @ ''.key'', KeyFile b) \<in> set es)"
proof (induction es)
  case (Cons x es)
  obtain f e where x: "x = (f, e)" by (cases x)
  show ?case
    using Cons entryLabel_Some [of f e label]
    by (cases "entryLabel (f, e)") (auto simp: x List.map_filter_simps)
qed (simp add: List.map_filter_simps)

lemma distinct_map_filter_entryLabel: "distinct (map fst es) \<Longrightarrow> distinct (List.map_filter entryLabel es)"
proof (induction es)
  case (Cons x es)
  obtain f e where x: "x = (f, e)" by (cases x)
  show ?case
  proof (cases "entryLabel (f, e)")
    case (Some label)
    then have "f = label @ ''.key''" by (simp add: entryLabel_Some)
    with Cons.prems have "label \<notin> set (List.map_filter entryLabel es)"
      by (force simp: x set_map_filter_entryLabel)
    with Cons Some show ?thesis by (simp add: x List.map_filter_simps)
  qed (use Cons in \<open>simp add: x List.map_filter_simps\<close>)
qed (simp add: List.map_filter_simps)

text \<open>The listing shows every local name once, in order of the labels. A label is listed exactly
  when a key file of that label is in the directory; its entry is the name its key gives, or an
  empty name if the label or the key is no good, so a damaged file neither hides the others nor
  frees its label.\<close>

theorem list_names_exact:
  assumes "distinct (map fst dir)"
  shows "sorted (map onLabel (ListNames L K dir)) \<and> distinct (map onLabel (ListNames L K dir))
     \<and> (\<forall>n. n \<in> set (ListNames L K dir) \<longleftrightarrow>
          (\<exists>b. map_of dir (onLabel n @ ''.key'') = Some (KeyFile b)) \<and> onLabel n \<noteq> []
          \<and> (Name L K dir (onLabel n) = Inr n \<or> onName n = [] \<and> \<not> isOk (Name L K dir (onLabel n))))"
proof (intro conjI allI)
  let ?es = "sort_key fst dir"
  have d: "distinct (map fst ?es)" using assms by (simp add: distinct_map)
  show "sorted (map onLabel (ListNames L K dir))" by (simp add: ListNames_def)
  show "distinct (map onLabel (ListNames L K dir))"
    using distinct_map_filter_entryLabel [OF d]
    by (simp add: ListNames_def listEntries_map distinct_map inj_on_def comp_def) (metis entryFor_label)
  fix n
  have "n \<in> set (ListNames L K dir) \<longleftrightarrow>
      (\<exists>label b. label \<noteq> [] \<and> map_of dir (label @ ''.key'') = Some (KeyFile b) \<and> n = entryFor L K dir label)"
  proof -
    have "label \<in> set (List.map_filter entryLabel ?es)
        \<longleftrightarrow> label \<noteq> [] \<and> (\<exists>b. map_of dir (label @ ''.key'') = Some (KeyFile b))" for label
      using assms by (simp add: set_map_filter_entryLabel)
    then show ?thesis unfolding ListNames_def listEntries_map set_sort set_map by blast
  qed
  also have "\<dots> \<longleftrightarrow> (\<exists>b. map_of dir (onLabel n @ ''.key'') = Some (KeyFile b)) \<and> onLabel n \<noteq> []
      \<and> n = entryFor L K dir (onLabel n)"
    by (metis entryFor_label)
  also have "n = entryFor L K dir (onLabel n)
      \<longleftrightarrow> Name L K dir (onLabel n) = Inr n \<or> onName n = [] \<and> \<not> isOk (Name L K dir (onLabel n))"
    by (cases n; cases "Name L K dir (onLabel n)") (auto simp: entryFor_def)
  finally show "n \<in> set (ListNames L K dir) \<longleftrightarrow>
          (\<exists>b. map_of dir (onLabel n @ ''.key'') = Some (KeyFile b)) \<and> onLabel n \<noteq> []
          \<and> (Name L K dir (onLabel n) = Inr n \<or> onName n = [] \<and> \<not> isOk (Name L K dir (onLabel n)))" .
qed

theorem list_names_exact_witness:
  "onLabel ` set (ListNames demoLib demoOwner [(''b.key'', KeyFile [9]), (''-a.key'', KeyFile []), (''readme'', KeyFile [])])
     \<subseteq> {''-a'', ''b''}"
proof -
  let ?dir = "[(''b.key'', KeyFile [9]), (''-a.key'', KeyFile []), (''readme'', KeyFile [])]"
  have "distinct (map fst ?dir)" by simp
  note ex = list_names_exact [OF this, of demoLib demoOwner, THEN conjunct2, THEN conjunct2, rule_format, THEN iffD1, THEN conjunct1]
  have key: "l = ''-a'' \<or> l = ''b''" if k: "map_of ?dir (l @ ''.key'') = Some e" for l e
  proof -
    from k have "l @ ''.key'' \<in> {''b'' @ ''.key'', ''-a'' @ ''.key'', ''readme''}" by (auto split: if_splits)
    moreover have "l @ ''.key'' \<noteq> ''readme''"
    proof
      assume "l @ ''.key'' = ''readme''"
      then have "last (l @ ''.key'') = last ''readme''" by (rule arg_cong)
      then show False by simp
    qed
    ultimately show ?thesis by (simp only: insert_iff empty_iff append_same_eq simp_thms) blast
  qed
  show ?thesis using ex key by blast
qed

end
