(* ===== verification/HttpApi.thy ===== *)
theory HttpApi
  imports AuthoringProps Dns ContentTransfer
begin

text \<open>
  The local HTTP API: \<open>internal/httpapi/http.go\<close>, \<open>authoring.go\<close> and \<open>httpcontent.go\<close>. A request is
  what \<open>net/http\<close> hands a handler; a response is a status, the headers that matter and a payload in
  place of its JSON text. \<open>url.Parse\<close>, the JSON decoder, content sniffing and Unicode tables are
  fields of \<open>httpLib\<close>.
\<close>

section \<open>Requests and responses\<close>

record request =
  rMethod :: string
  rHost :: string
  rRemote :: string
  rPath :: string
  rHeader :: "string \<Rightarrow> string"
  rQuery :: "string \<Rightarrow> string"
  rBody :: source

text \<open>\<open>Response\<close>, the reply of \<open>/info\<close>.\<close>

record infoResponse =
  infoVersion :: string
  infoRole :: string
  infoMode :: string
  infoPeerID :: string
  infoListenAddresses :: "string list"
  infoPeers :: "string list"
  infoHostsConnected :: int
  infoNetworkSize :: int
  infoProtocols :: "string list"

datatype payload =
    PError | PNone | PPublished string | PRecords string "RR list" | PRecord FNRecord
  | PNames "ownedName list" | PName ownedName | PSigned string "64 word" "64 word"
  | PHash string | PContent bytes | PHealth bool string string
  | PPeers "string list" "string list" | PInfo infoResponse

record response =
  rsStatus :: nat
  rsLength :: "int option"
  rsHash :: "string option"
  rsPayload :: payload

definition httpError :: "nat \<Rightarrow> response" where
  "httpError code = \<lparr>rsStatus = code, rsLength = None, rsHash = None, rsPayload = PError\<rparr>"

definition reply :: "nat \<Rightarrow> payload \<Rightarrow> response" where
  "reply code p = \<lparr>rsStatus = code, rsLength = None, rsHash = None, rsPayload = p\<rparr>"

record httpLib =
  uniLower :: "string \<Rightarrow> string"
  uniTrimSpace :: "string \<Rightarrow> string"
  uniEqualFold :: "string \<Rightarrow> string \<Rightarrow> bool"
  urlHost :: "string \<Rightarrow> string option"
  jsonLabel :: "bytes \<Rightarrow> string option"
  jsonRecords :: "bytes \<Rightarrow> RR list option"

section \<open>Strings\<close>

definition isSpaceC :: "char \<Rightarrow> bool" where
  "isSpaceC c \<longleftrightarrow> c = CHR '' '' \<or> 9 \<le> (of_char c :: nat) \<and> (of_char c :: nat) \<le> 13"

definition trimBoth :: "(char \<Rightarrow> bool) \<Rightarrow> string \<Rightarrow> string" where
  "trimBoth P s = rev (dropWhile P (rev (dropWhile P s)))"

definition trimSpace :: "httpLib \<Rightarrow> string \<Rightarrow> string" where
  "trimSpace W s = (if isASCII s then trimBoth isSpaceC s else uniTrimSpace W s)"

definition equalFold :: "httpLib \<Rightarrow> string \<Rightarrow> string \<Rightarrow> bool" where
  "equalFold W s t =
     (if isASCII s \<and> isASCII t then map lowerChar s = map lowerChar t else uniEqualFold W s t)"

definition normalizeHost :: "httpLib \<Rightarrow> string \<Rightarrow> string" where
  "normalizeHost W raw =
     (let host = toLower (uniLower W) (trimSpace W raw);
          host' = (case SplitHostPort host of None \<Rightarrow> host | Some (h, _) \<Rightarrow> h)
      in trimBoth (\<lambda>c. c = CHR ''['' \<or> c = CHR '']'') host')"

section \<open>The guard of the local API\<close>

definition hostAllowed :: "httpLib \<Rightarrow> string \<Rightarrow> string list \<Rightarrow> bool" where
  "hostAllowed W rawHost allowed =
     (let host = normalizeHost W rawHost in
      host = [] \<or> host = ''localhost'' \<or> parseIP host \<noteq> None
      \<or> list_ex (\<lambda>a. host = normalizeHost W a) allowed)"

definition crossSite :: "request \<Rightarrow> bool" where
  "crossSite r \<longleftrightarrow> rHeader r ''Sec-Fetch-Site'' = ''cross-site''"

definition originAllowed :: "httpLib \<Rightarrow> request \<Rightarrow> bool" where
  "originAllowed W r =
     (let origin = rHeader r ''Origin'' in
      if origin = [] then True
      else case urlHost W origin of None \<Rightarrow> False | Some h \<Rightarrow> equalFold W h (rHost r))"

type_synonym 's handler = "request \<Rightarrow> 's \<Rightarrow> response \<times> 's"

definition localAPIGuard :: "httpLib \<Rightarrow> string list \<Rightarrow> 's handler \<Rightarrow> 's handler" where
  "localAPIGuard W allowedHosts handler r s =
     (if \<not> hostAllowed W (rHost r) allowedHosts then (httpError 403, s)
      else if crossSite r then (httpError 403, s)
      else if \<not> originAllowed W r then (httpError 403, s)
      else handler r s)"

text \<open>The loopback test of a host name, \<open>net.ParseIP(h).IsLoopback()\<close>; of nil it is false.\<close>

definition loopbackHost :: "string \<Rightarrow> bool" where
  "loopbackHost h = (case parseIP h of None \<Rightarrow> False | Some ip \<Rightarrow> IsLoopback ip)"

definition localAuthoringOnly :: "httpLib \<Rightarrow> 's handler \<Rightarrow> 's handler" where
  "localAuthoringOnly W handler r s =
     (case SplitHostPort (rRemote r) of
        None \<Rightarrow> (httpError 403, s)
      | Some (host, _) \<Rightarrow>
          if \<not> loopbackHost host then (httpError 403, s)
          else
            (let requestHost = normalizeHost W (rHost r) in
             if requestHost \<noteq> ''localhost'' \<and> \<not> loopbackHost requestHost then (httpError 403, s)
             else if rHeader r ''Forwarded'' \<noteq> [] \<or> rHeader r ''X-Forwarded-For'' \<noteq> [] then (httpError 403, s)
             else if rHeader r ''Sec-Fetch-Site'' = ''same-site'' \<or> rHeader r ''Sec-Fetch-Site'' = ''cross-site''
               then (httpError 403, s)
             else handler r s))"

text \<open>The authoring listener's address; \<open>listens\<close> is whether the socket could be bound.\<close>

datatype listenErr = InvalidAddr | NotLoopback | CannotBind

definition listenAuthoring :: "bool \<Rightarrow> string \<Rightarrow> listenErr + string" where
  "listenAuthoring listens addr =
     (case SplitHostPort addr of
        None \<Rightarrow> Inl InvalidAddr
      | Some (host, _) \<Rightarrow>
          if host \<noteq> ''localhost'' \<and> \<not> loopbackHost host then Inl NotLoopback
          else if \<not> listens then Inl CannotBind else Inr addr)"

section \<open>Reading a bounded body\<close>

definition maxPublishBody :: nat where "maxPublishBody = 2 ^ 20"

text \<open>\<open>io.ReadAll(io.LimitReader(body, maxPublishBody+1))\<close>.\<close>

definition readLimited :: "source \<Rightarrow> bytes option" where
  "readLimited b =
     (if length (srcData b) \<le> maxPublishBody then (if srcFails b then None else Some (srcData b))
      else Some (take (maxPublishBody + 1) (srcData b)))"

section \<open>Names and records\<close>

definition roleFor :: "bool \<Rightarrow> string" where
  "roleFor bootstrapMode = (if bootstrapMode then ''bootstrap'' else ''node'')"

definition PublishHandler :: "recordLib \<Rightarrow> dhtNet \<Rightarrow> int \<Rightarrow> (fnNode \<times> puts) handler" where
  "PublishHandler L D now r st =
     (let (n, ps) = st in
      if \<not> IsInitialized n then (httpError 500, st)
      else if rMethod r \<noteq> ''POST'' then (httpError 405, st)
      else case readLimited (rBody r) of
        None \<Rightarrow> (httpError 400, st)
      | Some body \<Rightarrow>
          if length body > maxPublishBody then (httpError 413, st)
          else case recDecode L body of
            None \<Rightarrow> (httpError 400, st)
          | Some rec \<Rightarrow>
              (case Verify L now rec of
                 Inl _ \<Rightarrow> (httpError 400, st)
               | Inr _ \<Rightarrow>
                   (case PublishRecord L D rec n ps of
                      (Inl _, st') \<Rightarrow> (httpError 500, st')
                    | (Inr _, st') \<Rightarrow>
                        (reply 200 (PPublished
                           (case fullName (hashes L) (Label rec) (PubKey rec) of Inl _ \<Rightarrow> [] | Inr nm \<Rightarrow> nm)),
                         st'))))"

definition resolveErrStatus :: "resErr \<Rightarrow> nat" where
  "resolveErrStatus e =
     (if e = ResStore (PubDHT DHTNotFound) \<or> e = ResRegistry ErrRegistryNotFound then 404
      else if e = ResName ErrNotFNName \<or> e = ResRegistry (RegName ErrNotFNName) then 400
      else 502)"

definition ResolveHandler ::
    "'c lruLib \<Rightarrow> recordLib \<Rightarrow> (string \<Rightarrow> string) \<Rightarrow> 'r registry \<Rightarrow> dhtNet \<Rightarrow> fnNode \<Rightarrow> puts \<Rightarrow> int \<Rightarrow> int
      \<Rightarrow> ('c \<times> 'r) handler" where
  "ResolveHandler C L uni reg D n ps now later r s =
     (let name = rQuery r ''name''; recordType = rQuery r ''type'' in
      if \<not> IsInitialized n then (httpError 500, s)
      else if name = [] then (httpError 400, s)
      else case (if recordType \<noteq> []
                 then ResolveType C (hashes L) uni reg (ResolveRecord L D n ps) now later name recordType s
                 else Resolve C (hashes L) uni reg (ResolveRecord L D n ps) now later name s) of
        (Inl e, s') \<Rightarrow> (httpError (resolveErrStatus e), s')
      | (Inr rrs, s') \<Rightarrow> (reply 200 (PRecords name rrs), s'))"

definition RecordHandler :: "recordLib \<Rightarrow> (string \<Rightarrow> string) \<Rightarrow> dhtNet \<Rightarrow> (fnNode \<times> puts) handler" where
  "RecordHandler L uni D r st =
     (let (n, ps) = st; name = rQuery r ''name'' in
      if \<not> IsInitialized n then (httpError 500, st)
      else if name = [] then (httpError 400, st)
      else case DHTKeyForName uni name of
        Inl _ \<Rightarrow> (httpError 400, st)
      | Inr key \<Rightarrow>
          (case ResolveRecord L D n ps key of
             Inl e \<Rightarrow> (httpError (resolveErrStatus (ResStore e)), st)
           | Inr rec \<Rightarrow> (reply 200 (PRecord rec), st)))"

definition ClearCacheHandler :: "'c lruLib \<Rightarrow> 'c handler" where
  "ClearCacheHandler C r c =
     (if rMethod r \<noteq> ''DELETE'' then (httpError 405, c) else (reply 200 PNone, cacheClear C c))"

definition HealthHandler :: "string \<Rightarrow> string \<Rightarrow> fnNode handler" where
  "HealthHandler role authoringURL r n = (reply 200 (PHealth (IsInitialized n) role authoringURL), n)"

text \<open>What the libp2p host and the DHT report about themselves, in text form.\<close>

record hostView =
  hvMode :: dhtMode
  hvPeerID :: string
  hvListen :: "string list"
  hvRouting :: "string list"
  hvNetwork :: "string list"
  hvSize :: "int option"
  hvInfos :: "string list"
  hvProtocols :: "string list"

definition AllPeersHandler :: "hostView \<Rightarrow> fnNode handler" where
  "AllPeersHandler V r n =
     (if \<not> IsInitialized n then (httpError 500, n) else (reply 200 (PPeers (hvRouting V) (hvNetwork V)), n))"

definition InfoHandler :: "hostView \<Rightarrow> string \<Rightarrow> string \<Rightarrow> fnNode handler" where
  "InfoHandler V version role r n =
     (if \<not> IsInitialized n then (httpError 500, n)
      else (reply 200 (PInfo \<lparr>infoVersion = version, infoRole = role, infoMode = GetMode (hvMode V) n,
         infoPeerID = hvPeerID V, infoListenAddresses = hvListen V, infoPeers = hvInfos V,
         infoHostsConnected = int (length (hvNetwork V)),
         infoNetworkSize = (case hvSize V of None \<Rightarrow> 0 | Some k \<Rightarrow> k),
         infoProtocols = hvProtocols V\<rparr>), n))"

section \<open>Authoring\<close>

definition authoringStatus :: "authErr \<Rightarrow> nat" where
  "authoringStatus e =
     (case e of
        LabelEmpty \<Rightarrow> 400 | LabelTooBig _ \<Rightarrow> 400 | LabelReserved _ \<Rightarrow> 400 | LabelChar _ \<Rightarrow> 400
      | ErrInvalidRecords _ \<Rightarrow> 400
      | ErrNameNotFound _ \<Rightarrow> 404
      | ErrNameExists _ \<Rightarrow> 409
      | ErrSequenceExhausted \<Rightarrow> 409
      | ErrPublisherNotReady \<Rightarrow> 503
      | ErrCurrentRecordUnavailable _ \<Rightarrow> 502
      | _ \<Rightarrow> 500)"

definition decodeAuthoringJSON :: "(bytes \<Rightarrow> 'a option) \<Rightarrow> source \<Rightarrow> 'a option" where
  "decodeAuthoringJSON decode b =
     (case readLimited b of
        None \<Rightarrow> None
      | Some data \<Rightarrow> if length data > maxPublishBody then None else decode data)"

text \<open>What authoring requests may change: the key directory, the node and what it put.\<close>

type_synonym authorState = "keyDir \<times> fnNode \<times> puts"

definition NamesHandler ::
    "httpLib \<Rightarrow> recordLib \<Rightarrow> bytes keyLib \<Rightarrow> fileFaults \<Rightarrow> authorState handler" where
  "NamesHandler W L K F r st =
     (let (dir, n, ps) = st in
      if rMethod r = ''GET'' then (reply 200 (PNames (ListNames L K dir)), st)
      else if rMethod r = ''POST'' then
        (case decodeAuthoringJSON (jsonLabel W) (rBody r) of
           None \<Rightarrow> (httpError 400, st)
         | Some label \<Rightarrow>
             (case CreateName L K F label dir of
                (Inl e, dir') \<Rightarrow> (httpError (authoringStatus e), dir', n, ps)
              | (Inr name, dir') \<Rightarrow> (reply 201 (PName name), dir', n, ps)))
      else (httpError 405, st))"

definition publishPrefix :: string where "publishPrefix = ''/authoring/names/''"
definition publishSuffix :: string where "publishSuffix = ''/publish''"

definition publishLabel :: "string \<Rightarrow> nat + string" where
  "publishLabel path =
     (if \<not> hasPrefix path publishPrefix \<or> \<not> hasSuffix path publishSuffix then Inl 404
      else let label = trimSuffix (trimPrefix path publishPrefix) publishSuffix in
        if label = [] \<or> CHR ''/'' \<in> set label then Inl 400 else Inr label)"

definition NamePublishHandler ::
    "httpLib \<Rightarrow> recordLib \<Rightarrow> bytes keyLib \<Rightarrow> (string \<Rightarrow> string) \<Rightarrow> dhtNet \<Rightarrow> int \<Rightarrow> int \<Rightarrow> authorState handler" where
  "NamePublishHandler W L K uni D now later r st =
     (let (dir, n, ps) = st in
      if rMethod r \<noteq> ''POST'' then (httpError 405, st)
      else case publishLabel (rPath r) of
        Inl code \<Rightarrow> (httpError code, st)
      | Inr label \<Rightarrow>
          (case decodeAuthoringJSON (jsonRecords W) (rBody r) of
             None \<Rightarrow> (httpError 400, st)
           | Some recs \<Rightarrow>
               (case Publish L K uni D dir now later label recs n ps of
                  (Inl e, n', ps') \<Rightarrow> (httpError (authoringStatus e), dir, n', ps')
                | (Inr rec, n', ps') \<Rightarrow>
                    (case fullName (hashes L) (Label rec) (PubKey rec) of
                       Inl _ \<Rightarrow> (httpError 500, dir, n', ps')
                     | Inr name \<Rightarrow> (reply 200 (PSigned name (Seq rec) (EOL rec)), dir, n', ps')))))"

text \<open>The authoring server: its mux, on paths in the mux's clean form, behind both guards.\<close>

definition authoringServer ::
    "httpLib \<Rightarrow> recordLib \<Rightarrow> bytes keyLib \<Rightarrow> fileFaults \<Rightarrow> (string \<Rightarrow> string) \<Rightarrow> dhtNet \<Rightarrow> int \<Rightarrow> int
      \<Rightarrow> authorState handler" where
  "authoringServer W L K F uni D now later =
     localAPIGuard W []
       (\<lambda>r st.
          if rPath r = ''/authoring/names'' then localAuthoringOnly W (NamesHandler W L K F) r st
          else if hasPrefix (rPath r) publishPrefix then
            localAuthoringOnly W (NamePublishHandler W L K uni D now later) r st
          else (httpError 404, st))"

end
