(* ===== verification/RateLimit.thy ===== *)
theory RateLimit
  imports Prelude
begin

text \<open>
  Bandwidth limits on content streams: \<open>internal/content/ratelimit.go\<close>. The token bucket is the
  rate package's and is the record \<open>rateLib\<close> over its state \<open>'l\<close>: making one, waiting for tokens
  (which may be refused), its burst and the tokens it has handed out. Readers and writers are
  \<open>io.Reader\<close> and \<open>io.Writer\<close> as functions of their own state, with their own errors.
\<close>

section \<open>Limiters\<close>

record 'l rateLib =
  newLimiter :: "int \<Rightarrow> int \<Rightarrow> 'l"
  waitN :: "nat \<Rightarrow> 'l \<Rightarrow> bool \<times> 'l"
  burst :: "'l \<Rightarrow> int"
  spent :: "'l \<Rightarrow> nat"

definition rateChunk :: nat where "rateChunk = 32768"

definition NewRateLimiter :: "'l rateLib \<Rightarrow> int \<Rightarrow> 'l option" where
  "NewRateLimiter R bytesPerSec =
     (if bytesPerSec \<le> 0 then None
      else
        let b = bytesPerSec div 10 in
        Some (newLimiter R bytesPerSec (if b < 65536 then 65536 else b)))"

section \<open>Limited streams\<close>

datatype 'e limErr = LimRefused | LimStream 'e

type_synonym ('r, 'e) reader = "nat \<Rightarrow> 'r \<Rightarrow> bytes \<times> 'e option \<times> 'r"
type_synonym ('w, 'e) writer = "bytes \<Rightarrow> 'w \<Rightarrow> nat \<times> 'e option \<times> 'w"

definition limitedRead :: "'l rateLib \<Rightarrow> ('r, 'e) reader \<Rightarrow> ('l \<times> 'r, 'e limErr) reader" where
  "limitedRead R rd n st =
     (let (l, r) = st in
      case rd (if n > rateChunk then rateChunk else n) r of
        (b, err, r') \<Rightarrow>
          if length b > 0 then
            (case waitN R (length b) l of
               (ok, l') \<Rightarrow>
                 (b, if \<not> ok \<and> err = None then Some LimRefused else map_option LimStream err, l', r'))
          else (b, map_option LimStream err, l, r'))"

function limitedWriteFrom ::
    "'l rateLib \<Rightarrow> ('w, 'e) writer \<Rightarrow> nat \<Rightarrow> ('l \<times> 'w, 'e limErr) writer" where
  "limitedWriteFrom R wr written p st =
     (if p = [] then (written, None, st)
      else
        let (l, w) = st; n = (if length p > rateChunk then rateChunk else length p) in
        case waitN R n l of
          (False, l') \<Rightarrow> (written, Some LimRefused, l', w)
        | (True, l') \<Rightarrow>
            (case wr (take n p) w of
               (k, Some e, w') \<Rightarrow> (written + k, Some (LimStream e), l', w')
             | (k, None, w') \<Rightarrow> limitedWriteFrom R wr (written + k) (drop n p) (l', w')))"
  by pat_completeness auto
termination
  by (relation "measure (\<lambda>(R, wr, written, p, st). length p)") (auto simp: rateChunk_def)

declare limitedWriteFrom.simps [simp del]

definition limitedWrite :: "'l rateLib \<Rightarrow> ('w, 'e) writer \<Rightarrow> ('l \<times> 'w, 'e limErr) writer" where
  "limitedWrite R wr = limitedWriteFrom R wr 0"

text \<open>Without a limiter the stream itself is used.\<close>

definition LimitReader :: "'l rateLib \<Rightarrow> ('r, 'e) reader \<Rightarrow> ('l option \<times> 'r, 'e limErr) reader" where
  "LimitReader R rd n st =
     (case st of
        (None, r) \<Rightarrow> (case rd n r of (b, err, r') \<Rightarrow> (b, map_option LimStream err, None, r'))
      | (Some l, r) \<Rightarrow> (case limitedRead R rd n (l, r) of (b, err, l', r') \<Rightarrow> (b, err, Some l', r')))"

definition LimitWriter :: "'l rateLib \<Rightarrow> ('w, 'e) writer \<Rightarrow> ('l option \<times> 'w, 'e limErr) writer" where
  "LimitWriter R wr p st =
     (case st of
        (None, w) \<Rightarrow> (case wr p w of (k, err, w') \<Rightarrow> (k, map_option LimStream err, None, w'))
      | (Some l, w) \<Rightarrow> (case limitedWrite R wr p (l, w) of (k, err, l', w') \<Rightarrow> (k, err, Some l', w')))"

section \<open>What is relied on\<close>

text \<open>A token bucket refuses only requests above its burst (nothing here sets a deadline), keeps
  its burst and counts what it handed out.\<close>

definition rateLib_ok :: "'l rateLib \<Rightarrow> bool" where
  "rateLib_ok R \<longleftrightarrow>
     (\<forall>r b. burst R (newLimiter R r b) = b \<and> spent R (newLimiter R r b) = 0)
     \<and> (\<forall>n l. int n \<le> burst R l \<longrightarrow>
          fst (waitN R n l) \<and> burst R (snd (waitN R n l)) = burst R l
          \<and> spent R (snd (waitN R n l)) = spent R l + n)"

text \<open>A limiter that never refuses a piece: what \<open>NewRateLimiter\<close> makes.\<close>

definition wide :: "'l rateLib \<Rightarrow> 'l \<Rightarrow> bool" where
  "wide R l \<longleftrightarrow> int rateChunk \<le> burst R l"

lemma NewRateLimiter_wide:
  "rateLib_ok R \<Longrightarrow> NewRateLimiter R rate = Some l \<Longrightarrow> wide R l \<and> spent R l = 0 \<and> rate > 0"
  by (auto simp: NewRateLimiter_def rateLib_ok_def wide_def rateChunk_def Let_def split: if_splits)

lemma wide_wait:
  assumes "rateLib_ok R" "wide R l" "n \<le> rateChunk"
  obtains l' where "waitN R n l = (True, l')" "wide R l'" "spent R l' = spent R l + n"
proof -
  have "int n \<le> burst R l" using assms(2,3) by (simp add: wide_def)
  with assms(1,2) have "fst (waitN R n l)" "wide R (snd (waitN R n l))"
      "spent R (snd (waitN R n l)) = spent R l + n"
    by (auto simp: rateLib_ok_def wide_def)
  then show thesis by (cases "waitN R n l") (auto intro: that)
qed

text \<open>A byte stream: writing in two steps is writing at once, and nothing is written without an
  error being reported (the contract of \<open>io.Writer\<close>).\<close>

definition streamWriter :: "('w, 'e) writer \<Rightarrow> bool" where
  "streamWriter wr \<longleftrightarrow>
     (\<forall>w. wr [] w = (0, None, w))
     \<and> (\<forall>p q w. wr (p @ q) w =
          (case wr p w of
             (k, Some e, w') \<Rightarrow> (k, Some e, w')
           | (k, None, w') \<Rightarrow> (case wr q w' of (j, err, w'') \<Rightarrow> (k + j, err, w''))))
     \<and> (\<forall>p w. (case wr p w of (k, err, w') \<Rightarrow> k \<le> length p \<and> (err = None \<longrightarrow> k = length p)))"

text \<open>A reader delivers no more than it is asked for.\<close>

definition boundedReader :: "('r, 'e) reader \<Rightarrow> bool" where
  "boundedReader rd \<longleftrightarrow> (\<forall>n r. length (fst (rd n r)) \<le> n)"

section \<open>Facts\<close>

lemma streamWriter_bound:
  "streamWriter wr \<Longrightarrow> wr p w = (k, err, w') \<Longrightarrow> k \<le> length p \<and> (err = None \<longrightarrow> k = length p)"
  unfolding streamWriter_def by (metis (mono_tags, lifting) case_prod_conv)

lemma streamWriter_append:
  "streamWriter wr \<Longrightarrow> wr p w = (k, err, w') \<Longrightarrow>
     wr (p @ q) w = (case err of Some e \<Rightarrow> (k, Some e, w')
       | None \<Rightarrow> (case wr q w' of (j, err', w'') \<Rightarrow> (k + j, err', w'')))"
  unfolding streamWriter_def by (cases err) auto

lemma limitedWriteFrom_stream:
  assumes R: "rateLib_ok R" and W: "streamWriter wr"
  shows "wide R l \<Longrightarrow>
     \<exists>l'. limitedWriteFrom R wr written p (l, w) =
        (case wr p w of (k, err, w') \<Rightarrow> (written + k, map_option LimStream err, l', w'))
      \<and> wide R l' \<and> spent R l + fst (wr p w) \<le> spent R l'
      \<and> spent R l' \<le> spent R l + length p \<and> (fst (snd (wr p w)) = None \<longrightarrow> spent R l' = spent R l + length p)"
proof (induction "length p" arbitrary: p l w written rule: less_induct)
  case less
  show ?case
  proof (cases "p = []")
    case True
    with W less.prems show ?thesis by (subst limitedWriteFrom.simps) (auto simp: streamWriter_def)
  next
    case False
    define n where "n = (if length p > rateChunk then rateChunk else length p)"
    have n: "n \<le> rateChunk" "0 < n" "n \<le> length p" using False by (auto simp: n_def rateChunk_def)
    obtain l1 where l1: "waitN R n l = (True, l1)" "wide R l1" "spent R l1 = spent R l + n"
      by (rule wide_wait [OF R less.prems n(1)])
    obtain k err w1 where k: "wr (take n p) w = (k, err, w1)" by (metis prod_cases3)
    have kn: "k \<le> n" "err = None \<longrightarrow> k = n"
      using streamWriter_bound [OF W k] n(3) by auto
    have split: "wr p w = (case err of Some e \<Rightarrow> (k, Some e, w1)
        | None \<Rightarrow> (case wr (drop n p) w1 of (j, err', w'') \<Rightarrow> (k + j, err', w'')))"
      using streamWriter_append [OF W k, of "drop n p"] by simp
    have step: "limitedWriteFrom R wr written p (l, w) =
       (case err of Some e \<Rightarrow> (written + k, Some (LimStream e), l1, w1)
        | None \<Rightarrow> limitedWriteFrom R wr (written + k) (drop n p) (l1, w1))"
      using False l1(1) k by (subst limitedWriteFrom.simps) (simp add: n_def [symmetric] Let_def)
    show ?thesis
    proof (cases err)
      case (Some e)
      with split step l1 kn n show ?thesis by (intro exI [of _ l1]) simp
    next
      case None
      obtain j e2 w2 where j: "wr (drop n p) w1 = (j, e2, w2)" by (metis prod_cases3)
      have "length (drop n p) < length p" using n by simp
      from less.hyps [OF this l1(2), of "written + k" w1] obtain l2 where
        "limitedWriteFrom R wr (written + k) (drop n p) (l1, w1) = (written + k + j, map_option LimStream e2, l2, w2)"
        "wide R l2" "spent R l1 + j \<le> spent R l2" "spent R l2 \<le> spent R l1 + (length p - n)"
        "e2 = None \<longrightarrow> spent R l2 = spent R l1 + (length p - n)"
        by (auto simp: j)
      with None split step l1 kn n j show ?thesis by (intro exI [of _ l2]) auto
    qed
  qed
qed

text \<open>The calls a limited writer makes, whatever its writer and limiter answer: \<open>logged\<close> keeps what
  each was given.\<close>

definition logged :: "('w, 'e) writer \<Rightarrow> (bytes list \<times> 'w, 'e) writer" where
  "logged wr p st = (case wr p (snd st) of (k, err, w') \<Rightarrow> (k, err, fst st @ [p], w'))"

definition pieceSeq :: "bytes list \<Rightarrow> bool" where
  "pieceSeq ps \<longleftrightarrow>
     (\<forall>b \<in> set ps. b \<noteq> [] \<and> length b \<le> rateChunk) \<and> (\<forall>b \<in> set (butlast ps). length b = rateChunk)"

lemma pieceSeq_Nil [simp]: "pieceSeq []"
  by (simp add: pieceSeq_def)

lemma pieceSeq_Cons:
  "b \<noteq> [] \<Longrightarrow> length b \<le> rateChunk \<Longrightarrow> ps \<noteq> [] \<longrightarrow> length b = rateChunk \<Longrightarrow> pieceSeq ps \<Longrightarrow> pieceSeq (b # ps)"
  by (cases "ps = []") (auto simp: pieceSeq_def)

lemma limitedWriteFrom_logged:
  "limitedWriteFrom R (logged wr) written p (l, log, w) = (k, err, l', log', w') \<Longrightarrow>
     \<exists>ps rest. log' = log @ ps \<and> p = concat ps @ rest \<and> pieceSeq ps \<and> (err = None \<longrightarrow> rest = [])"
proof (induction "length p" arbitrary: p l log w written rule: less_induct)
  case less
  show ?case
  proof (cases "p = []")
    case True
    with less.prems show ?thesis by (subst (asm) limitedWriteFrom.simps) (auto intro!: exI [of _ "[]"])
  next
    case False
    define n where "n = (if length p > rateChunk then rateChunk else length p)"
    have n: "n \<le> rateChunk" "0 < n" "n \<le> length p" "drop n p \<noteq> [] \<longrightarrow> n = rateChunk"
      using False by (auto simp: n_def rateChunk_def)
    have piece: "take n p \<noteq> []" "length (take n p) = n" using n False by auto
    obtain ok l1 where l1: "waitN R n l = (ok, l1)" by fastforce
    obtain j e w1 where j: "wr (take n p) w = (j, e, w1)" by (metis prod_cases3)
    show ?thesis
    proof (cases "ok \<and> e = None")
      case False
      with less.prems \<open>p \<noteq> []\<close> l1 j have "err \<noteq> None" "log' = log \<or> log' = log @ [take n p]"
        by (subst (asm) limitedWriteFrom.simps, auto simp: n_def [symmetric] Let_def logged_def split: if_splits bool.splits option.splits)+
      moreover have "pieceSeq [take n p]" using n piece by (intro pieceSeq_Cons) simp_all
      moreover have "p = concat [take n p] @ drop n p" by simp
      ultimately show ?thesis by (metis append_Nil2 concat.simps(1) append_Nil pieceSeq_Nil)
    next
      case True
      with less.prems \<open>p \<noteq> []\<close> l1 j
      have r: "limitedWriteFrom R (logged wr) (written + j) (drop n p) (l1, log @ [take n p], w1) = (k, err, l', log', w')"
        by (subst (asm) limitedWriteFrom.simps) (simp add: n_def [symmetric] Let_def logged_def)
      have "length (drop n p) < length p" using n by simp
      from less.hyps [OF this r] obtain ps rest where ps: "log' = (log @ [take n p]) @ ps" "drop n p = concat ps @ rest"
        "pieceSeq ps" "err = None \<longrightarrow> rest = []"
        by blast
      have "length (take n p) = rateChunk" if "ps \<noteq> []"
      proof -
        from that ps(2,3) have "drop n p \<noteq> []" by (cases ps) (auto simp: pieceSeq_def)
        with n(4) piece(2) show ?thesis by simp
      qed
      with piece n(1) ps(3) have "pieceSeq (take n p # ps)" by (intro pieceSeq_Cons) (auto simp del: length_take)
      moreover have "p = concat (take n p # ps) @ rest"
        using ps(2) append_take_drop_id [of n p] by simp
      moreover have "log' = log @ take n p # ps" using ps(1) by simp
      ultimately show ?thesis using ps(4) by metis
    qed
  qed
qed

lemma concat_length_all:
  "\<forall>b \<in> set ps. length b = n \<Longrightarrow> length (concat ps) = n * length ps"
  by (induction ps) auto

lemma pieces_count:
  assumes "\<forall>b \<in> set ps. b \<noteq> []" "\<forall>b \<in> set (butlast ps). length b = n" "0 < n"
  shows "length ps \<le> (length (concat ps) + n - 1) div n"
proof (cases ps rule: rev_cases)
  case (snoc qs b)
  have "length (concat ps) = n * length qs + length b" "length b \<ge> 1"
    using assms snoc concat_length_all [of qs n] by (auto simp: Suc_le_eq)
  then have "n * length ps \<le> length (concat ps) + n - 1" using snoc assms(3) by simp
  then show ?thesis using assms(3) by (simp add: less_eq_div_iff_mult_less_eq mult.commute)
qed simp

section \<open>A concrete limiter\<close>

text \<open>A bucket is its burst and what it handed out; \<open>demoSink\<close> keeps everything, \<open>demoSource\<close> has bytes
  to give.\<close>

definition demoRate :: "(int \<times> nat) rateLib" where
  "demoRate = \<lparr>newLimiter = (\<lambda>r b. (b, 0)), waitN = (\<lambda>n (b, s). if int n \<le> b then (True, b, s + n) else (False, b, s)),
     burst = fst, spent = snd\<rparr>"

lemma demoRate_ok: "rateLib_ok demoRate"
  by (auto simp: rateLib_ok_def demoRate_def)

definition demoSink :: "(bytes, unit) writer" where
  "demoSink p w = (length p, None, w @ p)"

lemma demoSink_stream: "streamWriter demoSink"
  by (simp add: streamWriter_def demoSink_def)

definition demoSource :: "(bytes, unit) reader" where
  "demoSource n r = (take n r, None, drop n r)"

section \<open>Properties\<close>

text \<open>C38: a limit changes when bytes move, never which. Through whatever limit is configured, a write
  has exactly the outcome of the unlimited write, the byte count, the stream's own error and the
  bytes that reached it; a read returns what the unlimited read of at most 32 KiB returns; no wait for
  tokens ever fails; and as many tokens are used as bytes were moved. The limiter may be in any state
  it comes to, its burst being the one it was made with.\<close>

theorem limits_transparent:
  assumes R: "rateLib_ok R" and W: "streamWriter wr" and rd: "boundedReader rd"
    and lim: "NewRateLimiter R rate = Some l0" "burst R l = burst R l0"
    and plain: "wr p w = (k, err, w')" "rd (min n 32768) r = (b, e, r')"
  shows "(\<exists>l'. LimitWriter R wr p (Some l, w) = (k, map_option LimStream err, Some l', w')
       \<and> spent R l + k \<le> spent R l' \<and> (err = None \<longrightarrow> spent R l' = spent R l + length p))
     \<and> (\<exists>l'. LimitReader R rd n (Some l, r) = (b, map_option LimStream e, Some l', r') \<and> spent R l' = spent R l + length b)"
proof -
  have l: "wide R l" using NewRateLimiter_wide [OF R lim(1)] lim(2) by (simp add: wide_def)
  from limitedWriteFrom_stream [OF R W, of l 0 p w] l obtain l' where
    "limitedWriteFrom R wr 0 p (l, w) = (k, map_option LimStream err, l', w')"
    "spent R l + k \<le> spent R l'" "err = None \<longrightarrow> spent R l' = spent R l + length p"
    by (auto simp: plain(1))
  then have wr: "\<exists>l'. LimitWriter R wr p (Some l, w) = (k, map_option LimStream err, Some l', w')
       \<and> spent R l + k \<le> spent R l' \<and> (err = None \<longrightarrow> spent R l' = spent R l + length p)"
    by (simp add: LimitWriter_def limitedWrite_def)
  have m: "(if n > rateChunk then rateChunk else n) = min n 32768" by (simp add: rateChunk_def min_def)
  have "length b \<le> rateChunk" using rd plain(2) unfolding boundedReader_def rateChunk_def
    by (metis fst_conv min.bounded_iff)
  then obtain l2 where "waitN R (length b) l = (True, l2)" "spent R l2 = spent R l + length b"
    using wide_wait [OF R, of l "length b"] l by auto
  then have "\<exists>l'. LimitReader R rd n (Some l, r) = (b, map_option LimStream e, Some l', r') \<and> spent R l' = spent R l + length b"
    using l by (auto simp: LimitReader_def limitedRead_def m plain(2))
  with wr show ?thesis ..
qed

theorem limits_transparent_witness:
  "\<exists>l'. LimitWriter demoRate demoSink [1, 2] (NewRateLimiter demoRate 1000, []) = (2, None, Some l', [1, 2])
     \<and> spent demoRate l' = 2"
proof -
  have lim: "NewRateLimiter demoRate 1000 = Some (65536, 0)" by (simp add: NewRateLimiter_def demoRate_def)
  have rd: "boundedReader demoSource" by (simp add: boundedReader_def demoSource_def)
  have w: "demoSink [1, 2] [] = (2, None, [1, 2])" by (simp add: demoSink_def)
  have r: "demoSource (min 1 32768) [] = ([], None, [])" by (simp add: demoSource_def)
  from limits_transparent [OF demoRate_ok demoSink_stream rd lim refl w r] show ?thesis
    unfolding lim by (auto simp: demoRate_def)
qed

text \<open>C37: a limited write ends. Whatever the limiter and the stream answer, at most one write per 32
  KiB is made, rounded up; the writes are nonempty, at most 32 KiB each, and together a prefix of the
  data in order, all of it if no error is returned.\<close>

theorem limited_write_terminates:
  assumes "limitedWrite R (logged wr) p (l, [], w) = (k, err, l', ps, w')"
  shows "length ps \<le> (length p + 32767) div 32768 \<and> (\<forall>b \<in> set ps. 0 < length b \<and> length b \<le> 32768)
     \<and> (\<exists>rest. p = concat ps @ rest \<and> (err = None \<longrightarrow> rest = []))"
proof -
  obtain qs rest where q: "ps = [] @ qs" "p = concat qs @ rest"
    "pieceSeq qs" "err = None \<longrightarrow> rest = []"
    using limitedWriteFrom_logged [OF assms [unfolded limitedWrite_def]] by blast
  have "length ps \<le> (length (concat ps) + 32768 - 1) div 32768"
    using pieces_count [of ps 32768] q by (auto simp: pieceSeq_def rateChunk_def)
  also have "\<dots> \<le> (length p + 32767) div 32768" using q(1,2) by (intro div_le_mono) simp
  finally show ?thesis using q by (auto simp: pieceSeq_def rateChunk_def)
qed

theorem limited_write_terminates_witness:
  "\<exists>ps. limitedWrite demoRate (logged demoSink) [1, 2] ((65536, 0), [], []) = (2, None, (65536, 2), ps, [1, 2])
     \<and> length ps \<le> 1"
proof -
  have "limitedWrite demoRate (logged demoSink) [1, 2] ((65536, 0), [], []) = (2, None, (65536, 2), [[1, 2]], [1, 2])"
    by (simp add: limitedWrite_def limitedWriteFrom.simps demoRate_def logged_def demoSink_def rateChunk_def)
  from limited_write_terminates [OF this] this show ?thesis by fastforce
qed

end
