(* ===== verification/Config.thy ===== *)
theory Config
  imports Complex_Main HttpApi RateLimit
begin

text \<open>
  Configuration: \<open>internal/config/config.go\<close>, the flags of \<open>cmd/freedom-names/main.go\<close> and the part
  of a content service that is set from them. The environment, the home directory, decimal-to-binary
  conversion of floats and the duration parser are fields of \<open>confLib\<close>; a float is an exact rational
  or one of the special values.
\<close>

section \<open>Numbers\<close>

datatype float64 = Fin rat | Inf bool | NaN

record confLib =
  getenv :: "string \<Rightarrow> string"
  homeDir :: "string option"
  confHttp :: httpLib
  uniUpper :: "string \<Rightarrow> string"
  ParseFloat :: "string \<Rightarrow> float64 option"
  roundF64 :: "rat \<Rightarrow> float64"
  convertOut :: "float64 \<Rightarrow> int"
  ParseDuration :: "string \<Rightarrow> int option"

definition f64Negative :: "float64 \<Rightarrow> bool" where
  "f64Negative f = (case f of Fin q \<Rightarrow> q < 0 | Inf neg \<Rightarrow> neg | NaN \<Rightarrow> False)"

text \<open>Multiplication by a positive integer constant.\<close>

definition f64Times :: "confLib \<Rightarrow> float64 \<Rightarrow> int \<Rightarrow> float64" where
  "f64Times C f n = (case f of Fin q \<Rightarrow> roundF64 C (q * of_int n) | _ \<Rightarrow> f)"

text \<open>Conversion to \<open>int64\<close> truncates; a value outside the range gives whatever the platform gives.\<close>

definition truncRat :: "rat \<Rightarrow> int" where
  "truncRat q = (if q < 0 then \<lceil>q\<rceil> else \<lfloor>q\<rfloor>)"

definition f64Int :: "confLib \<Rightarrow> float64 \<Rightarrow> int" where
  "f64Int C f =
     (case f of
        Fin q \<Rightarrow> if - (2 ^ 63) \<le> truncRat q \<and> truncRat q < 2 ^ 63 then truncRat q else int64 (convertOut C f)
      | _ \<Rightarrow> int64 (convertOut C f))"

definition isDigit :: "char \<Rightarrow> bool" where
  "isDigit c \<longleftrightarrow> CHR ''0'' \<le> c \<and> c \<le> CHR ''9''"

definition digitsVal :: "string \<Rightarrow> nat" where
  "digitsVal s = foldl (\<lambda>n c. 10 * n + (of_char c - 48)) 0 s"

text \<open>\<open>strconv.ParseInt(s, 10, 64)\<close>, which is \<open>Atoi\<close> on a 64-bit machine.\<close>

definition ParseInt64 :: "string \<Rightarrow> int option" where
  "ParseInt64 s =
     (let neg = hasPrefix s ''-'';
          ds = (if neg \<or> hasPrefix s ''+'' then drop 1 s else s);
          n = (if neg then - int (digitsVal ds) else int (digitsVal ds)) in
      if ds \<noteq> [] \<and> list_all isDigit ds \<and> - (2 ^ 63) \<le> n \<and> n < 2 ^ 63 then Some n else None)"

section \<open>Reading the environment\<close>

definition upperChar :: "char \<Rightarrow> char" where
  "upperChar c = (if CHR ''a'' \<le> c \<and> c \<le> CHR ''z'' then char_of (of_char c - 32 :: nat) else c)"

definition toUpper :: "confLib \<Rightarrow> string \<Rightarrow> string" where
  "toUpper C s = (if isASCII s then map upperChar s else uniUpper C s)"

definition parseSize :: "confLib \<Rightarrow> string \<Rightarrow> int option" where
  "parseSize C s0 =
     (let s = trimSpace (confHttp C) s0;
          num = trimSuffix (trimSuffix (toUpper C s) ''IB'') ''B'';
          (mult, num) =
            (if hasSuffix num ''K'' then (2 ^ 10, take (length num - 1) num)
             else if hasSuffix num ''M'' then (2 ^ 20, take (length num - 1) num)
             else if hasSuffix num ''G'' then (2 ^ 30, take (length num - 1) num)
             else if hasSuffix num ''T'' then (2 ^ 40, take (length num - 1) num)
             else (1, num))
      in case ParseFloat C num of
           None \<Rightarrow> None
         | Some f \<Rightarrow> if f64Negative f then None else Some (f64Int C (f64Times C f mult)))"

definition envSize :: "confLib \<Rightarrow> string \<Rightarrow> int \<Rightarrow> int" where
  "envSize C key fallback =
     (let v = getenv C key in
      if v = [] then fallback
      else case parseSize C v of None \<Rightarrow> fallback | Some n \<Rightarrow> n)"

definition hourNs :: int where "hourNs = 3600 * 10 ^ 9"

definition envDuration :: "confLib \<Rightarrow> string \<Rightarrow> int \<Rightarrow> int" where
  "envDuration C key fallback =
     (let v = getenv C key in
      if v = [] then fallback
      else case (if hasSuffix v ''d'' then ParseFloat C (trimSuffix v ''d'') else None) of
        Some days \<Rightarrow> f64Int C (f64Times C (f64Times C days 24) hourNs)
      | None \<Rightarrow>
          (case ParseDuration C v of
             None \<Rightarrow> fallback
           | Some d \<Rightarrow> if d < 0 then fallback else d))"

definition envInt :: "confLib \<Rightarrow> string \<Rightarrow> int \<Rightarrow> int" where
  "envInt C key fallback =
     (let v = getenv C key in
      if v = [] then fallback
      else case ParseInt64 v of None \<Rightarrow> fallback | Some n \<Rightarrow> if n < 0 then fallback else n)"

definition envOr :: "confLib \<Rightarrow> string \<Rightarrow> string \<Rightarrow> string" where
  "envOr C key fallback = (let v = getenv C key in if v \<noteq> [] then v else fallback)"

definition splitAndTrim :: "httpLib \<Rightarrow> string \<Rightarrow> string list" where
  "splitAndTrim W s = filter (\<lambda>p. p \<noteq> []) (map (trimSpace W) (splitOn CHR '','' s))"

section \<open>Built-in defaults\<close>

definition defaultBootstrapPeers :: "string list" where
  "defaultBootstrapPeers =
     [''/ip4/135.148.236.246/tcp/4020/p2p/12D3KooWFRgUQUMvP4rimeZ1vS2DzmP48vvxcfEk5XqWmURMKU13'',
      ''/ip4/135.148.236.246/udp/4020/quic-v1/p2p/12D3KooWFRgUQUMvP4rimeZ1vS2DzmP48vvxcfEk5XqWmURMKU13'',
      ''/ip4/77.61.56.117/tcp/4020/p2p/12D3KooWJTZUqCzYBT7jrG8ZaxwRU99WSZkKPxTSREYy7EDRsFex'',
      ''/ip4/77.61.56.117/udp/4020/quic-v1/p2p/12D3KooWJTZUqCzYBT7jrG8ZaxwRU99WSZkKPxTSREYy7EDRsFex'']"

definition defaultHTTPAddr :: "bool \<Rightarrow> string" where
  "defaultHTTPAddr bootstrap = (if bootstrap then ''127.0.0.1:8430'' else ''127.0.0.1:8420'')"

definition bchMainnetElectrum :: "string list" where
  "bchMainnetElectrum =
     [''ssl://bch.imaginary.cash:50002'', ''ssl://electrum.imaginary.cash:50002'', ''ssl://bch.loping.net:50002'',
      ''ssl://electroncash.dk:50002'', ''ssl://bch0.kister.net:50002'', ''ssl://cashnode.bch.ninja:50002'',
      ''ssl://fulcrum.criptolayer.net:50002'', ''ssl://blackie.c3-soft.com:50002'']"

definition bchChipnetElectrum :: "string list" where
  "bchChipnetElectrum =
     [''ssl://chipnet.bch.ninja:50002'', ''ssl://chipnet.imaginary.cash:50002'', ''ssl://chipnet.c3-soft.com:64002'',
      ''ssl://cbch.loping.net:62102'']"

definition bchTestnet4Electrum :: "string list" where
  "bchTestnet4Electrum = [''ssl://tbch4.loping.net:62002'', ''ssl://blackie.c3-soft.com:62002'']"

definition bchTestnet3Electrum :: "string list" where
  "bchTestnet3Electrum =
     [''ssl://testnet.imaginary.cash:50002'', ''ssl://tbch.loping.net:60002'', ''ssl://testnet.bitcoincash.network:60002'',
      ''ssl://bch0.kister.net:51002'', ''ssl://blackie.c3-soft.com:60002'']"

definition defaultBCHElectrumServers :: "string \<Rightarrow> string list" where
  "defaultBCHElectrumServers network =
     (if network = ''mainnet'' then bchMainnetElectrum
      else if network = ''chipnet'' then bchChipnetElectrum
      else if network = ''testnet4'' then bchTestnet4Electrum
      else if network = ''testnet3'' \<or> network = ''testnet'' then bchTestnet3Electrum
      else [])"

text \<open>The home directory is in the operating system's clean form.\<close>

definition DefaultContentDir :: "confLib \<Rightarrow> string option" where
  "DefaultContentDir C = map_option (\<lambda>home. home @ ''/.freedom/content'') (homeDir C)"

definition defaultContentDirOr :: "confLib \<Rightarrow> string" where
  "defaultContentDirOr C = (case DefaultContentDir C of None \<Rightarrow> [] | Some dir \<Rightarrow> dir)"

section \<open>The configuration\<close>

record config =
  HTTPAddr :: string
  AuthoringAddr :: string
  DNSAddr :: string
  UpstreamDNS :: string
  BootstrapPeers :: "string list"
  ContentDir :: string
  BootstrapFromEnv :: bool
  DNSRecursionAny :: bool
  HTTPAllowedHosts :: "string list"
  BootstrapMode :: bool
  BCHElectrum :: "string list"
  BCHNetwork :: string
  BCHMinConf :: int
  ContentReplicas :: int
  ContentHostBudget :: int
  ContentHostTTL :: int
  ContentHealInterval :: int
  ContentUpRate :: int
  ContentDownRate :: int
  ContentMaxPushSize :: int

definition minConfOf :: "string \<Rightarrow> int" where
  "minConfOf v =
     (if v = [] then 1 else case ParseInt64 v of Some n \<Rightarrow> if n \<ge> 1 then n else 1 | None \<Rightarrow> 1)"

definition LoadConfigForRole :: "confLib \<Rightarrow> bool \<Rightarrow> config" where
  "LoadConfigForRole C bootstrap =
     (let W = confHttp C; network = envOr C ''FREEDOM_BCH_NETWORK'' ''mainnet'';
          electrum = getenv C ''FREEDOM_BCH_ELECTRUM''; boot = getenv C ''FREEDOM_BOOTSTRAP'';
          hosts = getenv C ''FREEDOM_HTTP_ALLOWED_HOSTS'' in
      \<lparr>HTTPAddr = envOr C ''FREEDOM_HTTP_ADDR'' (defaultHTTPAddr bootstrap),
       AuthoringAddr = envOr C ''FREEDOM_AUTHORING_ADDR'' ''127.0.0.1:8421'',
       DNSAddr = envOr C ''FREEDOM_DNS_ADDR'' '':8053'',
       UpstreamDNS = envOr C ''FREEDOM_UPSTREAM_DNS'' ''1.1.1.1:53'',
       BootstrapPeers = (if boot \<noteq> [] then splitAndTrim W boot else defaultBootstrapPeers),
       ContentDir = envOr C ''FREEDOM_CONTENT_DIR'' (defaultContentDirOr C),
       BootstrapFromEnv = (boot \<noteq> []),
       DNSRecursionAny = equalFold W (getenv C ''FREEDOM_DNS_RECURSION'') ''any'',
       HTTPAllowedHosts = (if hosts \<noteq> [] then splitAndTrim W (toLower (uniLower W) hosts) else []),
       BootstrapMode = bootstrap,
       BCHElectrum = (if electrum \<noteq> [] then splitAndTrim W electrum else defaultBCHElectrumServers network),
       BCHNetwork = network,
       BCHMinConf = minConfOf (getenv C ''FREEDOM_BCH_MINCONF''),
       ContentReplicas = envInt C ''FREEDOM_CONTENT_REPLICAS'' 3,
       ContentHostBudget = envSize C ''FREEDOM_CONTENT_HOST_BUDGET'' (20 * 2 ^ 30),
       ContentHostTTL = envDuration C ''FREEDOM_CONTENT_HOST_TTL'' (30 * 24 * hourNs),
       ContentHealInterval = envDuration C ''FREEDOM_CONTENT_HEAL_INTERVAL'' hourNs,
       ContentUpRate = envSize C ''FREEDOM_CONTENT_UP_RATE'' 0,
       ContentDownRate = envSize C ''FREEDOM_CONTENT_DOWN_RATE'' 0,
       ContentMaxPushSize = envSize C ''FREEDOM_CONTENT_MAX_PUSH_SIZE'' (int MaxContentSize)\<rparr>)"

definition LoadConfig :: "confLib \<Rightarrow> config" where
  "LoadConfig C = LoadConfigForRole C False"

section \<open>Command-line flags\<close>

definition JoinHostPort :: "string \<Rightarrow> string \<Rightarrow> string" where
  "JoinHostPort host port =
     (if CHR '':'' \<in> set host then ''['' @ host @ '']:'' @ port else host @ '':'' @ port)"

definition bindHost :: "string \<Rightarrow> string \<Rightarrow> string" where
  "bindHost addr val =
     JoinHostPort val (case SplitHostPort addr of None \<Rightarrow> ''8420'' | Some (_, port) \<Rightarrow> port)"

fun applyNodeFlags :: "config \<Rightarrow> string list \<Rightarrow> config" where
  "applyNodeFlags cfg [] = cfg"
| "applyNodeFlags cfg [a] = cfg"
| "applyNodeFlags cfg (a # val # rest) =
     (if a = ''--http-addr'' then applyNodeFlags (cfg\<lparr>HTTPAddr := val\<rparr>) rest
      else if a = ''--authoring-addr'' then applyNodeFlags (cfg\<lparr>AuthoringAddr := val\<rparr>) rest
      else if a = ''--api-bind'' then applyNodeFlags (cfg\<lparr>HTTPAddr := bindHost (HTTPAddr cfg) val\<rparr>) rest
      else if a = ''--content-dir'' then applyNodeFlags (cfg\<lparr>ContentDir := val\<rparr>) rest
      else if a = ''--dns-addr'' then applyNodeFlags (cfg\<lparr>DNSAddr := val\<rparr>) rest
      else applyNodeFlags cfg (val # rest))"

section \<open>Starting up\<close>

text \<open>What \<open>main\<close> does with its arguments (the program's name left out).\<close>

datatype mainAction = RunCommand "string list" | ShowUsage | ShowVersion | RunNode config

definition mainOf :: "confLib \<Rightarrow> string list \<Rightarrow> mainAction" where
  "mainOf C argv =
     (if argv \<noteq> [] \<and> hd argv = ''freedom'' then RunCommand (tl argv)
      else if argv \<noteq> [] \<and> hd argv \<in> {''-h'', ''--help'', ''help''} then ShowUsage
      else if argv \<noteq> [] \<and> hd argv = ''--version'' then ShowVersion
      else RunNode (applyNodeFlags (LoadConfigForRole C (argv \<noteq> [] \<and> hd argv = ''bootstrap'')) argv))"

text \<open>A failure to listen, \<open>internal/bind/bind.go\<close>: what \<open>errors.Is\<close> finds in it, and its text.\<close>

record bindError =
  beIsPermission :: bool
  beIsInUse :: bool
  beText :: string

definition IsPrivilegedPort :: "bindError \<Rightarrow> bool" where
  "IsPrivilegedPort e \<longleftrightarrow> beIsPermission e \<or> containsStr (beText e) ''permission denied''"

definition IsAddrInUse :: "bindError \<Rightarrow> bool" where
  "IsAddrInUse e \<longleftrightarrow> beIsInUse e \<or> containsStr (beText e) ''address already in use''"

datatype bindAdvice = UsePrivileges | FreePort | NoAdvice

datatype dnsOutcome = DNSNotStarted | DNSServing dnsServer | DNSDisabled bindAdvice

definition startDNS :: "config \<Rightarrow> bindError option \<Rightarrow> dnsOutcome" where
  "startDNS cfg err =
     (if BootstrapMode cfg then DNSNotStarted
      else case err of
        None \<Rightarrow> DNSServing (NewDNSServer (UpstreamDNS cfg) (DNSRecursionAny cfg))
      | Some e \<Rightarrow> DNSDisabled (if IsPrivilegedPort e then UsePrivileges else if IsAddrInUse e then FreePort else NoAdvice))"

text \<open>The servers and the confirmations of the name registry, if bare names are enabled.\<close>

definition registryOf :: "config \<Rightarrow> (string list \<times> int) option" where
  "registryOf cfg = (if BCHElectrum cfg \<noteq> [] then Some (BCHElectrum cfg, BCHMinConf cfg) else None)"

section \<open>From the configuration to a content service\<close>

text \<open>The fields of \<open>NewContentService\<close> that come from the configuration; the healing loop runs when
  the index loaded and the interval is positive.\<close>

record 'l contentSettings =
  setPolicy :: hostingPolicy
  setReplicas :: int
  upLimit :: "'l option"
  downLimit :: "'l option"
  healing :: bool

definition NewContentService :: "'l rateLib \<Rightarrow> config \<Rightarrow> bool \<Rightarrow> 'l contentSettings" where
  "NewContentService R cfg indexLoaded =
     \<lparr>setPolicy = \<lparr>hostBudget = ContentHostBudget cfg, maxPushSize = ContentMaxPushSize cfg, hostTTL = ContentHostTTL cfg\<rparr>,
      setReplicas = ContentReplicas cfg,
      upLimit = NewRateLimiter R (ContentUpRate cfg), downLimit = NewRateLimiter R (ContentDownRate cfg),
      healing = (indexLoaded \<and> ContentHealInterval cfg > 0)\<rparr>"

end
