(* ===== verification/HttpContent.thy ===== *)
theory HttpContent
  imports HttpApi
begin

text \<open>
  The content endpoints: \<open>internal/httpapi/httpcontent.go\<close>. A response body is what was written
  before the handler returned; the announced length is a header, so a stream that fails half way
  shows as a body shorter than its length. \<open>None\<close> for the service is a node without content.
\<close>

section \<open>Copying a stream that may fail\<close>

definition sniffLen :: nat where "sniffLen = 512"

text \<open>What is delivered, the error that ended it, if any, and the reader left behind: after an error it
  may be read again, which asks for the failed chunk once more.\<close>

function drain ::
    "hashlib \<Rightarrow> contentNetwork option \<Rightarrow> (nat \<Rightarrow> nat) \<Rightarrow> bytes \<Rightarrow> chunkReader \<Rightarrow> contentIndex
      \<Rightarrow> bytes \<times> netErr option \<times> chunkReader \<times> contentIndex" where
  "drain H net bs acc cr ix =
     (case chunkRead H net (Suc (bs (length acc))) cr ix of
        (Inl e, cr', ix') \<Rightarrow> (acc, Some e, cr', ix')
      | (Inr None, cr', ix') \<Rightarrow> (acc, None, cr', ix')
      | (Inr (Some b), cr', ix') \<Rightarrow> drain H net bs (acc @ b) cr' ix')"
  by auto
termination
proof (relation "measures [\<lambda>(H, net, bs, acc, cr, ix). length (mChunks (crManifest cr)) - crNext cr,
    \<lambda>(H, net, bs, acc, cr, ix). length (crCur cr)]", simp, goal_cases)
  case (1 H net bs acc cr ix x y ob b cr2 ix2)
  then have c: "chunkRead H net (Suc (bs (length acc))) cr ix = (Inr (Some b), cr2, ix2)" by simp
  then obtain cr1 where f: "crFill H net cr ix = (Inr True, cr1, ix2)"
    and y: "cr2 = cr1\<lparr>crCur := drop (Suc (bs (length acc))) (crCur cr1)\<rparr>"
    by (auto simp: chunkRead_def split: prod.splits sum.splits bool.splits)
  from crFill_progress [OF f] y show ?case by auto
qed

declare drain.simps [simp del]

section \<open>Handlers\<close>

fun isBlobNotFound :: "netErr \<Rightarrow> bool" where
  "isBlobNotFound (ErrContent e) = (e = ErrBlobNotFound)"
| "isBlobNotFound (ErrChunk i e) = isBlobNotFound e"
| "isBlobNotFound _ = False"

definition writeContentFetchError :: "netErr \<Rightarrow> response" where
  "writeContentFetchError e = httpError (if isBlobNotFound e then 404 else 502)"

definition contentReply :: "bytes \<Rightarrow> int \<Rightarrow> response" where
  "contentReply body sz = \<lparr>rsStatus = 200, rsLength = Some sz, rsHash = None, rsPayload = PContent body\<rparr>"

text \<open>\<open>errors.Is(err, io.EOF) || errors.Is(err, io.ErrUnexpectedEOF)\<close> for an error of reading a chunk.
  The errors that can wrap either are those of a stream to a peer, when it ended early (\<open>ErrEOF\<close>) or while
  it was opened; \<open>eof\<close> is whether that peer closed the stream, rather than resetting it or timing out.\<close>

fun wrapsEOF :: "bool \<Rightarrow> netErr \<Rightarrow> bool" where
  "wrapsEOF eof ErrEOF = eof"
| "wrapsEOF eof ErrOpenStream = eof"
| "wrapsEOF eof (ErrChunk i e) = wrapsEOF eof e"
| "wrapsEOF eof _ = False"

text \<open>The service: its peers, its hosting policy, the JSON of manifests, and two facts about a response
  whose first bytes could not be read: whether the peer's stream was closed, and the peers as they
  answer when the reader is then read again.\<close>

record contentService =
  csNet :: "contentNetwork option"
  csPolicy :: hostingPolicy
  csJson :: manifestJson
  csClosed :: bool
  csAgain :: "contentNetwork option"

text \<open>\<open>io.ReadFull\<close> of the first \<open>sniffLen\<close> bytes, then \<open>io.Copy\<close> of what was read and of the rest. An
  error that wraps the end of a stream passes the test after \<open>ReadFull\<close>, so the reply is 200 and the reader
  is read again.\<close>

definition writeContentStream ::
    "hashlib \<Rightarrow> contentService \<Rightarrow> (nat \<Rightarrow> nat) \<Rightarrow> contentReader \<Rightarrow> int \<Rightarrow> contentIndex
      \<Rightarrow> response \<times> contentIndex" where
  "writeContentStream H svc bs rd sz ix =
     (case rd of
        BlobReader b \<Rightarrow> (contentReply b sz, ix)
      | ChunkReader cr \<Rightarrow>
          (case drain H (csNet svc) bs [] cr ix of
             (body, None, cr', ix') \<Rightarrow> (contentReply body sz, ix')
           | (body, Some e, cr', ix') \<Rightarrow>
               if sniffLen \<le> length body then (contentReply body sz, ix')
               else if \<not> wrapsEOF (csClosed svc) e then (writeContentFetchError e, ix')
               else case drain H (csAgain svc) bs body cr' ix' of
                 (body', _, _, ix'') \<Rightarrow> (contentReply body' sz, ix'')))"

definition limitSource :: "nat \<Rightarrow> source \<Rightarrow> source" where
  "limitSource n s = (if n \<le> length (srcData s) then \<lparr>srcData = take n (srcData s), srcFails = False\<rparr> else s)"

definition postContent :: "hashlib \<Rightarrow> contentService \<Rightarrow> int \<Rightarrow> contentIndex handler" where
  "postContent H svc now r ix =
     (case PutStream H (csJson svc) now (limitSource (MaxContentSize + 1) (rBody r)) ix of
        (Inl e, ix') \<Rightarrow> (httpError (if e = ErrContent ErrContentTooLarge then 413 else 500), ix')
      | (Inr (hash, _), ix') \<Rightarrow> (reply 200 (PHash hash), ix'))"

definition getContent :: "hashlib \<Rightarrow> contentService \<Rightarrow> int \<Rightarrow> int \<Rightarrow> (nat \<Rightarrow> nat) \<Rightarrow> contentIndex handler" where
  "getContent H svc now clock bs r ix =
     (let hash = rQuery r ''hash'' in
      if hash = [] then (httpError 400, ix)
      else if \<not> IsContentHash H hash then (httpError 400, ix)
      else case FetchStream H (csJson svc) (csPolicy svc) now clock (csNet svc) hash ix of
        (Inl e, ix') \<Rightarrow> (writeContentFetchError e, ix')
      | (Inr (rd, sz), ix') \<Rightarrow> writeContentStream H svc bs rd sz ix')"

definition ContentHandler ::
    "hashlib \<Rightarrow> contentService option \<Rightarrow> int \<Rightarrow> int \<Rightarrow> (nat \<Rightarrow> nat) \<Rightarrow> contentIndex handler" where
  "ContentHandler H svc now clock bs r ix =
     (case svc of
        None \<Rightarrow> (httpError 503, ix)
      | Some sv \<Rightarrow>
          if rMethod r = ''POST'' then postContent H sv clock r ix
          else if rMethod r = ''GET'' then getContent H sv now clock bs r ix
          else (httpError 405, ix))"

definition ResolveContentHandler ::
    "'c lruLib \<Rightarrow> recordLib \<Rightarrow> (string \<Rightarrow> string) \<Rightarrow> 'r registry \<Rightarrow> (string \<Rightarrow> pubErr + FNRecord) \<Rightarrow> int \<Rightarrow> int
      \<Rightarrow> contentService option \<Rightarrow> int \<Rightarrow> int \<Rightarrow> (nat \<Rightarrow> nat) \<Rightarrow> (('c \<times> 'r) \<times> contentIndex) handler" where
  "ResolveContentHandler C L uni reg records t1 t2 svc now clock bs r st =
     (let (s, ix) = st; name = rQuery r ''name''; H = hashes L in
      case svc of
        None \<Rightarrow> (httpError 503, st)
      | Some sv \<Rightarrow>
          if name = [] then (httpError 400, st)
          else case ResolveType C H uni reg records t1 t2 name RecordTypeCONTENT s of
            (Inl e, s') \<Rightarrow> (httpError (resolveErrStatus e), s', ix)
          | (Inr [], s') \<Rightarrow> (httpError 404, s', ix)
          | (Inr (rr # _), s') \<Rightarrow>
              (case FetchStream H (csJson sv) (csPolicy sv) now clock (csNet sv) (rrValue rr) ix of
                 (Inl e, ix') \<Rightarrow> (writeContentFetchError e, s', ix')
               | (Inr (rd, sz), ix') \<Rightarrow>
                   (case writeContentStream H sv bs rd sz ix' of
                      (resp, ix'') \<Rightarrow> (resp\<lparr>rsHash := Some (rrValue rr)\<rparr>, s', ix''))))"

section \<open>What is delivered is verified\<close>

text \<open>Whatever verified pieces would complete the reader left behind, completes what was delivered to
  verified content; at the end of the content nothing is left.\<close>

lemma drain_sound:
  "drain H net bs acc cr ix = (body, e, cr', ix') \<Longrightarrow> storeOk H (store ix) \<Longrightarrow> crNext cr \<le> length (mChunks (crManifest cr)) \<Longrightarrow>
     storeOk H (store ix') \<and> crManifest cr' = crManifest cr \<and> crNext cr' \<le> length (mChunks (crManifest cr)) \<and>
     (e = None \<longrightarrow> crNext cr' = length (mChunks (crManifest cr)) \<and> crCur cr' = []) \<and>
     (\<forall>ds. piecesOf H (crManifest cr) (crNext cr') ds \<longrightarrow>
        (\<exists>es. piecesOf H (crManifest cr) (crNext cr) es \<and> acc @ crCur cr @ concat es = body @ crCur cr' @ concat ds))"
proof (induction H net bs acc cr ix rule: drain.induct)
  case (1 H net bs acc cr ix)
  let ?n = "Suc (bs (length acc))"
  obtain r cr1 ix1 where f: "crFill H net cr ix = (r, cr1, ix1)" by (metis prod_cases3)
  note s = crFill_sound [OF f 1(3,4)]
  show ?case
  proof (cases "r = Inr True")
    case False
    with 1(2) f have "body = acc" "ix' = ix1" "cr' = cr1" "e = None \<longrightarrow> r = Inr False"
      by (subst (asm) drain.simps, auto simp: chunkRead_def split: sum.splits bool.splits)+
    with s show ?thesis by auto
  next
    case True
    let ?cr2 = "cr1\<lparr>crCur := drop ?n (crCur cr1)\<rparr>"
    from True f have c: "chunkRead H net ?n cr ix = (Inr (Some (take ?n (crCur cr1))), ?cr2, ix1)"
      by (simp add: chunkRead_def)
    with 1(2) have d: "drain H net bs (acc @ take ?n (crCur cr1)) ?cr2 ix1 = (body, e, cr', ix')"
      by (subst (asm) drain.simps) simp
    have cur: "take ?n (crCur cr1) @ drop ?n (crCur cr1) @ ys = crCur cr1 @ ys" for ys
      by (metis append_assoc append_take_drop_id)
    have "storeOk H (store ix') \<and> crManifest cr' = crManifest cr \<and> crNext cr' \<le> length (mChunks (crManifest cr)) \<and>
       (e = None \<longrightarrow> crNext cr' = length (mChunks (crManifest cr)) \<and> crCur cr' = []) \<and>
       (\<forall>ds. piecesOf H (crManifest cr) (crNext cr') ds \<longrightarrow>
         (\<exists>es. piecesOf H (crManifest cr) (crNext cr1) es \<and> acc @ crCur cr1 @ concat es = body @ crCur cr' @ concat ds))"
      using "1.IH" [OF c [symmetric] refl refl refl d] s cur by simp
    with s show ?thesis by metis
  qed
qed

section \<open>A short body is visible\<close>

definition lenUpTo :: "chunkManifest \<Rightarrow> nat \<Rightarrow> int" where
  "lenUpTo m k = (\<Sum>i < k. ChunkLen m i)"

lemma crFill_lengths:
  "crFill H net cr ix = (q, cr', ix') \<Longrightarrow> crNext cr \<le> length (mChunks (crManifest cr)) \<Longrightarrow>
     crManifest cr' = crManifest cr \<and> crNext cr' \<le> length (mChunks (crManifest cr))
     \<and> lenUpTo (crManifest cr) (crNext cr') - int (length (crCur cr'))
         = lenUpTo (crManifest cr) (crNext cr) - int (length (crCur cr))
     \<and> ((\<exists>e. q = Inl e) \<longrightarrow> crCur cr' = [] \<and> crNext cr' < length (mChunks (crManifest cr)))"
proof (induction H net cr ix rule: crFill.induct)
  case (1 H net cr ix)
  let ?m = "crManifest cr"
  show ?case
  proof (cases "crCur cr = [] \<and> crNext cr < length (mChunks ?m)")
    case False
    with 1(2) have "cr' = cr" "\<not> (\<exists>e. q = Inl e)"
      by (subst (asm) crFill.simps, auto simp: Let_def split: if_splits)+
    with 1(3) show ?thesis by simp
  next
    case True
    obtain p ix1 where f: "fetchChunk H net (mChunks ?m ! crNext cr) (crSrc cr) (crCache cr) ix = (p, ix1)"
      by fastforce
    show ?thesis
    proof (cases "\<exists>data. p = Inr data \<and> int (length data) = ChunkLen ?m (crNext cr)")
      case False
      with 1(2) True f have "cr' = cr"
        by (subst (asm) crFill.simps) (auto simp: Let_def split: sum.splits if_splits)
      with True show ?thesis by simp
    next
      case ok: True
      then obtain data where d: "p = Inr data" "int (length data) = ChunkLen ?m (crNext cr)" by blast
      let ?cr = "cr\<lparr>crNext := crNext cr + 1, crCur := data\<rparr>"
      from 1(2) True f d have c: "crFill H net ?cr ix1 = (q, cr', ix')"
        by (subst (asm) crFill.simps) (auto simp: Let_def)
      from 1(1) [OF refl refl _ _ f [symmetric] d(1) _ c] True d(2) show ?thesis
        by (simp add: lenUpTo_def)
    qed
  qed
qed

lemma lenUpTo_less:
  assumes m: "DecodeManifest H J data = Some m" and k: "k < length (mChunks m)"
  shows "lenUpTo m k < TotalSize m"
proof -
  note ml = manifest_lengths [OF m]
  have "TotalSize m = (\<Sum>i < length (mChunks m). ChunkLen m i)" using ml by simp
  also have "\<dots> = lenUpTo m k + (\<Sum>i \<in> {k..<length (mChunks m)}. ChunkLen m i)"
    unfolding lenUpTo_def using k by (simp add: lessThan_atLeast0 sum.atLeastLessThan_concat)
  finally have eq: "TotalSize m = lenUpTo m k + (\<Sum>i \<in> {k..<length (mChunks m)}. ChunkLen m i)" .
  have "(\<Sum>i \<in> {k..<length (mChunks m)}. ChunkLen m i) > 0"
    using k ml by (intro sum_pos) force+
  with eq show ?thesis by linarith
qed

lemma drain_lengths:
  "drain H net bs acc cr ix = (body, e, cr', ix') \<Longrightarrow> crNext cr \<le> length (mChunks (crManifest cr)) \<Longrightarrow>
     int (length acc + length (crCur cr)) = lenUpTo (crManifest cr) (crNext cr) \<Longrightarrow>
     crManifest cr' = crManifest cr \<and> crNext cr' \<le> length (mChunks (crManifest cr))
     \<and> int (length body + length (crCur cr')) = lenUpTo (crManifest cr) (crNext cr')
     \<and> (e \<noteq> None \<longrightarrow> crCur cr' = [] \<and> crNext cr' < length (mChunks (crManifest cr)))"
proof (induction H net bs acc cr ix rule: drain.induct)
  case (1 H net bs acc cr ix)
  let ?n = "Suc (bs (length acc))"
  obtain r cr1 ix1 where f: "crFill H net cr ix = (r, cr1, ix1)" by (metis prod_cases3)
  note l = crFill_lengths [OF f 1(3)]
  show ?case
  proof (cases "r = Inr True")
    case False
    with 1(2) f have "body = acc" "cr' = cr1" "e \<noteq> None \<longrightarrow> (\<exists>x. r = Inl x)"
      by (subst (asm) drain.simps, auto simp: chunkRead_def split: sum.splits bool.splits)+
    with l 1(4) show ?thesis by auto
  next
    case True
    let ?cr2 = "cr1\<lparr>crCur := drop ?n (crCur cr1)\<rparr>"
    from True f have c: "chunkRead H net ?n cr ix = (Inr (Some (take ?n (crCur cr1))), ?cr2, ix1)"
      by (simp add: chunkRead_def)
    with 1(2) have d: "drain H net bs (acc @ take ?n (crCur cr1)) ?cr2 ix1 = (body, e, cr', ix')"
      by (subst (asm) drain.simps) simp
    have len: "length (take ?n (crCur cr1)) + length (drop ?n (crCur cr1)) = length (crCur cr1)"
      by (metis append_take_drop_id length_append)
    have "int (length (acc @ take ?n (crCur cr1)) + length (crCur ?cr2)) = lenUpTo (crManifest ?cr2) (crNext ?cr2)"
      using l 1(4) len by simp
    from "1.IH" [OF c [symmetric] refl refl refl d _ this] l show ?thesis by simp
  qed
qed

lemma drain_short:
  assumes m: "DecodeManifest H J data = Some (crManifest cr)" and d: "drain H net bs acc cr ix = (body, Some e, cr', ix')"
    and n: "crNext cr \<le> length (mChunks (crManifest cr))"
    and l: "int (length acc + length (crCur cr)) = lenUpTo (crManifest cr) (crNext cr)"
  shows "int (length body) < TotalSize (crManifest cr)"
  using drain_lengths [OF d n l] lenUpTo_less [OF m, of "crNext cr'"] by simp

text \<open>A failed fetch can look like short content: when the stream of the first chunk's peer was closed
  early and every retry fails, the reply is 200 with an empty body and the full length announced.\<close>

lemma early_end_answers_ok:
  assumes "drain H (csNet svc) bs [] cr ix = ([], Some e, cr', ix')" and "wrapsEOF (csClosed svc) e"
    and "drain H (csAgain svc) bs [] cr' ix' = ([], Some e', cr'', ix'')"
  shows "writeContentStream H svc bs (ChunkReader cr) sz ix = (contentReply [] sz, ix'')"
  using assms by (simp add: writeContentStream_def sniffLen_def)

end
