(* ===== verification/HttpProps.thy ===== *)
theory HttpProps
  imports HttpContent
begin

text \<open>
  What the local API promises: whole pages are authentic, foreign web pages cannot drive it, only
  local clients can sign, and only verified records are published.
\<close>

section \<open>Delivered content\<close>

text \<open>A manifest's reader, from its start: read to an end and, after an error, once more.\<close>

lemma stream_sound:
  assumes s1: "storeOk H (store ix)" and h: "ContentHash H blob = Inr hash" and m: "DecodeManifest H J blob = Some (crManifest cr)"
    and z: "crNext cr = 0" "crCur cr = []"
    and d: "drain H net bs [] cr ix = (body, e, cr', ix')"
    and again: "drain H net' bs body cr' ix' = (body', e', cr'', ix'')"
  shows "int (length body) = TotalSize (crManifest cr) \<Longrightarrow> contentOf H J hash body"
    and "int (length body') = TotalSize (crManifest cr) \<Longrightarrow> contentOf H J hash body'"
proof -
  let ?m = "crManifest cr"
  have n0: "crNext cr \<le> length (mChunks ?m)" by (simp add: z)
  have l0: "int (length [] + length (crCur cr)) = lenUpTo ?m (crNext cr)" by (simp add: z lenUpTo_def)
  note s2 = drain_sound [OF d s1 n0] and l2 = drain_lengths [OF d n0 l0]
  note s3 = drain_sound [OF again] and l3 = drain_lengths [OF again]
  have fin: "contentOf H J hash b" if "piecesOf H ?m 0 ds" "b = concat ds" for b ds
    using piecesOf_content [OF that(1) h m] that(2) by simp
  {
    assume w: "int (length body) = TotalSize ?m"
    have "e = None" using drain_short [OF m _ n0 l0] d w by (cases e) fastforce+
    with s2 have "piecesOf H ?m (crNext cr') []" "crCur cr' = []" by (auto simp: piecesOf_def)
    with s2 z show "contentOf H J hash body" using fin by fastforce
  }
  assume w: "int (length body') = TotalSize ?m"
  have n2: "crNext cr' \<le> length (mChunks (crManifest cr'))" using s2 by simp
  have l2': "int (length body + length (crCur cr')) = lenUpTo (crManifest cr') (crNext cr')" using l2 by simp
  have m': "DecodeManifest H J blob = Some (crManifest cr')" using m s2 by simp
  have "e' = None" using drain_short [OF m' _ n2 l2'] again w s2 by (cases e') fastforce+
  with s3 s2 n2 have "piecesOf H ?m (crNext cr'') []" "crCur cr'' = []" by (auto simp: piecesOf_def)
  with s3 s2 n2 obtain es where "piecesOf H ?m (crNext cr') es" "body @ crCur cr' @ concat es = body'" by fastforce
  with s2 z obtain fs where "piecesOf H ?m 0 fs" "concat fs = body'" by fastforce
  then show "contentOf H J hash body'" using fin by metis
qed

lemma writeContentStream_sound:
  assumes f: "FetchStream H (csJson svc) P now clock net hash ix = (Inr (rd, sz), ix1)" and ok: "storeOk H (store ix)"
    and w: "writeContentStream H svc bs rd sz ix1 = (resp, ix2)" and st: "rsStatus resp = 200"
  shows "\<exists>body. rsPayload resp = PContent body \<and> rsLength resp = Some sz
    \<and> (int (length body) = sz \<longrightarrow> contentOf H (csJson svc) hash body)"
proof -
  note s1 = FetchStream_store [OF ok f]
  from f obtain blob src where b: "fetchBlob H net ix hash = Inr (blob, src)"
    by (auto simp: FetchStream_def split: sum.splits)
  note h = fetchBlob_hash [OF ok b]
  show ?thesis
  proof (cases "DecodeManifest H (csJson svc) blob")
    case None
    with f b have "rd = BlobReader blob" by (auto simp: FetchStream_def Let_def split: prod.splits)
    with w h None show ?thesis by (auto simp: writeContentStream_def contentReply_def contentOf_def)
  next
    case (Some m)
    with f b obtain c where rd: "rd = ChunkReader \<lparr>crManifest = m, crSrc = src, crCache = c, crNext = 0, crCur = []\<rparr>"
      and sz: "sz = TotalSize m" by (auto simp: FetchStream_def Let_def split: prod.splits)
    let ?cr = "\<lparr>crManifest = m, crSrc = src, crCache = c, crNext = 0, crCur = []\<rparr>"
    obtain body e cr' ix3 where d: "drain H (csNet svc) bs [] ?cr ix1 = (body, e, cr', ix3)" by (metis prod_cases4)
    obtain body' e' cr'' ix4 where d': "drain H (csAgain svc) bs body cr' ix3 = (body', e', cr'', ix4)"
      by (metis prod_cases4)
    have m: "DecodeManifest H (csJson svc) blob = Some (crManifest ?cr)" using Some by simp
    have "resp = contentReply body sz \<or> resp = contentReply body' sz"
      using w d d' rd st
      by (auto simp: writeContentStream_def writeContentFetchError_def httpError_def split: option.splits if_splits)
    with stream_sound [OF s1 h m _ _ d d'] sz show ?thesis by (auto simp: contentReply_def)
  qed
qed

section \<open>Host names\<close>

text \<open>A host header, or an entry of the operator's list, that spells the host \<open>name\<close>: in any letter
  case, with or without a port. \<open>name\<close> is in lower case.\<close>

inductive spells :: "string \<Rightarrow> string \<Rightarrow> bool" for name where
  bare: "list_all nameChar name \<Longrightarrow> map lowerChar h = name \<Longrightarrow> spells name h"
| port: "list_all nameChar name \<Longrightarrow> map lowerChar h = name \<Longrightarrow> list_all isDigitC ds \<Longrightarrow> spells name (h @ CHR '':'' # ds)"

lemma hostChar:
  assumes "nameChar (lowerChar c) \<or> isDigitC c \<or> c = CHR '':''"
  shows "of_char c < (128 :: nat)" "\<not> isSpaceC c"
proof -
  have "of_char c < (128 :: nat) \<and> \<not> isSpaceC c"
  proof (cases "CHR ''A'' \<le> c \<and> c \<le> CHR ''Z''")
    case True
    then show ?thesis by (auto simp: isSpaceC_def less_eq_char_def)
  next
    case False
    with assms have "nameChar c \<or> isDigitC c \<or> c = CHR '':''" by (simp add: lowerChar_lower)
    then show ?thesis
      by (auto simp: nameChar_def alnumLower_def isDigitC_def isSpaceC_def less_eq_char_def)
  qed
  then show "of_char c < (128 :: nat)" "\<not> isSpaceC c" by simp_all
qed

lemma trimBoth_none: "\<forall>c \<in> set s. \<not> P c \<Longrightarrow> trimBoth P s = s"
proof -
  have "dropWhile P t = t" if "\<forall>c \<in> set t. \<not> P c" for t using that by (cases t) auto
  from this [of s] this [of "rev s"] show "\<forall>c \<in> set s. \<not> P c \<Longrightarrow> trimBoth P s = s" by (simp add: trimBoth_def)
qed

lemma lastIndex_append: "c \<notin> set t \<Longrightarrow> lastIndex c (s @ c # t) = Some (length s)"
  using takeWhile_upto [of c "rev t" "rev s"] by (simp add: lastIndex_def)

lemma nameChar_plain: "nameChar c \<Longrightarrow> c \<notin> set '':[]%''"
  by (auto simp: nameChar_def alnumLower_def less_eq_char_def)

lemma lowerChar_digit: "isDigitC c \<or> c = CHR '':'' \<Longrightarrow> lowerChar c = c"
  by (rule lowerChar_lower) (auto simp: isDigitC_def less_eq_char_def)

lemma digit_plain: "isDigitC c \<Longrightarrow> c \<notin> set '':[]%''"
  by (auto simp: isDigitC_def less_eq_char_def)

lemma SplitHostPort_name:
  assumes "list_all nameChar name"
  shows "SplitHostPort name = None"
    and "list_all isDigitC ds \<Longrightarrow> SplitHostPort (name @ CHR '':'' # ds) = Some (name, ds)"
proof -
  have n: "c \<notin> set '':[]%''" if "c \<in> set name" for c using assms that nameChar_plain by (auto simp: list_all_iff)
  then have m: "CHR '':'' \<notin> set name" "CHR ''['' \<notin> set name" "CHR '']'' \<notin> set name" by fastforce+
  then show "SplitHostPort name = None" by (simp add: SplitHostPort_def lastIndex_def)
  assume d: "list_all isDigitC ds"
  have "c \<notin> set '':[]%''" if "c \<in> set ds" for c using d that digit_plain by (auto simp: list_all_iff)
  then have d: "CHR '':'' \<notin> set ds" "CHR ''['' \<notin> set ds" "CHR '']'' \<notin> set ds" by fastforce+
  have "hd (name @ CHR '':'' # ds) \<noteq> CHR ''[''" using m by (cases name) auto
  then show "SplitHostPort (name @ CHR '':'' # ds) = Some (name, ds)"
    using m d by (simp add: SplitHostPort_def lastIndex_append)
qed

text \<open>However a host is spelled, the guard compares its name.\<close>

lemma normalizeHost_spells:
  assumes "spells name raw"
  shows "normalizeHost W raw = name" and "isASCII raw"
proof -
  from assms obtain h t where raw: "raw = h @ t" and n: "list_all nameChar name" "map lowerChar h = name"
    and t: "t = [] \<or> (\<exists>ds. t = CHR '':'' # ds \<and> list_all isDigitC ds)"
    by (cases rule: spells.cases) auto
  have c: "nameChar (lowerChar c) \<or> isDigitC c \<or> c = CHR '':''" if "c \<in> set raw" for c
    using that n t unfolding raw by (auto simp: list_all_iff)
  have "lowerChar c = c" if "c \<in> set t" for c
    by (rule lowerChar_digit) (use t that in \<open>auto simp: list_all_iff\<close>)
  then have "map lowerChar t = t" by (simp add: map_idI)
  then have low: "map lowerChar raw = name @ t" by (simp add: raw n(2))
  show "isASCII raw" using c hostChar by (auto simp: isASCII_def)
  moreover have "trimBoth isSpaceC raw = raw" using c hostChar by (intro trimBoth_none) auto
  ultimately have l: "toLower (uniLower W) (trimSpace W raw) = name @ t"
    by (simp add: trimSpace_def toLower_ascii low)
  have b: "trimBoth (\<lambda>c. c = CHR ''['' \<or> c = CHR '']'') name = name"
    using n(1) nameChar_plain by (intro trimBoth_none) (fastforce simp: list_all_iff)
  from t show "normalizeHost W raw = name"
    using SplitHostPort_name [OF n(1)] b by (auto simp: normalizeHost_def l)
qed

text \<open>No name with a letter in it is an IP address.\<close>

lemma set_joinWith: "set (joinWith c ps) \<subseteq> insert c (\<Union>p \<in> set ps. set p)"
  by (induction ps rule: joinWith.induct) auto

lemma parseIP_letter:
  assumes n: "list_all nameChar s" and c: "c \<in> set s" "CHR ''a'' \<le> c" "c \<le> CHR ''z''"
  shows "parseIP s = None"
proof -
  have v4: "parseIPv4 s = None"
  proof (rule ccontr)
    assume "parseIPv4 s \<noteq> None"
    then have "\<forall>p \<in> set (splitOn (CHR ''.'') s). ipv4Field p \<noteq> None"
      by (auto simp: parseIPv4_def Let_def traverseO_Some list_all2_conv_all_nth in_set_conv_nth split: if_splits)
    then have "\<forall>p \<in> set (splitOn (CHR ''.'') s). \<forall>d \<in> set p. isDigitC d"
      by (auto simp: ipv4Field_def list_all_iff split: if_splits)
    moreover have "set s \<subseteq> insert (CHR ''.'') (\<Union>p \<in> set (splitOn (CHR ''.'') s). set p)"
      by (metis joinWith_splitOn set_joinWith)
    ultimately have "isDigitC c \<or> c = CHR ''.''" using c(1) by blast
    with c show False by (auto simp: isDigitC_def less_eq_char_def)
  qed
  show ?thesis
  proof (cases "dropWhile (\<lambda>c. c \<notin> {CHR ''.'', CHR '':'', CHR ''%''}) s")
    case Nil
    show ?thesis unfolding parseIP_def Nil by simp
  next
    case (Cons d t)
    then have "d \<in> set s" by (metis list.set_intros(1) set_dropWhileD)
    then have "d \<notin> set '':[]%''" using n nameChar_plain by (auto simp: list_all_iff)
    moreover have "d \<in> {CHR ''.'', CHR '':'', CHR ''%''}" using Cons by (metis hd_dropWhile list.distinct(1) list.sel(1))
    ultimately have "d = CHR ''.''" by auto
    with v4 show ?thesis unfolding parseIP_def Cons by simp
  qed
qed

text \<open>What passes the guard's host check, for hosts spelled out.\<close>

lemma hostAllowed_spells:
  assumes "spells name raw"
  shows "hostAllowed W raw allowed \<longleftrightarrow>
    name = [] \<or> name = ''localhost'' \<or> parseIP name \<noteq> None \<or> name \<in> normalizeHost W ` set allowed"
  by (auto simp: hostAllowed_def normalizeHost_spells [OF assms] list_ex_iff)

section \<open>A concrete server\<close>

definition demoHttp :: httpLib where
  "demoHttp =
     \<lparr>uniLower = id, uniTrimSpace = id, uniEqualFold = (\<lambda>s t. s = t), urlHost = (\<lambda>s. None),
      jsonLabel = (\<lambda>b. None), jsonRecords = (\<lambda>b. None)\<rparr>"

definition demoRequest :: request where
  "demoRequest =
     \<lparr>rMethod = ''GET'', rHost = ''localhost:8421'', rRemote = ''127.0.0.1:5000'', rPath = ''/authoring/names'',
      rHeader = (\<lambda>h. []), rQuery = (\<lambda>q. []), rBody = \<lparr>srcData = [], srcFails = False\<rparr>\<rparr>"

lemma demo_hosts:
  "normalizeHost demoHttp ''localhost:8421'' = ''localhost''"
  "normalizeHost demoHttp ''evil.example:8420'' = ''evil.example''"
  "normalizeHost demoHttp ''evil.example'' = ''evil.example''"
  "parseIP ''evil.example'' = None"
  "SplitHostPort ''127.0.0.1:5000'' = Some (''127.0.0.1'', ''5000'')"
  "loopbackHost ''127.0.0.1''"
  by code_simp+

text \<open>An owner's page: a record whose content is the empty blob.\<close>

definition pageRR :: RR where
  "pageRR = \<lparr>rrType = RecordTypeCONTENT, rrValue = demoHash, rrTTL = 60\<rparr>"

definition pageRec :: FNRecord where
  "pageRec =
     (let r = \<lparr>Label = ''mysite'', Records = [pageRR], Seq = 1, EOL = word_of_int (1000 + defaultRecordTTL),
               PubKey = [1, 9], Sig = []\<rparr>
      in r\<lparr>Sig := 7 # [9] @ canonicalBytes r\<rparr>)"

definition pageLib :: recordLib where
  "pageLib = demoLib\<lparr>recDecode := (\<lambda>v. if v = [3] then Some pageRec else None)\<rparr>"

definition demoService :: contentService where
  "demoService = \<lparr>csNet = None, csPolicy = \<lparr>hostBudget = 0, maxPushSize = 0, hostTTL = 0\<rparr>,
     csJson = \<lparr>jsonEncode = \<lambda>_. None, jsonDecode = \<lambda>_. None\<rparr>, csClosed = True, csAgain = None\<rparr>"

lemma pageLib_ok: "recordLib_ok pageLib"
  using demoLib_ok by (simp add: recordLib_ok_def pageLib_def)

lemma pageRec_fields [simp]:
  "Records pageRec = [pageRR]" "PubKey pageRec = [1, 9]" "Label pageRec = ''mysite''" "sint (EOL pageRec) = 605800"
  by (simp_all add: pageRec_def Let_def defaultRecordTTL_def)

lemma pageRec_verifies:
  assumes "now \<le> 605800"
  shows "Verify pageLib now pageRec = Inr ()"
proof -
  have b: "BuildAndSignRecord pageLib 1000 [9] ''mysite'' [pageRR] 1 = Inr pageRec"
    by (simp add: BuildAndSignRecord_def Sign_def pageLib_def demoLib_def pageRec_def Let_def)
  have "IsContentHash demoHashlib demoHash"
    by (simp add: demoHash_def IsContentHash_def demoHashlib_def unletters_letters SHA2_256_def del: letters.simps)
  then have "ValidateRecords (hashes pageLib) pageRec = Inr ()"
    by (simp add: ValidateRecords_Inr checkRR_def pageRR_def recordTypes pageLib_def demoLib_def)
  with built_verifies [OF pageLib_ok b, of now] assms show ?thesis by simp
qed

section \<open>Properties\<close>

text \<open>C4: a page delivered whole is the owner's. After any run of the resolver, if a request for a
  name's content is answered with success, the response names the hash that an unexpired record,
  signed under the key the name stands for, gives as its content; and a body of the announced length
  is exactly what that hash stands for. A transfer that broke off shows as a shorter body.\<close>

theorem page_bytes_authentic:
  assumes L: "recordLib_ok L" and C: "lruLib_ok C 100" and new: "NewMemoryCache C = Some c0"
    and run: "reach (resolverStep C L uni Own) (c0, r0) s"
    and reg: "\<And>ask r n pub r'. reg = Some ask \<Longrightarrow> ask r n = (Inr pub, r') \<Longrightarrow> Own n pub"
    and rec: "storeValid L (now div second) records" and now: "0 \<le> now"
    and ok: "storeOk (hashes L) (store ix)"
    and h: "ResolveContentHandler C L uni reg records now later (Some svc) tnow clock bs req (s, ix) = (resp, s', ix')"
    and st: "rsStatus resp = 200"
  shows "\<exists>r rr body. vouches L uni Own (CanonicalName uni (rQuery req ''name'')) r
     \<and> (EOL r \<noteq> 0 \<longrightarrow> now div second \<le> sint (EOL r))
     \<and> rr \<in> set (Records r) \<and> rrType rr = RecordTypeCONTENT
     \<and> rsHash resp = Some (rrValue rr) \<and> rsPayload resp = PContent body
     \<and> (rsLength resp = Some (int (length body)) \<longrightarrow> contentOf (hashes L) (csJson svc) (rrValue rr) body)"
proof -
  let ?name = "rQuery req ''name''" and ?H = "hashes L"
  from C have C': "lruLib_ok C cacheSize" by (simp add: cacheSize_def)
  have "resolverInv C L uni Own (c0, r0)"
    using L new_cache_holds(1) [OF C' new] by (simp add: resolverInv_def)
  with resolver_ts.reach_inv [OF run] have inv: "resolverInv C L uni Own s" by blast
  obtain c r where s: "s = (c, r)" by (cases s)
  from inv have hold: "mc.holds (authentic L uni Own) (C, c)" by (simp add: resolverInv_def s)
  obtain a c' r' where res: "Resolve C ?H uni reg records now later ?name (c, r) = (a, c', r')"
    by (metis prod_cases3)
  from h st obtain rrs where a: "a = Inr rrs"
    by (cases a) (auto simp: ResolveContentHandler_def ResolveType_def s res Let_def httpError_def
        resolveErrStatus_def split: if_splits)
  have "\<exists>rc. rrs = Records rc \<and> vouches L uni Own (CanonicalName uni ?name) rc
      \<and> (EOL rc \<noteq> 0 \<longrightarrow> now div second \<le> sint (EOL rc))"
    by (rule Resolve_authentic(2) [OF L hold _ rec now res a]) (rule reg)
  then obtain rc where
    rc: "rrs = Records rc" "vouches L uni Own (CanonicalName uni ?name) rc"
      "EOL rc \<noteq> 0 \<longrightarrow> now div second \<le> sint (EOL rc)" by blast
  let ?cs = "filter (\<lambda>rr. rrType rr = RecordTypeCONTENT) rrs"
  from h st obtain rr rest where cs: "?cs = rr # rest"
    by (cases ?cs) (auto simp: ResolveContentHandler_def ResolveType_def s res a Let_def httpError_def split: if_splits)
  then have "rr \<in> set ?cs" by simp
  then have rr: "rr \<in> set (Records rc)" "rrType rr = RecordTypeCONTENT" using rc(1) by auto
  let ?f = "FetchStream ?H (csJson svc) (csPolicy svc) tnow clock (csNet svc) (rrValue rr) ix"
  from h st obtain rd sz ix1 where f: "?f = (Inr (rd, sz), ix1)"
    by (cases ?f; cases "fst ?f") (auto simp: ResolveContentHandler_def ResolveType_def s res a cs Let_def httpError_def
        writeContentFetchError_def split: if_splits)
  obtain resp0 ix2 where w: "writeContentStream ?H svc bs rd sz ix1 = (resp0, ix2)" by fastforce
  from h f w have resp: "resp = resp0\<lparr>rsHash := Some (rrValue rr)\<rparr>"
    by (auto simp: ResolveContentHandler_def ResolveType_def s res a cs Let_def httpError_def split: if_splits)
      (use st in \<open>simp add: httpError_def\<close>)
  with st have "rsStatus resp0 = 200" by simp
  from writeContentStream_sound [OF f ok w this] obtain body where "rsPayload resp0 = PContent body"
    "rsLength resp0 = Some sz" "int (length body) = sz \<longrightarrow> contentOf ?H (csJson svc) (rrValue rr) body" by blast
  with resp rc rr show ?thesis by (intro exI [of _ rc] exI [of _ rr] exI [of _ body]) simp
qed

theorem page_bytes_authentic_witness:
  "\<exists>name r rr. vouches pageLib id (\<lambda>_ _. False) (CanonicalName id name) r
     \<and> rr \<in> set (Records r) \<and> rrValue rr = demoHash \<and> contentOf demoHashlib (csJson demoService) demoHash []"
proof -
  have H: "hashes pageLib = demoHashlib" by (simp add: pageLib_def demoLib_def)
  obtain name key where n: "CanonicalName id name = name"
    "dhtKeyForName demoHashlib id (None :: unit registry) name () = (Inr key, ())"
    "\<exists>i. key = ''/'' @ dhtNamespace @ ''/'' @ i \<and> PubKeyID demoHashlib [1, 9] = Inr i" "name \<noteq> []"
    by (rule demo_name)
  from n(3) obtain i where i: "key = ''/'' @ dhtNamespace @ ''/'' @ i" "PubKeyID demoHashlib [1, 9] = Inr i" by blast
  have sk: "splitKey pageLib key = Some (dhtNamespace, i)"
    unfolding i(1) by (rule recordLib_ok_splitKey [OF pageLib_ok]) (simp_all add: dhtNamespace_def)
  have d: "recDecode pageLib [3] = Some pageRec" by (simp add: pageLib_def)
  let ?now = "2000 * second" and ?store = "\<lambda>k. if k = key then Inr pageRec else Inl (PubDHT DHTNotFound)"
  have "Validate pageLib 2000 key [3] = Inr ()"
    by (simp only: Validate_def sk d H pageRec_fields i(2) option.case prod.case sum.case simp_thms if_False)
      (rule pageRec_verifies, simp)
  then have st: "storeValid pageLib (?now div second) ?store"
    using d by (auto simp: storeValid_def second_def intro!: exI [of _ "[3]"])
  let ?req = "demoRequest\<lparr>rQuery := \<lambda>q. name\<rparr>"
  have f: "FetchStream demoHashlib (csJson demoService) (csPolicy demoService) 0 5 (csNet demoService) demoHash demoIndex
      = (Inr (BlobReader [], 0), TouchBlob 5 demoHash demoIndex)"
    by (simp add: FetchStream_def fetchBlob_def demo_blob Let_def BeginWrite_def demoService_def
        DecodeManifest_def hasPrefix_def manifestMagic_def)
  obtain s' where h: "ResolveContentHandler demoLru pageLib id (None :: unit registry) ?store ?now ?now (Some demoService)
      0 5 (\<lambda>_. 0) ?req (([], ()), demoIndex)
      = ((contentReply [] 0)\<lparr>rsHash := Some demoHash\<rparr>, s', TouchBlob 5 demoHash demoIndex)"
    by (simp add: ResolveContentHandler_def ResolveType_def Resolve_def n H cacheGet_def demoLru_def pageRR_def
        f writeContentStream_def Let_def)
  have new: "NewMemoryCache demoLru = Some []" by (simp add: NewMemoryCache_def demoLru_def)
  have l: "lruLib_ok demoLru 100" using demoLru_ok by (simp add: cacheSize_def)
  have run: "reach (resolverStep demoLru pageLib id (\<lambda>_ _. False)) ([], ()) ([], ())" by (rule reach_refl)
  have "storeOk (hashes pageLib) (store demoIndex)" unfolding H by (rule demo_storeOk)
  note page = page_bytes_authentic [OF pageLib_ok l new run _ st _ this h]
  have "\<exists>r rr body. vouches pageLib id (\<lambda>_ _. False) (CanonicalName id (rQuery ?req ''name'')) r
     \<and> (EOL r \<noteq> 0 \<longrightarrow> ?now div second \<le> sint (EOL r))
     \<and> rr \<in> set (Records r) \<and> rrType rr = RecordTypeCONTENT
     \<and> rsHash ((contentReply [] 0)\<lparr>rsHash := Some demoHash\<rparr>) = Some (rrValue rr)
     \<and> rsPayload ((contentReply [] 0)\<lparr>rsHash := Some demoHash\<rparr>) = PContent body
     \<and> (rsLength ((contentReply [] 0)\<lparr>rsHash := Some demoHash\<rparr>) = Some (int (length body))
          \<longrightarrow> contentOf (hashes pageLib) (csJson demoService) (rrValue rr) body)"
    by (rule page) (simp_all add: second_def contentReply_def)
  then obtain r rr body where
    "vouches pageLib id (\<lambda>_ _. False) (CanonicalName id (rQuery ?req ''name'')) r" "rr \<in> set (Records r)"
    "rsHash ((contentReply [] 0)\<lparr>rsHash := Some demoHash\<rparr>) = Some (rrValue rr)"
    "rsPayload ((contentReply [] 0)\<lparr>rsHash := Some demoHash\<rparr>) = PContent body"
    "rsLength ((contentReply [] 0)\<lparr>rsHash := Some demoHash\<rparr>) = Some (int (length body))
          \<longrightarrow> contentOf (hashes pageLib) (csJson demoService) (rrValue rr) body"
    by (elim exE conjE)
  then have "vouches pageLib id (\<lambda>_ _. False) (CanonicalName id name) r \<and> rr \<in> set (Records r)
      \<and> rrValue rr = demoHash \<and> contentOf demoHashlib (csJson demoService) demoHash []"
    by (simp add: contentReply_def H)
  then show ?thesis by blast
qed

text \<open>The requests a page on the web can make a browser send to this node: to the page's own host name,
  rebound to this machine's address; from another site, which the browser marks; and with the origin
  of the page, whatever host that is, or one that is no URL.\<close>

inductive sentByPage :: "httpLib \<Rightarrow> string list \<Rightarrow> request \<Rightarrow> bool" for W allowed r where
  rebound: "spells page (rHost r) \<Longrightarrow> c \<in> set page \<Longrightarrow> CHR ''a'' \<le> c \<Longrightarrow> c \<le> CHR ''z'' \<Longrightarrow> page \<noteq> ''localhost''
    \<Longrightarrow> list_all (\<lambda>a. \<exists>host. spells host a \<and> host \<noteq> page) allowed \<Longrightarrow> sentByPage W allowed r"
| cross_site: "rHeader r ''Sec-Fetch-Site'' = ''cross-site'' \<Longrightarrow> sentByPage W allowed r"
| other_origin: "rHeader r ''Origin'' \<noteq> [] \<Longrightarrow> urlHost W (rHeader r ''Origin'') = Some page
    \<Longrightarrow> isASCII page \<Longrightarrow> isASCII (rHost r) \<Longrightarrow> map lowerChar page \<noteq> map lowerChar (rHost r) \<Longrightarrow> sentByPage W allowed r"
| no_origin: "rHeader r ''Origin'' \<noteq> [] \<Longrightarrow> urlHost W (rHeader r ''Origin'') = None \<Longrightarrow> sentByPage W allowed r"

text \<open>The requests of the node's own clients: to localhost, to 127.0.0.1 or to a host on the operator's
  list, not marked as cross-site, with no origin or the origin of the host they are sent to.\<close>

inductive sentByClient :: "httpLib \<Rightarrow> string list \<Rightarrow> request \<Rightarrow> bool" for W allowed r where
  "spells host (rHost r) \<Longrightarrow> host \<in> {''localhost'', ''127.0.0.1''} \<or> list_ex (spells host) allowed
    \<Longrightarrow> rHeader r ''Sec-Fetch-Site'' \<noteq> ''cross-site''
    \<Longrightarrow> rHeader r ''Origin'' = [] \<or> urlHost W (rHeader r ''Origin'') = Some (rHost r) \<Longrightarrow> sentByClient W allowed r"

text \<open>C18: a web page the user visits cannot drive the API, and the node's own clients can. A request to
  any host name with a letter in it that is neither localhost nor named by an entry of the operator's
  list (entries being host names with or without a port), in any letter case and with any port; a
  request the browser marks as cross-site; a request with an origin other than the host it is sent to,
  be that origin a name or an IP address; and a request whose origin is no URL: each is refused with
  403 before any handler runs, and changes nothing. A client's request, to localhost, 127.0.0.1 or a
  listed host, reaches the handler as it is.\<close>

theorem guard_stops_foreign_pages:
  "(sentByPage W allowed r \<longrightarrow> localAPIGuard W allowed handler r s = (httpError 403, s))
   \<and> (sentByClient W allowed r \<longrightarrow> localAPIGuard W allowed handler r s = handler r s)"
proof (intro conjI impI)
  assume "sentByPage W allowed r"
  then show "localAPIGuard W allowed handler r s = (httpError 403, s)"
  proof cases
    case (rebound page c)
    have "list_all nameChar page" using rebound(1) by cases
    from parseIP_letter [OF this rebound(2-4)] have "parseIP page = None" .
    moreover have "page \<notin> normalizeHost W ` set allowed"
      using rebound(6) normalizeHost_spells by (fastforce simp: list_all_iff)
    ultimately have "\<not> hostAllowed W (rHost r) allowed" using rebound(2,5) hostAllowed_spells [OF rebound(1)] by auto
    then show ?thesis by (simp add: localAPIGuard_def)
  qed (auto simp: localAPIGuard_def crossSite_def originAllowed_def equalFold_def)
next
  assume "sentByClient W allowed r"
  then show "localAPIGuard W allowed handler r s = handler r s"
  proof cases
    case (1 host)
    have "parseIP ''127.0.0.1'' \<noteq> None" by code_simp
    moreover have "host \<in> normalizeHost W ` set allowed" if "list_ex (spells host) allowed"
      using that normalizeHost_spells by (force simp: list_ex_iff)
    ultimately have "hostAllowed W (rHost r) allowed" using 1(2) hostAllowed_spells [OF 1(1)] by auto
    moreover have "originAllowed W r"
      using 1(4) normalizeHost_spells(2) [OF 1(1)] by (auto simp: originAllowed_def equalFold_def)
    ultimately show ?thesis using 1(3) by (simp add: localAPIGuard_def crossSite_def)
  qed
qed

theorem guard_stops_foreign_pages_witness:
  "localAPIGuard demoHttp [''Node.internal:8420''] (ClearCacheHandler demoLru)
     (demoRequest\<lparr>rMethod := ''DELETE'', rHost := ''Evil.example:8420''\<rparr>) [] = (httpError 403, [])
   \<and> localAPIGuard demoHttp [''Node.internal:8420''] (ClearCacheHandler demoLru)
     (demoRequest\<lparr>rMethod := ''DELETE'', rHost := ''node.INTERNAL''\<rparr>) [] = (reply 200 PNone, [])"
proof
  have n: "list_all nameChar ''node.internal''" "list_all nameChar ''evil.example''"
    by (simp_all add: nameChar_def alnumLower_def less_eq_char_def)
  have low: "map lowerChar ''Node.internal'' = ''node.internal''" "map lowerChar ''node.INTERNAL'' = ''node.internal''"
    "map lowerChar ''Evil.example'' = ''evil.example''" by code_simp+
  have d: "list_all isDigitC ''8420''" by code_simp
  have entry: "spells ''node.internal'' ''Node.internal:8420''" using port [OF n(1) low(1) d] by simp
  let ?bad = "demoRequest\<lparr>rMethod := ''DELETE'', rHost := ''Evil.example:8420''\<rparr>"
    and ?good = "demoRequest\<lparr>rMethod := ''DELETE'', rHost := ''node.INTERNAL''\<rparr>"
  have "spells ''evil.example'' (rHost ?bad)" using port [OF n(2) low(3) d] by simp
  then have "sentByPage demoHttp [''Node.internal:8420''] ?bad"
    by (rule rebound [of _ _ "CHR ''e''"]) (use entry in \<open>auto simp: less_eq_char_def\<close>)
  then show "localAPIGuard demoHttp [''Node.internal:8420''] (ClearCacheHandler demoLru) ?bad [] = (httpError 403, [])"
    by (rule guard_stops_foreign_pages [THEN conjunct1, THEN mp])
  have "spells ''node.internal'' (rHost ?good)" using bare [OF n(1) low(2)] by simp
  then have "sentByClient demoHttp [''Node.internal:8420''] ?good"
    by (rule sentByClient.intros) (use entry in \<open>simp_all add: demoRequest_def\<close>)
  then have "localAPIGuard demoHttp [''Node.internal:8420''] (ClearCacheHandler demoLru) ?good []
      = ClearCacheHandler demoLru ?good []" by (rule guard_stops_foreign_pages [THEN conjunct2, THEN mp])
  then show "localAPIGuard demoHttp [''Node.internal:8420''] (ClearCacheHandler demoLru) ?good [] = (reply 200 PNone, [])"
    by (simp add: ClearCacheHandler_def cacheClear_def demoLru_def)
qed

text \<open>C16: signing is for local clients only. If the authoring server tells a client anything or changes
  anything, the connection came from a loopback address, the request is addressed to localhost or a
  loopback address, carries no proxy header, and is neither cross-origin nor from another site. What
  changes is exactly the creation of the named key or the publication under the label in the path.\<close>

theorem authoring_local_only:
  assumes "authoringServer W L K F uni D now later r (dir, n, ps) = (resp, dir', n', ps')"
    and "rsPayload resp \<noteq> PError \<or> (dir', n', ps') \<noteq> (dir, n, ps)"
  shows "(\<exists>host port. SplitHostPort (rRemote r) = Some (host, port) \<and> loopbackHost host)
     \<and> (normalizeHost W (rHost r) = ''localhost'' \<or> loopbackHost (normalizeHost W (rHost r)))
     \<and> rHeader r ''Forwarded'' = [] \<and> rHeader r ''X-Forwarded-For'' = []
     \<and> rHeader r ''Sec-Fetch-Site'' \<notin> {''same-site'', ''cross-site''} \<and> originAllowed W r
     \<and> ((dir', n', ps') \<noteq> (dir, n, ps) \<longrightarrow> rMethod r = ''POST''
          \<and> ((\<exists>label. decodeAuthoringJSON (jsonLabel W) (rBody r) = Some label
                \<and> rPath r = ''/authoring/names'' \<and> dir' = snd (CreateName L K F label dir) \<and> n' = n \<and> ps' = ps)
             \<or> (\<exists>label recs. publishLabel (rPath r) = Inr label
                \<and> decodeAuthoringJSON (jsonRecords W) (rBody r) = Some recs
                \<and> dir' = dir \<and> (n', ps') = snd (Publish L K uni D dir now later label recs n ps))))"
proof -
  let ?names = "NamesHandler W L K F" and ?pub = "NamePublishHandler W L K uni D now later"
  from assms obtain h where h: "localAuthoringOnly W h r (dir, n, ps) = (resp, dir', n', ps')"
    and k: "h = ?names \<and> rPath r = ''/authoring/names'' \<or> h = ?pub" and o: "originAllowed W r"
    by (auto simp: authoringServer_def localAPIGuard_def httpError_def split: if_splits)
  have guard: "(\<exists>host port. SplitHostPort (rRemote r) = Some (host, port) \<and> loopbackHost host)
     \<and> (normalizeHost W (rHost r) = ''localhost'' \<or> loopbackHost (normalizeHost W (rHost r)))
     \<and> rHeader r ''Forwarded'' = [] \<and> rHeader r ''X-Forwarded-For'' = []
     \<and> rHeader r ''Sec-Fetch-Site'' \<notin> {''same-site'', ''cross-site''}"
    and run: "h r (dir, n, ps) = (resp, dir', n', ps')"
    using h assms(2)
    by (auto simp: localAuthoringOnly_def httpError_def Let_def split: option.splits prod.splits if_splits)
  have "rMethod r = ''POST''
          \<and> ((\<exists>label. decodeAuthoringJSON (jsonLabel W) (rBody r) = Some label
                \<and> rPath r = ''/authoring/names'' \<and> dir' = snd (CreateName L K F label dir) \<and> n' = n \<and> ps' = ps)
             \<or> (\<exists>label recs. publishLabel (rPath r) = Inr label
                \<and> decodeAuthoringJSON (jsonRecords W) (rBody r) = Some recs
                \<and> dir' = dir \<and> (n', ps') = snd (Publish L K uni D dir now later label recs n ps)))"
    if ch: "(dir', n', ps') \<noteq> (dir, n, ps)"
  proof (cases "h = ?pub")
    case True
    with run ch show ?thesis
      by (auto simp: NamePublishHandler_def Let_def split: if_splits sum.splits option.splits prod.splits)
  next
    case False
    with run ch k show ?thesis
      by (auto simp: NamesHandler_def Let_def split: if_splits sum.splits option.splits prod.splits)
  qed
  with guard o show ?thesis by blast
qed

theorem authoring_local_only_witness:
  "fst (authoringServer demoHttp demoLib demoOwner goodFile id (demoDHT 0) 0 0 demoRequest (demoDir, demoUp, []))
     = reply 200 (PNames (ListNames demoLib demoOwner demoDir))
   \<and> (\<exists>host port. SplitHostPort (rRemote demoRequest) = Some (host, port) \<and> loopbackHost host)"
proof -
  let ?ls = "reply 200 (PNames (ListNames demoLib demoOwner demoDir))"
  have s: "authoringServer demoHttp demoLib demoOwner goodFile id (demoDHT 0) 0 0 demoRequest (demoDir, demoUp, [])
      = (?ls, demoDir, demoUp, [])"
    by (simp add: authoringServer_def localAPIGuard_def hostAllowed_def demoRequest_def demo_hosts crossSite_def
        originAllowed_def localAuthoringOnly_def NamesHandler_def)
  have "rsPayload ?ls \<noteq> PError" by (simp add: reply_def)
  from authoring_local_only [OF s disjI1, OF this] s show ?thesis by simp
qed

text \<open>What publishing a verified record comes to.\<close>

lemma PublishRecord_outcome:
  assumes L: "recordLib_ok L" and dec: "\<And>val. recEncode L rec = Some val \<Longrightarrow> recDecode L val = Some rec"
    and v: "Verify L now rec = Inr ()" and up: "kadDHT n" and h: "PublishRecord L D rec n ps = (q, n', ps')"
  shows "case recEncode L rec of
      None \<Rightarrow> \<not> isOk q \<and> n' = n \<and> ps' = ps
    | Some val \<Rightarrow>
        (\<exists>i. PubKeyID (hashes L) (PubKey rec) = Inr i
           \<and> Validate L now (''/'' @ dhtNamespace @ ''/'' @ i) val = Inr ()
           \<and> ps' = ps @ [(''/'' @ dhtNamespace @ ''/'' @ i, val)]
           \<and> (case dhtPut D ps (''/'' @ dhtNamespace @ ''/'' @ i) val of
                Some _ \<Rightarrow> \<not> isOk q \<and> n' = n
              | None \<Rightarrow> isOk q \<and> kadDHT n' \<and> owned n' = AList.update (''/'' @ dhtNamespace @ ''/'' @ i) rec (owned n)))"
proof -
  have "hashlib_ok (hashes L)" using L by (simp add: recordLib_ok_def)
  from PubKeyID_ok [OF this, of "PubKey rec"] obtain i where i: "PubKeyID (hashes L) (PubKey rec) = Inr i" by blast
  let ?key = "''/'' @ dhtNamespace @ ''/'' @ i"
  have k: "recordDHTKey L rec = Inr ?key" by (simp add: recordDHTKey_def DHTKeyForPubKey_def i)
  show ?thesis
  proof (cases "recEncode L rec")
    case None
    with h k show ?thesis by (auto simp: PublishRecord_def)
  next
    case (Some val)
    have "splitKey L ?key = Some (dhtNamespace, i)"
      by (rule recordLib_ok_splitKey [OF L]) (simp_all add: dhtNamespace_def)
    with dec [OF Some] i v have "Validate L now ?key val = Inr ()"
      by (simp only: Validate_def option.case prod.case sum.case simp_thms if_False)
    moreover have "ps' = ps @ [(?key, val)] \<and> (case dhtPut D ps ?key val of
          Some _ \<Rightarrow> \<not> isOk q \<and> n' = n
        | None \<Rightarrow> isOk q \<and> kadDHT n' \<and> owned n' = AList.update ?key rec (owned n))"
      using h k Some up
      by (cases "dhtPut D ps ?key val") (auto simp: PublishRecord_def PutValue_def simp del: append.simps)
    ultimately show ?thesis using i Some by auto
  qed
qed

text \<open>C32: what a publish request does, request by request. Without a DHT the answer is 500, to a method
  other than POST 405, to a body that cannot be read 400, to a body over a mebibyte 413, and to a body
  that is no record or whose signature, expiry or contents do not verify 400; none of these puts
  anything or changes the node. A record that verifies but has no encoding gets 500, again with no
  effect. Any other is handed to the DHT exactly once, its own encoding under the key of its own public
  key, a value every peer's validator accepts; if the DHT reports that it failed (it may have reached
  some peers all the same) the answer is 500 and the node is as before, else it is 200 with the full
  name and the node also republishes the record from then on. So nothing but a verified record is ever
  put, acknowledged or kept.\<close>

theorem http_publish_verified:
  assumes L: "recordLib_ok L" and dec: "\<And>rec val. recEncode L rec = Some val \<Longrightarrow> recDecode L val = Some rec"
    and h: "PublishHandler L D now r (n, ps) = (resp, n', ps')"
  shows "(\<not> kadDHT n \<longrightarrow> (resp, n', ps') = (httpError 500, n, ps))
     \<and> (kadDHT n \<and> rMethod r \<noteq> ''POST'' \<longrightarrow> (resp, n', ps') = (httpError 405, n, ps))
     \<and> (kadDHT n \<and> rMethod r = ''POST'' \<and> length (srcData (rBody r)) \<le> 2 ^ 20 \<and> srcFails (rBody r)
          \<longrightarrow> (resp, n', ps') = (httpError 400, n, ps))
     \<and> (kadDHT n \<and> rMethod r = ''POST'' \<and> 2 ^ 20 < length (srcData (rBody r))
          \<longrightarrow> (resp, n', ps') = (httpError 413, n, ps))
     \<and> (kadDHT n \<and> rMethod r = ''POST'' \<and> length (srcData (rBody r)) \<le> 2 ^ 20 \<and> \<not> srcFails (rBody r)
          \<longrightarrow> (case recDecode L (srcData (rBody r)) of
                None \<Rightarrow> (resp, n', ps') = (httpError 400, n, ps)
              | Some rec \<Rightarrow>
                  if Verify L now rec \<noteq> Inr () then (resp, n', ps') = (httpError 400, n, ps)
                  else case recEncode L rec of
                    None \<Rightarrow> (resp, n', ps') = (httpError 500, n, ps)
                  | Some val \<Rightarrow>
                      (\<exists>i. PubKeyID (hashes L) (PubKey rec) = Inr i
                         \<and> Validate L now (''/'' @ dhtNamespace @ ''/'' @ i) val = Inr ()
                         \<and> ps' = ps @ [(''/'' @ dhtNamespace @ ''/'' @ i, val)]
                         \<and> (case dhtPut D ps (''/'' @ dhtNamespace @ ''/'' @ i) val of
                              Some _ \<Rightarrow> resp = httpError 500 \<and> n' = n
                            | None \<Rightarrow> rsStatus resp = 200
                                \<and> (\<forall>name. fullName (hashes L) (Label rec) (PubKey rec) = Inr name
                                     \<longrightarrow> rsPayload resp = PPublished name)
                                \<and> kadDHT n'
                                \<and> owned n' = AList.update (''/'' @ dhtNamespace @ ''/'' @ i) rec (owned n)))))"
    (is "_ \<and> _ \<and> _ \<and> _ \<and> (_ \<longrightarrow> ?rest)")
proof -
  have rest: ?rest
    if up: "kadDHT n" and m: "rMethod r = ''POST''" and len: "length (srcData (rBody r)) \<le> 2 ^ 20" "\<not> srcFails (rBody r)"
  proof (cases "recDecode L (srcData (rBody r))")
    case None
    with h up m len show ?thesis by (simp add: PublishHandler_def IsInitialized_def readLimited_def maxPublishBody_def)
  next
    case (Some rec)
    obtain q n1 ps1 where q: "PublishRecord L D rec n ps = (q, n1, ps1)" by (metis prod_cases3)
    have p: "(resp, n', ps') =
        (case Verify L now rec of
           Inl _ \<Rightarrow> (httpError 400, n, ps)
         | Inr _ \<Rightarrow>
             (case q of
                Inl _ \<Rightarrow> (httpError 500, n1, ps1)
              | Inr _ \<Rightarrow>
                  (reply 200 (PPublished
                     (case fullName (hashes L) (Label rec) (PubKey rec) of Inl _ \<Rightarrow> [] | Inr nm \<Rightarrow> nm)), n1, ps1)))"
      unfolding h [symmetric] using up m len Some q
      by (cases q; cases "Verify L now rec")
        (simp_all add: PublishHandler_def IsInitialized_def readLimited_def maxPublishBody_def)
    show ?thesis
    proof (cases "Verify L now rec")
      case (Inl e)
      with p Some show ?thesis by simp
    next
      case (Inr u)
      then have v: "Verify L now rec = Inr ()" by simp
      from p v have resp: "n' = n1" "ps' = ps1" "\<not> isOk q \<Longrightarrow> resp = httpError 500"
        "isOk q \<Longrightarrow> resp = reply 200 (PPublished
           (case fullName (hashes L) (Label rec) (PubKey rec) of Inl _ \<Rightarrow> [] | Inr nm \<Rightarrow> nm))"
        by (cases q; simp)+
      from PublishRecord_outcome [OF L dec v up q] show ?thesis
        using resp v Some by (auto simp: reply_def simp del: append.simps split: option.splits)
    qed
  qed
  have "kadDHT n \<Longrightarrow> rMethod r = ''POST'' \<Longrightarrow> length (srcData (rBody r)) \<le> 2 ^ 20 \<Longrightarrow> srcFails (rBody r)
      \<Longrightarrow> (resp, n', ps') = (httpError 400, n, ps)"
    and "kadDHT n \<Longrightarrow> rMethod r = ''POST'' \<Longrightarrow> 2 ^ 20 < length (srcData (rBody r))
      \<Longrightarrow> (resp, n', ps') = (httpError 413, n, ps)"
    and "kadDHT n \<Longrightarrow> rMethod r \<noteq> ''POST'' \<Longrightarrow> (resp, n', ps') = (httpError 405, n, ps)"
    and "\<not> kadDHT n \<Longrightarrow> (resp, n', ps') = (httpError 500, n, ps)"
    using h by (simp_all add: PublishHandler_def IsInitialized_def readLimited_def maxPublishBody_def)
  with rest show ?thesis by blast
qed

theorem http_publish_verified_witness:
  "\<exists>key val ps. PublishHandler demoLib (demoDHT 2000) 2000
       (demoRequest\<lparr>rMethod := ''POST'', rBody := \<lparr>srcData = [1], srcFails = False\<rparr>\<rparr>) (demoUp, [])
     = (reply 200 (PPublished (case fullName demoHashlib ''mysite'' [1, 9] of Inl _ \<Rightarrow> [] | Inr nm \<Rightarrow> nm)),
        demoUp\<lparr>owned := [(key, demoRec 1)]\<rparr>, [(key, val)]) \<and> Validate demoLib 2000 key val = Inr ()"
proof -
  let ?r = "demoRequest\<lparr>rMethod := ''POST'', rBody := \<lparr>srcData = [1], srcFails = False\<rparr>\<rparr>"
  have H: "hashes demoLib = demoHashlib" by (simp add: demoLib_def)
  obtain key where k: "recordDHTKey demoLib (demoRec 1) = Inr key" using demo_key by blast
  have f: "Label (demoRec 1) = ''mysite''" "PubKey (demoRec 1) = [1, 9]" by (simp_all add: demoRec_def Let_def)
  have e: "recEncode demoLib (demoRec 1) = Some [1]" by (simp add: demoLib_def)
  have v: "Verify demoLib 2000 (demoRec 1) = Inr ()" by (rule demo_verifies) simp
  have h: "PublishHandler demoLib (demoDHT 2000) 2000 ?r (demoUp, [])
     = (reply 200 (PPublished (case fullName demoHashlib ''mysite'' [1, 9] of Inl _ \<Rightarrow> [] | Inr nm \<Rightarrow> nm)),
        demoUp\<lparr>owned := [(key, demoRec 1)]\<rparr>, [(key, [1])])"
    by (simp add: PublishHandler_def IsInitialized_def demoUp_def readLimited_def maxPublishBody_def demo_decode v
        PublishRecord_def k e PutValue_def demoDHT_def demoPutNet_def f H)
  have dec: "recDecode demoLib val = Some rec" if "recEncode demoLib rec = Some val" for rec val
    using that by (auto simp: demoLib_def split: if_splits)
  from http_publish_verified [OF demoLib_ok dec h] have "Validate demoLib 2000 key [1] = Inr ()"
    by (auto simp: demo_decode v e demoUp_def simp del: append.simps)
  with h show ?thesis by blast
qed

end
