(* ===== verification/ConfigProps.thy ===== *)
theory ConfigProps
  imports Config HttpProps
begin

text \<open>
  What the configuration promises: sizes mean what they say, every setting is within its type
  whatever the environment holds, the bind flag keeps the port, and a node nobody configured listens
  and forwards locally only.
\<close>

section \<open>What is relied on\<close>

text \<open>A parsed float is one the format can represent, and scaling by a power of two keeps that until
  the range ends.\<close>

definition confLib_ok :: "confLib \<Rightarrow> bool" where
  "confLib_ok C \<longleftrightarrow>
     (\<forall>s q. ParseFloat C s = Some (Fin q) \<longrightarrow> roundF64 C q = Fin q)
     \<and> (\<forall>q k. roundF64 C q = Fin q \<longrightarrow> \<bar>q * 2 ^ k\<bar> < 2 ^ 1000 \<longrightarrow> roundF64 C (q * 2 ^ k) = Fin (q * 2 ^ k))"

text \<open>\<open>TrimSpace\<close> keeps part of its argument and leaves nothing more to trim.\<close>

definition trims :: "httpLib \<Rightarrow> bool" where
  "trims W \<longleftrightarrow> (\<forall>s. set (trimSpace W s) \<subseteq> set s \<and> trimSpace W (trimSpace W s) = trimSpace W s)"

section \<open>Sizes\<close>

definition numeric :: "string \<Rightarrow> bool" where
  "numeric s \<longleftrightarrow> s \<noteq> [] \<and> list_all (\<lambda>c. isDigit c \<or> c = CHR ''.'') s"

lemma numeric_char:
  "isDigit c \<or> c = CHR ''.'' \<Longrightarrow> of_char c < (128 :: nat) \<and> \<not> isSpaceC c \<and> upperChar c = c \<and> c \<notin> set ''KMGTIB''"
  by (auto simp: isDigit_def isSpaceC_def upperChar_def less_eq_char_def)

lemma trimBoth_core:
  assumes "list_all P pre" "list_all P post" "core \<noteq> []" "\<not> P (hd core)" "\<not> P (last core)"
  shows "trimBoth P (pre @ core @ post) = core"
proof -
  have "dropWhile P (pre @ core @ post) = core @ post"
    using assms(1,3,4) by (cases core) (simp_all add: dropWhile_append2 list_all_iff)
  moreover have "dropWhile P (rev post @ rev core) = rev core"
    using assms(2,3,5) dropWhile_append2 [of "rev post" P "rev core"]
    by (cases core rule: rev_cases) (auto simp: list_all_iff)
  ultimately show ?thesis by (simp add: trimBoth_def)
qed

definition unitPower :: "(string \<times> nat) list" where
  "unitPower = [([], 0), (''K'', 10), (''M'', 20), (''G'', 30), (''T'', 40)]"

lemma hasSuffix_last: "hasSuffix s suf \<Longrightarrow> suf \<noteq> [] \<Longrightarrow> s \<noteq> [] \<and> last s = last suf"
  by (auto simp: hasSuffix_iff)

lemma trimSuffix_none: "\<not> hasSuffix s suf \<Longrightarrow> trimSuffix s suf = s"
  by (simp add: trimSuffix_def)

lemma strip_byte_unit:
  assumes y: "y \<noteq> []" "last y \<noteq> CHR ''I''" "last y \<noteq> CHR ''B''" and x: "x \<in> {[], ''B'', ''IB''}"
  shows "trimSuffix (trimSuffix (y @ x) ''IB'') ''B'' = y"
proof -
  have noB: "\<not> hasSuffix y ''B''" "\<not> hasSuffix y ''IB''" using y hasSuffix_last [of y] by fastforce+
  have "\<not> hasSuffix (y @ ''B'') ''IB''"
  proof
    assume "hasSuffix (y @ ''B'') ''IB''"
    then obtain p where "y @ ''B'' = (p @ ''I'') @ ''B''" by (auto simp: hasSuffix_iff)
    then have "y = p @ ''I''" by (simp only: append_same_eq)
    with y(2) show False by simp
  qed
  with x noB show ?thesis by (auto simp: trimSuffix_none simp del: append.simps)
qed

lemma unit_chain:
  assumes "(u, k) \<in> set unitPower" "num \<noteq> []" "last num \<notin> set ''KMGT''"
  shows "(if hasSuffix (num @ u) ''K'' then (2 ^ 10, take (length (num @ u) - 1) (num @ u))
     else if hasSuffix (num @ u) ''M'' then (2 ^ 20, take (length (num @ u) - 1) (num @ u))
     else if hasSuffix (num @ u) ''G'' then (2 ^ 30, take (length (num @ u) - 1) (num @ u))
     else if hasSuffix (num @ u) ''T'' then (2 ^ 40, take (length (num @ u) - 1) (num @ u))
     else (1, num @ u)) = (2 ^ k, num)"
  using assms by (auto simp: unitPower_def hasSuffix_single)

lemma map_upper_numeric: "numeric num \<Longrightarrow> map upperChar num = num"
  using numeric_char by (auto simp: numeric_def list_all_iff intro: map_idI)

lemma numeric_ends: "numeric num \<Longrightarrow> c \<in> set num \<Longrightarrow> \<not> isSpaceC c \<and> c \<notin> set ''KMGTIB'' \<and> of_char c < (128 :: nat)"
  using numeric_char by (auto simp: numeric_def list_all_iff)

text \<open>A size means what it says. A decimal number with an optional unit K, M, G or T, an optional
  B or iB after it, in either case and with white space around it, is read as the number times the
  power of 1024, rounded down, as long as that fits.\<close>

theorem parse_size_exact:
  assumes C: "confLib_ok C" and sp: "list_all isSpaceC pre" "list_all isSpaceC post"
    and num: "numeric num" and suf: "isASCII suffix" "list_all (\<lambda>c. \<not> isSpaceC c) suffix"
    and unit: "map upperChar suffix = u @ x" "(u, k) \<in> set unitPower" "x \<in> {[], ''B'', ''IB''}"
    and f: "ParseFloat C num = Some (Fin q)" "0 \<le> q" "q * 2 ^ k < 2 ^ 63"
  shows "parseSize C (pre @ num @ suffix @ post) = Some \<lfloor>q * 2 ^ k\<rfloor>"
proof -
  have spa: "of_char c < (128 :: nat)" if "isSpaceC c" for c using that by (auto simp: isSpaceC_def)
  have ascii: "isASCII (pre @ num @ suffix @ post)" "isASCII (num @ suffix)"
    using sp suf numeric_ends [OF num] spa by (auto simp: isASCII_def list_all_iff)
  have ne: "num \<noteq> []" using num by (simp add: numeric_def)
  have "\<not> isSpaceC (last (num @ suffix))" using suf(2) numeric_ends [OF num] ne
    by (cases "suffix = []") (auto simp: list_all_iff)
  with sp ne numeric_ends [OF num] have core: "trimSpace (confHttp C) (pre @ num @ suffix @ post) = num @ suffix"
    using trimBoth_core [of isSpaceC pre post "num @ suffix"] ascii(1) by (simp add: trimSpace_def)
  have up: "toUpper C (num @ suffix) = (num @ u) @ x"
    using ascii(2) map_upper_numeric [OF num] unit(1) by (simp add: toUpper_def)
  have "last (num @ u) \<notin> set ''IB''"
    using unit(2) numeric_ends [OF num] ne by (auto simp: unitPower_def)
  with ne unit(3) have strip: "trimSuffix (trimSuffix ((num @ u) @ x) ''IB'') ''B'' = num @ u"
    by (intro strip_byte_unit) auto
  have chain: "last num \<notin> set ''KMGT''" using numeric_ends [OF num] ne by auto
  have fin: "roundF64 C (q * 2 ^ k) = Fin (q * 2 ^ k)"
  proof -
    have "\<bar>q * 2 ^ k\<bar> < 2 ^ 1000"
      using f(2,3) order.strict_trans [of "q * 2 ^ k" "2 ^ 63" "2 ^ 1000"] by simp
    with C f(1) show ?thesis by (simp add: confLib_ok_def)
  qed
  have "parseSize C (pre @ num @ suffix @ post)
      = (case (2 ^ k, num) of (m, n) \<Rightarrow>
           (case ParseFloat C n of None \<Rightarrow> None
            | Some f \<Rightarrow> if f64Negative f then None else Some (f64Int C (f64Times C f m))))"
    unfolding parseSize_def Let_def core up strip unit_chain [OF unit(2) ne chain] ..
  also have "\<dots> = Some (f64Int C (Fin (q * 2 ^ k)))"
    using f fin by (simp add: f64Negative_def f64Times_def)
  also have "f64Int C (Fin (q * 2 ^ k)) = \<lfloor>q * 2 ^ k\<rfloor>"
  proof -
    have "0 \<le> q * 2 ^ k" using f(2) by simp
    then have "truncRat (q * 2 ^ k) = \<lfloor>q * 2 ^ k\<rfloor>" "0 \<le> \<lfloor>q * 2 ^ k\<rfloor>" by (simp_all add: truncRat_def)
    moreover have "\<lfloor>q * 2 ^ k\<rfloor> < 2 ^ 63" using f(3) by (simp add: floor_less_iff)
    ultimately show ?thesis by (simp add: f64Int_def)
  qed
  finally show ?thesis .
qed

section \<open>The host and the port of an address\<close>

lemma SplitHostPort_join:
  assumes "CHR ''['' \<notin> set h" "CHR '']'' \<notin> set h" and "set port \<inter> set '':[]'' = {}"
  shows "SplitHostPort (JoinHostPort h port) = Some (h, port)"
proof (cases "CHR '':'' \<in> set h")
  case False
  have idx: "lastIndex CHR '':'' (h @ CHR '':'' # port) = Some (length h)"
    using assms(3) by (intro lastIndex_append) auto
  have "h @ CHR '':'' # port \<noteq> []" by simp
  then have "hd (h @ CHR '':'' # port) \<noteq> CHR ''[''" using assms(1) by (cases h) auto
  with idx False assms show ?thesis by (auto simp: SplitHostPort_def JoinHostPort_def)
next
  case True
  have idx: "lastIndex CHR '':'' ((CHR ''['' # h @ '']'') @ CHR '':'' # port) = Some (length h + 2)"
    using assms(3) by (subst lastIndex_append) auto
  have tw: "takeWhile (\<lambda>c. c \<noteq> CHR '']'') (CHR ''['' # h @ CHR '']'' # CHR '':'' # port) = CHR ''['' # h"
    using assms(2) takeWhile_upto [of "CHR '']''" "CHR ''['' # h" "CHR '':'' # port"] by simp
  from True idx tw assms show ?thesis by (auto simp: SplitHostPort_def JoinHostPort_def Let_def)
qed

lemma SplitHostPort_port:
  assumes "SplitHostPort s = Some (h, port)"
  shows "set port \<inter> set '':[]'' = {}"
proof -
  from assms obtain i where i: "lastIndex CHR '':'' s = Some i" by (auto simp: SplitHostPort_def split: option.splits)
  have colon: "CHR '':'' \<notin> set (drop (i + 1) s)"
  proof -
    from i obtain a b where s: "s = a @ CHR '':'' # b" "CHR '':'' \<notin> set b"
      by (auto simp: lastIndex_def split: if_splits dest!: split_list_last)
    with i lastIndex_append [OF s(2)] show ?thesis by simp
  qed
  show ?thesis
  proof (cases "hd s = CHR ''[''")
    case False
    with assms i have "port = drop (i + 1) s" "CHR ''['' \<notin> set s" "CHR '']'' \<notin> set s"
      by (auto simp: SplitHostPort_def split: if_splits)
    with colon show ?thesis by (auto dest: in_set_dropD)
  next
    case True
    define e where "e = length (takeWhile (\<lambda>c. c \<noteq> CHR '']'') s)"
    from assms i True have p: "port = drop (i + 1) s" "e + 1 = i" "CHR ''['' \<notin> set (drop 1 s)" "CHR '']'' \<notin> set (drop (e + 1) s)"
      by (auto simp: SplitHostPort_def Let_def e_def split: if_splits)
    have "set port \<subseteq> set (drop 1 s)" "set port \<subseteq> set (drop (e + 1) s)"
      using p(1,2) by (auto intro!: set_drop_subset_set_drop)
    with p(3,4) colon p(1) show ?thesis by auto
  qed
qed

text \<open>Flags that leave the API's address alone, with their values.\<close>

definition otherFlags :: "(string \<times> string) list \<Rightarrow> bool" where
  "otherFlags ps \<longleftrightarrow> (\<forall>(f, v) \<in> set ps. f \<in> {''--authoring-addr'', ''--content-dir'', ''--dns-addr''})"

definition flatFlags :: "(string \<times> string) list \<Rightarrow> string list" where
  "flatFlags ps = concat (map (\<lambda>(f, v). [f, v]) ps)"

lemma flags_skip:
  "otherFlags ps \<Longrightarrow>
     \<exists>cfg'. applyNodeFlags cfg (flatFlags ps @ rest) = applyNodeFlags cfg' rest \<and> HTTPAddr cfg' = HTTPAddr cfg"
proof (induction ps arbitrary: cfg)
  case (Cons p ps)
  obtain f v where p: "p = (f, v)" by fastforce
  with Cons.prems have f: "f \<in> {''--authoring-addr'', ''--content-dir'', ''--dns-addr''}" and ps: "otherFlags ps"
    by (auto simp: otherFlags_def)
  have "\<exists>c. applyNodeFlags cfg (flatFlags (p # ps) @ rest) = applyNodeFlags c (flatFlags ps @ rest)
      \<and> HTTPAddr c = HTTPAddr cfg"
  proof -
    from f consider "f = ''--authoring-addr''" | "f = ''--content-dir''" | "f = ''--dns-addr''" by blast
    then show ?thesis
    proof cases
      case 1
      then show ?thesis by (intro exI [of _ "cfg\<lparr>AuthoringAddr := v\<rparr>"]) (simp add: flatFlags_def p)
    next
      case 2
      then show ?thesis by (intro exI [of _ "cfg\<lparr>ContentDir := v\<rparr>"]) (simp add: flatFlags_def p)
    next
      case 3
      then show ?thesis by (intro exI [of _ "cfg\<lparr>DNSAddr := v\<rparr>"]) (simp add: flatFlags_def p)
    qed
  qed
  then obtain c where "applyNodeFlags cfg (flatFlags (p # ps) @ rest) = applyNodeFlags c (flatFlags ps @ rest)"
      "HTTPAddr c = HTTPAddr cfg" by blast
  with Cons.IH [OF ps, of c] show ?case by metis
qed (auto simp: flatFlags_def)

text \<open>The bind flag changes the host of the API's address and keeps its port, for host names, IPv4
  and IPv6 addresses alike, whatever other flags stand before and after it.\<close>

theorem api_bind_keeps_port:
  assumes addr: "SplitHostPort (HTTPAddr cfg) = Some (h, port)"
    and val: "CHR ''['' \<notin> set val" "CHR '']'' \<notin> set val" and ps: "otherFlags before" "otherFlags after"
  shows "SplitHostPort (HTTPAddr (applyNodeFlags cfg (flatFlags before @ [''--api-bind'', val] @ flatFlags after)))
     = Some (val, port)"
proof -
  obtain c where c: "applyNodeFlags cfg (flatFlags before @ [''--api-bind'', val] @ flatFlags after)
      = applyNodeFlags c ([''--api-bind'', val] @ flatFlags after)" "HTTPAddr c = HTTPAddr cfg"
    using flags_skip [OF ps(1)] by metis
  have "bindHost (HTTPAddr c) val = JoinHostPort val port" using addr c(2) by (simp add: bindHost_def)
  moreover obtain c' where "applyNodeFlags (c\<lparr>HTTPAddr := bindHost (HTTPAddr c) val\<rparr>) (flatFlags after @ [])
      = applyNodeFlags c' []" "HTTPAddr c' = bindHost (HTTPAddr c) val"
    using flags_skip [OF ps(2), of "c\<lparr>HTTPAddr := bindHost (HTTPAddr c) val\<rparr>" "[]"] by auto
  ultimately have "HTTPAddr (applyNodeFlags c ([''--api-bind'', val] @ flatFlags after)) = JoinHostPort val port"
    by simp
  with c(1) SplitHostPort_join [OF val SplitHostPort_port [OF addr]] show ?thesis by simp
qed

section \<open>A concrete environment\<close>

text \<open>Nothing is set but the hosting budget; its float parser knows one number.\<close>

definition demoConf :: confLib where
  "demoConf =
     \<lparr>getenv = (\<lambda>k. if k = ''FREEDOM_CONTENT_HOST_BUDGET'' then ''1.5 GiB'' else []), homeDir = Some ''/home/u'',
      confHttp = demoHttp, uniUpper = id, ParseFloat = (\<lambda>s. if s = ''1.5'' then Some (Fin (3 / 2)) else None),
      roundF64 = Fin, convertOut = (\<lambda>f. 0), ParseDuration = (\<lambda>s. None)\<rparr>"

lemma demoConf_ok: "confLib_ok demoConf"
  by (simp add: confLib_ok_def demoConf_def)

theorem parse_size_exact_witness: "parseSize demoConf '' 1.5GiB '' = Some 1610612736"
proof -
  have f: "ParseFloat demoConf ''1.5'' = Some (Fin (3 / 2))" by (simp add: demoConf_def)
  have "parseSize demoConf ('' '' @ ''1.5'' @ ''GiB'' @ '' '') = Some \<lfloor>(3 / 2 :: rat) * 2 ^ 30\<rfloor>"
  proof (rule parse_size_exact [OF demoConf_ok _ _ _ _ _ _ _ _ f])
    show "map upperChar ''GiB'' = ''G'' @ ''IB''" by code_simp
    show "(''G'', 30) \<in> set unitPower" by (simp add: unitPower_def)
  qed (simp_all add: numeric_def isDigit_def less_eq_char_def isSpaceC_def isASCII_def)
  moreover have "\<lfloor>(3 / 2 :: rat) * 2 ^ 30\<rfloor> = 1610612736" by simp
  ultimately show ?thesis by simp
qed

definition demoConfig :: config where
  "demoConfig = LoadConfigForRole demoConf False"

lemma demoConfig_http: "HTTPAddr demoConfig = ''127.0.0.1:8420''"
  by (simp add: demoConfig_def LoadConfigForRole_def envOr_def demoConf_def defaultHTTPAddr_def Let_def)

theorem api_bind_keeps_port_witness:
  "SplitHostPort (HTTPAddr (applyNodeFlags demoConfig [''--api-bind'', ''::1''])) = Some (''::1'', ''8420'')"
proof -
  have s: "SplitHostPort (HTTPAddr demoConfig) = Some (''127.0.0.1'', ''8420'')"
    unfolding demoConfig_http by code_simp
  have "otherFlags []" "flatFlags [] = []" by (simp_all add: otherFlags_def flatFlags_def)
  with api_bind_keeps_port [OF s, of "''::1''" "[]" "[]"] show ?thesis by simp
qed

section \<open>Every setting is well-formed\<close>

definition listEntry :: "httpLib \<Rightarrow> string \<Rightarrow> bool" where
  "listEntry W p \<longleftrightarrow> p \<noteq> [] \<and> CHR '','' \<notin> set p \<and> trimSpace W p = p"

lemma splitAndTrim_entries: "trims W \<Longrightarrow> p \<in> set (splitAndTrim W s) \<Longrightarrow> listEntry W p"
  by (auto simp: splitAndTrim_def listEntry_def trims_def dest: splitOn_no_sep)

lemma builtin_entries:
  "list_all (\<lambda>p. p \<noteq> [] \<and> CHR '','' \<notin> set p \<and> isASCII p \<and> trimBoth isSpaceC p = p)
     (defaultBootstrapPeers @ bchMainnetElectrum @ bchChipnetElectrum @ bchTestnet4Electrum @ bchTestnet3Electrum)"
  by code_simp

lemma builtin_listEntry:
  "p \<in> set defaultBootstrapPeers \<union> set (defaultBCHElectrumServers network) \<Longrightarrow> listEntry W p"
proof -
  assume "p \<in> set defaultBootstrapPeers \<union> set (defaultBCHElectrumServers network)"
  then have "p \<in> set (defaultBootstrapPeers @ bchMainnetElectrum @ bchChipnetElectrum @ bchTestnet4Electrum @ bchTestnet3Electrum)"
    by (auto simp: defaultBCHElectrumServers_def split: if_splits)
  with builtin_entries have "p \<noteq> [] \<and> CHR '','' \<notin> set p \<and> isASCII p \<and> trimBoth isSpaceC p = p"
    unfolding list_all_iff by (rule bspec)
  then show ?thesis by (simp add: listEntry_def trimSpace_def)
qed

lemma ParseInt64_range: "ParseInt64 s = Some n \<Longrightarrow> int64 n = n"
  by (auto simp: ParseInt64_def Let_def int64_id split: if_splits)

lemma f64Int_int64: "int64 (f64Int C f) = f64Int C f"
  by (auto simp: f64Int_def int64_def split: float64.splits)

lemma parseSize_int64: "parseSize C s = Some n \<Longrightarrow> int64 n = n"
  by (auto simp: parseSize_def Let_def f64Int_int64 split: prod.splits option.splits if_splits)

lemma envSize_int64: "int64 fallback = fallback \<Longrightarrow> int64 (envSize C key fallback) = envSize C key fallback"
  by (auto simp: envSize_def Let_def parseSize_int64 split: option.splits)

lemma envInt_range:
  "0 \<le> fallback \<Longrightarrow> int64 fallback = fallback \<Longrightarrow>
     0 \<le> envInt C key fallback \<and> int64 (envInt C key fallback) = envInt C key fallback"
  by (auto simp: envInt_def Let_def ParseInt64_range split: option.splits)

lemma envDuration_range:
  assumes "\<forall>s d. ParseDuration C s = Some d \<longrightarrow> int64 d = d" "0 \<le> fallback" "int64 fallback = fallback"
  shows "int64 (envDuration C key fallback) = envDuration C key fallback
     \<and> (\<not> hasSuffix (getenv C key) ''d'' \<longrightarrow> 0 \<le> envDuration C key fallback)"
  using assms by (auto simp: envDuration_def Let_def f64Int_int64 split: option.splits)

lemma minConf_range: "1 \<le> minConfOf v \<and> int64 (minConfOf v) = minConfOf v"
  by (auto simp: minConfOf_def ParseInt64_range int64_id split: option.splits)

lemma envOr_nonempty: "fallback \<noteq> [] \<Longrightarrow> envOr C key fallback \<noteq> []"
  by (simp add: envOr_def Let_def)

text \<open>C35: whatever the environment holds, every setting is a value of its kind: all numbers fit 64
  bits, the replica count is not negative, a claim needs at least one confirmation, a duration is
  negative only if it was written in days, every listen address is nonempty, and every entry of the
  peer, server and host lists is nonempty, trimmed and free of separators.\<close>

theorem config_well_formed:
  assumes W: "trims (confHttp C)" and D: "\<forall>s d. ParseDuration C s = Some d \<longrightarrow> int64 d = d"
    and cfg: "cfg = LoadConfigForRole C bootstrap"
  shows "(\<forall>n \<in> {ContentReplicas cfg, BCHMinConf cfg, ContentHostBudget cfg, ContentHostTTL cfg, ContentHealInterval cfg,
        ContentUpRate cfg, ContentDownRate cfg, ContentMaxPushSize cfg}. - (2 ^ 63) \<le> n \<and> n < 2 ^ 63)
     \<and> 0 \<le> ContentReplicas cfg \<and> 1 \<le> BCHMinConf cfg
     \<and> (ContentHostTTL cfg < 0 \<longrightarrow> hasSuffix (getenv C ''FREEDOM_CONTENT_HOST_TTL'') ''d'')
     \<and> (ContentHealInterval cfg < 0 \<longrightarrow> hasSuffix (getenv C ''FREEDOM_CONTENT_HEAL_INTERVAL'') ''d'')
     \<and> HTTPAddr cfg \<noteq> [] \<and> AuthoringAddr cfg \<noteq> [] \<and> DNSAddr cfg \<noteq> [] \<and> UpstreamDNS cfg \<noteq> []
     \<and> (\<forall>p \<in> set (BootstrapPeers cfg) \<union> set (BCHElectrum cfg) \<union> set (HTTPAllowedHosts cfg). listEntry (confHttp C) p)"
proof (intro conjI)
  have int64_of: "- (2 ^ 63) \<le> n \<and> n < 2 ^ 63" if "int64 n = n" for n using int64_range [of n] that by simp
  have const: "int64 3 = 3" "int64 (20 * 2 ^ 30) = 20 * 2 ^ 30" "int64 (30 * 24 * hourNs) = 30 * 24 * hourNs" "int64 hourNs = hourNs"
      "int64 0 = 0" "int64 (int MaxContentSize) = int MaxContentSize" "0 \<le> hourNs"
    by (simp_all add: int64_id hourNs_def MaxContentSize_def)
  have reps: "0 \<le> ContentReplicas cfg \<and> int64 (ContentReplicas cfg) = ContentReplicas cfg"
    using envInt_range [of 3 C] const by (simp add: cfg LoadConfigForRole_def Let_def)
  have conf: "1 \<le> BCHMinConf cfg \<and> int64 (BCHMinConf cfg) = BCHMinConf cfg"
    using minConf_range by (simp add: cfg LoadConfigForRole_def Let_def)
  have ttl: "int64 (ContentHostTTL cfg) = ContentHostTTL cfg
      \<and> (\<not> hasSuffix (getenv C ''FREEDOM_CONTENT_HOST_TTL'') ''d'' \<longrightarrow> 0 \<le> ContentHostTTL cfg)"
    using envDuration_range [OF D, of "30 * 24 * hourNs"] const by (simp add: cfg LoadConfigForRole_def Let_def)
  have healing: "int64 (ContentHealInterval cfg) = ContentHealInterval cfg
      \<and> (\<not> hasSuffix (getenv C ''FREEDOM_CONTENT_HEAL_INTERVAL'') ''d'' \<longrightarrow> 0 \<le> ContentHealInterval cfg)"
    using envDuration_range [OF D, of hourNs] const by (simp add: cfg LoadConfigForRole_def Let_def)
  have sizes: "int64 (ContentHostBudget cfg) = ContentHostBudget cfg" "int64 (ContentUpRate cfg) = ContentUpRate cfg"
      "int64 (ContentDownRate cfg) = ContentDownRate cfg" "int64 (ContentMaxPushSize cfg) = ContentMaxPushSize cfg"
    using envSize_int64 const by (simp_all add: cfg LoadConfigForRole_def Let_def)
  show "\<forall>n \<in> {ContentReplicas cfg, BCHMinConf cfg, ContentHostBudget cfg, ContentHostTTL cfg, ContentHealInterval cfg,
        ContentUpRate cfg, ContentDownRate cfg, ContentMaxPushSize cfg}. - (2 ^ 63) \<le> n \<and> n < 2 ^ 63"
    using int64_of reps conf ttl healing sizes by blast
  show "0 \<le> ContentReplicas cfg" "1 \<le> BCHMinConf cfg" using reps conf by blast+
  show "ContentHostTTL cfg < 0 \<longrightarrow> hasSuffix (getenv C ''FREEDOM_CONTENT_HOST_TTL'') ''d''"
    "ContentHealInterval cfg < 0 \<longrightarrow> hasSuffix (getenv C ''FREEDOM_CONTENT_HEAL_INTERVAL'') ''d''"
    using ttl healing by fastforce+
  show "HTTPAddr cfg \<noteq> []" "AuthoringAddr cfg \<noteq> []" "DNSAddr cfg \<noteq> []" "UpstreamDNS cfg \<noteq> []"
    by (simp_all add: cfg LoadConfigForRole_def Let_def envOr_nonempty defaultHTTPAddr_def)
  show "\<forall>p \<in> set (BootstrapPeers cfg) \<union> set (BCHElectrum cfg) \<union> set (HTTPAllowedHosts cfg). listEntry (confHttp C) p"
    using builtin_listEntry splitAndTrim_entries [OF W]
    by (auto simp: cfg LoadConfigForRole_def Let_def split: if_splits)
qed

lemma trimBoth_subset: "set (trimBoth P s) \<subseteq> set s"
  by (auto simp: trimBoth_def dest!: set_dropWhileD)

lemma trimBoth_idem: "trimBoth P (trimBoth P s) = trimBoth P s"
proof (cases "trimBoth P s = []")
  case True
  then show ?thesis by (simp only:) (simp add: trimBoth_def)
next
  case False
  define t where "t = dropWhile P s"
  have b: "trimBoth P s = rev (dropWhile P (rev t))" by (simp add: trimBoth_def t_def)
  with False have ne: "dropWhile P (rev t) \<noteq> []" by simp
  then have "\<not> P (hd (dropWhile P (rev t)))" by (rule hd_dropWhile)
  then have l: "\<not> P (last (trimBoth P s))" by (simp add: b last_rev)
  obtain x where x: "t = trimBoth P s @ x" using b
    by (metis rev_append rev_rev_ident takeWhile_dropWhile_id)
  with False have "t \<noteq> []" by simp
  then have "\<not> P (hd t)" unfolding t_def by (rule hd_dropWhile)
  with x False have "\<not> P (hd (trimBoth P s))" by simp
  with l False show ?thesis using trimBoth_core [of P "[]" "[]" "trimBoth P s"] by simp
qed

lemma demo_trims: "trims demoHttp"
proof -
  have "isASCII (trimBoth isSpaceC s)" if "isASCII s" for s
    using that trimBoth_subset [of isSpaceC s] by (auto simp: isASCII_def)
  then show ?thesis
    using trimBoth_subset by (auto simp: trims_def trimSpace_def demoHttp_def trimBoth_idem)
qed

theorem config_well_formed_witness:
  "0 \<le> ContentReplicas demoConfig \<and> 1 \<le> BCHMinConf demoConfig
     \<and> list_all (listEntry demoHttp) (BootstrapPeers demoConfig)"
proof -
  have h: "confHttp demoConf = demoHttp" by (simp add: demoConf_def)
  have "\<forall>s d. ParseDuration demoConf s = Some d \<longrightarrow> int64 d = d" by (simp add: demoConf_def)
  from config_well_formed [of demoConf, unfolded h, OF demo_trims this demoConfig_def] show ?thesis unfolding list_all_iff by blast
qed

section \<open>A node nobody configured\<close>

lemma applyNodeFlags_keeps:
  "DNSRecursionAny (applyNodeFlags cfg args) = DNSRecursionAny cfg \<and> UpstreamDNS (applyNodeFlags cfg args) = UpstreamDNS cfg
   \<and> (set args \<inter> {''--http-addr'', ''--api-bind''} = {} \<longrightarrow> HTTPAddr (applyNodeFlags cfg args) = HTTPAddr cfg)
   \<and> (''--authoring-addr'' \<notin> set args \<longrightarrow> AuthoringAddr (applyNodeFlags cfg args) = AuthoringAddr cfg)"
  by (induction cfg args rule: applyNodeFlags.induct) auto

text \<open>C36: a node is local until someone says otherwise. With no address and no recursion set in the
  environment, a node started with arguments that do not name an API address behaves so: the API
  listens on a loopback host, the authoring listener accepts its address, and the DNS server sends
  nothing upstream for a client that is not local.\<close>

theorem default_node_is_local:
  assumes env: "getenv C ''FREEDOM_HTTP_ADDR'' = []" "getenv C ''FREEDOM_AUTHORING_ADDR'' = []"
      "getenv C ''FREEDOM_DNS_RECURSION'' = []"
    and args: "set args \<inter> {''--http-addr'', ''--api-bind'', ''--authoring-addr''} = {}"
    and run: "mainOf C args = RunNode cfg"
  shows "(\<exists>host port. SplitHostPort (HTTPAddr cfg) = Some (host, port) \<and> loopbackHost host)
     \<and> listenAuthoring True (AuthoringAddr cfg) = Inr (AuthoringAddr cfg)
     \<and> (\<forall>err srv client packet. startDNS cfg err = DNSServing srv \<longrightarrow> \<not> forwardingAllowed client \<longrightarrow>
          snd (handleForward D client packet srv) = [])"
proof (intro conjI)
  obtain bootstrap where cfg: "cfg = applyNodeFlags (LoadConfigForRole C bootstrap) args"
    using run by (auto simp: mainOf_def split: if_splits)
  let ?c = "LoadConfigForRole C bootstrap"
  have k: "HTTPAddr cfg = HTTPAddr ?c" "AuthoringAddr cfg = AuthoringAddr ?c" "DNSRecursionAny cfg = DNSRecursionAny ?c"
    using applyNodeFlags_keeps [of ?c args] args by (auto simp: cfg)
  have h: "HTTPAddr cfg = defaultHTTPAddr bootstrap" "AuthoringAddr cfg = ''127.0.0.1:8421''"
    using env by (simp_all add: k LoadConfigForRole_def Let_def envOr_def)
  have "SplitHostPort ''127.0.0.1:8430'' = Some (''127.0.0.1'', ''8430'')"
      "SplitHostPort ''127.0.0.1:8420'' = Some (''127.0.0.1'', ''8420'')"
      and a: "SplitHostPort ''127.0.0.1:8421'' = Some (''127.0.0.1'', ''8421'')"
    by code_simp+
  with demo_hosts(6) show "\<exists>host port. SplitHostPort (HTTPAddr cfg) = Some (host, port) \<and> loopbackHost host"
    unfolding h defaultHTTPAddr_def by (cases bootstrap) (simp_all only: if_True if_False, blast+)
  show "listenAuthoring True (AuthoringAddr cfg) = Inr (AuthoringAddr cfg)"
    unfolding h listenAuthoring_def using a demo_hosts(6) by simp
  have "isASCII []" "isASCII ''any''" by code_simp+
  then have "\<not> DNSRecursionAny cfg"
    using env by (simp add: k LoadConfigForRole_def Let_def equalFold_def)
  then show "\<forall>err srv client packet. startDNS cfg err = DNSServing srv \<longrightarrow> \<not> forwardingAllowed client \<longrightarrow>
          snd (handleForward D client packet srv) = []"
    by (auto simp: startDNS_def handleForward_def NewDNSServer_def split: option.splits if_splits)
qed

theorem default_node_is_local_witness:
  "listenAuthoring True (AuthoringAddr (applyNodeFlags demoConfig [''--dns-addr'', '':53''])) = Inr ''127.0.0.1:8421''"
proof -
  have env: "getenv demoConf ''FREEDOM_HTTP_ADDR'' = []" "getenv demoConf ''FREEDOM_AUTHORING_ADDR'' = []"
      "getenv demoConf ''FREEDOM_DNS_RECURSION'' = []"
    by (simp_all add: demoConf_def)
  have args: "set [''--dns-addr'', '':53''] \<inter> {''--http-addr'', ''--api-bind'', ''--authoring-addr''} = {}" by simp
  have "AuthoringAddr (applyNodeFlags demoConfig [''--dns-addr'', '':53'']) = ''127.0.0.1:8421''"
    by (simp add: demoConfig_def LoadConfigForRole_def Let_def envOr_def demoConf_def)
  moreover have "mainOf demoConf [''--dns-addr'', '':53''] = RunNode (applyNodeFlags demoConfig [''--dns-addr'', '':53''])"
    by (simp add: mainOf_def demoConfig_def)
  ultimately show ?thesis using default_node_is_local [OF env args, of _ demoDns] by (simp add: demoConfig_def)
qed

text \<open>A duration in days may be negative, unlike any other: the healing loop then never starts.\<close>

lemma negative_days:
  assumes "getenv C ''FREEDOM_CONTENT_HEAL_INTERVAL'' = ''-1d''" and "ParseFloat C ''-1'' = Some (Fin (- 1))"
    and "roundF64 C (- 24) = Fin (- 24)" and "roundF64 C (- 24 * of_int hourNs) = Fin (- 24 * of_int hourNs)"
  shows "ContentHealInterval (LoadConfigForRole C b) = - 24 * hourNs
     \<and> \<not> healing (NewContentService R (LoadConfigForRole C b) True)"
proof -
  have "hasSuffix ''-1d'' ''d''" "trimSuffix ''-1d'' ''d'' = ''-1''" by code_simp+
  moreover have "f64Int C (Fin (- 24 * of_int hourNs)) = - 24 * hourNs"
    by (simp add: f64Int_def truncRat_def hourNs_def)
  ultimately have "ContentHealInterval (LoadConfigForRole C b) = - 24 * hourNs"
    using assms by (simp add: LoadConfigForRole_def Let_def envDuration_def f64Times_def)
  then show ?thesis by (simp add: NewContentService_def hourNs_def)
qed

end
