(* ===== verification/Wallet.thy ===== *)
theory Wallet
  imports Registry CashAddr
begin

text \<open>
  The registry wallet, \<open>internal/bch/bchwallet.go\<close>, and the commands that use it,
  \<open>internal/cli/bchcli.go\<close>: coins, coin selection, the claim and rebind transactions. Satoshi
  amounts are Go \<open>int64\<close>s: sums wrap.
\<close>

definition dustLimit :: int where "dustLimit = 546"
definition tokenDustLimit :: int where "tokenDustLimit = 1000"

record 'k bchWallet =
  wPriv :: 'k
  wPkh :: bytes
  wNetwork :: string

record walletUTXO =
  wTxid :: bytes
  wIndex :: "32 word"
  wValue :: int
  wToken :: "tokenInfo option"
  wHeight :: int

datatype walletErr =
    WChain electrumErr | InsufficientFunds int int | NoGenesisCoin | NotHeld string
  | WSerialize serializeErr | WRegistry registryErr | AlreadyClaimed bool | NoOwnerKey | WName nameErr

definition newWallet :: "'k crypto \<Rightarrow> string \<Rightarrow> 'k \<Rightarrow> 'k bchWallet" where
  "newWallet C network priv =
     \<lparr>wPriv = priv, wPkh = hash160 C (pubKeyCompressed C priv), wNetwork = network\<rparr>"

definition walletScript :: "'k bchWallet \<Rightarrow> bytes" where
  "walletScript w = p2pkhScript (wPkh w)"

section \<open>Coins\<close>

definition decodeHexLenient :: "string \<Rightarrow> bytes option" where
  "decodeHexLenient s =
     (if length s \<ge> 2 \<and> s ! 0 = CHR ''0'' \<and> (s ! 1 = CHR ''x'' \<or> s ! 1 = CHR ''X'')
      then hexDecode (drop 2 s) else hexDecode s)"

definition mustDecodeHex :: "string \<Rightarrow> bytes" where
  "mustDecodeHex s = (case decodeHexLenient s of None \<Rightarrow> [] | Some b \<Rightarrow> b)"

definition electrumToTokenInfo :: "tokenData \<Rightarrow> tokenInfo" where
  "electrumToTokenInfo td =
     (let cat = reverseBytes (mustDecodeHex (tdCategory td)) in
      case tdNFT td of
        None \<Rightarrow> \<lparr>CategoryID = cat, Capability = 0, Commitment = [], Amount = 0\<rparr>
      | Some nft \<Rightarrow>
          \<lparr>CategoryID = cat,
           Capability = (if nftCapability nft = ''mutable'' then 1
                         else if nftCapability nft = ''minting'' then 2 else 0),
           Commitment = mustDecodeHex (nftCommitment nft), Amount = 0\<rparr>)"

definition toWalletUTXO :: "electrumUTXO \<Rightarrow> walletUTXO" where
  "toWalletUTXO e =
     \<lparr>wTxid = reverseBytes (mustDecodeHex (uTxHash e)), wIndex = uTxPos e, wValue = sint (uValue e),
      wToken = map_option electrumToTokenInfo (uTokenData e), wHeight = uHeight e\<rparr>"

definition utxos :: "'k crypto \<Rightarrow> chainView \<Rightarrow> 'k bchWallet \<Rightarrow> electrumErr + walletUTXO list" where
  "utxos C V w =
     bindR (ListUnspent V (scriptHash C (walletScript w))) (\<lambda>entries. Inr (map toWalletUTXO entries))"

fun tally :: "int \<Rightarrow> nat \<Rightarrow> walletUTXO list \<Rightarrow> int \<times> nat" where
  "tally bal n [] = (bal, n)"
| "tally bal n (u # us) =
     (case wToken u of
        None \<Rightarrow> tally (int64 (bal + wValue u)) n us
      | Some t \<Rightarrow> tally bal (if Capability t \<noteq> 0 then Suc n else n) us)"

definition Holdings :: "'k crypto \<Rightarrow> chainView \<Rightarrow> 'k bchWallet \<Rightarrow> electrumErr + (int \<times> nat)" where
  "Holdings C V w = bindR (utxos C V w) (\<lambda>us. Inr (tally 0 0 us))"

definition Balance :: "'k crypto \<Rightarrow> chainView \<Rightarrow> 'k bchWallet \<Rightarrow> electrumErr + int" where
  "Balance C V w =
     bindR (utxos C V w) (\<lambda>us.
       Inr (foldl (\<lambda>tot u. if wToken u = None then int64 (tot + wValue u) else tot) 0 us))"

section \<open>Coin selection\<close>

definition feePerByte :: nat where "feePerByte = 2"

definition estimateFee :: "nat \<Rightarrow> nat \<Rightarrow> int" where
  "estimateFee numIn numOut = int ((10 + numIn * 148 + numOut * 34 + 100) * feePerByte)"

text \<open>Take coins in order until their total reaches the need, which may depend on how many there are.\<close>

fun takeCoins :: "(nat \<Rightarrow> int) \<Rightarrow> walletUTXO list \<Rightarrow> int \<Rightarrow> walletUTXO list \<Rightarrow> walletErr + walletUTXO list \<times> int" where
  "takeCoins need selected tot [] = Inl (InsufficientFunds (need (length selected)) tot)"
| "takeCoins need selected tot (u # us) =
     (let selected = selected @ [u]; tot = int64 (tot + wValue u) in
      if tot \<ge> need (length selected) then Inr (selected, tot) else takeCoins need selected tot us)"

definition selectFunding :: "walletUTXO list \<Rightarrow> int \<Rightarrow> walletErr + walletUTXO list \<times> int" where
  "selectFunding us need =
     takeCoins (\<lambda>_. need) [] 0 (sort_key (\<lambda>u. - wValue u) (filter (\<lambda>u. wToken u = None) us))"

definition selectFundingGenesis ::
    "walletUTXO list \<Rightarrow> int \<Rightarrow> nat \<Rightarrow> walletErr + walletUTXO list \<times> int" where
  "selectFundingGenesis us outValue numOutputs =
     (case find (\<lambda>u. wToken u = None \<and> wIndex u = 0) us of
        None \<Rightarrow> Inl NoGenesisCoin
      | Some genesis \<Rightarrow>
          (let need = (\<lambda>n. outValue + estimateFee n numOutputs) in
           if wValue genesis \<ge> need 1 then Inr ([genesis], wValue genesis)
           else takeCoins need [genesis] (wValue genesis)
             (filter (\<lambda>u. \<not> (wToken u \<noteq> None \<or> wTxid u = wTxid genesis \<and> wIndex u = wIndex genesis)) us)))"

definition findNFT :: "walletUTXO list \<Rightarrow> bytes \<Rightarrow> walletUTXO option" where
  "findNFT us category = find (\<lambda>u. case wToken u of Some t \<Rightarrow> CategoryID t = category | None \<Rightarrow> False) us"

section \<open>Transactions\<close>

definition coinInput :: "'k bchWallet \<Rightarrow> walletUTXO \<Rightarrow> txInput" where
  "coinInput w u =
     \<lparr>PrevTxID = wTxid u, PrevIndex = wIndex u, PrevScript = walletScript w,
      PrevValue = word_of_int (wValue u), PrevToken = wToken u, Sequence = 0xffffffff\<rparr>"

definition newTx :: "'k bchWallet \<Rightarrow> walletUTXO list \<Rightarrow> transaction \<times> 'k list" where
  "newTx w inputs =
     (\<lparr>Version = 2, Inputs = map (coinInput w) inputs, Outputs = [], LockTime = 0\<rparr>,
      map (\<lambda>_. wPriv w) inputs)"

text \<open>The outputs both transactions share: the name NFT, the metadata and the marker.\<close>

definition nameOutputs ::
    "'k crypto \<Rightarrow> 'k bchWallet \<Rightarrow> bytes \<Rightarrow> string \<Rightarrow> string \<Rightarrow> bytes \<Rightarrow> txOutput list" where
  "nameOutputs C w category tag label ownerPub =
     [\<lparr>Value = word_of_int tokenDustLimit, Script = walletScript w,
       Token = Some \<lparr>CategoryID = category, Capability = 1, Commitment = hash160 C ownerPub, Amount = 0\<rparr>\<rparr>,
      \<lparr>Value = 0, Script = opReturnScript [bytes_of_string tag, bytes_of_string label, ownerPub], Token = None\<rparr>,
      \<lparr>Value = word_of_int dustLimit, Script = markerScript C label, Token = None\<rparr>]"

definition changeOutput :: "'k bchWallet \<Rightarrow> int \<Rightarrow> txOutput list" where
  "changeOutput w change =
     (if change \<ge> dustLimit then [\<lparr>Value = word_of_int change, Script = walletScript w, Token = None\<rparr>] else [])"

definition claimTxOf ::
    "'k crypto \<Rightarrow> 'k bchWallet \<Rightarrow> string \<Rightarrow> bytes \<Rightarrow> walletUTXO list \<Rightarrow> int \<Rightarrow> transaction" where
  "claimTxOf C w label ownerPub selected tot =
     (fst (newTx w selected))\<lparr>Outputs :=
        nameOutputs C w (wTxid (hd selected)) fnClaimTag label ownerPub
        @ changeOutput w (int64 (tot - (tokenDustLimit + dustLimit) - estimateFee (length selected) 4))\<rparr>"

definition BuildClaimTx ::
    "'k crypto \<Rightarrow> chainView \<Rightarrow> 'k bchWallet \<Rightarrow> string \<Rightarrow> bytes \<Rightarrow> walletErr + bytes" where
  "BuildClaimTx C V w label ownerPub =
     (case utxos C V w of Inl e \<Rightarrow> Inl (WChain e) | Inr us \<Rightarrow>
        bindR (selectFundingGenesis us (tokenDustLimit + dustLimit) 4) (\<lambda>(selected, tot).
          case Serialize C (claimTxOf C w label ownerPub selected tot) (snd (newTx w selected)) of
            Inl e \<Rightarrow> Inl (WSerialize e)
          | Inr raw \<Rightarrow> Inr raw))"

definition rebindTxOf ::
    "'k crypto \<Rightarrow> 'k bchWallet \<Rightarrow> string \<Rightarrow> bytes \<Rightarrow> bytes \<Rightarrow> walletUTXO \<Rightarrow> walletUTXO list \<Rightarrow> int \<Rightarrow> transaction" where
  "rebindTxOf C w label category newOwnerPub nft funding fundingTot =
     (let inputs = nft # funding; tot = int64 (wValue nft + fundingTot) in
      (fst (newTx w inputs))\<lparr>Outputs :=
        nameOutputs C w category fnRebindTag label newOwnerPub
        @ changeOutput w (int64 (tot - tokenDustLimit - dustLimit - estimateFee (length inputs) 4))\<rparr>)"

definition BuildRebindTx ::
    "'k crypto \<Rightarrow> chainView \<Rightarrow> 'k bchWallet \<Rightarrow> string \<Rightarrow> bytes \<Rightarrow> bytes \<Rightarrow> walletErr + bytes" where
  "BuildRebindTx C V w label category newOwnerPub =
     (case utxos C V w of Inl e \<Rightarrow> Inl (WChain e) | Inr us \<Rightarrow>
       (case findNFT us category of
          None \<Rightarrow> Inl (NotHeld label)
        | Some nft \<Rightarrow>
            bindR (selectFunding us (dustLimit + estimateFee 3 4)) (\<lambda>(funding, fundingTot).
              case Serialize C (rebindTxOf C w label category newOwnerPub nft funding fundingTot)
                     (snd (newTx w (nft # funding))) of
                Inl e \<Rightarrow> Inl (WSerialize e)
              | Inr raw \<Rightarrow> Inr raw)))"

section \<open>The commands\<close>

text \<open>\<open>cliClaim\<close> and \<open>cliAdopt\<close> past the loading of keys and configuration: \<open>key\<close> is the owner key of a
  label, if there is one. The result is the transaction id the server answers.\<close>

definition cliClaim ::
    "'k crypto \<Rightarrow> (bytes \<Rightarrow> bool) \<Rightarrow> chainView \<Rightarrow> (string \<Rightarrow> string) \<Rightarrow> int \<Rightarrow> int \<Rightarrow> 'k bchWallet
      \<Rightarrow> (string \<Rightarrow> bytes option) \<Rightarrow> string \<Rightarrow> walletErr + string" where
  "cliClaim C ok V uni minConf now w key arg =
     (case NormalizeName uni arg of Inl e \<Rightarrow> Inl (WName e) | Inr label \<Rightarrow>
     (case key label of None \<Rightarrow> Inl NoOwnerKey | Some ownerPub \<Rightarrow>
     (case fst (ResolveOwner C ok V uni minConf now now (label @ ''.'' @ TLD) []) of
        Inr existing \<Rightarrow> Inl (AlreadyClaimed (existing = ownerPub))
      | Inl _ \<Rightarrow>
          bindR (BuildClaimTx C V w label ownerPub) (\<lambda>raw.
            case Broadcast V raw of Inl e \<Rightarrow> Inl (WChain e) | Inr txid \<Rightarrow> Inr txid))))"

definition cliAdopt ::
    "'k crypto \<Rightarrow> (bytes \<Rightarrow> bool) \<Rightarrow> chainView \<Rightarrow> (string \<Rightarrow> string) \<Rightarrow> int \<Rightarrow> 'k bchWallet
      \<Rightarrow> (string \<Rightarrow> bytes option) \<Rightarrow> string \<Rightarrow> walletErr + string" where
  "cliAdopt C ok V uni minConf w key arg =
     (case NormalizeName uni arg of Inl e \<Rightarrow> Inl (WName e) | Inr label \<Rightarrow>
     (case key label of None \<Rightarrow> Inl NoOwnerKey | Some ownerPub \<Rightarrow>
     (case CategoryFor C ok V minConf label of Inl e \<Rightarrow> Inl (WRegistry e) | Inr category \<Rightarrow>
        bindR (BuildRebindTx C V w label category ownerPub) (\<lambda>raw.
          case Broadcast V raw of Inl e \<Rightarrow> Inl (WChain e) | Inr txid \<Rightarrow> Inr txid))))"

definition walletAddress :: "'k bchWallet \<Rightarrow> string" where
  "walletAddress w = encodeCashAddr (wNetwork w) 0 (wPkh w)"

text \<open>Server hexadecimal decodes to what was encoded, prefix or not.\<close>

lemma hexDigit_not_x: "n < 16 \<Longrightarrow> hexDigit n \<noteq> CHR ''x'' \<and> hexDigit n \<noteq> CHR ''X''"
proof -
  assume "n < 16"
  then have "n \<in> set [0..<16]" by simp
  moreover have "list_all (\<lambda>n. hexDigit n \<noteq> CHR ''x'' \<and> hexDigit n \<noteq> CHR ''X'') [0..<16]" by code_simp
  ultimately show ?thesis by (simp add: list_all_iff)
qed

lemma mustDecodeHex_encode [simp]: "mustDecodeHex (hexEncode b) = b"
proof (cases b)
  case (Cons x xs)
  have "hexDigit (unat x mod 16) \<noteq> CHR ''x'' \<and> hexDigit (unat x mod 16) \<noteq> CHR ''X''"
    by (rule hexDigit_not_x) simp
  then have "decodeHexLenient (hexEncode b) = hexDecode (hexEncode b)"
    by (auto simp: decodeHexLenient_def Cons)
  then show ?thesis by (simp add: mustDecodeHex_def)
qed (simp add: mustDecodeHex_def decodeHexLenient_def)

section \<open>Coin selection facts\<close>

text \<open>Amounts as the chain guarantees them: no coin is negative and all of them together fit in 63
  bits.\<close>

definition amountsOk :: "walletUTXO list \<Rightarrow> bool" where
  "amountsOk us \<longleftrightarrow> (\<forall>u \<in> set us. 0 \<le> wValue u) \<and> sum_list (map wValue us) < 2 ^ 62"

lemma amountsOk_Cons: "amountsOk (u # us) \<Longrightarrow> 0 \<le> wValue u \<and> amountsOk us"
  by (auto simp: amountsOk_def)

lemma amountsOk_mset_le:
  assumes "amountsOk us" and "mset vs \<subseteq># mset us"
  shows "amountsOk vs"
proof -
  from assms(2) obtain M where "mset us = mset vs + M" by (metis subset_mset.add_diff_inverse)
  moreover obtain ws where "M = mset ws" by (metis ex_mset)
  ultimately have M: "mset us = mset (vs @ ws)" by simp
  then have s: "set us = set vs \<union> set ws" by (metis set_append set_mset_mset)
  from M have "sum_list (map wValue us) = sum_list (map wValue (vs @ ws))"
    by (metis mset_map sum_mset_sum_list)
  moreover have "0 \<le> sum_list (map wValue ws)"
    using s assms(1) by (intro sum_list_nonneg) (auto simp: amountsOk_def)
  ultimately show ?thesis using s assms(1) by (simp add: amountsOk_def)
qed

lemma sum_list_wValue_nonneg: "amountsOk us \<Longrightarrow> 0 \<le> sum_list (map wValue us)"
  by (rule sum_list_nonneg) (auto simp: amountsOk_def)

lemma takeCoins_Inr:
  "takeCoins need selected tot us = Inr (sel, t) \<Longrightarrow> amountsOk (selected @ us) \<Longrightarrow>
     tot = sum_list (map wValue selected) \<Longrightarrow>
     \<exists>k. sel = selected @ take k us \<and> t = sum_list (map wValue sel) \<and> need (length sel) \<le> t"
proof (induction us arbitrary: selected tot)
  case (Cons u us)
  let ?s = "selected @ [u]"
  have "amountsOk ?s"
    by (rule amountsOk_mset_le [OF Cons.prems(2)]) simp
  then have "0 \<le> sum_list (map wValue ?s)" "sum_list (map wValue ?s) < 2 ^ 62"
    by (simp_all only: sum_list_wValue_nonneg) (simp add: amountsOk_def)
  then have t: "int64 (tot + wValue u) = sum_list (map wValue ?s)"
    using Cons.prems(3) by (simp add: int64_id)
  show ?case
  proof (cases "need (length ?s) \<le> sum_list (map wValue ?s)")
    case True
    with Cons.prems(1) t have "sel = ?s" "t = sum_list (map wValue ?s)" by (auto simp: Let_def)
    with True have "sel = selected @ take 1 (u # us) \<and> t = sum_list (map wValue sel) \<and> need (length sel) \<le> t"
      by simp
    then show ?thesis by blast
  next
    case False
    with Cons.prems(1) t have "takeCoins need ?s (sum_list (map wValue ?s)) us = Inr (sel, t)"
      by (simp add: Let_def)
    from Cons.IH [OF this] Cons.prems(2) obtain k where
      "sel = ?s @ take k us" "t = sum_list (map wValue sel)" "need (length sel) \<le> t" by auto
    then show ?thesis by (intro exI [of _ "Suc k"]) simp
  qed
qed simp

lemma mset_take_subset: "mset (take k xs) \<subseteq># mset xs"
  by (metis append_take_drop_id mset_append mset_subset_eq_add_left)

text \<open>What selection promises: coins of the wallet, none carrying a token, worth what it reports and
  at least what was asked for.\<close>

definition covers :: "walletUTXO list \<Rightarrow> (nat \<Rightarrow> int) \<Rightarrow> walletUTXO list \<Rightarrow> int \<Rightarrow> bool" where
  "covers us need sel t \<longleftrightarrow>
     mset sel \<subseteq># mset us \<and> (\<forall>u \<in> set sel. wToken u = None)
     \<and> t = sum_list (map wValue sel) \<and> need (length sel) \<le> t"

lemma covers_set: "covers us need sel t \<Longrightarrow> set sel \<subseteq> set us"
  using set_mset_mono [of "mset sel" "mset us"] by (simp add: covers_def)

lemma selectFunding_covers:
  assumes "amountsOk us" and "selectFunding us need = Inr (sel, t)"
  shows "covers us (\<lambda>_. need) sel t"
proof -
  let ?p = "sort_key (\<lambda>u. - wValue u) (filter (\<lambda>u. wToken u = None) us)"
  have sub: "mset ?p \<subseteq># mset us" by simp
  with assms(1) have "amountsOk ([] @ ?p)" using amountsOk_mset_le by simp
  from takeCoins_Inr [OF assms(2) [unfolded selectFunding_def] this] obtain k where
    k: "sel = take k ?p" "t = sum_list (map wValue sel)" "need \<le> t" by auto
  have "mset sel \<subseteq># mset us" unfolding k(1) by (rule subset_mset.trans [OF mset_take_subset sub])
  moreover have "\<forall>u \<in> set sel. wToken u = None"
  proof -
    have "set sel \<subseteq> set ?p" unfolding k(1) by (rule set_take_subset)
    moreover have "\<forall>u \<in> set ?p. wToken u = None" by simp
    ultimately show ?thesis by blast
  qed
  ultimately show ?thesis using k(2,3) by (simp only: covers_def simp_thms)
qed

lemma selectFundingGenesis_covers:
  assumes ok: "amountsOk us" and sel: "selectFundingGenesis us out n = Inr (sel, t)"
  shows "covers us (\<lambda>k. out + estimateFee k n) sel t \<and> sel \<noteq> [] \<and> wIndex (hd sel) = 0"
proof -
  from sel obtain g where g: "find (\<lambda>u. wToken u = None \<and> wIndex u = 0) us = Some g"
    by (auto simp: selectFundingGenesis_def split: option.splits)
  then have gp: "g \<in> set us" "wToken g = None" "wIndex g = 0"
    by (auto simp: find_Some_iff)
  let ?need = "\<lambda>k. out + estimateFee k n"
  let ?rest = "filter (\<lambda>u. \<not> (wToken u \<noteq> None \<or> wTxid u = wTxid g \<and> wIndex u = wIndex g)) us"
  have sub: "mset (g # ?rest) \<subseteq># mset us"
  proof -
    have "mset us = mset ?rest + mset (filter (\<lambda>u. wToken u \<noteq> None \<or> wTxid u = wTxid g \<and> wIndex u = wIndex g) us)"
      using multiset_partition [of "mset us" "\<lambda>u. wToken u \<noteq> None \<or> wTxid u = wTxid g \<and> wIndex u = wIndex g"]
      by (simp only: mset_filter add.commute)
    moreover have "{#g#} \<subseteq># mset (filter (\<lambda>u. wToken u \<noteq> None \<or> wTxid u = wTxid g \<and> wIndex u = wIndex g) us)"
      using gp by (intro mset_subset_eq_single) simp
    ultimately have "mset ?rest + {#g#} \<subseteq># mset us"
      by (simp only: subset_mset.add_left_mono)
    then show ?thesis by (simp only: mset.simps add_mset_add_single [of g "mset ?rest"])
  qed
  show ?thesis
  proof (cases "wValue g \<ge> ?need 1")
    case True
    with sel g have "sel = [g]" "t = wValue g" by (auto simp: selectFundingGenesis_def)
    with True gp show ?thesis by (simp add: covers_def mset_subset_eq_single)
  next
    case False
    with sel g have tc: "takeCoins ?need [g] (wValue g) ?rest = Inr (sel, t)"
      by (simp add: selectFundingGenesis_def)
    have ok': "amountsOk ([g] @ ?rest)" using amountsOk_mset_le [OF ok sub] by simp
    from takeCoins_Inr [OF tc ok'] obtain k where k: "sel = [g] @ take k ?rest"
      "t = sum_list (map wValue sel)" "?need (length sel) \<le> t" by auto
    have "mset sel \<subseteq># mset (g # ?rest)" using k(1) mset_take_subset [of k ?rest] by simp
    then have "mset sel \<subseteq># mset us" using sub by (rule subset_mset.trans)
    moreover have "set sel \<subseteq> insert g (set ?rest)"
      unfolding k(1) using set_take_subset [of k ?rest] by (simp only: set_append set_simps) blast
    then have "\<forall>u \<in> set sel. wToken u = None" using gp by auto
    moreover have "hd sel = g" "sel \<noteq> []" using k(1) by simp_all
    ultimately show ?thesis using k(2,3) gp by (simp add: covers_def)
  qed
qed

text \<open>Selection with a fixed need stops at the first coin that reaches it.\<close>

lemma takeCoins_stops:
  "takeCoins (\<lambda>_. need) selected tot us = Inr (sel, t) \<Longrightarrow> amountsOk (selected @ us) \<Longrightarrow>
     tot = sum_list (map wValue selected) \<Longrightarrow> tot < need \<Longrightarrow>
     sel \<noteq> [] \<and> sum_list (map wValue (butlast sel)) < need"
proof (induction us arbitrary: selected tot)
  case (Cons u us)
  let ?s = "selected @ [u]"
  have "amountsOk ?s"
    by (rule amountsOk_mset_le [OF Cons.prems(2)]) simp
  then have "0 \<le> sum_list (map wValue ?s)" "sum_list (map wValue ?s) < 2 ^ 62"
    by (simp_all only: sum_list_wValue_nonneg) (simp add: amountsOk_def)
  then have t: "int64 (tot + wValue u) = sum_list (map wValue ?s)"
    using Cons.prems(3) by (simp add: int64_id)
  show ?case
  proof (cases "need \<le> sum_list (map wValue ?s)")
    case True
    with Cons.prems(1) t have "sel = ?s" by (auto simp: Let_def)
    with Cons.prems(3,4) show ?thesis by simp
  next
    case False
    with Cons.prems(1) t have "takeCoins (\<lambda>_. need) ?s (sum_list (map wValue ?s)) us = Inr (sel, t)"
      by (simp add: Let_def)
    from Cons.IH [OF this _ refl] Cons.prems(2) False show ?thesis by simp
  qed
qed simp

lemma selectFunding_stops:
  assumes "amountsOk us" and "selectFunding us need = Inr (sel, t)" and "0 < need"
  shows "sel \<noteq> [] \<and> sum_list (map wValue (butlast sel)) < need"
proof -
  let ?p = "sort_key (\<lambda>u. - wValue u) (filter (\<lambda>u. wToken u = None) us)"
  have "mset ?p \<subseteq># mset us" by simp
  with assms(1) have "amountsOk ([] @ ?p)" using amountsOk_mset_le by simp
  from takeCoins_stops [OF assms(2) [unfolded selectFunding_def] this] assms(3) show ?thesis by simp
qed

section \<open>Transaction facts\<close>

definition inputValue :: "transaction \<Rightarrow> int" where
  "inputValue tx = sum_list (map (\<lambda>inp. sint (PrevValue inp)) (Inputs tx))"

definition outputValue :: "transaction \<Rightarrow> int" where
  "outputValue tx = sum_list (map (\<lambda>out. sint (Value out)) (Outputs tx))"

lemma sint_word_of_int_small: "0 \<le> x \<Longrightarrow> x < 2 ^ 63 \<Longrightarrow> sint (word_of_int x :: 64 word) = x"
  by (simp add: signed_of_int signed_take_bit_int_eq_self)

lemma amountsOk_le: "amountsOk us \<Longrightarrow> u \<in> set us \<Longrightarrow> 0 \<le> wValue u \<and> wValue u < 2 ^ 62"
proof (induction us)
  case (Cons v us)
  note v = amountsOk_Cons [OF Cons.prems(1), THEN conjunct1] amountsOk_Cons [OF Cons.prems(1), THEN conjunct2]
  have lt: "sum_list (map wValue (v # us)) < 2 ^ 62" using Cons.prems(1) by (simp add: amountsOk_def)
  show ?case
  proof (cases "u \<in> set us")
    case True
    with Cons.IH v show ?thesis by blast
  next
    case False
    with Cons.prems(2) have "u = v" by simp
    with v lt sum_list_wValue_nonneg [OF v(2)] show ?thesis by simp
  qed
qed simp

lemma inputValue_coins:
  "amountsOk sel \<Longrightarrow> Inputs tx = map (coinInput w) sel \<Longrightarrow> inputValue tx = sum_list (map wValue sel)"
proof -
  assume ok: "amountsOk sel" and i: "Inputs tx = map (coinInput w) sel"
  have "sint (word_of_int (wValue u) :: 64 word) = wValue u" if "u \<in> set sel" for u
    using amountsOk_le [OF ok that] by (intro sint_word_of_int_small) simp_all
  then show ?thesis by (simp add: inputValue_def i coinInput_def o_def cong: map_cong)
qed

lemma outputValue_name:
  assumes "Outputs tx = nameOutputs C w cat tag label pub @ changeOutput w ch" and "ch < 2 ^ 63"
  shows "outputValue tx = 1546 + (if ch \<ge> 546 then ch else 0)"
  using assms by (simp add: outputValue_def nameOutputs_def changeOutput_def dustLimit_def tokenDustLimit_def
      sint_word_of_int_small)

lemma estimateFee_eq: "estimateFee n m = 296 * int n + 68 * int m + 220"
  by (simp add: estimateFee_def feePerByte_def)

section \<open>Properties\<close>

text \<open>Funding never touches a token. The coins \<open>selectFunding\<close> returns are coins of the wallet,
  none of them carries a token, so a name NFT cannot be spent as a fee, their total is what it
  reports, it reaches the need, and without the last coin it would not.\<close>

theorem selectFunding_safe:
  assumes "amountsOk us" and "selectFunding us need = Inr (sel, t)" and "0 < need"
  shows "mset sel \<subseteq># mset us \<and> (\<forall>u \<in> set sel. wToken u = None)
     \<and> t = sum_list (map wValue sel) \<and> need \<le> t \<and> sum_list (map wValue (butlast sel)) < need"
  using selectFunding_covers [OF assms(1,2)] selectFunding_stops [OF assms] by (simp add: covers_def)

definition demoCoin :: "byte \<Rightarrow> int \<Rightarrow> walletUTXO" where
  "demoCoin b v = \<lparr>wTxid = replicate 32 b, wIndex = 0, wValue = v, wToken = None, wHeight = 10\<rparr>"

definition demoNFT :: walletUTXO where
  "demoNFT = (demoCoin 9 1000)\<lparr>wToken := Some \<lparr>CategoryID = replicate 32 5, Capability = 1, Commitment = [], Amount = 0\<rparr>\<rparr>"

definition demoCoins :: "walletUTXO list" where
  "demoCoins = [demoNFT, demoCoin 1 600, demoCoin 2 9000, demoCoin 3 700]"

lemma demoCoins_ok: "amountsOk demoCoins"
  by (simp add: amountsOk_def demoCoins_def demoNFT_def demoCoin_def)

lemma demo_funding: "selectFunding demoCoins 1926 = Inr ([demoCoin 2 9000], 9000)"
  by (simp add: selectFunding_def demoCoins_def demoNFT_def demoCoin_def int64_id)

theorem selectFunding_safe_witness:
  "mset [demoCoin 2 9000] \<subseteq># mset demoCoins \<and> sum_list (map wValue (butlast [demoCoin 2 9000])) < 1926"
  using selectFunding_safe [OF demoCoins_ok demo_funding] by simp

text \<open>A claim pays its way. Its inputs are token-free coins of the wallet, the first of them an
  output with index 0 as the CashTokens genesis rule demands, the minted category is that coin's
  transaction id, and inputs exceed outputs by at least the estimated fee for the actual number of
  inputs and outputs.\<close>

theorem claim_pays_fee:
  assumes ok: "amountsOk us" and sel: "selectFundingGenesis us (tokenDustLimit + dustLimit) 4 = Inr (selected, tot)"
  shows "(\<forall>inp \<in> set (Inputs (claimTxOf C w label pub selected tot)). PrevToken inp = None)
     \<and> PrevIndex (hd (Inputs (claimTxOf C w label pub selected tot))) = 0
     \<and> map Token (Outputs (claimTxOf C w label pub selected tot)) ! 0 =
         Some \<lparr>CategoryID = PrevTxID (hd (Inputs (claimTxOf C w label pub selected tot))),
               Capability = 1, Commitment = hash160 C pub, Amount = 0\<rparr>
     \<and> inputValue (claimTxOf C w label pub selected tot) - outputValue (claimTxOf C w label pub selected tot)
         \<ge> estimateFee (length (Inputs (claimTxOf C w label pub selected tot)))
              (length (Outputs (claimTxOf C w label pub selected tot)))"
proof -
  let ?tx = "claimTxOf C w label pub selected tot"
  let ?ch = "tot - 1546 - estimateFee (length selected) 4"
  note cov = selectFundingGenesis_covers [OF ok sel]
  then have sub: "mset selected \<subseteq># mset us" and t: "tot = sum_list (map wValue selected)"
    and need: "1546 + estimateFee (length selected) 4 \<le> tot" and ne: "selected \<noteq> []"
    and plain: "\<forall>u \<in> set selected. wToken u = None" and i0: "wIndex (hd selected) = 0"
    by (simp_all add: covers_def tokenDustLimit_def dustLimit_def)
  from amountsOk_mset_le [OF ok sub] have sok: "amountsOk selected" .
  then have lt: "tot < 2 ^ 62" using t by (simp add: amountsOk_def)
  have ch: "int64 (tot - (tokenDustLimit + dustLimit) - estimateFee (length selected) 4) = ?ch"
    using need lt by (simp add: tokenDustLimit_def dustLimit_def int64_id estimateFee_eq)
  have ins: "Inputs ?tx = map (coinInput w) selected"
    by (simp add: claimTxOf_def newTx_def)
  have outs: "Outputs ?tx = nameOutputs C w (wTxid (hd selected)) fnClaimTag label pub @ changeOutput w ?ch"
    by (simp add: claimTxOf_def ch)
  have out: "outputValue ?tx = 1546 + (if ?ch \<ge> 546 then ?ch else 0)"
    by (rule outputValue_name [OF outs]) (use lt in \<open>simp add: estimateFee_eq\<close>)
  have "inputValue ?tx = tot" using inputValue_coins [OF sok ins] t by simp
  then have "estimateFee (length selected) 4 \<le> inputValue ?tx - outputValue ?tx"
    using out need by simp
  moreover have "estimateFee (length (Inputs ?tx)) (length (Outputs ?tx)) \<le> estimateFee (length selected) 4"
    by (simp add: ins outs nameOutputs_def changeOutput_def estimateFee_eq)
  ultimately have "estimateFee (length (Inputs ?tx)) (length (Outputs ?tx)) \<le> inputValue ?tx - outputValue ?tx"
    by linarith
  moreover have "hd (Inputs ?tx) = coinInput w (hd selected)" using ne by (simp add: ins hd_map)
  ultimately show ?thesis
    using plain i0 by (simp add: ins outs nameOutputs_def coinInput_def)
qed

lemma demo_genesis: "selectFundingGenesis demoCoins (tokenDustLimit + dustLimit) 4 = Inr ([demoCoin 1 600, demoCoin 2 9000], 9600)"
  by (simp add: selectFundingGenesis_def demoCoins_def demoNFT_def demoCoin_def tokenDustLimit_def dustLimit_def
      estimateFee_eq int64_id)

theorem claim_pays_fee_witness:
  "PrevIndex (hd (Inputs (claimTxOf demoCrypto (newWallet demoCrypto ''chipnet'' ()) ''abc'' [5]
      [demoCoin 1 600, demoCoin 2 9000] 9600))) = 0"
  using claim_pays_fee [OF demoCoins_ok demo_genesis] by blast

lemma parseOpReturn_p2pkh: "parseOpReturn (p2pkhScript h) = []"
  by (simp add: parseOpReturn_def p2pkhScript_def)

lemma p2pkhScript_hd: "p2pkhScript h \<noteq> [] \<and> hd (p2pkhScript h) \<noteq> 0xef"
  by (simp add: p2pkhScript_def)

text \<open>What the registry reads off the shared outputs.\<close>

lemma nameOutputs_metadata:
  assumes tag: "tag = fnClaimTag \<or> tag = fnRebindTag" and "length label \<le> 0xffff" "length pub \<le> 0xffff"
    and "ok pub"
  shows "fnMetadataOuts ok label (map viewOut (nameOutputs C w cat tag label pub @ rest)) = Some (tag, pub)"
proof -
  let ?ps = "[bytes_of_string tag, bytes_of_string label, pub]"
  have tl: "length tag = 4" using tag by (auto simp: fnClaimTag_def fnRebindTag_def)
  have "length (opReturnScript ?ps) < 2 ^ 63"
    using assms(2,3) tl by (simp add: opReturnScript_def appendPush_def)
  then have "parseOpReturn (opReturnScript ?ps) = ?ps"
    using assms(2,3) tl by (intro parseOpReturn_opReturnScript) simp_all
  with tag assms(4) show ?thesis
    by (auto simp: nameOutputs_def viewOut_def walletScript_def parseOpReturn_p2pkh)
qed

lemma nameOutputs_ok:
  assumes "length cat = 32" and "length (hash160 C pub) \<le> 40"
  shows "list_all outOk (nameOutputs C w cat tag label pub @ changeOutput w ch)"
  using assms by (simp add: nameOutputs_def changeOutput_def outOk_def walletScript_def markerScript_def
      p2pkhScript_hd validate_def hasNFT_def opReturnScript_def appendPush_def)

text \<open>C10: what the wallet builds is what the registry recognises. The raw claim transaction parses,
  carries \<open>FN01\<close> metadata for the label and the owner key, pays the name's marker, and its genesis
  category is the category of its first output, a mutable token to the wallet committed to the hash
  of the owner key.\<close>

theorem claim_recognised:
  assumes claim: "BuildClaimTx C V w label ownerPub = Inr raw" and us: "utxos C V w = Inr us"
    and ok: "amountsOk us" and ids: "\<forall>u \<in> set us. length (wTxid u) = 32"
    and crypto: "\<forall>b. length (hash160 C b) = 20"
    and "length label \<le> 63" "length ownerPub \<le> 0xffff" "keyOk ownerPub" "length raw < 2 ^ 63"
  shows "\<exists>tx category. parseTx raw = Inr tx
     \<and> parseFNMetadata keyOk tx label = Some (fnClaimTag, ownerPub)
     \<and> genesisCategory tx = Some category
     \<and> findToken category 0 (pOutputs tx) =
         Some (0, \<lparr>CategoryID = category, Capability = 1, Commitment = hash160 C ownerPub, Amount = 0\<rparr>, walletScript w)
     \<and> (\<exists>out \<in> set (pOutputs tx). pScript out = markerScript C label \<and> sint (pValue out) = dustLimit)"
proof -
  from claim us obtain selected tot where
    sel: "selectFundingGenesis us (tokenDustLimit + dustLimit) 4 = Inr (selected, tot)"
    and ser: "Serialize C (claimTxOf C w label ownerPub selected tot) (snd (newTx w selected)) = Inr raw"
    by (auto simp: BuildClaimTx_def bindR_Inr_iff)
  let ?tx = "claimTxOf C w label ownerPub selected tot"
  let ?cat = "wTxid (hd selected)"
  note cov = selectFundingGenesis_covers [OF ok sel]
  then have ne: "selected \<noteq> []" and i0: "wIndex (hd selected) = 0" and sub: "set selected \<subseteq> set us"
    using covers_set by blast+
  have ins: "Inputs ?tx = map (coinInput w) selected" by (simp add: claimTxOf_def newTx_def)
  obtain ch where outs: "Outputs ?tx = nameOutputs C w ?cat fnClaimTag label ownerPub @ changeOutput w ch"
    by (simp add: claimTxOf_def)
  obtain usigs where us: "length usigs = length (Inputs ?tx)"
    and lay: "raw = encUint32 (Version ?tx) @ putVarInt (of_nat (length (Inputs ?tx)))
       @ concat (map encodeInput (zip (Inputs ?tx) usigs))
       @ putVarInt (of_nat (length (Outputs ?tx))) @ concat (map encodeOutput (Outputs ?tx))
       @ encUint32 (LockTime ?tx)"
    by (rule Serialize_Inr [OF ser])
  have cat32: "length ?cat = 32" using ids sub hd_in_set [OF ne] by blast
  have pids: "\<forall>inp \<in> set (Inputs ?tx). length (PrevTxID inp) = 32"
    using ids sub by (auto simp: ins coinInput_def)
  have "list_all outOk (Outputs ?tx)"
    unfolding outs using cat32 crypto by (intro nameOutputs_ok) simp_all
  from parseTx_layout [OF assms(9) lay us pids this]
  have parse: "parseTx raw = Inr \<lparr>pInputs = map viewIn (Inputs ?tx), pOutputs = map viewOut (Outputs ?tx)\<rparr>" .
  let ?p = "\<lparr>pInputs = map viewIn (Inputs ?tx), pOutputs = map viewOut (Outputs ?tx)\<rparr>"
  have meta: "parseFNMetadata keyOk ?p label = Some (fnClaimTag, ownerPub)"
    using assms(6,7,8) by (simp only: parseFNMetadata_def parsedTx.select_convs outs)
      (intro nameOutputs_metadata, simp_all)
  have gen: "genesisCategory ?p = Some ?cat"
  proof -
    obtain a as where a: "selected = a # as" using ne by (cases selected) auto
    have "pInputs ?p = map viewIn (map (coinInput w) selected)" by (simp add: ins)
    also have "\<dots> = \<lparr>pPrevTxID = wTxid a, pPrevIndex = 0\<rparr> # map viewIn (map (coinInput w) as)"
      using i0 by (simp add: a viewIn_def coinInput_def)
    finally have "pInputs ?p = \<lparr>pPrevTxID = wTxid a, pPrevIndex = 0\<rparr> # map viewIn (map (coinInput w) as)" .
    moreover have "?cat = wTxid a" by (simp add: a)
    ultimately show ?thesis by (simp only: genesisCategory_def find.simps) simp
  qed
  have tok: "findToken ?cat 0 (pOutputs ?p) =
      Some (0, \<lparr>CategoryID = ?cat, Capability = 1, Commitment = hash160 C ownerPub, Amount = 0\<rparr>, walletScript w)"
    by (simp add: outs nameOutputs_def viewOut_def)
  have mark: "\<exists>out \<in> set (pOutputs ?p). pScript out = markerScript C label \<and> sint (pValue out) = dustLimit"
    by (simp add: outs nameOutputs_def viewOut_def dustLimit_def)
  from parse meta gen tok mark show ?thesis by blast
qed

definition demoView :: chainView where
  "demoView = (demoChain [])\<lparr>ListUnspent := (\<lambda>_. Inr
     [\<lparr>uHeight = 10, uTxPos = 0, uTxHash = hexEncode (replicate 32 1), uValue = 9000, uTokenData = None\<rparr>])\<rparr>"

lemma demo_utxos: "utxos demoCrypto demoView w = Inr [demoCoin 1 9000]"
  by (simp add: utxos_def demoView_def toWalletUTXO_def demoCoin_def reverseBytes_def)

lemma demo_claim_built:
  "\<exists>raw. BuildClaimTx demoCrypto demoView (newWallet demoCrypto ''chipnet'' ()) ''abc'' [5] = Inr raw \<and> length raw < 2 ^ 63"
proof -
  let ?w = "newWallet demoCrypto ''chipnet'' ()"
  have sel: "selectFundingGenesis [demoCoin 1 9000] (tokenDustLimit + dustLimit) 4 = Inr ([demoCoin 1 9000], 9000)"
    by (simp add: selectFundingGenesis_def demoCoin_def tokenDustLimit_def dustLimit_def estimateFee_eq)
  have "\<exists>raw. Serialize demoCrypto (claimTxOf demoCrypto ?w ''abc'' [5] [demoCoin 1 9000] 9000) [()] = Inr raw \<and> length raw < 2 ^ 63"
    by (simp add: Serialize_def claimTxOf_def newTx_def nameOutputs_def changeOutput_def validate_def hasNFT_def
        signInput_def sigHashPreimage_def appendPush_def encodeInput_def encodeOutput_def Let_def putVarBytes_def
        length_putVarInt tokenPrefix_def encodeTokenPrefix_def opReturnScript_def p2pkhScript_def demoCoin_def
        walletScript_def markerScript_def markerPubKeyHash_def coinInput_def fnClaimTag_def newWallet_def
        tokenDustLimit_def dustLimit_def estimateFee_eq int64_id)
  then show ?thesis by (simp add: BuildClaimTx_def demo_utxos sel newTx_def newWallet_def)
qed

theorem claim_recognised_witness:
  "\<exists>raw tx. BuildClaimTx demoCrypto demoView (newWallet demoCrypto ''chipnet'' ()) ''abc'' [5] = Inr raw
     \<and> parseTx raw = Inr tx \<and> parseFNMetadata (\<lambda>_. True) tx ''abc'' = Some (fnClaimTag, [5])"
proof -
  obtain raw where raw: "BuildClaimTx demoCrypto demoView (newWallet demoCrypto ''chipnet'' ()) ''abc'' [5] = Inr raw"
    "length raw < 2 ^ 63" using demo_claim_built by blast
  have "amountsOk [demoCoin 1 9000]" "\<forall>u \<in> set [demoCoin 1 9000]. length (wTxid u) = 32"
    by (simp_all add: amountsOk_def demoCoin_def)
  from claim_recognised [OF raw(1) demo_utxos this _ _ _ _ raw(2), of "\<lambda>_. True"]
  obtain tx where "parseTx raw = Inr tx" "parseFNMetadata (\<lambda>_. True) tx ''abc'' = Some (fnClaimTag, [5])" by auto
  with raw show ?thesis by blast
qed

lemma rebind_few_coins:
  assumes "amountsOk us" and "selectFunding us need = Inr (sel, t)" "0 < need" "need \<le> 2184"
    and "\<forall>u \<in> set us. wToken u = None \<longrightarrow> 546 \<le> wValue u"
  shows "length sel \<le> 4"
proof -
  from selectFunding_covers [OF assms(1,2)] have "set sel \<subseteq> set us" "\<forall>u \<in> set sel. wToken u = None"
    by (auto simp: covers_def dest: covers_set [OF selectFunding_covers [OF assms(1,2)], THEN subsetD])
  with assms(5) have ge: "\<forall>u \<in> set (butlast sel). 546 \<le> wValue u" by (auto dest: in_set_butlastD)
  have "546 * int (length xs) \<le> sum_list (map wValue xs)" if "\<forall>u \<in> set xs. 546 \<le> wValue u" for xs
    using that by (induction xs) auto
  with ge have "546 * int (length (butlast sel)) \<le> sum_list (map wValue (butlast sel))" by blast
  with selectFunding_stops [OF assms(1,2,3)] assms(4) have "546 * int (length (butlast sel)) < 2184" by linarith
  then show ?thesis by simp
qed

lemma rebind_need: "dustLimit + estimateFee 3 4 = 1926"
  by (simp add: dustLimit_def estimateFee_eq)

text \<open>The transaction a rebind serializes, from the coins selected for it.\<close>

lemma rebindTx_shape:
  fixes C :: "'k crypto" and w label pub
  assumes ok: "amountsOk us" and nft: "findNFT us category = Some nft"
    and fund: "selectFunding us (dustLimit + estimateFee 3 4) = Inr (funding, ft)"
    and nval: "tokenDustLimit \<le> wValue nft" and dust: "\<forall>u \<in> set us. wToken u = None \<longrightarrow> dustLimit \<le> wValue u"
  defines "ch \<equiv> sum_list (map wValue (nft # funding)) - 1546 - 2 * int (10 + length (nft # funding) * 148 + 4 * 34 + 100)"
    and "tx \<equiv> rebindTxOf C w label category pub nft funding ft"
  shows "Inputs tx = map (coinInput w) (nft # funding)"
    and "Outputs tx = nameOutputs C w category fnRebindTag label pub @ changeOutput w ch"
    and "sum_list (map wValue (nft # funding)) - outputValue tx \<ge> int (10 + length (nft # funding) * 148 + 4 * 34 + 100)"
    and "length funding \<le> 4"
proof -
  note fund = fund [unfolded rebind_need]
  from selectFunding_covers [OF ok fund] have sub: "mset funding \<subseteq># mset us"
    and plain: "\<forall>u \<in> set funding. wToken u = None" and ft: "ft = sum_list (map wValue funding)" "1926 \<le> ft"
    by (simp_all add: covers_def)
  have few: "length funding \<le> 4"
    using dust by (intro rebind_few_coins [OF ok fund]) (simp_all add: dustLimit_def)
  from nft obtain t where nm: "nft \<in> set us" "wToken nft = Some t" "CategoryID t = category"
    by (auto simp: findNFT_def find_Some_iff split: option.splits)
  have nv: "1000 \<le> wValue nft" "wValue nft < 2 ^ 62"
    using nval amountsOk_le [OF ok nm(1)] by (simp_all add: tokenDustLimit_def)
  have fok: "amountsOk funding" by (rule amountsOk_mset_le [OF ok sub])
  then have flt: "ft < 2 ^ 62" using ft by (simp add: amountsOk_def)
  let ?ch = "wValue nft + ft - 1546 - estimateFee (Suc (length funding)) 4"
  have tot: "int64 (wValue nft + ft) = wValue nft + ft" using nv flt ft(2) by (simp add: int64_id)
  have "int64 (wValue nft + ft - 1000 - 546 - estimateFee (Suc (length funding)) 4) = wValue nft + ft - 1000 - 546 - estimateFee (Suc (length funding)) 4"
    using nv flt ft(2) few by (intro int64_id) (simp_all add: estimateFee_eq)
  then have ch: "int64 (int64 (wValue nft + ft) - tokenDustLimit - dustLimit - estimateFee (length (nft # funding)) 4) = ?ch"
    by (simp add: tot tokenDustLimit_def dustLimit_def)
  have chq: "?ch = ch" using ft(1) by (simp add: ch_def estimateFee_eq)
  show "Inputs tx = map (coinInput w) (nft # funding)"
    by (simp add: tx_def rebindTxOf_def newTx_def Let_def)
  have outs: "Outputs tx = nameOutputs C w category fnRebindTag label pub @ changeOutput w ?ch"
    unfolding ch [symmetric] by (simp add: tx_def rebindTxOf_def Let_def)
  then show "Outputs tx = nameOutputs C w category fnRebindTag label pub @ changeOutput w ch" by (simp add: chq)
  have out: "outputValue tx = 1546 + (if ?ch \<ge> 546 then ?ch else 0)"
    by (rule outputValue_name [OF outs]) (use nv flt few in \<open>simp add: estimateFee_eq\<close>)
  show "sum_list (map wValue (nft # funding)) - outputValue tx \<ge> int (10 + length (nft # funding) * 148 + 4 * 34 + 100)"
    using out nv few ft by (simp add: estimateFee_eq)
qed (rule rebind_few_coins [OF ok fund [unfolded rebind_need]], use dust in \<open>simp_all add: dustLimit_def\<close>)

text \<open>Coins taken apart by their tokens are taken together.\<close>

lemma nft_and_funding:
  assumes "nft \<in> set us" "wToken nft \<noteq> None" "mset funding \<subseteq># mset us" "\<forall>u \<in> set funding. wToken u = None"
  shows "mset (nft # funding) \<subseteq># mset us"
proof -
  let ?P = "\<lambda>u. wToken u = None"
  have "filter ?P funding = funding" using assms(4) by simp
  then have "mset funding = filter_mset ?P (mset funding)" by (metis mset_filter)
  also have "\<dots> \<subseteq># filter_mset ?P (mset us)" by (rule multiset_filter_mono [OF assms(3)])
  finally have f: "mset funding \<subseteq># filter_mset ?P (mset us)" .
  have "{#nft#} \<subseteq># filter_mset (\<lambda>u. \<not> ?P u) (mset us)" using assms(1,2) by simp
  from subset_mset.add_mono [OF this f] have "{#nft#} + mset funding
      \<subseteq># filter_mset (\<lambda>u. \<not> ?P u) (mset us) + filter_mset ?P (mset us)" .
  moreover have "filter_mset (\<lambda>u. \<not> ?P u) (mset us) + filter_mset ?P (mset us) = mset us"
    by (metis add.commute multiset_partition)
  moreover have "{#nft#} + mset funding = mset (nft # funding)" by simp
  ultimately show ?thesis by (simp only:)
qed

text \<open>C29: a rebind moves the name NFT and nothing else. Whatever transaction \<open>BuildRebindTx\<close> returns
  parses to this: its inputs are a coin of the wallet holding the category's NFT and at most four coins
  without tokens, no coin twice, the latter worth at least 1926 satoshis (marker dust and the fee for
  three inputs and four outputs) and less than that without the last; its outputs are the NFT, mutable,
  back to the wallet with 1000 satoshis and the hash of the new key as its commitment, the metadata
  that binds the label to the new key, the 546 satoshis for the label's marker, and the rest less two
  satoshis per estimated byte back to the wallet, unless that is dust. What is left as the fee is at
  least one satoshi per estimated byte; it falls below the two aimed for only where four or five inputs
  meet the budget for three. Assumed of the wallet's coins: amounts are not negative and fit the chain's
  supply, a coin without a token is worth 546 satoshis or more and one with a token 1000 or more
  (smaller ones are below what the network relays), and transaction ids and the category are 32 bytes.\<close>

theorem rebind_safe:
  assumes build: "BuildRebindTx C V w label category newOwner = Inr raw" and us: "utxos C V w = Inr us"
    and ok: "amountsOk us" and dust: "\<forall>u \<in> set us. (if wToken u = None then 546 else 1000) \<le> wValue u"
    and ids: "\<forall>u \<in> set us. length (wTxid u) = 32" and cat: "length category = 32"
    and crypto: "\<forall>b. length (hash160 C b) = 20"
    and "length label \<le> 63" "length newOwner \<le> 0xffff" "keyOk newOwner" "length raw < 2 ^ 63"
  shows "\<exists>tx nft t funding left. parseTx raw = Inr tx
     \<and> parseFNMetadata keyOk tx label = Some (fnRebindTag, newOwner)
     \<and> mset (nft # funding) \<subseteq># mset us \<and> wToken nft = Some t \<and> CategoryID t = category
     \<and> (\<forall>u \<in> set funding. wToken u = None) \<and> funding \<noteq> [] \<and> length funding \<le> 4
     \<and> 1926 \<le> sum_list (map wValue funding) \<and> sum_list (map wValue (butlast funding)) < 1926
     \<and> pInputs tx = map (\<lambda>u. \<lparr>pPrevTxID = wTxid u, pPrevIndex = wIndex u\<rparr>) (nft # funding)
     \<and> left = sum_list (map wValue (nft # funding)) - 1546 - 2 * int (10 + length (nft # funding) * 148 + 4 * 34 + 100)
     \<and> pOutputs tx =
         [\<lparr>pValue = 1000, pScript = walletScript w,
           pToken = Some \<lparr>CategoryID = category, Capability = 1, Commitment = hash160 C newOwner, Amount = 0\<rparr>\<rparr>,
          \<lparr>pValue = 0, pScript = opReturnScript [bytes_of_string fnRebindTag, bytes_of_string label, newOwner], pToken = None\<rparr>,
          \<lparr>pValue = 546, pScript = markerScript C label, pToken = None\<rparr>]
         @ (if 546 \<le> left then [\<lparr>pValue = word_of_int left, pScript = walletScript w, pToken = None\<rparr>] else [])
     \<and> sum_list (map wValue (nft # funding)) - sum_list (map (\<lambda>out. sint (pValue out)) (pOutputs tx))
         \<ge> int (10 + length (nft # funding) * 148 + 4 * 34 + 100)"
proof -
  from build us obtain nft funding ft where nft: "findNFT us category = Some nft"
    and fund: "selectFunding us (dustLimit + estimateFee 3 4) = Inr (funding, ft)"
    and ser: "Serialize C (rebindTxOf C w label category newOwner nft funding ft) (snd (newTx w (nft # funding))) = Inr raw"
    by (auto simp: BuildRebindTx_def bindR_Inr_iff split: option.splits)
  let ?tx = "rebindTxOf C w label category newOwner nft funding ft"
  from nft obtain t where t: "nft \<in> set us" "wToken nft = Some t" "CategoryID t = category"
    by (auto simp: findNFT_def find_Some_iff split: option.splits)
  have nval: "tokenDustLimit \<le> wValue nft" using dust t by (auto simp: tokenDustLimit_def)
  have d: "\<forall>u \<in> set us. wToken u = None \<longrightarrow> dustLimit \<le> wValue u" using dust by (auto simp: dustLimit_def)
  note few = rebindTx_shape(4) [OF ok nft fund nval d]
    and shape = rebindTx_shape(1-3) [OF ok nft fund nval d, where C = C and w = w and label = label and pub = newOwner]
  from selectFunding_covers [OF ok fund [unfolded rebind_need]] have cov: "mset funding \<subseteq># mset us"
    "\<forall>u \<in> set funding. wToken u = None" "1926 \<le> sum_list (map wValue funding)" by (auto simp: covers_def)
  note coins = nft_and_funding [OF t(1) _ cov(1,2)]
  have sub: "set (nft # funding) \<subseteq> set us" using coins t(2) set_mset_mono by fastforce
  obtain usigs where usl: "length usigs = length (Inputs ?tx)"
    and lay: "raw = encUint32 (Version ?tx) @ putVarInt (of_nat (length (Inputs ?tx)))
       @ concat (map encodeInput (zip (Inputs ?tx) usigs))
       @ putVarInt (of_nat (length (Outputs ?tx))) @ concat (map encodeOutput (Outputs ?tx))
       @ encUint32 (LockTime ?tx)"
    by (rule Serialize_Inr [OF ser])
  have pids: "\<forall>inp \<in> set (Inputs ?tx). length (PrevTxID inp) = 32"
    using ids sub by (auto simp: shape(1) coinInput_def)
  have "list_all outOk (Outputs ?tx)"
    unfolding shape(2) using cat crypto by (intro nameOutputs_ok) simp_all
  from parseTx_layout [OF assms(11) lay usl pids this]
  have parse: "parseTx raw = Inr \<lparr>pInputs = map viewIn (Inputs ?tx), pOutputs = map viewOut (Outputs ?tx)\<rparr>" .
  have meta: "parseFNMetadata keyOk \<lparr>pInputs = map viewIn (Inputs ?tx), pOutputs = map viewOut (Outputs ?tx)\<rparr> label
      = Some (fnRebindTag, newOwner)"
    using assms(8,9,10) by (simp only: parseFNMetadata_def parsedTx.select_convs shape(2))
      (intro nameOutputs_metadata, simp_all)
  have outv: "outputValue ?tx = sum_list (map (\<lambda>out. sint (pValue out)) (map viewOut (Outputs ?tx)))"
    by (simp add: outputValue_def viewOut_def comp_def)
  have inp: "map viewIn (Inputs ?tx) = map (\<lambda>u. \<lparr>pPrevTxID = wTxid u, pPrevIndex = wIndex u\<rparr>) (nft # funding)"
    by (simp add: shape(1) viewIn_def coinInput_def)
  show ?thesis
    using parse meta coins t(2,3) cov(2,3) few selectFunding_stops [OF ok fund [unfolded rebind_need]] inp
      shape(3) [unfolded outv]
    by (intro exI conjI)
      (auto simp: shape(2) nameOutputs_def changeOutput_def viewOut_def tokenDustLimit_def dustLimit_def)
qed

definition demoRebindView :: chainView where
  "demoRebindView = (demoChain [])\<lparr>ListUnspent := (\<lambda>_. Inr
     [\<lparr>uHeight = 10, uTxPos = 0, uTxHash = hexEncode (replicate 32 9), uValue = 1000,
       uTokenData = Some \<lparr>tdCategory = hexEncode (replicate 32 5), tdAmount = ''0'',
         tdNFT = Some \<lparr>nftCapability = ''mutable'', nftCommitment = []\<rparr>\<rparr>\<rparr>,
      \<lparr>uHeight = 10, uTxPos = 0, uTxHash = hexEncode (replicate 32 2), uValue = 9000, uTokenData = None\<rparr>])\<rparr>"

lemma demo_rebind_utxos: "utxos demoCrypto demoRebindView w = Inr [demoNFT, demoCoin 2 9000]"
  by (simp add: utxos_def demoRebindView_def toWalletUTXO_def demoCoin_def demoNFT_def reverseBytes_def
      electrumToTokenInfo_def Let_def mustDecodeHex_def [of "[]"] decodeHexLenient_def [of "[]"])

lemma demo_rebind_built:
  "\<exists>raw. BuildRebindTx demoCrypto demoRebindView (newWallet demoCrypto ''chipnet'' ()) ''abc'' (replicate 32 5) [5] = Inr raw
     \<and> length raw < 2 ^ 63"
proof -
  let ?w = "newWallet demoCrypto ''chipnet'' ()"
  have sel: "findNFT [demoNFT, demoCoin 2 9000] (replicate 32 5) = Some demoNFT"
    "selectFunding [demoNFT, demoCoin 2 9000] (dustLimit + estimateFee 3 4) = Inr ([demoCoin 2 9000], 9000)"
    by (simp_all add: findNFT_def selectFunding_def rebind_need demoNFT_def demoCoin_def int64_id)
  have "\<exists>raw. Serialize demoCrypto (rebindTxOf demoCrypto ?w ''abc'' (replicate 32 5) [5] demoNFT [demoCoin 2 9000] 9000) [(), ()]
      = Inr raw \<and> length raw < 2 ^ 63"
    by (simp add: Serialize_def rebindTxOf_def newTx_def nameOutputs_def changeOutput_def validate_def hasNFT_def
        signInput_def sigHashPreimage_def appendPush_def encodeInput_def encodeOutput_def Let_def putVarBytes_def
        length_putVarInt tokenPrefix_def encodeTokenPrefix_def opReturnScript_def p2pkhScript_def demoCoin_def demoNFT_def
        walletScript_def markerScript_def markerPubKeyHash_def coinInput_def fnRebindTag_def newWallet_def
        tokenDustLimit_def dustLimit_def estimateFee_eq int64_id)
  then show ?thesis by (simp add: BuildRebindTx_def demo_rebind_utxos sel newTx_def newWallet_def)
qed

theorem rebind_safe_witness:
  "\<exists>raw tx nft (funding :: walletUTXO list).
     BuildRebindTx demoCrypto demoRebindView (newWallet demoCrypto ''chipnet'' ()) ''abc'' (replicate 32 5) [5] = Inr raw
     \<and> parseTx raw = Inr tx \<and> parseFNMetadata (\<lambda>_. True) tx ''abc'' = Some (fnRebindTag, [5])
     \<and> mset (nft # funding) \<subseteq># mset [demoNFT, demoCoin 2 9000]
     \<and> pInputs tx = map (\<lambda>u. \<lparr>pPrevTxID = wTxid u, pPrevIndex = wIndex u\<rparr>) (nft # funding)"
proof -
  obtain raw where raw: "BuildRebindTx demoCrypto demoRebindView (newWallet demoCrypto ''chipnet'' ()) ''abc'' (replicate 32 5) [5] = Inr raw"
    "length raw < 2 ^ 63" using demo_rebind_built by blast
  have h: "amountsOk [demoNFT, demoCoin 2 9000]"
    "\<forall>u \<in> set [demoNFT, demoCoin 2 9000]. (if wToken u = None then 546 else 1000) \<le> wValue u"
    "\<forall>u \<in> set [demoNFT, demoCoin 2 9000]. length (wTxid u) = 32"
    by (simp_all add: amountsOk_def demoCoin_def demoNFT_def)
  have c: "length (replicate 32 (5 :: byte)) = 32" "\<forall>b. length (hash160 demoCrypto b) = 20"
    "length ''abc'' \<le> 63" "length [5 :: byte] \<le> 0xffff" "(\<lambda>_. True) [5 :: byte]" by simp_all
  from rebind_safe [OF raw(1) demo_rebind_utxos h c raw(2)] raw(1) show ?thesis by blast
qed

end
