(* ===== verification/ChainCli.thy ===== *)
theory ChainCli
  imports ConfigProps Wallet
begin

text \<open>
  The commands on Bitcoin Cash that only read: \<open>cliWallet\<close> and \<open>cliWhois\<close> of
  \<open>internal/cli/bchcli.go\<close>, and the choice of servers all four share. Results are what is printed.
\<close>

section \<open>The wallet\<close>

datatype chainErr = ChainUsage | NoElectrum | WalletFailed | ChainName nameErr | ChainRegistry registryErr

text \<open>\<open>load\<close> opens or creates the wallet's key for a network; the servers are those configured.\<close>

definition bchWalletFromEnv :: "config \<Rightarrow> (string \<Rightarrow> 'k bchWallet option) \<Rightarrow> chainErr + 'k bchWallet" where
  "bchWalletFromEnv cfg load =
     (if BCHElectrum cfg = [] then Inl NoElectrum
      else case load (BCHNetwork cfg) of None \<Rightarrow> Inl WalletFailed | Some w \<Rightarrow> Inr w)"

record walletReport =
  wrNetwork :: string
  wrAddress :: string
  wrHoldings :: "(int \<times> nat) option"
  wrFaucetHint :: bool

definition cliWallet ::
    "'k crypto \<Rightarrow> chainView \<Rightarrow> config \<Rightarrow> (string \<Rightarrow> 'k bchWallet option) \<Rightarrow> chainErr + walletReport" where
  "cliWallet C V cfg load =
     bindR (bchWalletFromEnv cfg load) (\<lambda>w.
       Inr (case Holdings C V w of
              Inl _ \<Rightarrow> \<lparr>wrNetwork = wNetwork w, wrAddress = walletAddress w, wrHoldings = None, wrFaucetHint = False\<rparr>
            | Inr (balance, nfts) \<Rightarrow>
                \<lparr>wrNetwork = wNetwork w, wrAddress = walletAddress w, wrHoldings = Some (balance, nfts),
                 wrFaucetHint = (balance = 0 \<and> wNetwork w = ''chipnet'')\<rparr>))"

section \<open>Whois\<close>

record whoisReport =
  whLabel :: string
  whID :: string
  whName :: string
  whPubKey :: string

definition cliWhois ::
    "'k crypto \<Rightarrow> (bytes \<Rightarrow> bool) \<Rightarrow> chainView \<Rightarrow> (string \<Rightarrow> string) \<Rightarrow> hashlib \<Rightarrow> config \<Rightarrow> int \<Rightarrow> string list
      \<Rightarrow> chainErr + whoisReport" where
  "cliWhois C ok V uni H cfg now args =
     (case args of
        [arg] \<Rightarrow>
          (case NormalizeName uni arg of
             Inl e \<Rightarrow> Inl (ChainName e)
           | Inr label \<Rightarrow>
               if BCHElectrum cfg = [] then Inl NoElectrum
               else case fst (ResolveOwner C ok V uni (BCHMinConf cfg) now now (label @ ''.'' @ TLD) []) of
                 Inl e \<Rightarrow> Inl (ChainRegistry e)
               | Inr pub \<Rightarrow>
                   (case PubKeyID H pub of
                      Inl e \<Rightarrow> Inl (ChainName e)
                    | Inr i \<Rightarrow> Inr \<lparr>whLabel = label, whID = i, whName = label @ ''.'' @ i @ ''.'' @ TLD, whPubKey = hexEncode pub\<rparr>))
      | _ \<Rightarrow> Inl ChainUsage)"

section \<open>Both spellings lead to the same records\<close>

lemma bare_label_name:
  assumes "NormalizeName uni arg = Inr l"
  shows "CanonicalName uni (l @ ''.'' @ TLD) = l @ ''.'' @ TLD" "IsBareName H uni (l @ ''.'' @ TLD)"
proof -
  note l = NormalizeName_Inr(2-5) [OF assms]
  show can: "CanonicalName uni (l @ ''.'' @ TLD) = l @ ''.'' @ TLD" by (rule CanonicalName_label(2) [OF l(3,1)])
  have "splitOn CHR ''.'' (l @ CHR ''.'' # TLD) = [l, TLD]"
    unfolding splitOn_append_sep splitOn_single [OF l(4)] by (simp add: TLD_def)
  then have "ParseName uni (l @ ''.'' @ TLD) = Inl ErrNotFNName"
    unfolding ParseName_def can by simp
  with can show "IsBareName H uni (l @ ''.'' @ TLD)"
    using hasSuffix_append [of l "''.'' @ TLD"] by (simp only: IsBareName_def) simp
qed

text \<open>The name \<open>whois\<close> prints is the name asked about. The self-certifying name it gives for a bare
  label and the bare name itself, which the resolver looks up in the same registry, stand for the same
  DHT key, so both resolve to the owner's records.\<close>

theorem whois_name_equivalent:
  assumes H: "hashlib_ok H" and w: "cliWhois C ok V uni H cfg now args = Inr w"
  shows "\<exists>key. DHTKeyForName uni (whName w) = Inr key
     \<and> fst (dhtKeyForName H uni (Some (\<lambda>cache name. ResolveOwner C ok V uni (BCHMinConf cfg) now now name cache))
          (CanonicalName uni (whLabel w @ ''.fn'')) []) = Inr key"
proof -
  from w obtain arg where "args = [arg]" by (auto simp: cliWhois_def split: list.splits)
  with w obtain label pub i where l: "NormalizeName uni arg = Inr label"
    and r: "fst (ResolveOwner C ok V uni (BCHMinConf cfg) now now (label @ ''.'' @ TLD) []) = Inr pub"
    and i: "PubKeyID H pub = Inr i"
    and wh: "w = \<lparr>whLabel = label, whID = i, whName = label @ ''.'' @ i @ ''.'' @ TLD, whPubKey = hexEncode pub\<rparr>"
    by (auto simp: cliWhois_def split: sum.splits if_splits)
  obtain cache where ro: "ResolveOwner C ok V uni (BCHMinConf cfg) now now (label @ ''.'' @ TLD) [] = (Inr pub, cache)"
    using r by (metis prod.collapse)
  note n = NormalizeName_Inr(2-5) [OF l]
  from PubKeyID_ok [OF H, of pub] i have ii: "i \<noteq> []" "list_all alnumLower i" by auto
  have ascii: "isASCII label" and low: "map lowerChar label = label"
    using n(3) by (auto simp: isASCII_def list_all_iff labelChar_def less_eq_char_def lowerChar_def intro!: map_idI)
  have "CanonicalName uni (whName w) = label @ ''.'' @ i @ ''.'' @ TLD"
    using CanonicalName_full [OF ascii ii(2), of "whName w" uni] low by (simp add: wh)
  from ParseName_parts [OF this n(1) ii(1) alnumLower_no_dot [OF ii(2)]]
  have "DHTKeyForName uni (whName w) = Inr (''/'' @ dhtNamespace @ ''/'' @ i)" by (simp add: DHTKeyForName_def)
  moreover have "dhtKeyForName H uni (Some (\<lambda>cache name. ResolveOwner C ok V uni (BCHMinConf cfg) now now name cache))
          (CanonicalName uni (label @ ''.'' @ TLD)) [] = (Inr (''/'' @ dhtNamespace @ ''/'' @ i), cache)"
    unfolding bare_label_name(1) [OF l] dhtKeyForName_def
    using bare_label_name(2) [OF l, of H] ro i by (simp add: DHTKeyForPubKey_def)
  ultimately show ?thesis by (simp add: wh TLD_def)
qed

theorem whois_name_equivalent_witness:
  "\<exists>V w key. cliWhois demoCrypto (\<lambda>_. True) V id demoHashlib demoConfig 0 [''abc''] = Inr w
     \<and> DHTKeyForName id (whName w) = Inr key"
proof -
  obtain raw where "parseTx raw = Inr \<lparr>pInputs = map viewIn (Inputs demoClaimTx), pOutputs = map viewOut (Outputs demoClaimTx)\<rparr>"
    using demoClaim_raw by blast
  then have r: "resolve demoCrypto (\<lambda>_. True) (demoChain raw) 1 ''abc'' = Inr [5]" by (rule demo_lookup)
  have n: "NormalizeName id ''abc'' = Inr ''abc''" "NormalizeName id (''abc'' @ ''.'' @ TLD) = Inr ''abc''" by code_simp+
  have cfg: "BCHMinConf demoConfig = 1" "BCHElectrum demoConfig \<noteq> []"
    by (simp_all add: demoConfig_def LoadConfigForRole_def Let_def demoConf_def minConfOf_def envOr_def
      defaultBCHElectrumServers_def bchMainnetElectrum_def)
  have "fst (ResolveOwner demoCrypto (\<lambda>_. True) (demoChain raw) id 1 0 0 (''abc'' @ ''.'' @ TLD) []) = Inr [5]"
    by (simp only: ResolveOwner_def n sum.case Let_def map_of.simps option.case r fst_conv)
  moreover obtain i where "PubKeyID demoHashlib [5] = Inr i" using PubKeyID_ok [OF demoHashlib_ok] by blast
  ultimately obtain w where w: "cliWhois demoCrypto (\<lambda>_. True) (demoChain raw) id demoHashlib demoConfig 0 [''abc''] = Inr w"
    by (simp only: cliWhois_def list.case n sum.case cfg if_False)
  from whois_name_equivalent [OF demoHashlib_ok w] w show ?thesis by blast
qed

end
