(* ===== verification/UrlQuery.thy ===== *)
theory UrlQuery
  imports GoStrings
begin

text \<open>
  Query strings, the part of Go's \<open>net/url\<close> that both ends of the local API use: \<open>url.Values.Encode\<close>
  on the command line's side, \<open>URL.Query().Get\<close> on the server's.
\<close>

section \<open>Escaping\<close>

definition unreserved :: "char \<Rightarrow> bool" where
  "unreserved c \<longleftrightarrow> alnumLower c \<or> CHR ''A'' \<le> c \<and> c \<le> CHR ''Z'' \<or> c \<in> set ''-_.~''"

definition hexUpper :: "nat \<Rightarrow> char" where
  "hexUpper n = char_of (if n < 10 then n + 48 else n + 55)"

definition hexValue :: "char \<Rightarrow> nat option" where
  "hexValue c =
     (let n = of_char c in
      if 48 \<le> n \<and> n \<le> 57 then Some (n - 48)
      else if 65 \<le> n \<and> n \<le> 70 then Some (n - 55)
      else if 97 \<le> n \<and> n \<le> 102 then Some (n - 87)
      else None)"

definition escapeChar :: "char \<Rightarrow> string" where
  "escapeChar c =
     (if unreserved c then [c]
      else if c = CHR '' '' then ''+''
      else [CHR ''%'', hexUpper (of_char c div 16), hexUpper (of_char c mod 16)])"

definition queryEscape :: "string \<Rightarrow> string" where
  "queryEscape s = concat (map escapeChar s)"

fun queryUnescape :: "string \<Rightarrow> string option" where
  "queryUnescape [] = Some []"
| "queryUnescape (c # rest) =
     (if c = CHR ''%'' then
        (case rest of
           h # l # rest' \<Rightarrow>
             (case (hexValue h, hexValue l) of
                (Some a, Some b) \<Rightarrow> map_option (Cons (char_of (16 * a + b))) (queryUnescape rest')
              | _ \<Rightarrow> None)
         | _ \<Rightarrow> None)
      else map_option (Cons (if c = CHR ''+'' then CHR '' '' else c)) (queryUnescape rest))"

section \<open>Values\<close>

text \<open>\<open>Encode\<close> of values with one entry per key, which it sorts.\<close>

definition encodeParams :: "(string \<times> string) list \<Rightarrow> string" where
  "encodeParams ps = joinWith CHR ''&'' (map (\<lambda>(k, v). queryEscape k @ ''='' @ queryEscape v) (sort_key fst ps))"

text \<open>A field with a semicolon or a bad escape is skipped, as is an empty one.\<close>

definition queryField :: "string \<Rightarrow> (string \<times> string) option" where
  "queryField f =
     (if f = [] \<or> CHR '';'' \<in> set f then None
      else case (queryUnescape (takeWhile (\<lambda>c. c \<noteq> CHR ''='') f),
                 queryUnescape (drop 1 (dropWhile (\<lambda>c. c \<noteq> CHR ''='') f))) of
        (Some k, Some v) \<Rightarrow> Some (k, v)
      | _ \<Rightarrow> None)"

definition queryGet :: "string \<Rightarrow> string \<Rightarrow> string" where
  "queryGet q k =
     (case map_of (List.map_filter queryField (splitOn CHR ''&'' q)) k of None \<Rightarrow> [] | Some v \<Rightarrow> v)"

section \<open>Facts\<close>

lemma hexValue_hexUpper: "n < 16 \<Longrightarrow> hexValue (hexUpper n) = Some n"
  by (auto simp: hexValue_def hexUpper_def Let_def)

lemma hexUpper_unreserved: "n < 16 \<Longrightarrow> unreserved (hexUpper n)"
  by (auto simp: unreserved_def alnumLower_def hexUpper_def less_eq_char_def)

lemma unreserved_plain: "unreserved c \<Longrightarrow> c \<notin> set ''%+&=;?#/ ''"
  by (auto simp: unreserved_def alnumLower_def less_eq_char_def)

lemma unescape_escapeChar: "queryUnescape (escapeChar c @ t) = map_option (Cons c) (queryUnescape t)"
proof -
  have "of_char c < (256 :: nat)" by (rule of_char_less_256)
  then have b: "of_char c div 16 < (16 :: nat)" "of_char c mod 16 < (16 :: nat)"
    by (simp_all add: less_mult_imp_div_less)
  show ?thesis
    using unreserved_plain [of c] hexValue_hexUpper [OF b(1)] hexValue_hexUpper [OF b(2)]
    by (auto simp: escapeChar_def)
qed

lemma unescape_escape: "queryUnescape (queryEscape s) = Some s"
  by (induction s) (simp_all add: queryEscape_def unescape_escapeChar)

lemma queryEscape_chars: "c \<in> set (queryEscape s) \<Longrightarrow> unreserved c \<or> c = CHR ''+'' \<or> c = CHR ''%''"
proof -
  have "unreserved d \<or> d = CHR ''+'' \<or> d = CHR ''%''" if "d \<in> set (escapeChar e)" for d e
  proof -
    have "of_char e < (256 :: nat)" by (rule of_char_less_256)
    then have "of_char e div 16 < (16 :: nat)" "of_char e mod 16 < (16 :: nat)"
      by (simp_all add: less_mult_imp_div_less)
    with that show ?thesis by (auto simp: escapeChar_def hexUpper_unreserved split: if_splits)
  qed
  then show "c \<in> set (queryEscape s) \<Longrightarrow> ?thesis" by (auto simp: queryEscape_def)
qed

lemma queryEscape_plain:
  "c \<in> set ''&=;?#/ '' \<Longrightarrow> c \<notin> set (queryEscape s)"
  using queryEscape_chars [of c s] unreserved_plain [of c] by auto

lemma queryField_escaped: "queryField (queryEscape k @ ''='' @ queryEscape v) = Some (k, v)"
proof -
  have k: "CHR ''='' \<notin> set (queryEscape k)" by (rule queryEscape_plain) simp
  have "takeWhile (\<lambda>c. c \<noteq> CHR ''='') (queryEscape k @ CHR ''='' # queryEscape v) = queryEscape k"
      "dropWhile (\<lambda>c. c \<noteq> CHR ''='') (queryEscape k @ CHR ''='' # queryEscape v) = CHR ''='' # queryEscape v"
    using takeWhile_upto [OF k] dropWhile_upto [OF k] by auto
  moreover have "CHR '';'' \<notin> set (queryEscape k)" "CHR '';'' \<notin> set (queryEscape v)"
    by (rule queryEscape_plain, simp)+
  ultimately show ?thesis by (simp add: queryField_def unescape_escape)
qed

text \<open>What the server reads is what the client put in, key by key.\<close>

lemma queryGet_encodeParams:
  assumes "ps \<noteq> []" "distinct (map fst ps)"
  shows "queryGet (encodeParams ps) k = (case map_of ps k of None \<Rightarrow> [] | Some v \<Rightarrow> v)"
proof -
  let ?f = "\<lambda>(k, v). queryEscape k @ ''='' @ queryEscape v"
  have amp: "CHR ''&'' \<notin> set (queryEscape s)" for s by (rule queryEscape_plain) simp
  have "splitOn CHR ''&'' (encodeParams ps) = map ?f (sort_key fst ps)"
    unfolding encodeParams_def
  proof (rule splitOn_joinWith)
    have "length (sort_key fst ps) \<noteq> 0" using assms(1) by simp
    then show "map ?f (sort_key fst ps) \<noteq> []" by (simp only: length_0_conv map_is_Nil_conv not_False_eq_True)
  qed (auto simp: amp)
  moreover have "List.map_filter queryField (map ?f qs) = qs" for qs :: "(string \<times> string) list"
  proof (induction qs)
    case (Cons q qs)
    then show ?case using queryField_escaped [of "fst q" "snd q"]
      by (simp add: List.map_filter_simps case_prod_unfold)
  qed (simp add: List.map_filter_simps)
  moreover have "map_of (sort_key fst ps) = map_of ps"
    using assms(2) by (intro map_of_inject_set [THEN iffD2]) (simp_all add: distinct_map)
  ultimately show ?thesis by (simp add: queryGet_def)
qed

end
