(* ===== verification/ApiServer.thy ===== *)
theory ApiServer
  imports HttpContent UrlQuery
begin

text \<open>
  The node's HTTP API as one server: the routes of \<open>StartHTTPServer\<close> in \<open>internal/httpapi/http.go\<close>
  over everything the handlers share, behind the guard; and the HTTP client's side of a request to
  it, as the command line makes one.
\<close>

section \<open>The server\<close>

record ('c, 'r) apiState =
  apiNode :: fnNode
  apiPuts :: puts
  apiCache :: 'c
  apiReg :: 'r
  apiIndex :: contentIndex

text \<open>What stays fixed while the server runs.\<close>

record ('c, 'r) apiEnv =
  eHttp :: httpLib
  eRec :: recordLib
  eLru :: "'c lruLib"
  eUni :: "string \<Rightarrow> string"
  eReg :: "'r registry"
  eDHT :: dhtNet
  eHost :: hostView
  eVersion :: string
  eBootstrap :: bool
  eAuthoringURL :: string
  eContent :: "contentService option"
  eAllowed :: "string list"

text \<open>The clocks of one request: seconds for record expiry, the resolver's two readings, and the
  content service's two.\<close>

record clocks =
  cSec :: int
  cNow :: int
  cLater :: int
  cFetch :: int
  cDone :: int

definition onNode :: "(fnNode \<times> puts) handler \<Rightarrow> ('c, 'r) apiState handler" where
  "onNode h r s = (case h r (apiNode s, apiPuts s) of (resp, n, ps) \<Rightarrow> (resp, s\<lparr>apiNode := n, apiPuts := ps\<rparr>))"

definition apiMux :: "('c, 'r) apiEnv \<Rightarrow> clocks \<Rightarrow> (nat \<Rightarrow> nat) \<Rightarrow> ('c, 'r) apiState handler" where
  "apiMux E t bs r s =
     (let path = rPath r; L = eRec E; n = apiNode s; role = roleFor (eBootstrap E) in
      if path = ''/publish'' then onNode (PublishHandler L (eDHT E) (cSec t)) r s
      else if path = ''/resolve'' then
        (case ResolveHandler (eLru E) L (eUni E) (eReg E) (eDHT E) n (apiPuts s) (cNow t) (cLater t) r (apiCache s, apiReg s) of
           (resp, c, rg) \<Rightarrow> (resp, s\<lparr>apiCache := c, apiReg := rg\<rparr>))
      else if path = ''/record'' then onNode (RecordHandler L (eUni E) (eDHT E)) r s
      else if path = ''/peers'' then (fst (AllPeersHandler (eHost E) r n), s)
      else if path = ''/info'' then (fst (InfoHandler (eHost E) (eVersion E) role r n), s)
      else if path = ''/clear_cache'' then
        (case ClearCacheHandler (eLru E) r (apiCache s) of (resp, c) \<Rightarrow> (resp, s\<lparr>apiCache := c\<rparr>))
      else if path = ''/health'' then (fst (HealthHandler role (eAuthoringURL E) r n), s)
      else if path = ''/content'' then
        (case ContentHandler (hashes L) (eContent E) (cFetch t) (cDone t) bs r (apiIndex s) of
           (resp, ix) \<Rightarrow> (resp, s\<lparr>apiIndex := ix\<rparr>))
      else if path = ''/resolve-content'' then
        (case ResolveContentHandler (eLru E) L (eUni E) (eReg E) (ResolveRecord L (eDHT E) n (apiPuts s)) (cNow t) (cLater t)
                (eContent E) (cFetch t) (cDone t) bs r ((apiCache s, apiReg s), apiIndex s) of
           (resp, (c, rg), ix) \<Rightarrow> (resp, s\<lparr>apiCache := c, apiReg := rg, apiIndex := ix\<rparr>))
      else (httpError 404, s))"

definition apiServer :: "('c, 'r) apiEnv \<Rightarrow> clocks \<Rightarrow> (nat \<Rightarrow> nat) \<Rightarrow> ('c, 'r) apiState handler" where
  "apiServer E t bs = localAPIGuard (eHttp E) (eAllowed E) (apiMux E t bs)"

section \<open>A client's request\<close>

text \<open>The text of a reply; only records are read back, the others are \<open>render\<close>.\<close>

definition bodyText :: "recordLib \<Rightarrow> (payload \<Rightarrow> bytes) \<Rightarrow> payload \<Rightarrow> bytes" where
  "bodyText L render p =
     (case p of PRecord rec \<Rightarrow> (case recEncode L rec of None \<Rightarrow> [] | Some b \<Rightarrow> b) | _ \<Rightarrow> render p)"

text \<open>Go's client sends neither an origin nor fetch metadata; the host is that of the URL.\<close>

definition clientRequest :: "string \<Rightarrow> string \<Rightarrow> string \<Rightarrow> string \<Rightarrow> source \<Rightarrow> request" where
  "clientRequest host peer method target body =
     \<lparr>rMethod = method, rHost = host, rRemote = peer, rPath = takeWhile (\<lambda>c. c \<noteq> CHR ''?'') target,
      rHeader = (\<lambda>h. []), rQuery = queryGet (drop 1 (dropWhile (\<lambda>c. c \<noteq> CHR ''?'') target)), rBody = body\<rparr>"

text \<open>A request to a node that serves at \<open>http://host\<close>; any other URL has nobody listening.\<close>

definition nodeDo ::
    "('c, 'r) apiEnv \<Rightarrow> clocks \<Rightarrow> (nat \<Rightarrow> nat) \<Rightarrow> (payload \<Rightarrow> bytes) \<Rightarrow> string \<Rightarrow> string
      \<Rightarrow> string \<Rightarrow> string \<Rightarrow> source \<Rightarrow> ('c, 'r) apiState \<Rightarrow> (nat \<times> source) option \<times> ('c, 'r) apiState" where
  "nodeDo E t bs render host peer method url body s =
     (let base = ''http://'' @ host in
      if \<not> hasPrefix url base then (None, s)
      else
        (case apiServer E t bs (clientRequest host peer method (trimPrefix url base) body) s of
           (resp, s') \<Rightarrow>
             (Some (rsStatus resp, \<lparr>srcData = bodyText (eRec E) render (rsPayload resp), srcFails = False\<rparr>), s')))"

section \<open>Facts\<close>

lemma guard_passes:
  "hostAllowed W host allowed \<Longrightarrow>
     localAPIGuard W allowed h (clientRequest host peer method target body) s
       = h (clientRequest host peer method target body) s"
  by (simp add: localAPIGuard_def crossSite_def originAllowed_def clientRequest_def Let_def)

lemma takeWhile_all: "c \<notin> set s \<Longrightarrow> takeWhile (\<lambda>d. d \<noteq> c) s = s"
  by (induction s) auto

lemma clientRequest_path:
  "CHR ''?'' \<notin> set path \<Longrightarrow> rPath (clientRequest host peer method path body) = path"
  "CHR ''?'' \<notin> set path \<Longrightarrow> rPath (clientRequest host peer method (path @ CHR ''?'' # q) body) = path"
  "CHR ''?'' \<notin> set path \<Longrightarrow> rQuery (clientRequest host peer method (path @ CHR ''?'' # q) body) = queryGet q"
  by (simp_all add: clientRequest_def takeWhile_upto dropWhile_upto takeWhile_all)

lemma nodeDo_mux:
  assumes h: "hostAllowed (eHttp E) host (eAllowed E)"
  shows "nodeDo E t bs render host peer method (''http://'' @ host @ target) body s =
     (case apiMux E t bs (clientRequest host peer method target body) s of (resp, s') \<Rightarrow>
        (Some (rsStatus resp, \<lparr>srcData = bodyText (eRec E) render (rsPayload resp), srcFails = False\<rparr>), s'))"
  unfolding nodeDo_def Let_def apiServer_def append_assoc [symmetric] hasPrefix_append trimPrefix_append
    guard_passes [OF h]
  by (simp only: hasPrefix_append simp_thms if_False)

lemma nodeDo_publish:
  assumes h: "hostAllowed (eHttp E) host (eAllowed E)"
  shows "nodeDo E t bs render host peer ''POST'' (''http://'' @ host @ ''/publish'') body s =
     (case PublishHandler (eRec E) (eDHT E) (cSec t) (clientRequest host peer ''POST'' ''/publish'' body) (apiNode s, apiPuts s) of
        (resp, n, ps) \<Rightarrow>
          (Some (rsStatus resp, \<lparr>srcData = bodyText (eRec E) render (rsPayload resp), srcFails = False\<rparr>),
           s\<lparr>apiNode := n, apiPuts := ps\<rparr>))"
proof -
  have p: "rPath (clientRequest host peer ''POST'' ''/publish'' body) = ''/publish''"
    by (rule clientRequest_path) simp
  show ?thesis unfolding nodeDo_mux [OF h] apiMux_def Let_def p onNode_def by (simp split: prod.splits)
qed

lemma nodeDo_record:
  assumes h: "hostAllowed (eHttp E) host (eAllowed E)"
  shows "nodeDo E t bs render host peer ''GET'' (''http://'' @ host @ ''/record?'' @ q) body s =
     (case RecordHandler (eRec E) (eUni E) (eDHT E) (clientRequest host peer ''GET'' (''/record?'' @ q) body) (apiNode s, apiPuts s) of
        (resp, n, ps) \<Rightarrow>
          (Some (rsStatus resp, \<lparr>srcData = bodyText (eRec E) render (rsPayload resp), srcFails = False\<rparr>),
           s\<lparr>apiNode := n, apiPuts := ps\<rparr>))"
proof -
  have p: "rPath (clientRequest host peer ''GET'' (''/record?'' @ q) body) = ''/record''"
    using clientRequest_path(2) [of "''/record''" host peer "''GET''" q body] by simp
  show ?thesis unfolding nodeDo_mux [OF h] apiMux_def Let_def p onNode_def by (simp split: prod.splits)
qed

end
