(* ===== verification/Cli.thy ===== *)
theory Cli
  imports ApiServer Config "HOL-Library.AList"
begin

text \<open>
  The command line: \<open>internal/cli/cli.go\<close> and \<open>contentcli.go\<close>. A command gets its arguments and
  works on the key directory, where the staged records of a label are a file next to its key, and on
  a node reached over HTTP. Printing is left out: a command's result is what it would print.
\<close>

section \<open>Arguments\<close>

definition isFlag :: "string \<Rightarrow> bool" where
  "isFlag a \<longleftrightarrow> length a \<ge> 2 \<and> take 2 a = ''--''"

text \<open>The first argument that is not a flag, and the others.\<close>

fun popPositional :: "string list \<Rightarrow> string \<times> string list" where
  "popPositional [] = ([], [])"
| "popPositional (a # args) =
     (if isFlag a then (case popPositional args of (p, rest) \<Rightarrow> (p, a # rest)) else (a, args))"

text \<open>Up to \<open>n\<close> positional arguments; a flag takes the argument after it along.\<close>

fun popPositionals :: "nat \<Rightarrow> string list \<Rightarrow> string list \<times> string list" where
  "popPositionals n [] = ([], [])"
| "popPositionals n [a] = (if \<not> isFlag a \<and> n > 0 then ([a], []) else ([], [a]))"
| "popPositionals n (a # b # args) =
     (if isFlag a then (case popPositionals n args of (ps, fs) \<Rightarrow> (ps, a # b # fs))
      else if n > 0 then (case popPositionals (n - 1) (b # args) of (ps, fs) \<Rightarrow> (a # ps, fs))
      else (case popPositionals 0 (b # args) of (ps, fs) \<Rightarrow> (ps, a # fs)))"

fun flagValue :: "string list \<Rightarrow> string \<Rightarrow> string \<Rightarrow> string" where
  "flagValue (a # b # args) name fallback = (if a = name then b else flagValue (b # args) name fallback)"
| "flagValue _ name fallback = fallback"

text \<open>\<open>fmt.Sscanf(s, "%d", &parsed)\<close> into a \<open>uint64\<close>, for text that does not start with white space
  beyond ASCII: leading blanks are skipped, but not a newline, and whatever follows the digits is
  ignored.\<close>

definition scanUint :: "string \<Rightarrow> nat option" where
  "scanUint s =
     (let ds = takeWhile isDigit (dropWhile isSpaceC s) in
      if CHR 0x0A \<in> set (takeWhile isSpaceC s) \<or> ds = [] \<or> digitsVal ds \<ge> 2 ^ 64 then None
      else Some (digitsVal ds))"

section \<open>The keys directory\<close>

datatype cliErr =
    Usage | CliAuth authErr | NoHome | KeysDirErr | BadTTL string | StageRead | StageDecode | StageEncode | StageWrite
  | StageRemove | NothingStaged string | CliRecords recErr | CliMarshal | NoReply | Rejected nat | BadReply | NoFile string
  | UnknownCommand string

text \<open>What the operating system and the node answer: the home directory, creating and securing
  \<open>~/.freedom/keys\<close>, the user's files, HTTP requests (method, URL, body) and the JSON forms.\<close>

record 's cliLib =
  hasHome :: bool
  mkdirOk :: bool
  chmodOk :: bool
  userFile :: "string \<Rightarrow> source option"
  httpDo :: "string \<Rightarrow> string \<Rightarrow> source \<Rightarrow> 's \<Rightarrow> (nat \<times> source) option \<times> 's"
  stagedEncode :: "RR list \<Rightarrow> bytes option"
  stagedDecode :: "bytes \<Rightarrow> RR list option"
  hashField :: "bytes \<Rightarrow> string option"

definition NewDefault :: "'s cliLib \<Rightarrow> cliErr + unit" where
  "NewDefault S =
     (if \<not> hasHome S then Inl NoHome else if \<not> mkdirOk S then Inl KeysDirErr
      else if \<not> chmodOk S then Inl KeysDirErr else Inr ())"

definition keysDir :: "'s cliLib \<Rightarrow> cliErr + unit" where
  "keysDir S = (if \<not> hasHome S then Inl NoHome else if \<not> mkdirOk S then Inl KeysDirErr else Inr ())"

text \<open>An error of the authoring service is passed on.\<close>

definition fromAuth :: "authErr + 'a \<Rightarrow> cliErr + 'a" where
  "fromAuth m = (case m of Inl e \<Rightarrow> Inl (CliAuth e) | Inr x \<Rightarrow> Inr x)"

definition stageSuffix :: string where "stageSuffix = ''.records.json''"

definition stagePath :: "'s cliLib \<Rightarrow> string \<Rightarrow> cliErr + string" where
  "stagePath S label =
     bindR (fromAuth (CheckLabel label)) (\<lambda>_. bindR (keysDir S) (\<lambda>_. Inr (label @ stageSuffix)))"

text \<open>\<open>os.WriteFile\<close>: an existing file keeps its place and loses its content before the new one is
  written; false for a failure, after which the file may hold part of it.\<close>

definition writeFile :: "fileFaults \<Rightarrow> string \<Rightarrow> bytes \<Rightarrow> keyDir \<Rightarrow> bool \<times> keyDir" where
  "writeFile F path b dir =
     (if map_of dir path = Some SubDir \<or> \<not> openOk F then (False, dir)
      else if \<not> writeOk F then (False, AList.update path (KeyFile (partialBytes F)) dir)
      else (closeOk F, AList.update path (KeyFile b) dir))"

section \<open>Staged records\<close>

definition loadStaged :: "'s cliLib \<Rightarrow> keyDir \<Rightarrow> string \<Rightarrow> cliErr + RR list" where
  "loadStaged S dir label =
     bindR (stagePath S label) (\<lambda>path.
       case map_of dir path of
         None \<Rightarrow> Inr []
       | Some SubDir \<Rightarrow> Inl StageRead
       | Some (KeyFile b) \<Rightarrow> (case stagedDecode S b of None \<Rightarrow> Inl StageDecode | Some rs \<Rightarrow> Inr rs))"

definition saveStaged :: "'s cliLib \<Rightarrow> fileFaults \<Rightarrow> string \<Rightarrow> RR list \<Rightarrow> keyDir \<Rightarrow> (cliErr + unit) \<times> keyDir" where
  "saveStaged S F label rs dir =
     (case stagePath S label of
        Inl e \<Rightarrow> (Inl e, dir)
      | Inr path \<Rightarrow>
          (case stagedEncode S rs of
             None \<Rightarrow> (Inl StageEncode, dir)
           | Some b \<Rightarrow>
               (case writeFile F path b dir of
                  (ok, dir') \<Rightarrow> (if ok then Inr () else Inl StageWrite, dir'))))"

text \<open>The first record with the same type and value gets the new TTL, in place.\<close>

fun retimeFirst :: "RR \<Rightarrow> RR list \<Rightarrow> RR list option" where
  "retimeFirst new [] = None"
| "retimeFirst new (rr # rest) =
     (if rrType rr = rrType new \<and> rrValue rr = rrValue new then Some (rr\<lparr>rrTTL := rrTTL new\<rparr> # rest)
      else map_option (Cons rr) (retimeFirst new rest))"

definition ttlOf :: "string option \<Rightarrow> cliErr + 32 word" where
  "ttlOf arg =
     (case arg of None \<Rightarrow> Inr 300
      | Some s \<Rightarrow> (case scanUint s of None \<Rightarrow> Inl (BadTTL s) | Some n \<Rightarrow> Inr (word_of_nat n)))"

text \<open>The result is whether a record was updated and how many are staged.\<close>

definition cliSet ::
    "recordLib \<Rightarrow> 's cliLib \<Rightarrow> fileFaults \<Rightarrow> string list \<Rightarrow> keyDir \<Rightarrow> (cliErr + bool \<times> nat) \<times> keyDir" where
  "cliSet L S F args dir =
     (case args of
        label # rtype # val # rest \<Rightarrow>
          (case bindR (ttlOf (if rest = [] then None else Some (hd rest))) (\<lambda>ttl.
                  bindR (loadStaged S dir label) (\<lambda>records.
                    let new = \<lparr>rrType = rtype, rrValue = val, rrTTL = ttl\<rparr> in
                    Inr (case retimeFirst new records of
                           Some rs \<Rightarrow> (True, rs)
                         | None \<Rightarrow> (False, records @ [new])))) of
             Inl e \<Rightarrow> (Inl e, dir)
           | Inr (updated, rs) \<Rightarrow>
               (case ValidateRecords (hashes L) (emptyRecord\<lparr>Label := label, Records := rs\<rparr>) of
                  Inl e \<Rightarrow> (Inl (CliRecords e), dir)
                | Inr _ \<Rightarrow>
                    (case saveStaged S F label rs dir of
                       (Inl e, dir') \<Rightarrow> (Inl e, dir')
                     | (Inr _, dir') \<Rightarrow> (Inr (updated, length rs), dir'))))
      | _ \<Rightarrow> (Inl Usage, dir))"

definition cliClear :: "'s cliLib \<Rightarrow> fileFaults \<Rightarrow> string list \<Rightarrow> keyDir \<Rightarrow> (cliErr + unit) \<times> keyDir" where
  "cliClear S F args dir =
     (case args of
        [label] \<Rightarrow>
          (case stagePath S label of
             Inl e \<Rightarrow> (Inl e, dir)
           | Inr path \<Rightarrow>
               if map_of dir path = None then (Inr (), dir)
               else if removeOk F then (Inr (), filter (\<lambda>e. fst e \<noteq> path) dir)
               else (Inl StageRemove, dir))
      | _ \<Rightarrow> (Inl Usage, dir))"

section \<open>Names\<close>

definition cliKeygen ::
    "recordLib \<Rightarrow> bytes keyLib \<Rightarrow> 's cliLib \<Rightarrow> fileFaults \<Rightarrow> string list \<Rightarrow> keyDir \<Rightarrow> (cliErr + ownedName) \<times> keyDir" where
  "cliKeygen L K S F args dir =
     (case args of
        [label] \<Rightarrow>
          (case NewDefault S of
             Inl e \<Rightarrow> (Inl e, dir)
           | Inr _ \<Rightarrow> (case CreateName L K F label dir of (r, dir') \<Rightarrow> (fromAuth r, dir')))
      | _ \<Rightarrow> (Inl Usage, dir))"

definition cliName :: "recordLib \<Rightarrow> bytes keyLib \<Rightarrow> 's cliLib \<Rightarrow> string list \<Rightarrow> keyDir \<Rightarrow> cliErr + string" where
  "cliName L K S args dir =
     (case args of
        [label] \<Rightarrow> bindR (NewDefault S) (\<lambda>_. bindR (fromAuth (Name L K dir label)) (\<lambda>n. Inr (onName n)))
      | _ \<Rightarrow> Inl Usage)"

section \<open>Talking to a node\<close>

definition defaultAPI :: string where "defaultAPI = ''http://localhost:8420''"

definition noBody :: source where "noBody = \<lparr>srcData = [], srcFails = False\<rparr>"

definition fetchCurrentRecord :: "recordLib \<Rightarrow> 's cliLib \<Rightarrow> string \<Rightarrow> string \<Rightarrow> 's \<Rightarrow> FNRecord option \<times> 's" where
  "fetchCurrentRecord L S api name s =
     (case httpDo S ''GET'' (api @ ''/record?'' @ encodeParams [(''name'', name)]) noBody s of
        (None, s') \<Rightarrow> (None, s')
      | (Some (code, body), s') \<Rightarrow>
          (if code \<noteq> 200 \<or> srcFails body then None else recDecode L (srcData body), s'))"

text \<open>The name published, its sequence number and its expiry.\<close>

definition publishRecords ::
    "recordLib \<Rightarrow> bytes keyLib \<Rightarrow> 's cliLib \<Rightarrow> keyDir \<Rightarrow> int \<Rightarrow> int \<Rightarrow> string \<Rightarrow> string \<Rightarrow> RR list \<Rightarrow> 's
      \<Rightarrow> (cliErr + string \<times> 64 word \<times> 64 word) \<times> 's" where
  "publishRecords L K S dir now later api label recs s =
     (case NewDefault S of
        Inl e \<Rightarrow> (Inl e, s)
      | Inr _ \<Rightarrow>
          (case (case Name L K dir label of
                   Inl _ \<Rightarrow> (None, s)
                 | Inr name \<Rightarrow> fetchCurrentRecord L S api (onName name) s) of
             (current, s1) \<Rightarrow>
               (case BuildRecord L K dir now later label recs current of
                  Inl e \<Rightarrow> (Inl (CliAuth e), s1)
                | Inr rec \<Rightarrow>
                    (case recEncode L rec of
                       None \<Rightarrow> (Inl CliMarshal, s1)
                     | Some payload \<Rightarrow>
                         (case httpDo S ''POST'' (api @ ''/publish'') \<lparr>srcData = payload, srcFails = False\<rparr> s1 of
                            (None, s2) \<Rightarrow> (Inl NoReply, s2)
                          | (Some (code, _), s2) \<Rightarrow>
                              (if code \<noteq> 200 then Inl (Rejected code)
                               else Inr (case fullName (hashes L) (Label rec) (PubKey rec) of Inl _ \<Rightarrow> [] | Inr nm \<Rightarrow> nm,
                                         Seq rec, EOL rec), s2))))))"

definition cliPublish ::
    "recordLib \<Rightarrow> bytes keyLib \<Rightarrow> 's cliLib \<Rightarrow> int \<Rightarrow> int \<Rightarrow> string list \<Rightarrow> keyDir \<Rightarrow> 's
      \<Rightarrow> (cliErr + string \<times> 64 word \<times> 64 word) \<times> 's" where
  "cliPublish L K S now later args dir s =
     (case popPositional args of
        (label, flags) \<Rightarrow>
          if label = [] then (Inl Usage, s)
          else case loadStaged S dir label of
            Inl e \<Rightarrow> (Inl e, s)
          | Inr recs \<Rightarrow>
              if recs = [] then (Inl (NothingStaged label), s)
              else publishRecords L K S dir now later (flagValue flags ''--api'' defaultAPI) label recs s)"

text \<open>The body that is printed.\<close>

definition cliLookup :: "'s cliLib \<Rightarrow> string list \<Rightarrow> 's \<Rightarrow> (cliErr + bytes) \<times> 's" where
  "cliLookup S args s =
     (case popPositional args of
        (name, flags) \<Rightarrow>
          if name = [] then (Inl Usage, s)
          else
            (let rtype = flagValue flags ''--type'' [];
                 params = (if rtype \<noteq> [] then [(''name'', name), (''type'', rtype)] else [(''name'', name)]) in
             case httpDo S ''GET'' (flagValue flags ''--api'' defaultAPI @ ''/resolve?'' @ encodeParams params) noBody s of
               (None, s') \<Rightarrow> (Inl NoReply, s')
             | (Some (code, body), s') \<Rightarrow> (if code \<noteq> 200 then Inl (Rejected code) else Inr (srcData body), s')))"

definition uploadContent :: "'s cliLib \<Rightarrow> string \<Rightarrow> source \<Rightarrow> 's \<Rightarrow> (cliErr + string) \<times> 's" where
  "uploadContent S api body s =
     (case httpDo S ''POST'' (api @ ''/content'') body s of
        (None, s') \<Rightarrow> (Inl NoReply, s')
      | (Some (code, out), s') \<Rightarrow>
          (if code \<noteq> 200 then Inl (Rejected code)
           else case hashField S (srcData out) of
             None \<Rightarrow> Inl BadReply
           | Some h \<Rightarrow> if h = [] then Inl BadReply else Inr h, s'))"

definition cliPut ::
    "recordLib \<Rightarrow> bytes keyLib \<Rightarrow> 's cliLib \<Rightarrow> fileFaults \<Rightarrow> int \<Rightarrow> int \<Rightarrow> string list \<Rightarrow> keyDir \<Rightarrow> 's
      \<Rightarrow> (cliErr + string \<times> 64 word \<times> 64 word) \<times> keyDir \<times> 's" where
  "cliPut L K S F now later args dir s =
     (case popPositionals 2 args of
        ([label, path], flags) \<Rightarrow>
          (let api = flagValue flags ''--api'' defaultAPI; v = flagValue flags ''--ttl'' [] in
           case ttlOf (if v \<noteq> [] then Some v else None) of
             Inl e \<Rightarrow> (Inl e, dir, s)
           | Inr ttl \<Rightarrow>
               (case userFile S path of
                  None \<Rightarrow> (Inl (NoFile path), dir, s)
                | Some body \<Rightarrow>
                    (case uploadContent S api body s of
                       (Inl e, s1) \<Rightarrow> (Inl e, dir, s1)
                     | (Inr hash, s1) \<Rightarrow>
                         (let recs = [\<lparr>rrType = RecordTypeCONTENT, rrValue = hash, rrTTL = ttl\<rparr>] in
                          case saveStaged S F label recs dir of
                            (Inl e, dir') \<Rightarrow> (Inl e, dir', s1)
                          | (Inr _, dir') \<Rightarrow>
                              (case publishRecords L K S dir' now later api label recs s1 of
                                 (r, s2) \<Rightarrow> (r, dir', s2))))))
      | _ \<Rightarrow> (Inl Usage, dir, s))"

section \<open>Dispatch\<close>

text \<open>The exit status of a run: \<open>chain\<close> are the four commands on Bitcoin Cash, which only read the
  key directory and do not use the node.\<close>

definition exitOf :: "cliErr + 'a \<Rightarrow> nat" where
  "exitOf r = (case r of Inl _ \<Rightarrow> 1 | Inr _ \<Rightarrow> 0)"

definition RunCLI ::
    "recordLib \<Rightarrow> bytes keyLib \<Rightarrow> 's cliLib \<Rightarrow> fileFaults \<Rightarrow> (string \<Rightarrow> string list \<Rightarrow> bool) \<Rightarrow> int \<Rightarrow> int
      \<Rightarrow> string list \<Rightarrow> keyDir \<Rightarrow> 's \<Rightarrow> nat \<times> keyDir \<times> 's" where
  "RunCLI L K S F chain now later argv dir s =
     (case argv of
        [] \<Rightarrow> (2, dir, s)
      | cmd # args \<Rightarrow>
          if cmd = ''keygen'' then (case cliKeygen L K S F args dir of (r, dir') \<Rightarrow> (exitOf r, dir', s))
          else if cmd = ''set'' then (case cliSet L S F args dir of (r, dir') \<Rightarrow> (exitOf r, dir', s))
          else if cmd = ''clear'' then (case cliClear S F args dir of (r, dir') \<Rightarrow> (exitOf r, dir', s))
          else if cmd = ''publish'' then
            (case cliPublish L K S now later args dir s of (r, s') \<Rightarrow> (exitOf r, dir, s'))
          else if cmd = ''put'' then (case cliPut L K S F now later args dir s of (r, dir', s') \<Rightarrow> (exitOf r, dir', s'))
          else if cmd = ''name'' then (exitOf (cliName L K S args dir), dir, s)
          else if cmd = ''lookup'' then (case cliLookup S args s of (r, s') \<Rightarrow> (exitOf r, dir, s'))
          else if cmd \<in> {''wallet'', ''claim'', ''adopt'', ''whois''} then (if chain cmd args then 0 else 1, dir, s)
          else if cmd \<in> {''help'', ''-h'', ''--help''} then (0, dir, s)
          else (1, dir, s))"

end
