(* ===== verification/CliProps.thy ===== *)
theory CliProps
  imports Cli HttpProps
begin

text \<open>
  What the command line promises: no command loses an owner key, a staged set is valid and changes
  only where asked, and publishing through a node's API does what the node's own authoring service
  would do.
\<close>

section \<open>Owner keys\<close>

text \<open>Key files that exist keep their content.\<close>

definition keysKept :: "keyDir \<Rightarrow> keyDir \<Rightarrow> bool" where
  "keysKept dir dir' \<longleftrightarrow> (\<forall>l e. map_of dir (l @ ''.key'') = Some e \<longrightarrow> map_of dir' (l @ ''.key'') = Some e)"

lemma keysKept_same [simp]: "keysKept dir dir"
  by (simp add: keysKept_def)

lemma stage_not_key: "l @ ''.key'' \<noteq> l' @ stageSuffix"
proof
  assume "l @ ''.key'' = l' @ stageSuffix"
  then have "last (l @ ''.key'') = last (l' @ stageSuffix)" by (rule arg_cong)
  then show False by (simp add: stageSuffix_def)
qed

lemma stagePath_Inr: "stagePath S label = Inr path \<Longrightarrow> path = label @ stageSuffix"
  by (auto simp: stagePath_def bindR_Inr_iff)

lemma writeFile_other: "x \<noteq> path \<Longrightarrow> writeFile F path b dir = (ok, dir') \<Longrightarrow> map_of dir' x = map_of dir x"
  by (auto simp: writeFile_def update_conv' split: if_splits)

lemma saveStaged_other:
  "saveStaged S F label rs dir = (r, dir') \<Longrightarrow> x \<noteq> label @ stageSuffix \<Longrightarrow> map_of dir' x = map_of dir x"
  by (auto simp: saveStaged_def dest: stagePath_Inr writeFile_other split: sum.splits option.splits prod.splits)

lemma saveStaged_kept: "saveStaged S F label rs dir = (r, dir') \<Longrightarrow> keysKept dir dir'"
  using saveStaged_other stage_not_key unfolding keysKept_def by metis

lemma cliSet_kept: "cliSet L S F args dir = (r, dir') \<Longrightarrow> keysKept dir dir'"
  by (auto simp: cliSet_def dest: saveStaged_kept split: list.splits sum.splits prod.splits)

lemma map_of_filter_other: "x \<noteq> path \<Longrightarrow> map_of (filter (\<lambda>e. fst e \<noteq> path) dir) x = map_of dir x"
  by (induction dir) auto

lemma cliClear_kept: "cliClear S F args dir = (r, dir') \<Longrightarrow> keysKept dir dir'"
proof -
  assume c: "cliClear S F args dir = (r, dir')"
  have "keysKept dir (filter (\<lambda>e. fst e \<noteq> l @ stageSuffix) dir)" for l
    using stage_not_key by (simp add: keysKept_def map_of_filter_other)
  with c show ?thesis
    by (auto simp: cliClear_def dest!: stagePath_Inr split: list.splits sum.splits if_splits)
qed

lemma map_of_added: "map_of dir x = Some e \<Longrightarrow> map_of (dir @ new) x = Some e"
  by (simp add: map_add_def)

lemma removeFile_kept:
  "map_of dir path = None \<Longrightarrow> map_of dir x = Some e \<Longrightarrow> map_of (removeFile F path (dir @ [(path, f)])) x = Some e"
  by (cases "x = path") (auto simp: removeFile_def map_of_filter_other map_of_added simp del: map_of_append)

lemma CreateName_kept: "CreateName L K F label dir = (r, dir') \<Longrightarrow> keysKept dir dir'"
  unfolding keysKept_def CreateName_def
  by (auto simp: Let_def removeFile_kept map_of_added simp del: map_of_append split: sum.splits option.splits if_splits)

lemma cliKeygen_kept: "cliKeygen L K S F args dir = (r, dir') \<Longrightarrow> keysKept dir dir'"
  by (auto simp: cliKeygen_def dest: CreateName_kept split: list.splits sum.splits prod.splits)

lemma cliPut_kept: "cliPut L K S F now later args dir s = (r, dir', s') \<Longrightarrow> keysKept dir dir'"
  by (auto simp: cliPut_def Let_def dest: saveStaged_kept split: prod.splits list.splits sum.splits option.splits)

text \<open>C3: no command loses an owner key. Whatever command is run with whatever arguments, whatever the
  file system and the node do, every label whose key loads before the run loads the same key after
  it.\<close>

theorem owner_keys_survive:
  assumes run: "RunCLI L K S F chain now later argv dir s = (code, dir', s')"
    and key: "LoadKey K dir label = Inr priv"
  shows "LoadKey K dir' label = Inr priv"
proof -
  have "keysKept dir dir'"
    using run
    by (auto simp: RunCLI_def dest: cliKeygen_kept cliSet_kept cliClear_kept cliPut_kept
      split: list.splits if_splits prod.splits)
  with key show ?thesis by (auto simp: LoadKey_Inr keysKept_def)
qed

section \<open>A concrete machine\<close>

text \<open>Staged records are stored as their number; the node never answers.\<close>

definition demoCli :: "unit cliLib" where
  "demoCli =
     \<lparr>hasHome = True, mkdirOk = True, chmodOk = True, userFile = (\<lambda>p. None), httpDo = (\<lambda>m u b s. (None, s)),
      stagedEncode = (\<lambda>rs. if rs = [\<lparr>rrType = ''A'', rrValue = ''10.0.0.1'', rrTTL = 300\<rparr>] then Some [7] else None),
      stagedDecode = (\<lambda>b. Some [\<lparr>rrType = ''A'', rrValue = ''10.0.0.1'', rrTTL = 300\<rparr>]), hashField = (\<lambda>b. None)\<rparr>"

definition demoFaults :: fileFaults where
  "demoFaults = \<lparr>openOk = True, writeOk = False, closeOk = True, removeOk = True, partialBytes = [0]\<rparr>"

theorem owner_keys_survive_witness:
  "LoadKey demoOwner (fst (snd (RunCLI demoLib demoOwner demoCli demoFaults (\<lambda>c a. True) 0 0
      [''keygen'', ''mysite''] demoDir ()))) ''mysite'' = Inr [9]"
proof -
  obtain code dir' s' where r: "RunCLI demoLib demoOwner demoCli demoFaults (\<lambda>c a. True) 0 0
      [''keygen'', ''mysite''] demoDir () = (code, dir', s')" by (metis prod_cases3)
  have k: "LoadKey demoOwner demoDir ''mysite'' = Inr [9]" by (rule demo_LoadKey)
  from owner_keys_survive [OF r k] r show ?thesis by simp
qed

section \<open>Staged records\<close>

text \<open>JSON keeps text that is valid UTF-8, ASCII in particular.\<close>

definition asciiRecords :: "RR list \<Rightarrow> bool" where
  "asciiRecords rs \<longleftrightarrow> list_all (\<lambda>rr. isASCII (rrType rr) \<and> isASCII (rrValue rr)) rs"

definition stageLib_ok :: "'s cliLib \<Rightarrow> bool" where
  "stageLib_ok S \<longleftrightarrow> (\<forall>rs b. asciiRecords rs \<longrightarrow> stagedEncode S rs = Some b \<longrightarrow> stagedDecode S b = Some rs)"

definition sameRecord :: "RR \<Rightarrow> RR \<Rightarrow> bool" where
  "sameRecord new rr \<longleftrightarrow> rrType rr = rrType new \<and> rrValue rr = rrValue new"

lemma retimeFirst_None: "retimeFirst new rs = None \<longleftrightarrow> \<not> list_ex (sameRecord new) rs"
  by (induction rs) (auto simp: sameRecord_def)

lemma retimeFirst_Some:
  "retimeFirst new rs = Some rs' \<Longrightarrow>
     \<exists>a rr b. rs = a @ rr # b \<and> rs' = a @ new # b \<and> sameRecord new rr \<and> \<not> list_ex (sameRecord new) a"
proof (induction rs arbitrary: rs')
  case (Cons rr rs)
  show ?case
  proof (cases "sameRecord new rr")
    case True
    with Cons.prems have "rs' = new # rs" by (auto simp: sameRecord_def)
    with True show ?thesis by (intro exI [of _ "[]"]) simp
  next
    case False
    with Cons.prems obtain t where t: "retimeFirst new rs = Some t" "rs' = rr # t" by (auto simp: sameRecord_def)
    from Cons.IH [OF t(1)] obtain a x b where "rs = a @ x # b" "t = a @ new # b" "sameRecord new x" "\<not> list_ex (sameRecord new) a"
      by blast
    with False t(2) show ?thesis by (intro exI [of _ "rr # a"]) auto
  qed
qed simp

lemma saveStaged_loads:
  assumes S: "stageLib_ok S" and save: "saveStaged S F label rs dir = (Inr (), dir')" and a: "asciiRecords rs"
  shows "loadStaged S dir' label = Inr rs"
proof -
  from save obtain path b where p: "stagePath S label = Inr path" "stagedEncode S rs = Some b"
      "writeFile F path b dir = (True, dir')"
    by (auto simp: saveStaged_def split: sum.splits option.splits prod.splits if_splits)
  then have "map_of dir' path = Some (KeyFile b)" by (auto simp: writeFile_def update_conv' split: if_splits)
  moreover have "stagedDecode S b = Some rs" using S a p(2) by (simp add: stageLib_ok_def)
  ultimately show ?thesis using p(1) by (simp add: loadStaged_def)
qed

lemma cliSet_Inr:
  assumes "cliSet L S F (label # rtype # val # rest) dir = (Inr (updated, n), dir')" and "loadStaged S dir label = Inr old"
  obtains ttl new where "ttlOf (if rest = [] then None else Some (hd rest)) = Inr ttl"
    "(updated, new) = (case retimeFirst \<lparr>rrType = rtype, rrValue = val, rrTTL = ttl\<rparr> old of
        Some rs \<Rightarrow> (True, rs) | None \<Rightarrow> (False, old @ [\<lparr>rrType = rtype, rrValue = val, rrTTL = ttl\<rparr>]))"
    "ValidateRecords (hashes L) (emptyRecord\<lparr>Label := label, Records := new\<rparr>) = Inr ()"
    "saveStaged S F label new dir = (Inr (), dir')" "n = length new"
proof -
  from assms obtain ttl where t: "ttlOf (if rest = [] then None else Some (hd rest)) = Inr ttl"
    by (cases "ttlOf (if rest = [] then None else Some (hd rest))") (auto simp: cliSet_def)
  obtain u new where u: "(u, new) = (case retimeFirst \<lparr>rrType = rtype, rrValue = val, rrTTL = ttl\<rparr> old of
        Some rs \<Rightarrow> (True, rs) | None \<Rightarrow> (False, old @ [\<lparr>rrType = rtype, rrValue = val, rrTTL = ttl\<rparr>]))"
    by (metis surj_pair)
  have "cliSet L S F (label # rtype # val # rest) dir =
      (case ValidateRecords (hashes L) (emptyRecord\<lparr>Label := label, Records := new\<rparr>) of
         Inl e \<Rightarrow> (Inl (CliRecords e), dir)
       | Inr _ \<Rightarrow>
           (case saveStaged S F label new dir of
              (Inl e, dir') \<Rightarrow> (Inl e, dir')
            | (Inr _, dir') \<Rightarrow> (Inr (u, length new), dir')))"
    by (simp only: cliSet_def list.case t assms(2) bindR_simps Let_def u [symmetric] sum.case prod.case)
  with assms(1) have "ValidateRecords (hashes L) (emptyRecord\<lparr>Label := label, Records := new\<rparr>) = Inr ()"
      "saveStaged S F label new dir = (Inr (), dir')" "u = updated" "n = length new"
    by (auto split: sum.splits prod.splits)
  with that [OF t] u show thesis by simp
qed

text \<open>The TTL a \<open>set\<close> command names: 300 seconds without an argument, else the decimal number the
  argument begins with, after any blanks, as a 32-bit word; text after the digits is ignored.\<close>

definition namesTTL :: "string list \<Rightarrow> 32 word \<Rightarrow> bool" where
  "namesTTL rest ttl \<longleftrightarrow>
     (case rest of
        [] \<Rightarrow> ttl = 300
      | arg # _ \<Rightarrow>
          (\<exists>blanks ds junk. arg = blanks @ ds @ junk \<and> list_all isSpaceC blanks \<and> ds \<noteq> [] \<and> list_all isDigit ds
             \<and> (junk = [] \<or> \<not> isDigit (hd junk)) \<and> digitsVal ds < 2 ^ 64 \<and> ttl = of_nat (digitsVal ds)))"

lemma ttlOf_names:
  assumes "ttlOf (if rest = [] then None else Some (hd rest)) = Inr ttl"
  shows "namesTTL rest ttl"
proof (cases rest)
  case Nil
  with assms show ?thesis by (simp add: ttlOf_def namesTTL_def)
next
  case (Cons arg others)
  let ?t = "dropWhile isSpaceC arg"
  from assms Cons have n: "scanUint arg = Some (digitsVal (takeWhile isDigit ?t))"
    "takeWhile isDigit ?t \<noteq> []" "digitsVal (takeWhile isDigit ?t) < 2 ^ 64"
    "ttl = of_nat (digitsVal (takeWhile isDigit ?t))"
    by (auto simp: ttlOf_def scanUint_def Let_def split: if_splits)
  have "arg = takeWhile isSpaceC arg @ takeWhile isDigit ?t @ dropWhile isDigit ?t" by simp
  moreover have "list_all isSpaceC (takeWhile isSpaceC arg)" "list_all isDigit (takeWhile isDigit ?t)"
    by (auto simp: list_all_iff dest: set_takeWhileD)
  moreover have "dropWhile isDigit ?t = [] \<or> \<not> isDigit (hd (dropWhile isDigit ?t))" using hd_dropWhile by blast
  ultimately show ?thesis using n(2-4) unfolding namesTTL_def Cons list.case by metis
qed

text \<open>C39: staging keeps the staged set well-formed. After a successful set the label's records load
  back as a set the validator accepts, of the length reported: the old set with the TTL of the first
  record of the same type and value changed to the one given, or, where there is none, with the new
  record and that TTL at its end; every other record is as it was. The TTL is the one the command names,
  300 if it names none. A set without duplicates stays one; and no other file is touched. The type, the
  value and the records staged before are assumed to be ASCII: the staging file is JSON, and bytes that
  are not UTF-8 do not survive in it.\<close>

theorem staged_set_well_formed:
  assumes S: "stageLib_ok S" and set: "cliSet L S F (label # rtype # val # rest) dir = (Inr (updated, n), dir')"
    and old: "loadStaged S dir label = Inr old" "asciiRecords old" and ascii: "isASCII rtype" "isASCII val"
  shows "\<exists>ttl new. namesTTL rest ttl \<and> loadStaged S dir' label = Inr new \<and> length new = n
     \<and> ValidateRecords (hashes L) (emptyRecord\<lparr>Label := label, Records := new\<rparr>) = Inr ()
     \<and> (if updated
        then \<exists>a y b. old = a @ y # b \<and> rrType y = rtype \<and> rrValue y = val \<and> new = a @ y\<lparr>rrTTL := ttl\<rparr> # b
          \<and> (\<forall>z \<in> set a. \<not> (rrType z = rtype \<and> rrValue z = val))
        else new = old @ [\<lparr>rrType = rtype, rrValue = val, rrTTL = ttl\<rparr>]
          \<and> (\<forall>z \<in> set old. \<not> (rrType z = rtype \<and> rrValue z = val)))
     \<and> (distinct (map (\<lambda>rr. (rrType rr, rrValue rr)) old) \<longrightarrow> distinct (map (\<lambda>rr. (rrType rr, rrValue rr)) new))
     \<and> (\<forall>f. f \<noteq> label @ ''.records.json'' \<longrightarrow> map_of dir' f = map_of dir f)"
proof -
  obtain ttl new where t: "ttlOf (if rest = [] then None else Some (hd rest)) = Inr ttl"
    and c: "(updated, new) = (case retimeFirst \<lparr>rrType = rtype, rrValue = val, rrTTL = ttl\<rparr> old of
        Some rs \<Rightarrow> (True, rs) | None \<Rightarrow> (False, old @ [\<lparr>rrType = rtype, rrValue = val, rrTTL = ttl\<rparr>]))"
    "ValidateRecords (hashes L) (emptyRecord\<lparr>Label := label, Records := new\<rparr>) = Inr ()"
    "saveStaged S F label new dir = (Inr (), dir')" "n = length new"
    by (rule cliSet_Inr [OF set old(1)])
  let ?x = "\<lparr>rrType = rtype, rrValue = val, rrTTL = ttl\<rparr> :: RR"
  have same: "y\<lparr>rrTTL := ttl\<rparr> = ?x" if "rrType y = rtype" "rrValue y = val" for y :: RR
    using that by (cases y) simp
  have shape: "if updated
        then \<exists>a y b. old = a @ y # b \<and> rrType y = rtype \<and> rrValue y = val \<and> new = a @ y\<lparr>rrTTL := ttl\<rparr> # b
          \<and> (\<forall>z \<in> set a. \<not> (rrType z = rtype \<and> rrValue z = val))
        else new = old @ [?x] \<and> (\<forall>z \<in> set old. \<not> (rrType z = rtype \<and> rrValue z = val))"
  proof (cases "retimeFirst ?x old")
    case None
    with c(1) show ?thesis by (auto simp: retimeFirst_None sameRecord_def list_ex_iff)
  next
    case (Some rs)
    from retimeFirst_Some [OF Some] obtain a y b where o: "old = a @ y # b" "rs = a @ ?x # b" "sameRecord ?x y"
      "\<not> list_ex (sameRecord ?x) a" by blast
    then have y: "rrType y = rtype" "rrValue y = val" by (simp_all add: sameRecord_def)
    have "updated" "new = a @ y\<lparr>rrTTL := ttl\<rparr> # b" using c(1) Some o(2) same [OF y] by simp_all
    moreover have "\<forall>z \<in> set a. \<not> (rrType z = rtype \<and> rrValue z = val)" using o(4) by (auto simp: sameRecord_def list_ex_iff)
    ultimately show ?thesis using o(1) y by auto
  qed
  have keys: "distinct (map (\<lambda>rr. (rrType rr, rrValue rr)) old) \<longrightarrow> distinct (map (\<lambda>rr. (rrType rr, rrValue rr)) new)"
    using shape by (cases updated) auto
  have "asciiRecords new"
    using shape old(2) ascii by (cases updated) (auto simp: asciiRecords_def)
  with saveStaged_loads [OF S c(3)] c(2,4) shape keys saveStaged_other [OF c(3)] ttlOf_names [OF t] show ?thesis
    unfolding stageSuffix_def by (intro exI [of _ ttl] exI [of _ new]) simp
qed

theorem staged_set_well_formed_witness:
  "\<exists>dir'. cliSet demoLib demoCli (demoFaults\<lparr>writeOk := True\<rparr>) [''mysite'', ''A'', ''10.0.0.1''] demoDir
       = (Inr (False, 1), dir')
     \<and> loadStaged demoCli dir' ''mysite'' = Inr [\<lparr>rrType = ''A'', rrValue = ''10.0.0.1'', rrTTL = 300\<rparr>]"
proof -
  let ?rr = "[\<lparr>rrType = ''A'', rrValue = ''10.0.0.1'', rrTTL = 300\<rparr>]"
  let ?F = "demoFaults\<lparr>writeOk := True\<rparr>"
  have ok: "stageLib_ok demoCli" by (auto simp: stageLib_ok_def demoCli_def split: if_splits)
  have path: "stagePath demoCli ''mysite'' = Inr (''mysite'' @ stageSuffix)"
    by (simp add: stagePath_def fromAuth_def demo_label keysDir_def demoCli_def)
  have old: "loadStaged demoCli demoDir ''mysite'' = Inr []"
    by (simp add: loadStaged_def path) (simp add: stageSuffix_def demoDir_def)
  have val: "ValidateRecords (hashes demoLib) (emptyRecord\<lparr>Label := ''mysite'', Records := ?rr\<rparr>) = Inr ()"
    using demo_valid [of "hashes demoLib" 1]
    by (simp only: ValidateRecords_Inr) (simp add: emptyRecord_def demoRec_def Let_def)
  obtain dir' where save: "saveStaged demoCli ?F ''mysite'' ?rr demoDir = (Inr (), dir')"
    by (simp add: saveStaged_def path) (simp add: demoCli_def writeFile_def demoFaults_def demoDir_def stageSuffix_def)
  have set: "cliSet demoLib demoCli ?F [''mysite'', ''A'', ''10.0.0.1''] demoDir = (Inr (False, 1), dir')"
    by (simp only: cliSet_def list.case ttlOf_def option.case if_True simp_thms bindR_simps old Let_def
        retimeFirst.simps append_Nil sum.case prod.case val save) simp
  have "asciiRecords []" "isASCII ''A''" "isASCII ''10.0.0.1''" by (simp add: asciiRecords_def, code_simp, code_simp)
  from staged_set_well_formed [OF ok set old this] set show ?thesis by (auto simp: namesTTL_def)
qed

section \<open>Publishing through a node\<close>

lemma RecordHandler_answers:
  assumes "kadDHT n" "rQuery r ''name'' = name" "name \<noteq> []" "DHTKeyForName uni name = Inr key"
    and "ResolveRecord L D n ps key = (case current of None \<Rightarrow> Inl (PubDHT DHTNotFound) | Some c \<Rightarrow> Inr c)"
  shows "RecordHandler L uni D r (n, ps) =
     (case current of None \<Rightarrow> httpError 404 | Some c \<Rightarrow> reply 200 (PRecord c), n, ps)"
  using assms by (cases current) (simp_all add: RecordHandler_def IsInitialized_def resolveErrStatus_def)

lemma fetchCurrentRecord_node:
  assumes E: "hostAllowed (eHttp E) host (eAllowed E)" and S: "httpDo S = nodeDo E t bs render host peer"
    and up: "kadDHT (apiNode s)" and name: "name \<noteq> []" "DHTKeyForName (eUni E) name = Inr key"
    and found: "ResolveRecord (eRec E) (eDHT E) (apiNode s) (apiPuts s) key
       = (case current of None \<Rightarrow> Inl (PubDHT DHTNotFound) | Some c \<Rightarrow> Inr c)"
    and json: "\<forall>c. current = Some c \<longrightarrow> (\<exists>b. recEncode (eRec E) c = Some b \<and> recDecode (eRec E) b = Some c)"
  shows "fetchCurrentRecord (eRec E) S (''http://'' @ host) name s = (current, s)"
proof -
  let ?q = "encodeParams [(''name'', name)]"
  let ?r = "clientRequest host peer ''GET'' (''/record?'' @ ?q) noBody"
  have q: "rQuery ?r ''name'' = name"
    using clientRequest_path(3) [of "''/record''" host peer "''GET''" ?q noBody]
      queryGet_encodeParams [of "[(''name'', name)]" "''name''"] by simp
  have h: "RecordHandler (eRec E) (eUni E) (eDHT E) ?r (apiNode s, apiPuts s) =
      (case current of None \<Rightarrow> httpError 404 | Some c \<Rightarrow> reply 200 (PRecord c), apiNode s, apiPuts s)"
    by (rule RecordHandler_answers [OF up q name found])
  have d: "httpDo S ''GET'' ((''http://'' @ host) @ ''/record?'' @ ?q) noBody s =
      (case current of
         None \<Rightarrow> (Some (404, \<lparr>srcData = render PError, srcFails = False\<rparr>), s)
       | Some c \<Rightarrow> (Some (200, \<lparr>srcData = (case recEncode (eRec E) c of None \<Rightarrow> [] | Some b \<Rightarrow> b), srcFails = False\<rparr>), s))"
    unfolding S append_assoc nodeDo_record [OF E] h
    by (cases current) (simp_all add: httpError_def reply_def bodyText_def)
  show ?thesis
    unfolding fetchCurrentRecord_def d using json by (cases current) auto
qed

lemma PublishHandler_accepts:
  assumes "kadDHT n" "recDecode L v = Some r" "length v \<le> 2 ^ 20" "Verify L now r = Inr u"
    and "PublishRecord L D r n ps = (Inr (), n', ps')"
  shows "PublishHandler L D now (clientRequest host peer ''POST'' ''/publish'' \<lparr>srcData = v, srcFails = False\<rparr>) (n, ps)
     = (reply 200 (PPublished (case fullName (hashes L) (Label r) (PubKey r) of Inl _ \<Rightarrow> [] | Inr nm \<Rightarrow> nm)), n', ps')"
  using assms
  by (simp add: PublishHandler_def IsInitialized_def clientRequest_def readLimited_def maxPublishBody_def)

text \<open>C2: the command line publishes what the authoring service would. Where a node's own service
  publishes a record, \<open>freedom publish\<close> against that node's API, from the same keys at the same time,
  publishes the same record: it finds the current record through the API, builds the same successor,
  the API accepts it, the node ends in the same state, and the command reports its name, sequence
  number and expiry.\<close>

theorem cli_publishes_like_authoring:
  assumes L: "recordLib_ok L" and E: "eRec E = L" "eUni E = uni" "eDHT E = D" "hostAllowed (eHttp E) host (eAllowed E)"
    and S: "NewDefault S = Inr ()" "httpDo S = nodeDo E t bs render host peer"
    and s: "apiNode s = n" "apiPuts s = ps"
    and pub: "Publish L K uni D dir now later label recs n ps = (Inr r, n', ps')"
    and cur: "\<forall>key c. ResolveRecord L D n ps key = Inr c \<longrightarrow> (\<exists>b. recEncode L c = Some b \<and> recDecode L b = Some c)"
    and json: "recEncode L r = Some v" "recDecode L v = Some r" "length v \<le> 2 ^ 20"
    and fresh: "EOL r = 0 \<or> cSec t \<le> sint (EOL r)"
  shows "\<exists>name. fullName (hashes L) (Label r) (PubKey r) = Inr name
     \<and> publishRecords L K S dir now later (''http://'' @ host) label recs s
       = (Inr (name, Seq r, EOL r), s\<lparr>apiNode := n', apiPuts := ps'\<rparr>)"
proof -
  obtain name key current where c: "CheckLabel label = Inr ()" "Name L K dir label = Inr name"
    "DHTKeyForName uni (onName name) = Inr key" "kadDHT n"
    "ResolveRecord L D n ps key = (case current of None \<Rightarrow> Inl (PubDHT DHTNotFound) | Some c \<Rightarrow> Inr c)"
    "BuildRecord L K dir now later label recs current = Inr r" "PublishRecord L D r n ps = (Inr (), n', ps')"
    by (rule Publish_Inr [OF pub])
  obtain i priv sq where p: "PubKeyID (hashes L) (PubKey r) = Inr i" "BuildAndSignRecord L later priv label recs sq = Inr r"
      "ValidateRecords (hashes L) r = Inr ()"
    by (rule published [OF L pub]) (rule that)
  from c(2) obtain pk where "nameForKey L label pk = Inr name" by (auto simp: Name_def bindR_Inr_iff)
  then have ne: "onName name \<noteq> []" by (auto elim: nameForKey_Inr)
  have cur': "\<forall>c. current = Some c \<longrightarrow> (\<exists>b. recEncode L c = Some b \<and> recDecode L b = Some c)"
    using c(5) cur by auto
  have fetch: "fetchCurrentRecord L S (''http://'' @ host) (onName name) s = (current, s)"
    using fetchCurrentRecord_node [OF E(4) S(2), of s "onName name" key current] ne c(3,4,5) cur' unfolding E(1-3) s by blast
  have "Verify L (cSec t) r = Inr ()" using built_verifies [OF L p(2) fresh] p(3) by simp
  note acc = PublishHandler_accepts [OF c(4) json(2,3) this c(7)]
  have post: "\<exists>out. httpDo S ''POST'' ((''http://'' @ host) @ ''/publish'') \<lparr>srcData = v, srcFails = False\<rparr> s
      = (Some (200, out), s\<lparr>apiNode := n', apiPuts := ps'\<rparr>)"
    unfolding S(2) append_assoc nodeDo_publish [OF E(4)] E(1,3) s acc by (simp add: reply_def)
  have full: "fullName (hashes L) (Label r) (PubKey r) = Inr (Label r @ ''.'' @ i @ ''.'' @ TLD)"
    by (simp add: fullName_def p(1))
  from post obtain out where out: "httpDo S ''POST'' ((''http://'' @ host) @ ''/publish'') \<lparr>srcData = v, srcFails = False\<rparr> s
      = (Some (200, out), s\<lparr>apiNode := n', apiPuts := ps'\<rparr>)" ..
  have "publishRecords L K S dir now later (''http://'' @ host) label recs s
      = (Inr (Label r @ ''.'' @ i @ ''.'' @ TLD, Seq r, EOL r), s\<lparr>apiNode := n', apiPuts := ps'\<rparr>)"
    by (simp only: publishRecords_def S(1) sum.case c(2) fetch prod.case c(6) json(1) option.case out full)
      simp
  with full show ?thesis by blast
qed

text \<open>A node on this machine, and a command line that talks to it.\<close>

definition demoEnv :: "((string \<times> cacheRecord) list, unit) apiEnv" where
  "demoEnv =
     \<lparr>eHttp = demoHttp, eRec = demoLib, eLru = demoLru, eUni = id, eReg = None, eDHT = demoDHT 1000,
      eHost = \<lparr>hvMode = ModeAuto, hvPeerID = [], hvListen = [], hvRouting = [], hvNetwork = [], hvSize = None, hvInfos = [], hvProtocols = []\<rparr>,
      eVersion = [], eBootstrap = False, eAuthoringURL = [], eContent = None, eAllowed = []\<rparr>"

definition demoClocks :: clocks where
  "demoClocks = \<lparr>cSec = 1000, cNow = 0, cLater = 0, cFetch = 0, cDone = 0\<rparr>"

definition demoApi :: "((string \<times> cacheRecord) list, unit) apiState" where
  "demoApi = \<lparr>apiNode = demoUp, apiPuts = [], apiCache = [], apiReg = (), apiIndex = demoIndex\<rparr>"

definition demoShell :: "((string \<times> cacheRecord) list, unit) apiState cliLib" where
  "demoShell =
     \<lparr>hasHome = True, mkdirOk = True, chmodOk = True, userFile = (\<lambda>p. None),
      httpDo = nodeDo demoEnv demoClocks (\<lambda>_. 0) (\<lambda>p. []) ''localhost:8420'' ''127.0.0.1:5000'',
      stagedEncode = (\<lambda>rs. None), stagedDecode = (\<lambda>b. None), hashField = (\<lambda>b. None)\<rparr>"

theorem cli_publishes_like_authoring_witness:
  "\<exists>name s'. publishRecords demoLib demoOwner demoShell demoDir 1 1000 defaultAPI ''mysite''
       [\<lparr>rrType = ''A'', rrValue = ''10.0.0.1'', rrTTL = 300\<rparr>] demoApi
     = (Inr (name, Seq (demoRec 1), EOL (demoRec 1)), s') \<and> length (apiPuts s') = 1"
proof -
  obtain key where p: "Publish demoLib demoOwner id (demoDHT 1000) demoDir 1 1000 ''mysite''
      [\<lparr>rrType = ''A'', rrValue = ''10.0.0.1'', rrTTL = 300\<rparr>] demoUp []
    = (Inr (demoRec 1), demoUp\<lparr>owned := [(key, demoRec 1)]\<rparr>, [(key, [1])])"
    using demo_published by blast
  have E: "eRec demoEnv = demoLib" "eUni demoEnv = id" "eDHT demoEnv = demoDHT 1000"
    by (simp_all add: demoEnv_def)
  have "normalizeHost demoHttp ''localhost:8420'' = ''localhost''" by code_simp
  then have h: "hostAllowed (eHttp demoEnv) ''localhost:8420'' (eAllowed demoEnv)"
    by (simp add: hostAllowed_def demoEnv_def)
  have S: "NewDefault demoShell = Inr ()"
    "httpDo demoShell = nodeDo demoEnv demoClocks (\<lambda>_. 0) (\<lambda>p. []) ''localhost:8420'' ''127.0.0.1:5000''"
    by (simp_all add: NewDefault_def demoShell_def)
  have s: "apiNode demoApi = demoUp" "apiPuts demoApi = []" by (simp_all add: demoApi_def)
  have cur: "\<forall>key c. ResolveRecord demoLib (demoDHT 1000) demoUp [] key = Inr c \<longrightarrow>
      (\<exists>b. recEncode demoLib c = Some b \<and> recDecode demoLib b = Some c)"
    by (simp add: ResolveRecord_def demoDHT_def demoUp_def)
  have enc: "recEncode demoLib (demoRec 1) = Some [1]" by (simp add: demoLib_def)
  have len: "length [1 :: 8 word] \<le> 2 ^ 20" by simp
  have fresh: "EOL (demoRec 1) = 0 \<or> cSec demoClocks \<le> sint (EOL (demoRec 1))"
    by (simp add: demo_EOL demoClocks_def)
  have api: "defaultAPI = ''http://'' @ ''localhost:8420''" by (simp add: defaultAPI_def)
  let ?s' = "demoApi\<lparr>apiNode := demoUp\<lparr>owned := [(key, demoRec 1)]\<rparr>, apiPuts := [(key, [1])]\<rparr>"
  from cli_publishes_like_authoring [OF demoLib_ok E h S s p cur enc demo_decode(1) len fresh]
  obtain name where pr: "publishRecords demoLib demoOwner demoShell demoDir 1 1000 defaultAPI ''mysite''
       [\<lparr>rrType = ''A'', rrValue = ''10.0.0.1'', rrTTL = 300\<rparr>] demoApi
     = (Inr (name, Seq (demoRec 1), EOL (demoRec 1)), ?s')"
    unfolding api by blast
  show ?thesis by (rule exI [of _ name], rule exI [of _ ?s'], rule conjI, rule pr) simp
qed

section \<open>Two traps in the arguments\<close>

text \<open>A TTL is reduced to 32 bits after it was parsed into 64, and trailing text is ignored.\<close>

lemma ttl_truncated: "ttlOf (Some ''4294967301'') = Inr 5" "ttlOf (Some ''300 seconds'') = Inr 300"
proof -
  have "scanUint ''4294967301'' = Some 4294967301" "scanUint ''300 seconds'' = Some 300"
    by (simp_all add: scanUint_def isDigit_def isSpaceC_def digitsVal_def less_eq_char_def)
  then show "ttlOf (Some ''4294967301'') = Inr 5" "ttlOf (Some ''300 seconds'') = Inr 300"
    by (simp_all add: ttlOf_def)
qed

text \<open>Where a single name is expected, a flag before it gives its value away as the name.\<close>

lemma flag_value_as_label:
  "popPositional [''--api'', ''http://localhost:8430'', ''blog''] = (''http://localhost:8430'', [''--api'', ''blog''])"
  by (simp add: isFlag_def)

end
