(* ===== verification/Spec2Isabelle.thy ===== *)
theory Spec2Isabelle
  imports Placement Replicas CashAddr ElectrumRead DnsProps ChainCli CliProps
begin

text \<open>
  Freedom Names: a self-sovereign naming and content network. Names are either self-certifying
  (\<open>label.<public key id>.fn\<close>, records signed by the owner's key and kept in a DHT) or bare
  (\<open>label.fn\<close>, owned through a CashTokens NFT on Bitcoin Cash). Content is addressed by hash,
  stored in blobs and moved between peers. A node answers names over DNS and HTTP, serves and hosts
  content, and signs for local owners; a command line does the same from outside.

  Theories, in the order they build on each other. A definition has the name of the function or type
  it models, or one close to it; the source is under \<open>src/internal/\<close> unless another directory is
  named. Theories ending in \<open>Props\<close> (and \<open>ContentTransfer\<close>, \<open>PushHonest\<close>, \<open>Placement\<close>, \<open>Replicas\<close>) hold what is
  proved about the definitions of the theories they extend.

  \<^item> \<open>Prelude\<close>: types (bytes, Go strings, 64-bit integers), sequencing of fallible steps, the
    best-so-far scan and the transition-system locale. \<open>GoStrings\<close>, \<open>Net\<close> and \<open>UrlQuery\<close> are the parts
    of Go's standard library (\<open>strings\<close>, \<open>net.ParseIP\<close>, query strings) that decisions depend on.
  \<^item> \<open>Codec\<close>, \<open>BchTx\<close>: \<open>bch/bchtx.go\<close>. Byte reader, CompactSize, scripts, CashTokens prefixes, signing
    preimage, serialization and parsing; parsing inverts serialization, the preimage commits to
    every field. \<open>CashAddr\<close>: \<open>bch/cashaddr.go\<close>.
  \<^item> \<open>Electrum\<close>: \<open>bch/electrum.go\<close>, the client's connection state and its view of the chain; failover
    goes to the first endpoint that works. \<open>ElectrumRead\<close>: its socket byte by byte; the lines the client sees are
    those of the stream. \<open>Registry\<close>: \<open>bch/registry_bch.go\<close> and \<open>marker.go\<close>, from a label to its
    owner's key. \<open>Wallet\<close>: \<open>bch/bchwallet.go\<close> and the claim and adopt commands; \<open>ChainCli\<close>: the wallet
    and whois commands of \<open>cli/bchcli.go\<close>.
  \<^item> \<open>Names\<close>, \<open>Records\<close>: \<open>record/record.go\<close>, \<open>build.go\<close>, \<open>validator.go\<close> and \<open>registry/registry.go\<close>. What
    the validator accepts is signed by the key the name stands for.
  \<^item> \<open>Content\<close>: \<open>content/content.go\<close>, addresses, the blob store and manifests. \<open>ContentIndex\<close>,
    \<open>IndexProps\<close>: \<open>content/contentindex.go\<close>, which sets are stored and why; the concurrent writers are
    the steps of a transition system, and no recorded set or claimed blob is ever lost.
    \<open>RateLimit\<close>: \<open>content/ratelimit.go\<close>; a limit changes when bytes move, never which.
  \<^item> \<open>Wire\<close>, \<open>ContentNet\<close>, \<open>ContentTransfer\<close>: \<open>node/contentnet.go\<close>, publishing, fetching and serving;
    whatever peers answer, a fetch delivers only bytes the hash stands for.
  \<^item> \<open>Push\<close>, \<open>PushProps\<close>, \<open>PushHonest\<close>, \<open>Placement\<close>: \<open>node/replicate.go\<close>, both ends of a push,
    placement and healing. \<open>Provide\<close>: announcing what is stored and the replicator's wiring;
    what a node publishes any other one can fetch from it. \<open>Replicas\<close>: publishing, pushing, hosting
    and fetching put together; a copy placed on a peer stands in for the publisher.
  \<^item> \<open>Publish\<close>: \<open>node/publish.go\<close> and the record, bootstrap and key-file functions of \<open>node/node.go\<close>.
    \<open>Resolver\<close>, \<open>ResolverProps\<close>: \<open>resolver/\<close>; the cache refines an expiring map, and every answer is
    authentic. \<open>Authoring\<close>, \<open>AuthoringProps\<close>: \<open>authoring/service.go\<close>; a publication supersedes what the
    network holds and resolves until it expires.
  \<^item> \<open>Dns\<close>, \<open>DnsProps\<close>: \<open>dnsserver/dns.go\<close>. \<open>HttpApi\<close>, \<open>HttpContent\<close>, \<open>ApiServer\<close>, \<open>HttpProps\<close>:
    \<open>httpapi/\<close>, the guards, the handlers, the routes; a page delivered whole is its owner's, and which
    requests the guards turn away is stated over host names and origins, not over the guards' code.
  \<^item> \<open>Config\<close>, \<open>ConfigProps\<close>: \<open>config/config.go\<close>, \<open>bind/bind.go\<close> and \<open>src/cmd/freedom-names/main.go\<close>.
    \<open>Cli\<close>, \<open>CliProps\<close>: \<open>cli/cli.go\<close>, \<open>contentcli.go\<close>; publishing from the command line does what the
    node's own authoring does, and no command loses an owner key.

  Conventions. A byte is an 8-bit word, a Go string a list of characters, a fallible function
  returns a sum with its own error type, and a panic is an error constructor. Fixed-width integers
  are words or integers with the wrap-around written out where a value from outside can reach it.
  Functions of other modules (hashes, signatures, JSON, the DHT, the token bucket, DNS packing) and
  the operating system (files, sockets, the environment) are fields of a record that the definitions
  take as an argument; what the code relies on is a predicate on that record, and each such predicate
  is shown to hold for a concrete instance. Clocks are arguments. Go maps are association lists in
  iteration order where the order can matter. Loops are structural recursion or come with a measure
  (chunks left, bytes left, entries left), so no definition has fuel; the scans that are bounded in
  the code, 64 custody hops among them, have that bound as their recursion argument.

  Interfaces. \<open>wire_reader\<close> and \<open>wire_codec\<close> (Codec) are the contract of the byte readers,
  \<open>stream_codec\<close> (Wire) of the stream messages, \<open>best_scan\<close> (Prelude) of every comparison used to pick
  a best element, \<open>content_store\<close> (Content) of the blob store, \<open>name_cache\<close> (Resolver) of the record
  cache and \<open>transition_system\<close> (Prelude) of the step relations of the index, the resolver and the
  DNS server; each is interpreted on the model's definitions.

  Simplifications. Peers answer a request the same way throughout one operation, except where a reply
  is read again after an early end (\<open>writeContentStream\<close>). A blob store is writable or it is not, for the
  length of an operation. Sizes and usage in the content index are integers without a bound; sums of
  sizes on disk stay far below 64 bits. Where the code sorts with \<open>sort.Slice\<close>, which may reorder equal
  elements, the model sorts stably: coins of equal value in \<open>selectFunding\<close>, records equal in type and
  value in \<open>sortRRs\<close>. The steps of the DNS server are those of one call of \<open>handleFN\<close> each
  (\<open>handleFN_steps\<close>).

  Not modelled: the libp2p host and the DHT themselves, timers and deadlines (a lookup that times out
  is one of the network's answers), starting and stopping servers and background loops, the text of
  log lines, replies and help, reading and creating the wallet's key file, the statistics and event
  loops of \<open>node/\<close>, and \<open>version/\<close> and \<open>testsupport/\<close>.
\<close>

end
